(* ===== verification/K2_Prelude.thy ===== *)
theory K2_Prelude
  imports Main "HOL-Library.AList" "HOL-Library.Multiset" "HOL-Library.Word"
    "HOL-Library.Char_ord" "HOL-Library.List_Lexorder" "HOL-Library.Product_Lexorder"
begin

text \<open>
  Shared vocabulary of the development.

  \<^item> Python dictionaries are association lists with distinct keys in insertion order:
    \<open>AList.update\<close> is item assignment, \<open>AList.delete\<close> is \<open>del\<close>/\<open>pop\<close>, \<open>map_of\<close> is
    lookup, \<open>dget\<close> is \<open>.get(key, default)\<close>.
  \<^item> Python's unbounded integers are \<open>int\<close>; strings are \<open>string\<close>, ordered lexicographically;
    tuples are ordered lexicographically as well, so \<open>sorted\<close> is \<open>sort\<close> and
    \<open>sorted(..., key=f)\<close> is the stable \<open>sort_key f\<close>.
  \<^item> an exception is a value of \<open>exn\<close> on the left of a sum.
  \<^item> the decimal printers and parsers \<open>str(n)\<close> and \<open>int(s)\<close> are written out, because several
    components rely on their round trip.
\<close>

named_theorems k2_simps \<open>lookup and shape facts the component proofs simplify with\<close>
named_theorems k2_ok \<open>inversion of successful results\<close>

section \<open>Errors\<close>

datatype exn =
    ValueError
  | KeyError
  | TypeError
  | RuntimeError
  | ZeroDivisionError
  | BadFrame
  | UnknownInstrument
  | UnresolvableSchema
  | SystemExit
  | NotNullViolation
  | OSError
  | OverflowError

type_synonym 'a res = "exn + 'a"

definition res_bind :: "'a res \<Rightarrow> ('a \<Rightarrow> 'b res) \<Rightarrow> 'b res" where
  "res_bind r f = (case r of Inl e \<Rightarrow> Inl e | Inr a \<Rightarrow> f a)"

fun res_map :: "('a \<Rightarrow> 'b res) \<Rightarrow> 'a list \<Rightarrow> 'b list res" where
  "res_map f [] = Inr []"
| "res_map f (x # xs) = res_bind (f x) (\<lambda>y. res_bind (res_map f xs) (\<lambda>ys. Inr (y # ys)))"

lemma res_bind_simps [simp]:
  "res_bind (Inl e) f = Inl e"
  "res_bind (Inr a) f = f a"
  by (simp_all add: res_bind_def)

lemma res_bind_Inr [k2_ok]: "res_bind r f = Inr y \<longleftrightarrow> (\<exists>a. r = Inr a \<and> f a = Inr y)"
  by (cases r) simp_all

lemma res_map_Inr_iff: "res_map f xs = Inr ys \<longleftrightarrow> list_all2 (\<lambda>x y. f x = Inr y) xs ys"
  by (induction xs arbitrary: ys) (auto simp: res_bind_Inr list_all2_Cons1)

lemma res_map_all_Inr: "(\<And>x. x \<in> set xs \<Longrightarrow> f x = Inr (g x)) \<Longrightarrow> res_map f xs = Inr (map g xs)"
  by (induction xs) auto

lemma res_map_append:
  "res_map f (xs @ ys) = res_bind (res_map f xs) (\<lambda>a. res_bind (res_map f ys) (\<lambda>b. Inr (a @ b)))"
  by (induction xs) (auto simp: res_bind_def split: sum.splits)

lemma res_map_mem: "res_map f xs = Inr ys \<Longrightarrow> x \<in> set xs \<Longrightarrow> \<exists>y \<in> set ys. f x = Inr y"
  by (induction xs arbitrary: ys) (auto simp: res_bind_Inr)

lemma res_map_image: "res_map f xs = Inr ys \<Longrightarrow> y \<in> set ys \<Longrightarrow> \<exists>x \<in> set xs. f x = Inr y"
  by (induction xs arbitrary: ys) (auto simp: res_bind_Inr)

lemma res_map_Inl: "res_map f xs = Inl e \<Longrightarrow> \<exists>x \<in> set xs. f x = Inl e"
proof (induction xs)
  case (Cons x xs)
  then show ?case
    by (cases "f x"; cases "res_map f xs") auto
qed simp

section \<open>Dictionaries\<close>

definition dget :: "('k \<times> 'v) list \<Rightarrow> 'k \<Rightarrow> 'v \<Rightarrow> 'v" where
  "dget d k v = (case map_of d k of None \<Rightarrow> v | Some x \<Rightarrow> x)"

abbreviation dkeys :: "('k \<times> 'v) list \<Rightarrow> 'k list" where
  "dkeys d \<equiv> map fst d"

definition dict_ok :: "('k \<times> 'v) list \<Rightarrow> bool" where
  "dict_ok d = distinct (dkeys d)"

text \<open>\<open>d.update(e)\<close>: later bindings of \<open>e\<close> win, new keys go to the end.\<close>

definition dict_update :: "('k \<times> 'v) list \<Rightarrow> ('k \<times> 'v) list \<Rightarrow> ('k \<times> 'v) list" where
  "dict_update d e = foldl (\<lambda>a (k, v). AList.update k v a) d e"

lemma dget_simps [simp]:
  "dget [] k v = v"
  "dget ((k', x) # d) k v = (if k = k' then x else dget d k v)"
  by (auto simp: dget_def)

lemma dget_Some: "map_of d k = Some x \<Longrightarrow> dget d k v = x"
  by (simp add: dget_def)

lemma dget_None: "map_of d k = None \<Longrightarrow> dget d k v = v"
  by (simp add: dget_def)

lemma dict_ok_Nil [simp]: "dict_ok []"
  by (simp add: dict_ok_def)

lemma dict_ok_update [simp]: "dict_ok d \<Longrightarrow> dict_ok (AList.update k v d)"
  by (simp add: dict_ok_def distinct_update)

lemma dict_ok_delete [simp]: "dict_ok d \<Longrightarrow> dict_ok (AList.delete k d)"
  by (simp add: dict_ok_def distinct_delete)

lemma dkeys_update: "set (dkeys (AList.update k v d)) = insert k (set (dkeys d))"
  by (simp add: AList.dom_update)

lemma dict_update_simps [simp]:
  "dict_update d [] = d"
  "dict_update d ((k, v) # e) = dict_update (AList.update k v d) e"
  by (simp_all add: dict_update_def)

lemma map_of_dict_update:
  "dict_ok e \<Longrightarrow> map_of (dict_update d e) = map_of d ++ map_of e"
proof (induction e arbitrary: d)
  case (Cons kv e)
  obtain k v where kv: "kv = (k, v)" by (cases kv)
  from Cons.prems have "dict_ok e" and nk: "k \<notin> set (dkeys e)"
    by (auto simp: dict_ok_def kv)
  then have "map_of e k = None" by (auto simp: map_of_eq_None_iff)
  with Cons.IH [OF \<open>dict_ok e\<close>] show ?case
    by (auto simp: kv update_conv' map_add_def fun_eq_iff split: option.splits)
qed simp

lemma dict_ok_dict_update [simp]: "dict_ok d \<Longrightarrow> dict_ok (dict_update d e)"
  by (induction e arbitrary: d) auto

lemma dkeys_dict_update: "set (dkeys (dict_update d e)) = set (dkeys d) \<union> set (dkeys e)"
proof (induction e arbitrary: d)
  case (Cons kv e)
  obtain k v where "kv = (k, v)" by (cases kv)
  with Cons.IH [of "AList.update k v d"] show ?case
    using dkeys_update [of k v d] by (auto simp del: set_map)
qed simp

lemma map_of_map_val: "map_of (map (\<lambda>(k, v). (k, f k v)) d) k = map_option (f k) (map_of d k)"
  by (induction d) auto

lemma dict_ok_map_val [simp]: "dict_ok (map (\<lambda>(k, v). (k, f k v)) d) = dict_ok d"
  by (simp add: dict_ok_def comp_def case_prod_unfold)

lemma map_of_mem: "dict_ok d \<Longrightarrow> (k, v) \<in> set d \<longleftrightarrow> map_of d k = Some v"
  by (auto simp: dict_ok_def intro: map_of_is_SomeI dest: map_of_SomeD)

lemma dict_ok_sort_key [simp]: "dict_ok (sort_key f d) = dict_ok d"
  unfolding dict_ok_def
  by (metis mset_map mset_sort mset_eq_imp_distinct_iff)

lemma map_of_sort_key: "dict_ok d \<Longrightarrow> map_of (sort_key f d) = map_of d"
proof
  fix k
  assume ok: "dict_ok d"
  then have ok': "dict_ok (sort_key f d)" by simp
  show "map_of (sort_key f d) k = map_of d k"
  proof (cases "map_of d k")
    case None
    then have "k \<notin> set (dkeys (sort_key f d))" by (simp add: map_of_eq_None_iff)
    then have "map_of (sort_key f d) k = None" by (simp add: map_of_eq_None_iff)
    then show ?thesis using None by simp
  next
    case (Some v)
    then have "(k, v) \<in> set d" by (rule map_of_SomeD)
    with map_of_mem [OF ok', of k v] show ?thesis by (simp add: Some)
  qed
qed

text \<open>Sorting a dictionary by key does not see its insertion order.\<close>

lemma dict_ok_set_eq: "dict_ok d \<Longrightarrow> dict_ok e \<Longrightarrow> map_of d = map_of e \<Longrightarrow> set d = set e"
  by (auto simp: set_eq_iff map_of_mem)

lemma dict_ok_distinct: "dict_ok d \<Longrightarrow> distinct d"
  by (simp add: dict_ok_def distinct_map)

lemma dict_ok_mset_eq:
  assumes "dict_ok d" and "dict_ok e" and "map_of d = map_of e"
  shows "mset d = mset e"
  using dict_ok_set_eq [OF assms] dict_ok_distinct [OF assms(1)] dict_ok_distinct [OF assms(2)]
  by (simp add: set_eq_iff_mset_eq_distinct)

lemma inj_on_key:
  assumes "dict_ok d" and "inj f"
  shows "inj_on (\<lambda>kv. f (fst kv)) (set d)"
proof (rule inj_onI)
  fix x y assume "x \<in> set d" "y \<in> set d" "f (fst x) = f (fst y)"
  with assms show "x = y" by (auto simp: dict_ok_def distinct_map dest: inj_onD injD)
qed

lemma sort_key_dict_ext:
  assumes "dict_ok d" and "dict_ok e" and "map_of d = map_of e" and "inj f"
  shows "sort_key (\<lambda>kv. f (fst kv)) d = sort_key (\<lambda>kv. f (fst kv)) e"
  by (rule sort_key_inj_key_eq) (simp_all add: dict_ok_mset_eq [OF assms(1-3)] inj_on_key assms)

lemma dict_ok_filter [simp]: "dict_ok d \<Longrightarrow> dict_ok (filter P d)"
  by (simp add: dict_ok_def distinct_map_filter)

lemma map_of_filter_key:
  "map_of (filter (\<lambda>kv. P (fst kv)) d) k = (if P k then map_of d k else None)"
  by (induction d) auto

lemma foldl_delete_filter:
  "foldl (\<lambda>d k. AList.delete k d) d ks = filter (\<lambda>kv. fst kv \<notin> set ks) d"
proof (induction ks arbitrary: d)
  case (Cons k ks)
  then show ?case by (auto simp: AList.delete_eq intro!: filter_cong)
qed simp

section \<open>Newest of a list\<close>

text \<open>Python's \<open>max(xs, key=f)\<close>: the first element whose key no other exceeds.\<close>

fun py_max_by :: "('row \<Rightarrow> 'ord::linorder) \<Rightarrow> 'row list \<Rightarrow> 'row option" where
  "py_max_by f [] = None"
| "py_max_by f (x # xs) = Some (foldl (\<lambda>m y. if f m < f y then y else m) x xs)"

lemma foldl_max_mem: "foldl (\<lambda>m y. if f m < f y then y else m) x xs \<in> insert x (set xs)"
  by (induction xs arbitrary: x) (auto split: if_splits)

lemma foldl_max_ge:
  fixes f :: "'a \<Rightarrow> 'k::linorder"
  shows "y \<in> insert x (set xs) \<Longrightarrow> f y \<le> f (foldl (\<lambda>m y. if f m < f y then y else m) x xs)"
proof (induction xs arbitrary: x y)
  case (Cons z zs)
  let ?x = "if f x < f z then z else x"
  have "f x \<le> f ?x" "f z \<le> f ?x" by auto
  moreover have "f ?x \<le> f (foldl (\<lambda>m y. if f m < f y then y else m) ?x zs)"
    using Cons.IH [of ?x ?x] by simp
  moreover have "y \<in> set zs \<Longrightarrow> f y \<le> f (foldl (\<lambda>m y. if f m < f y then y else m) ?x zs)"
    using Cons.IH [of y ?x] by simp
  ultimately show ?case using Cons.prems by fastforce
qed simp

lemma py_max_by_None [simp]: "py_max_by f xs = None \<longleftrightarrow> xs = []"
  by (cases xs) auto

lemma py_max_by_mem: "py_max_by f xs = Some m \<Longrightarrow> m \<in> set xs"
  using foldl_max_mem by (cases xs) fastforce+

lemma py_max_by_ge: "py_max_by f xs = Some m \<Longrightarrow> y \<in> set xs \<Longrightarrow> f y \<le> f m"
  by (cases xs) (auto intro: foldl_max_ge)

lemma py_max_by_append_greater:
  fixes f :: "'a \<Rightarrow> 'k::linorder"
  assumes "\<And>x. x \<in> set xs \<Longrightarrow> f x < f y"
  shows "py_max_by f (xs @ [y]) = Some y"
proof (cases xs)
  case (Cons a as)
  have "foldl (\<lambda>m y. if f m < f y then y else m) a as \<in> set xs"
    using foldl_max_mem [of f a as] by (simp add: Cons)
  with assms show ?thesis by (auto simp: Cons)
qed simp

lemma py_max_by_unique:
  fixes f :: "'a \<Rightarrow> 'k::linorder"
  assumes "m \<in> set xs" and "\<And>y. y \<in> set xs \<Longrightarrow> y \<noteq> m \<Longrightarrow> f y < f m"
  shows "py_max_by f xs = Some m"
proof -
  from assms(1) have "xs \<noteq> []" by auto
  then obtain n where n: "py_max_by f xs = Some n" by (cases "py_max_by f xs") auto
  then have "n \<in> set xs" and "f m \<le> f n" using assms(1) by (auto dest: py_max_by_mem py_max_by_ge)
  with assms(2) [of n] have "n = m" by force
  with n show ?thesis by simp
qed

section \<open>Decimal text\<close>

definition digit_char :: "nat \<Rightarrow> char" where
  "digit_char d = char_of (48 + d)"

definition is_digit :: "char \<Rightarrow> bool" where
  "is_digit c = (48 \<le> (of_char c :: nat) \<and> (of_char c :: nat) \<le> 57)"

definition digit_val :: "char \<Rightarrow> nat" where
  "digit_val c = of_char c - 48"

definition digits_val :: "string \<Rightarrow> nat" where
  "digits_val s = foldl (\<lambda>a c. 10 * a + digit_val c) 0 s"

fun show_nat :: "nat \<Rightarrow> string" where
  "show_nat n = (if n < 10 then [digit_char n] else show_nat (n div 10) @ [digit_char (n mod 10)])"

declare show_nat.simps [simp del]

text \<open>Python's \<open>str(n)\<close>.\<close>

definition show_int :: "int \<Rightarrow> string" where
  "show_int i = (if i < 0 then CHR ''-'' # show_nat (nat (- i)) else show_nat (nat i))"

lemma of_char_digit: "d < 10 \<Longrightarrow> (of_char (digit_char d) :: nat) = 48 + d"
  by (simp add: digit_char_def)

lemma digit_char_simps [k2_simps]:
  "digit_char 0 = CHR ''0''" "digit_char (Suc 0) = CHR ''1''" "digit_char 1 = CHR ''1''"
  "digit_char 2 = CHR ''2''" "digit_char 3 = CHR ''3''" "digit_char 4 = CHR ''4''"
  "digit_char 5 = CHR ''5''" "digit_char 6 = CHR ''6''" "digit_char 7 = CHR ''7''"
  "digit_char 8 = CHR ''8''" "digit_char 9 = CHR ''9''"
  by code_simp+

lemma is_digit_digit [simp]: "d < 10 \<Longrightarrow> is_digit (digit_char d)"
  by (simp add: is_digit_def of_char_digit)

lemma digit_val_digit [simp]: "d < 10 \<Longrightarrow> digit_val (digit_char d) = d"
  by (simp add: digit_val_def of_char_digit)

lemma show_nat_digits: "list_all is_digit (show_nat n)"
proof (induction n rule: show_nat.induct)
  case (1 n)
  then show ?case by (subst show_nat.simps) auto
qed

lemma show_nat_nonempty [simp]: "show_nat n \<noteq> []"
  by (subst show_nat.simps) simp

lemma digits_val_Nil [simp]: "digits_val [] = 0"
  by (simp add: digits_val_def)

lemma digits_val_snoc: "digits_val (s @ [c]) = 10 * digits_val s + digit_val c"
  by (simp add: digits_val_def)

lemma digits_val_show_nat [simp]: "digits_val (show_nat n) = n"
proof (induction n rule: show_nat.induct)
  case (1 n)
  show ?case
  proof (cases "n < 10")
    case True
    then show ?thesis by (subst show_nat.simps) (simp add: digits_val_def)
  next
    case False
    with 1 show ?thesis by (subst show_nat.simps) (simp add: digits_val_snoc)
  qed
qed

lemma digits_val_append: "digits_val (s @ t) = digits_val s * 10 ^ length t + digits_val t"
proof (induction t rule: rev_induct)
  case (snoc c t)
  then show ?case
    by (simp add: append_assoc [symmetric] digits_val_snoc algebra_simps del: append_assoc)
qed simp

lemma digits_val_bound: "list_all is_digit s \<Longrightarrow> digits_val s < 10 ^ length s"
proof (induction s rule: rev_induct)
  case (snoc c s)
  then have "digits_val s < 10 ^ length s" and "digit_val c < 10"
    by (auto simp: is_digit_def digit_val_def)
  then show ?case by (simp add: digits_val_snoc)
qed simp

lemma digits_val_zeros: "digits_val (replicate n (CHR ''0'')) = 0"
proof (induction n)
  case (Suc n)
  then show ?case
    by (simp add: replicate_append_same [symmetric] digits_val_snoc digit_val_def
        del: replicate_append_same)
qed simp

text \<open>
  Python's \<open>int(s)\<close> on ASCII text: surrounding whitespace is stripped, one sign is allowed,
  single underscores are allowed between digits, anything else raises.
\<close>

definition py_space :: "char \<Rightarrow> bool" where
  "py_space c = ((of_char c :: nat) \<in> set [9, 10, 11, 12, 13, 28, 29, 30, 31, 32])"

definition py_strip :: "string \<Rightarrow> string" where
  "py_strip s = rev (dropWhile py_space (rev (dropWhile py_space s)))"

fun py_digits :: "string \<Rightarrow> nat \<Rightarrow> nat option" where
  "py_digits [] acc = Some acc"
| "py_digits (c # cs) acc =
     (if is_digit c then py_digits cs (10 * acc + digit_val c)
      else if c = CHR ''_'' then
        (case cs of [] \<Rightarrow> None
         | d # ds \<Rightarrow> if is_digit d then py_digits ds (10 * acc + digit_val d) else None)
      else None)"

definition py_uint :: "string \<Rightarrow> nat option" where
  "py_uint s = (case s of [] \<Rightarrow> None
     | c # cs \<Rightarrow> if is_digit c then py_digits cs (digit_val c) else None)"

definition py_int :: "string \<Rightarrow> int option" where
  "py_int s =
     (case py_strip s of [] \<Rightarrow> None
      | c # cs \<Rightarrow>
          if c = CHR ''-'' then map_option (\<lambda>n. - int n) (py_uint cs)
          else if c = CHR ''+'' then map_option int (py_uint cs)
          else map_option int (py_uint (c # cs)))"

lemma is_digit_not_space: "is_digit c \<Longrightarrow> \<not> py_space c"
  by (auto simp: is_digit_def py_space_def)

lemma is_digit_not_sign: "is_digit c \<Longrightarrow> c \<noteq> CHR ''-'' \<and> c \<noteq> CHR ''+''"
  by (auto simp: is_digit_def)

lemma py_digits_digits: "list_all is_digit s \<Longrightarrow> py_digits s acc = Some (acc * 10 ^ length s + digits_val s)"
proof (induction s arbitrary: acc)
  case (Cons c cs)
  then have "py_digits (c # cs) acc = Some ((10 * acc + digit_val c) * 10 ^ length cs + digits_val cs)"
    by simp
  moreover have "digits_val (c # cs) = digit_val c * 10 ^ length cs + digits_val cs"
    using digits_val_append [of "[c]" cs] by (simp add: digits_val_def)
  ultimately show ?case by (simp add: algebra_simps)
qed simp

lemma py_uint_digits: "s \<noteq> [] \<Longrightarrow> list_all is_digit s \<Longrightarrow> py_uint s = Some (digits_val s)"
proof (cases s)
  case (Cons c cs)
  assume "list_all is_digit s"
  moreover have "digits_val (c # cs) = digit_val c * 10 ^ length cs + digits_val cs"
    using digits_val_append [of "[c]" cs] by (simp add: digits_val_def)
  ultimately show ?thesis by (simp add: Cons py_uint_def py_digits_digits)
qed simp

lemma dropWhile_none: "s \<noteq> [] \<Longrightarrow> \<not> P (hd s) \<Longrightarrow> dropWhile P s = s"
  by (cases s) auto

lemma py_strip_digits: "list_all is_digit s \<Longrightarrow> py_strip s = s"
proof (cases "s = []")
  case False
  assume d: "list_all is_digit s"
  with False have "\<not> py_space (hd s)" and "\<not> py_space (last s)"
    by (simp_all add: list_all_iff is_digit_not_space)
  with False show ?thesis by (simp add: py_strip_def dropWhile_none hd_rev)
qed (simp add: py_strip_def)

lemma py_int_digits:
  assumes "s \<noteq> []" and "list_all is_digit s"
  shows "py_int s = Some (int (digits_val s))"
proof -
  obtain c cs where "s = c # cs" using assms(1) by (cases s) auto
  with assms show ?thesis
    by (auto simp: py_int_def py_strip_digits py_uint_digits dest: is_digit_not_sign)
qed

lemma py_int_neg_digits:
  assumes "s \<noteq> []" and "list_all is_digit s"
  shows "py_int (CHR ''-'' # s) = Some (- int (digits_val s))"
proof -
  have "\<not> py_space (last s)" using assms by (simp add: list_all_iff is_digit_not_space)
  moreover have "\<not> py_space (CHR ''-'')" by (simp add: py_space_def)
  ultimately have "py_strip (CHR ''-'' # s) = CHR ''-'' # s"
    using assms(1) by (simp add: py_strip_def dropWhile_none hd_append hd_rev)
  then show ?thesis by (simp add: py_int_def py_uint_digits assms)
qed

lemma py_int_show_int [simp]: "py_int (show_int i) = Some i"
  by (simp add: show_int_def py_int_neg_digits py_int_digits show_nat_digits)

lemma show_int_nonempty [simp]: "show_int i \<noteq> []"
  by (simp add: show_int_def)

lemma show_int_inj: "show_int i = show_int j \<longleftrightarrow> i = j"
  by (metis option.inject py_int_show_int)

lemma show_int_nonneg_digits: "0 \<le> i \<Longrightarrow> list_all is_digit (show_int i)"
  by (simp add: show_int_def show_nat_digits)

section \<open>Lists\<close>

lemma sum_list_map_nonneg: "(\<And>x. x \<in> set xs \<Longrightarrow> (0::int) \<le> f x) \<Longrightarrow> 0 \<le> sum_list (map f xs)"
  by (induction xs) auto

lemma sum_list_zero_iff:
  "(\<And>x. x \<in> set xs \<Longrightarrow> (0::int) \<le> f x) \<Longrightarrow> sum_list (map f xs) = 0 \<longleftrightarrow> (\<forall>x \<in> set xs. f x = 0)"
proof (induction xs)
  case (Cons x xs)
  then have "0 \<le> f x" and "0 \<le> sum_list (map f xs)" by (auto intro: sum_list_map_nonneg)
  then have "sum_list (map f (x # xs)) = 0 \<longleftrightarrow> f x = 0 \<and> sum_list (map f xs) = 0" by auto
  with Cons show ?case by simp
qed simp

text \<open>SQL's integer \<open>div\<close> truncates towards zero.\<close>

definition trunc_div :: "int \<Rightarrow> int \<Rightarrow> int" where
  "trunc_div x y = (let q = \<bar>x\<bar> div \<bar>y\<bar> in if (x < 0) = (y < 0) then q else - q)"

lemma mset_concat_map: "mset (concat (map f xs)) = (\<Sum>x \<in># mset xs. mset (f x))"
  by (induction xs) simp_all

lemma int_sum_list: "sum_list (map (\<lambda>x. int (f x)) xs) = int (sum_list (map f xs))"
  by (induction xs) simp_all

lemma concat_concat_map: "concat (concat (map f xs)) = concat (map (\<lambda>x. concat (f x)) xs)"
  by (induction xs) simp_all

lemma concat_mapI: "x \<in> set xs \<Longrightarrow> y \<in> set (f x) \<Longrightarrow> y \<in> set (concat (map f xs))"
  by auto

lemma foldl_pres: "P s \<Longrightarrow> (\<And>s x. x \<in> set xs \<Longrightarrow> P s \<Longrightarrow> P (f s x)) \<Longrightarrow> P (foldl f s xs)"
  by (induction xs arbitrary: s) auto

lemma distinct_mset_filter_le1:
  "distinct (map f (filter P xs)) \<Longrightarrow> x \<in> set xs \<Longrightarrow> y \<in> set xs \<Longrightarrow> P x \<Longrightarrow> P y \<Longrightarrow> f x = f y \<Longrightarrow> x = y"
  by (auto dest: inj_onD [OF distinct_map [THEN iffD1, THEN conjunct2]])

lemma foldl_max_bounds:
  "foldl max x xs \<in> insert x (set xs)" "y \<in> insert x (set xs) \<Longrightarrow> y \<le> foldl max (x::'a::linorder) xs"
proof -
  show "foldl max x xs \<in> insert x (set xs)"
    by (induction xs arbitrary: x) (auto simp: max_def split: if_splits)
  show "y \<in> insert x (set xs) \<Longrightarrow> y \<le> foldl max x xs"
  proof (induction xs arbitrary: x)
    case (Cons z zs)
    have "w \<le> foldl max w zs" for w by (induction zs arbitrary: w) (auto intro: order.trans [OF max.cobounded1])
    from this [of "max x z"] Cons show ?case by auto
  qed simp
qed

lemma foldl_min_bounds:
  "foldl min x xs \<in> insert x (set xs)" "y \<in> insert x (set xs) \<Longrightarrow> foldl min (x::'a::linorder) xs \<le> y"
proof -
  show "foldl min x xs \<in> insert x (set xs)"
    by (induction xs arbitrary: x) (auto simp: min_def split: if_splits)
  show "y \<in> insert x (set xs) \<Longrightarrow> foldl min x xs \<le> y"
  proof (induction xs arbitrary: x)
    case (Cons z zs)
    have "foldl min w zs \<le> w" for w by (induction zs arbitrary: w) (auto intro: order.trans [OF _ min.cobounded1])
    from this [of "min x z"] Cons show ?case by auto
  qed simp
qed

lemma trunc_div_mult [simp]: "0 < k \<Longrightarrow> trunc_div (x * k) k = x"
  by (auto simp: trunc_div_def Let_def abs_mult mult_less_0_iff)

end
