(* ===== verification/Book.thy ===== *)
theory Book
  imports K2_Prelude
begin

text \<open>
  The order book of \<open>docker/lake/book.py\<close>: venue decimals as 1e-8 fixed point, Kraken's CRC32
  over the top ten levels, absolute-quantity levels per side, and the fold of one Kraken frame.
  The two sides share one contract, the locale \<open>price_side\<close>: bids rank by falling price, asks by
  rising price, and everything about pruning and reading the best levels is proved once from it.
\<close>

unbundle bit_operations_syntax

section \<open>Fixed point\<close>

definition SCALE_DP :: nat where "SCALE_DP = 8"
definition SCALE :: int where "SCALE = 10 ^ SCALE_DP"
definition CHECKSUM_LEVELS :: nat where "CHECKSUM_LEVELS = 10"

text \<open>Python's \<open>text.partition(".")\<close>: before and after the first dot.\<close>

definition partition_dot :: "string \<Rightarrow> string \<times> string" where
  "partition_dot s = (takeWhile (\<lambda>c. c \<noteq> CHR ''.'') s, drop 1 (dropWhile (\<lambda>c. c \<noteq> CHR ''.'') s))"

definition fixed :: "string \<Rightarrow> int res" where
  "fixed text =
     (let neg = (take 1 text = ''-'');
          body = (if neg then drop 1 text else text);
          (whole, frac) = partition_dot body
      in if length frac > SCALE_DP then Inl ValueError
         else (case py_int (if whole = [] then ''0'' else whole) of
                 None \<Rightarrow> Inl ValueError
               | Some w \<Rightarrow>
                   (case py_int (take SCALE_DP (frac @ replicate SCALE_DP (CHR ''0''))) of
                      None \<Rightarrow> Inl ValueError
                    | Some f \<Rightarrow> let units = w * SCALE + f in Inr (if neg then - units else units))))"

section \<open>Kraken's checksum\<close>

text \<open>
  \<open>zlib.crc32\<close>: the reflected CRC-32 with polynomial \<open>0xEDB88320\<close>, bit by bit.
  \<open>checksum_digits\<close> is defined where the exponent \<open>8 - precision\<close> is not negative, i.e. where
  \<open>10 ** (8 - precision)\<close> is an integer; beyond that Python's \<open>//\<close> leaves the integers and the model
  has no text (\<open>None\<close>).
\<close>

definition crc_bit :: "32 word \<Rightarrow> 32 word" where
  "crc_bit c = (if bit c 0 then drop_bit 1 c XOR 0xEDB88320 else drop_bit 1 c)"

definition crc_byte :: "32 word \<Rightarrow> 8 word \<Rightarrow> 32 word" where
  "crc_byte c b = (crc_bit ^^ 8) (c XOR ucast b)"

definition crc32 :: "8 word list \<Rightarrow> 32 word" where
  "crc32 bs = NOT (foldl crc_byte 0xFFFFFFFF bs)"

definition ascii_bytes :: "string \<Rightarrow> 8 word list" where
  "ascii_bytes s = map (\<lambda>c. of_nat (of_char c)) s"

definition checksum_digits :: "int \<Rightarrow> nat \<Rightarrow> string option" where
  "checksum_digits units precision =
     (if precision \<le> SCALE_DP then Some (show_int (units div 10 ^ (SCALE_DP - precision))) else None)"

type_synonym levels = "(int \<times> int) list"

fun level_parts :: "levels \<Rightarrow> nat \<Rightarrow> nat \<Rightarrow> string option" where
  "level_parts [] pp qp = Some []"
| "level_parts ((px, qty) # ls) pp qp =
     (case (checksum_digits px pp, checksum_digits qty qp, level_parts ls pp qp) of
        (Some p, Some q, Some r) \<Rightarrow> Some (p @ q @ r)
      | _ \<Rightarrow> None)"

definition kraken_checksum :: "levels \<Rightarrow> levels \<Rightarrow> nat \<Rightarrow> nat \<Rightarrow> int option" where
  "kraken_checksum asks bids pp qp =
     (case (level_parts (take CHECKSUM_LEVELS asks) pp qp, level_parts (take CHECKSUM_LEVELS bids) pp qp) of
        (Some a, Some b) \<Rightarrow> Some (uint (crc32 (ascii_bytes (a @ b))))
      | _ \<Rightarrow> None)"

section \<open>The book\<close>

record book =
  bids :: levels
  asks :: levels

definition empty_book :: book where
  "empty_book = \<lparr>bids = [], asks = []\<rparr>"

definition book_clear :: "book \<Rightarrow> book" where
  "book_clear b = b\<lparr>bids := [], asks := []\<rparr>"

definition set_level :: "int \<Rightarrow> int \<Rightarrow> levels \<Rightarrow> levels" where
  "set_level px qty ls = (if qty = 0 then AList.delete px ls else AList.update px qty ls)"

definition book_apply :: "string \<Rightarrow> int \<Rightarrow> int \<Rightarrow> book \<Rightarrow> book" where
  "book_apply side px qty b =
     (if side = ''bid'' then b\<lparr>bids := set_level px qty (bids b)\<rparr>
      else b\<lparr>asks := set_level px qty (asks b)\<rparr>)"

definition prune :: "int list \<Rightarrow> nat \<Rightarrow> levels \<Rightarrow> levels" where
  "prune worst depth ls =
     (if length ls > depth
      then foldl (\<lambda>d px. AList.delete px d) ls (take (length ls - depth) worst)
      else ls)"

definition bid_worst :: "levels \<Rightarrow> int list" where "bid_worst ls = sort (map fst ls)"
definition ask_worst :: "levels \<Rightarrow> int list" where "ask_worst ls = rev (sort (map fst ls))"

definition book_truncate :: "nat \<Rightarrow> book \<Rightarrow> book" where
  "book_truncate depth b =
     b\<lparr>bids := prune (bid_worst (bids b)) depth (bids b),
       asks := prune (ask_worst (asks b)) depth (asks b)\<rparr>"

definition bid_best :: "levels \<Rightarrow> levels" where "bid_best ls = sort_key (\<lambda>kv. - fst kv) ls"
definition ask_best :: "levels \<Rightarrow> levels" where "ask_best ls = sort ls"

definition book_top :: "nat \<Rightarrow> book \<Rightarrow> levels \<times> levels" where
  "book_top n b = (take n (bid_best (bids b)), take n (ask_best (asks b)))"

definition book_depth :: "book \<Rightarrow> nat" where
  "book_depth b = max (length (bids b)) (length (asks b))"

definition kraken_apply :: "string \<Rightarrow> levels \<Rightarrow> levels \<Rightarrow> nat \<Rightarrow> book \<Rightarrow> book" where
  "kraken_apply frame_type bs as depth b =
     (let b0 = (if frame_type = ''snapshot'' then book_clear b else b);
          b1 = foldl (\<lambda>b (px, qty). book_apply ''bid'' px qty b) b0 bs;
          b2 = foldl (\<lambda>b (px, qty). book_apply ''ask'' px qty b) b1 as
      in book_truncate depth b2)"

text \<open>Well-formed books: one entry per price, no empty level.\<close>

definition levels_ok :: "levels \<Rightarrow> bool" where
  "levels_ok ls = (dict_ok ls \<and> (\<forall>kv \<in> set ls. snd kv \<noteq> 0))"

definition book_ok :: "book \<Rightarrow> bool" where
  "book_ok b = (levels_ok (bids b) \<and> levels_ok (asks b))"

section \<open>Fixed point: exact on every decimal the venues send\<close>

lemma partition_dot_digits:
  "list_all is_digit w \<Longrightarrow> partition_dot (w @ CHR ''.'' # f) = (w, f)"
  "list_all is_digit w \<Longrightarrow> partition_dot w = (w, [])"
proof -
  assume "list_all is_digit w"
  then have "\<forall>c \<in> set w. c \<noteq> CHR ''.''" by (auto simp: list_all_iff is_digit_def)
  then have "takeWhile (\<lambda>c. c \<noteq> CHR ''.'') (w @ t) = w @ takeWhile (\<lambda>c. c \<noteq> CHR ''.'') t"
    and "dropWhile (\<lambda>c. c \<noteq> CHR ''.'') (w @ t) = dropWhile (\<lambda>c. c \<noteq> CHR ''.'') t" for t
    by (simp_all add: takeWhile_append dropWhile_append)
  note app = this
  have dw: "dropWhile (\<lambda>c. c \<noteq> CHR ''.'') w = []" and tw: "takeWhile (\<lambda>c. c \<noteq> CHR ''.'') w = w"
    using app [of "[]"] by simp_all
  show "partition_dot (w @ CHR ''.'' # f) = (w, f)" and "partition_dot w = (w, [])"
    by (simp_all only: partition_dot_def app dw tw) simp_all
qed

lemma padded_fraction:
  assumes "list_all is_digit f" and "length f \<le> 8"
  shows "py_int (f @ replicate (8 - length f) (CHR ''0'')) = Some (int (digits_val f * 10 ^ (8 - length f)))"
proof -
  let ?p = "f @ replicate (8 - length f) (CHR ''0'')"
  have "is_digit (CHR ''0'')" by (simp add: is_digit_def)
  with assms(1) have "list_all is_digit ?p" by (auto simp: list_all_iff)
  moreover have "?p \<noteq> []" using assms(2) by (cases "f = []") auto
  ultimately show ?thesis
    by (simp add: py_int_digits digits_val_append digits_val_zeros)
qed

lemma whole_part:
  "list_all is_digit w \<Longrightarrow> py_int (if w = [] then ''0'' else w) = Some (int (digits_val w))"
  using py_int_digits [of "''0''"] by (auto simp: py_int_digits is_digit_def digits_val_def digit_val_def)

lemma fixed_body:
  assumes "list_all is_digit w" and "list_all is_digit f" and "length f \<le> 8" and "t = w @ CHR ''.'' # f \<or> t = w \<and> f = []"
  shows "fixed (CHR ''-'' # t) = Inr (- int (digits_val w * 10 ^ 8 + digits_val f * 10 ^ (8 - length f)))"
    and "fixed t = Inr (int (digits_val w * 10 ^ 8 + digits_val f * 10 ^ (8 - length f)))"
proof -
  have part: "partition_dot t = (w, f)"
    using assms(1,4) partition_dot_digits by auto
  have nm: "take 1 t \<noteq> ''-''"
    using assms(1,4) by (cases w) (auto simp: is_digit_def)
  note defs = fixed_def part SCALE_DP_def SCALE_def padded_fraction [OF assms(2,3)] whole_part [OF assms(1)] Let_def
  show "fixed (CHR ''-'' # t) = Inr (- int (digits_val w * 10 ^ 8 + digits_val f * 10 ^ (8 - length f)))"
    using assms(3) by (simp add: defs)
  show "fixed t = Inr (int (digits_val w * 10 ^ 8 + digits_val f * 10 ^ (8 - length f)))"
    using assms(3) nm by (simp add: defs)
qed

lemma fixed_too_precise:
  assumes "list_all is_digit w" and "8 < length f"
  shows "fixed (w @ CHR ''.'' # f) = Inl ValueError"
proof -
  have nm: "take 1 (w @ CHR ''.'' # f) \<noteq> ''-''"
    using assms(1) by (cases w) (auto simp: is_digit_def)
  show ?thesis using assms nm by (simp add: fixed_def partition_dot_digits SCALE_DP_def)
qed

section \<open>One contract for both sides\<close>

text \<open>
  \<open>rank\<close> orders the prices of a side, best first; \<open>best\<close> reads the side in that order and \<open>worst\<close>
  lists the prices to drop first. Pruning keeps exactly the best levels.
\<close>

locale price_side =
  fixes rank :: "int \<Rightarrow> int" and best :: "levels \<Rightarrow> levels" and worst :: "levels \<Rightarrow> int list"
  assumes inj_rank: "inj rank"
    and best_sorts: "dict_ok ls \<Longrightarrow> best ls = sort_key (\<lambda>kv. rank (fst kv)) ls"
    and worst_reverses: "dict_ok ls \<Longrightarrow> worst ls = rev (map fst (best ls))"
begin

lemma best_mset: "dict_ok ls \<Longrightarrow> mset (best ls) = mset ls"
  by (simp add: best_sorts)

lemma best_set: "dict_ok ls \<Longrightarrow> set (best ls) = set ls"
  by (simp add: best_sorts)

lemma best_length: "dict_ok ls \<Longrightarrow> length (best ls) = length ls"
  by (simp add: best_sorts)

lemma best_dict: "dict_ok ls \<Longrightarrow> dict_ok (best ls)"
  by (simp add: best_sorts)

lemma best_ranked: "dict_ok ls \<Longrightarrow> sorted (map (\<lambda>kv. rank (fst kv)) (best ls))"
  by (simp add: best_sorts)

text \<open>What a side shows depends on its price-to-quantity map only, never on dictionary order.\<close>

lemma best_extensional:
  "dict_ok ls \<Longrightarrow> dict_ok ms \<Longrightarrow> map_of ls = map_of ms \<Longrightarrow> best ls = best ms"
  using sort_key_dict_ext inj_rank by (simp add: best_sorts)

lemma prune_dict [simp]: "dict_ok ls \<Longrightarrow> dict_ok (prune (worst ls) depth ls)"
  by (simp add: prune_def foldl_delete_filter)

lemma prune_subset: "set (prune (worst ls) depth ls) \<subseteq> set ls"
  by (auto simp: prune_def foldl_delete_filter)

lemma dropped_prices:
  assumes "dict_ok ls"
  shows "set (take (length ls - depth) (worst ls)) = fst ` set (drop depth (best ls))"
proof (cases "depth \<le> length ls")
  case True
  with assms show ?thesis by (simp add: worst_reverses take_rev best_length drop_map)
next
  case False
  with assms show ?thesis by (simp add: best_length)
qed

lemma keys_of_split:
  assumes "dict_ok ls"
  shows "filter (\<lambda>kv. fst kv \<notin> fst ` set (drop n ls)) ls = take n ls"
proof -
  have "distinct (map fst (take n ls @ drop n ls))"
    using assms by (simp only: append_take_drop_id dict_ok_def)
  then have disj: "fst ` set (take n ls) \<inter> fst ` set (drop n ls) = {}"
    by (simp only: map_append distinct_append set_map)
  have "filter (\<lambda>kv. fst kv \<notin> fst ` set (drop n ls)) (take n ls) = take n ls"
    by (rule filter_True) (use disj in auto)
  moreover have "filter (\<lambda>kv. fst kv \<notin> fst ` set (drop n ls)) (drop n ls) = []"
    by (rule filter_False) auto
  ultimately show ?thesis by (metis append_Nil2 append_take_drop_id filter_append)
qed

text \<open>Pruning to a depth is reading that many of the best levels.\<close>

lemma best_prune:
  assumes "dict_ok ls"
  shows "best (prune (worst ls) depth ls) = take depth (best ls)"
proof (cases "depth < length ls")
  case True
  let ?P = "\<lambda>kv. fst kv \<notin> fst ` set (drop depth (best ls))"
  have "prune (worst ls) depth ls = filter ?P ls"
    using True by (simp add: prune_def foldl_delete_filter dropped_prices [OF assms])
  then have "best (prune (worst ls) depth ls) = filter ?P (best ls)"
    using assms by (simp add: best_sorts filter_sort)
  also have "\<dots> = take depth (best ls)"
    by (rule keys_of_split [OF best_dict [OF assms]])
  finally show ?thesis .
next
  case False
  with assms show ?thesis by (simp add: prune_def best_length)
qed

lemma prune_length: "dict_ok ls \<Longrightarrow> length (prune (worst ls) depth ls) = min depth (length ls)"
  using arg_cong [OF best_prune, of ls length depth] best_length
  by (simp add: min.commute)

lemma prune_extensional:
  assumes "dict_ok ls" and "dict_ok ms" and "map_of ls = map_of ms"
  shows "map_of (prune (worst ls) depth ls) = map_of (prune (worst ms) depth ms)"
proof -
  have "best (prune (worst ls) depth ls) = best (prune (worst ms) depth ms)"
    using assms by (simp add: best_prune best_extensional [OF assms])
  then have "set (prune (worst ls) depth ls) = set (prune (worst ms) depth ms)"
    using assms best_set prune_dict by metis
  with assms show ?thesis
    by (metis map_of_inject_set prune_dict dict_ok_def)
qed

text \<open>No surviving level ranks behind a dropped one.\<close>

lemma prune_keeps_best:
  assumes "dict_ok ls" and "kept \<in> set (prune (worst ls) depth ls)"
    and "dropped \<in> set ls - set (prune (worst ls) depth ls)"
  shows "rank (fst kept) \<le> rank (fst dropped)"
proof -
  let ?p = "prune (worst ls) depth ls"
  have "kept \<in> set (take depth (best ls))"
    using assms(1,2) best_prune best_set prune_dict by metis
  moreover have "dropped \<in> set (drop depth (best ls))"
  proof -
    have "dropped \<in> set (best ls)" using assms(1,3) best_set by simp
    moreover have "dropped \<notin> set (take depth (best ls))"
      using assms(1,3) best_prune best_set prune_dict by (metis DiffD2)
    ultimately show ?thesis by (metis Un_iff append_take_drop_id set_append)
  qed
  moreover have "sorted (map (\<lambda>kv. rank (fst kv)) (take depth (best ls) @ drop depth (best ls)))"
    using best_ranked [OF assms(1)] by simp
  ultimately show ?thesis by (auto simp only: map_append sorted_append set_map)
qed

text \<open>
  The independent description of pruning: a level stays iff fewer than \<open>depth\<close> prices of its side
  rank strictly before it.
\<close>

lemma better_than_nth:
  assumes "dict_ok ls" and "i < length ls"
  shows "{p \<in> fst ` set ls. rank p < rank (fst (best ls ! i))} = fst ` set (take i (best ls))"
proof -
  let ?B = "best ls" and ?r = "\<lambda>kv. rank (fst kv)"
  have len: "length ?B = length ls" and setB: "set ?B = set ls"
    using assms(1) best_length best_set by simp_all
  have dist: "distinct (map ?r ?B)"
    using best_dict [OF assms(1)] inj_rank
    by (auto simp: dict_ok_def distinct_conv_nth inj_def)
  have strict: "?r (?B ! a) < ?r (?B ! b)" if "a < b" "b < length ls" for a b
  proof -
    have "?r (?B ! a) \<le> ?r (?B ! b)"
      using sorted_nth_mono [OF best_ranked [OF assms(1)], of a b] that len by simp
    moreover have "?r (?B ! a) \<noteq> ?r (?B ! b)"
      using nth_eq_iff_index_eq [OF dist, of a b] that len by simp
    ultimately show ?thesis by simp
  qed
  show ?thesis
  proof (intro set_eqI iffI)
    fix p assume "p \<in> {p \<in> fst ` set ls. rank p < rank (fst (?B ! i))}"
    then obtain j where "j < length ls" "p = fst (?B ! j)" "?r (?B ! j) < ?r (?B ! i)"
      using setB len by (auto simp: in_set_conv_nth image_iff) (metis in_set_conv_nth fst_conv)
    moreover from this have "j < i" using strict [of i j] by (cases "i < j"; cases "i = j") auto
    moreover have "j < i \<Longrightarrow> ?B ! j \<in> set (take i ?B)"
      using len assms(2) by (auto simp: in_set_conv_nth intro!: exI [of _ j])
    ultimately show "p \<in> fst ` set (take i ?B)" by simp
  next
    fix p assume "p \<in> fst ` set (take i ?B)"
    then obtain j where "j < i" "p = fst (?B ! j)"
      using len assms(2) by (auto simp: in_set_conv_nth)
    moreover have "?B ! j \<in> set ls" if "j < i"
      using that assms(2) len setB nth_mem [of j ?B] by simp
    ultimately show "p \<in> {p \<in> fst ` set ls. rank p < rank (fst (?B ! i))}"
      using strict [of j i] assms(2) by simp
  qed
qed

lemma prune_lookup:
  assumes "dict_ok ls"
  shows "map_of (prune (worst ls) depth ls) px =
    (if card {p \<in> fst ` set ls. rank p < rank px} < depth then map_of ls px else None)"
proof (cases "map_of ls px")
  case None
  then have "px \<notin> fst ` set (prune (worst ls) depth ls)"
    using prune_subset by (auto simp: map_of_eq_None_iff)
  then have "map_of (prune (worst ls) depth ls) px = None"
    by (simp add: map_of_eq_None_iff)
  then show ?thesis using None by simp
next
  case (Some q)
  let ?p = "prune (worst ls) depth ls"
  from Some obtain i where i: "i < length ls" "best ls ! i = (px, q)"
    using best_set [OF assms] best_length [OF assms] by (metis in_set_conv_nth map_of_SomeD)
  have "distinct (map fst (take i (best ls)))"
    using best_dict [OF assms] by (simp add: dict_ok_def take_map [symmetric])
  then have "card (set (map fst (take i (best ls)))) = i"
    using i(1) best_length [OF assms] by (simp only: distinct_card) simp
  then have card: "card {p \<in> fst ` set ls. rank p < rank px} = i"
    using better_than_nth [OF assms i(1)] i(2) by simp
  have "(px, q) \<in> set ?p \<longleftrightarrow> i < depth"
  proof -
    have "(px, q) \<in> set ?p \<longleftrightarrow> (px, q) \<in> set (take depth (best ls))"
      using best_prune best_set prune_dict assms by metis
    also have "\<dots> \<longleftrightarrow> (\<exists>j < min depth (length ls). best ls ! j = best ls ! i)"
      using i best_length [OF assms] by (auto simp: in_set_conv_nth)
    also have "\<dots> \<longleftrightarrow> i < depth"
      using i(1) best_length [OF assms] dict_ok_distinct [OF best_dict [OF assms]]
      by (auto simp: nth_eq_iff_index_eq)
    finally show ?thesis .
  qed
  moreover have "map_of ?p px = Some r \<Longrightarrow> r = q" for r
    using prune_subset [of ls depth] map_of_SomeD [of ?p px r] map_of_mem [OF assms, of px r] Some by auto
  ultimately show ?thesis
    using map_of_mem [of ?p px q] prune_dict [OF assms, of depth] card Some
    by (cases "map_of ?p px") auto
qed

end

lemma sort_pairs_by_key:
  assumes "dict_ok (ls :: levels)"
  shows "sort ls = sort_key (\<lambda>kv. fst kv) ls"
proof -
  have "sorted (map (\<lambda>kv. fst kv) (sort ls))"
    by (simp add: sorted_map) (metis (mono_tags, lifting) less_eq_prod_simp prod.collapse
        order_less_imp_le sorted_sort sorted_wrt_mono_rel)
  then show ?thesis
    using inj_on_key [OF assms, of "\<lambda>x. x"]
    by (intro sort_key_inj_key_eq [symmetric]) simp_all
qed

interpretation bid_side: price_side uminus bid_best bid_worst
proof unfold_locales
  show "inj (uminus :: int \<Rightarrow> int)" by simp
  fix ls :: levels
  assume ok: "dict_ok ls"
  show "bid_best ls = sort_key (\<lambda>kv. - fst kv) ls" by (simp add: bid_best_def)
  have "sorted (rev (map fst (sort_key (\<lambda>kv. - fst kv) ls)))"
  proof -
    have "sorted_wrt (\<lambda>x y. - fst x \<le> - fst y) (sort_key (\<lambda>kv. - fst kv) ls)"
      using sorted_sort_key [of "\<lambda>kv. - fst kv" ls] by (simp add: sorted_map)
    then show ?thesis by (simp add: sorted_wrt_rev sorted_wrt_map rev_map [symmetric] sorted_map)
  qed
  moreover have "mset (rev (map fst (sort_key (\<lambda>kv. - fst kv) ls))) = mset (map fst ls)"
    by simp
  ultimately show "bid_worst ls = rev (map fst (bid_best ls))"
    unfolding bid_worst_def bid_best_def by (intro properties_for_sort)
qed

interpretation ask_side: price_side "\<lambda>p. p" ask_best ask_worst
proof unfold_locales
  show "inj (\<lambda>p::int. p)" by simp
  fix ls :: levels
  assume ok: "dict_ok ls"
  show best: "ask_best ls = sort_key (\<lambda>kv. fst kv) ls"
    by (simp add: ask_best_def sort_pairs_by_key [OF ok])
  have "sort (map fst ls) = map fst (ask_best ls)"
    by (rule properties_for_sort) (simp_all add: best)
  then show "ask_worst ls = rev (map fst (ask_best ls))" by (simp add: ask_worst_def)
qed

section \<open>The fold of one frame\<close>

text \<open>The abstract side: a partial map from price to quantity, folded by absolute quantities.\<close>

definition put_level :: "(int \<rightharpoonup> int) \<Rightarrow> int \<times> int \<Rightarrow> (int \<rightharpoonup> int)" where
  "put_level m pq = m(fst pq := (if snd pq = 0 then None else Some (snd pq)))"

definition fold_side :: "levels \<Rightarrow> levels \<Rightarrow> levels" where
  "fold_side ls ups = foldl (\<lambda>l (px, qty). set_level px qty l) ls ups"

lemma dict_ok_set_level [simp]: "dict_ok ls \<Longrightarrow> dict_ok (set_level px qty ls)"
  by (simp add: set_level_def)

lemma map_of_set_level: "dict_ok ls \<Longrightarrow> map_of (set_level px qty ls) = put_level (map_of ls) (px, qty)"
  by (auto simp: set_level_def put_level_def update_conv' delete_conv' fun_eq_iff)

lemma levels_ok_set_level: "levels_ok ls \<Longrightarrow> levels_ok (set_level px qty ls)"
proof -
  assume ok: "levels_ok ls"
  then have d: "dict_ok (set_level px qty ls)" by (simp add: levels_ok_def)
  have "snd kv \<noteq> 0" if "kv \<in> set (set_level px qty ls)" for kv
  proof -
    obtain k v where kv: "kv = (k, v)" by (cases kv)
    with that d have "map_of (set_level px qty ls) k = Some v" by (simp add: map_of_mem)
    with ok have "put_level (map_of ls) (px, qty) k = Some v"
      by (simp add: map_of_set_level levels_ok_def)
    with ok show ?thesis
      by (auto simp: put_level_def levels_ok_def kv map_of_mem [symmetric] split: if_splits)
  qed
  with d show ?thesis by (simp add: levels_ok_def)
qed

lemma fold_side_ok: "levels_ok ls \<Longrightarrow> levels_ok (fold_side ls ups)"
  unfolding fold_side_def by (rule foldl_pres) (auto simp: levels_ok_set_level)

lemma fold_side_dict [simp]: "dict_ok ls \<Longrightarrow> dict_ok (fold_side ls ups)"
  unfolding fold_side_def by (rule foldl_pres) auto

lemma map_of_fold_side: "dict_ok ls \<Longrightarrow> map_of (fold_side ls ups) = foldl put_level (map_of ls) ups"
  by (induction ups arbitrary: ls) (auto simp: fold_side_def map_of_set_level)

lemma apply_bids: "foldl (\<lambda>b (px, qty). book_apply ''bid'' px qty b) b ups = b\<lparr>bids := fold_side (bids b) ups\<rparr>"
  by (induction ups arbitrary: b) (auto simp: fold_side_def book_apply_def)

lemma apply_asks: "foldl (\<lambda>b (px, qty). book_apply ''ask'' px qty b) b ups = b\<lparr>asks := fold_side (asks b) ups\<rparr>"
  by (induction ups arbitrary: b) (auto simp: fold_side_def book_apply_def)

lemma levels_ok_prune:
  "levels_ok ls \<Longrightarrow> levels_ok (prune (bid_worst ls) d ls)"
  "levels_ok ls \<Longrightarrow> levels_ok (prune (ask_worst ls) d ls)"
  using bid_side.prune_subset [of ls d] ask_side.prune_subset [of ls d]
  by (auto simp: levels_ok_def)

definition frame_side :: "string \<Rightarrow> levels \<Rightarrow> levels" where
  "frame_side frame_type ls = (if frame_type = ''snapshot'' then [] else ls)"

lemma kraken_apply_sides:
  "bids (kraken_apply ft bs as d b) = prune (bid_worst (fold_side (frame_side ft (bids b)) bs)) d (fold_side (frame_side ft (bids b)) bs)"
  "asks (kraken_apply ft bs as d b) = prune (ask_worst (fold_side (frame_side ft (asks b)) as)) d (fold_side (frame_side ft (asks b)) as)"
  by (simp_all add: kraken_apply_def apply_bids apply_asks book_truncate_def book_clear_def frame_side_def)

lemma levels_ok_frame_side: "levels_ok ls \<Longrightarrow> levels_ok (frame_side ft ls)"
  by (simp add: frame_side_def levels_ok_def)

lemma levels_ok_dict [simp]: "levels_ok ls \<Longrightarrow> dict_ok ls"
  by (simp add: levels_ok_def)

text \<open>Two books are the same market when their price-to-quantity maps agree.\<close>

definition same_market :: "book \<Rightarrow> book \<Rightarrow> bool" where
  "same_market b c \<longleftrightarrow> map_of (bids b) = map_of (bids c) \<and> map_of (asks b) = map_of (asks c)"

lemma same_market_refl [simp]: "same_market b b"
  by (simp add: same_market_def)

lemma same_market_top:
  "book_ok b \<Longrightarrow> book_ok c \<Longrightarrow> same_market b c \<Longrightarrow> book_top n b = book_top n c"
  using bid_side.best_extensional [of "bids b" "bids c"] ask_side.best_extensional [of "asks b" "asks c"]
  by (simp add: book_top_def same_market_def book_ok_def)

lemma kraken_apply_ok: "book_ok b \<Longrightarrow> book_ok (kraken_apply ft bs as d b)"
  by (simp add: book_ok_def kraken_apply_sides levels_ok_prune fold_side_ok levels_ok_frame_side)

lemma kraken_apply_same_market:
  assumes "book_ok b" and "book_ok c" and "same_market b c"
  shows "same_market (kraken_apply ft bs as d b) (kraken_apply ft bs as d c)"
proof -
  have side: "map_of (fold_side (frame_side ft ls) ups) = map_of (fold_side (frame_side ft ms) ups)"
    and ok: "dict_ok (fold_side (frame_side ft ls) ups)"
    if "levels_ok ls" "levels_ok ms" "map_of ls = map_of ms" for ls ms ups
    using that by (auto simp: map_of_fold_side frame_side_def)
  show ?thesis
    using assms side ok unfolding same_market_def kraken_apply_sides book_ok_def
    by (auto intro!: bid_side.prune_extensional ask_side.prune_extensional)
qed

section \<open>Properties\<close>

text \<open>
  \<open>fixed\<close> is exact: a signed decimal with at most eight fraction digits becomes exactly its
  value times 1e8, and one with more than eight is refused instead of rounded.
\<close>
theorem fixed_exact:
  assumes "list_all is_digit whole" and "list_all is_digit frac"
  shows "fixed ((if neg then ''-'' else []) @ whole @ CHR ''.'' # frac) =
    (if length frac > 8 then Inl ValueError
     else Inr ((if neg then - 1 else 1)
       * (int (digits_val whole) * 10 ^ 8 + int (digits_val frac) * 10 ^ (8 - length frac))))"
proof (cases "length frac > 8")
  case True
  with assms show ?thesis
    by (cases neg) (auto simp: fixed_too_precise, simp add: fixed_def partition_dot_digits SCALE_DP_def)
next
  case False
  with assms show ?thesis
    using fixed_body [of whole frac "whole @ CHR ''.'' # frac"] by (cases neg) auto
qed

theorem fixed_exact_witness: "fixed ''45285.2'' = Inr 4528520000000"
  using fixed_exact [of "''45285''" "''2''" False]
  by (simp add: is_digit_def digits_val_def digit_val_def)

text \<open>
  Folding a Kraken frame keeps the book well formed (one entry per price, no empty level) and
  never deeper than the subscription depth on either side.
\<close>
theorem kraken_apply_invariant:
  assumes "book_ok b"
  shows "book_ok (kraken_apply ft bs as d b) \<and> book_depth (kraken_apply ft bs as d b) \<le> d"
proof -
  have "dict_ok (fold_side (frame_side ft (bids b)) bs)" "dict_ok (fold_side (frame_side ft (asks b)) as)"
    using assms by (simp_all add: book_ok_def levels_ok_frame_side)
  then show ?thesis
    using kraken_apply_ok [OF assms]
    by (simp add: book_depth_def kraken_apply_sides bid_side.prune_length ask_side.prune_length)
qed

theorem kraken_apply_invariant_witness:
  "book_depth (kraken_apply ''update'' [(90, 5), (91, 1)] [(95, 2)] 1 \<lparr>bids = [(89, 7)], asks = []\<rparr>) \<le> 1"
  using kraken_apply_invariant [of "\<lparr>bids = [(89, 7)], asks = []\<rparr>" "''update''" "[(90, 5), (91, 1)]" "[(95, 2)]" 1]
  by (simp add: book_ok_def levels_ok_def dict_ok_def)

text \<open>
  C17. What a frame does to the two sides, without the dictionary: absolute quantities overwrite, zero
  removes, a snapshot starts from nothing, and a level survives the truncation exactly when fewer than
  \<open>depth\<close> prices of its side are better (higher for bids, lower for asks).
\<close>
theorem kraken_apply_levels:
  assumes "book_ok b"
  shows "map_of (bids (kraken_apply ft bs as d b)) px =
      (let m = foldl put_level (if ft = ''snapshot'' then Map.empty else map_of (bids b)) bs
       in if card {p \<in> dom m. px < p} < d then m px else None)
    \<and> map_of (asks (kraken_apply ft bs as d b)) px =
      (let m = foldl put_level (if ft = ''snapshot'' then Map.empty else map_of (asks b)) as
       in if card {p \<in> dom m. p < px} < d then m px else None)"
proof -
  have ok: "dict_ok (frame_side ft (bids b))" "dict_ok (frame_side ft (asks b))"
    using assms by (simp_all add: book_ok_def levels_ok_frame_side)
  have start: "map_of (frame_side ft ls) = (if ft = ''snapshot'' then Map.empty else map_of ls)" for ls
    by (simp add: frame_side_def)
  have dom: "fst ` set ls = dom (map_of ls)" for ls :: levels
    by (simp add: dom_map_of_conv_image_fst)
  show ?thesis
    using ok by (simp add: kraken_apply_sides bid_side.prune_lookup ask_side.prune_lookup
        map_of_fold_side dom start Let_def)
qed

theorem kraken_apply_levels_witness:
  "map_of (bids (kraken_apply ''update'' [(90, 5)] [] 1 \<lparr>bids = [(89, 7)], asks = []\<rparr>)) 90 = Some 5"
proof -
  have "{p \<in> dom ([90 \<mapsto> 5, 89 \<mapsto> 7] :: int \<rightharpoonup> int). 90 < p} = {}" by (auto split: if_splits)
  then show ?thesis
    using kraken_apply_levels [of "\<lparr>bids = [(89, 7)], asks = []\<rparr>" "''update''" "[(90, 5)]" "[]" 1 90]
    by (simp add: book_ok_def levels_ok_def dict_ok_def put_level_def fun_upd_twist)
qed

end
