(* ===== verification/Wire.thy ===== *)
theory Wire
  imports K2_Prelude
begin

text \<open>
  The Confluent framing of \<open>docker/lake/wire.py\<close>, in its two forms: the driver's Python parser and the
  SQL expressions the executors evaluate. Bytes are \<open>8 word\<close>s. SQL values are options (\<open>None\<close> is
  \<open>NULL\<close>); the SQL functions the expressions use (\<open>substring\<close>, \<open>hex\<close>, \<open>conv\<close>, \<open>CAST\<close>, three-valued
  \<open>AND\<close> and comparison, \<open>DECIMAL\<close>) are written out with Spark's documented non-ANSI behaviour:
  an out-of-range cast is \<open>NULL\<close>.
\<close>

type_synonym bytes = "8 word list"

section \<open>The Python parser\<close>

definition MAGIC :: int where "MAGIC = 0"
definition HEADER_BYTES :: nat where "HEADER_BYTES = 5"
definition FIXED_POINT_SCALE :: nat where "FIXED_POINT_SCALE = 8"

definition be_nat :: "bytes \<Rightarrow> nat" where
  "be_nat bs = foldl (\<lambda>a b. 256 * a + unat b) 0 bs"

text \<open>\<open>struct.unpack(">bi", ...)\<close>: a signed byte and a signed big-endian 32-bit integer.\<close>

definition unpack_bi :: "bytes \<Rightarrow> int \<times> int" where
  "unpack_bi bs = (sint (hd bs), sint (word_of_nat (be_nat (take 4 (tl bs))) :: 32 word))"

definition parse_confluent :: "bytes \<Rightarrow> (int \<times> bytes) res" where
  "parse_confluent frame =
     (if length frame < HEADER_BYTES then Inl BadFrame
      else (let (magic, schema_id) = unpack_bi (take HEADER_BYTES frame) in
        if magic \<noteq> MAGIC then Inl BadFrame
        else if schema_id \<le> 0 then Inl BadFrame
        else Inr (schema_id, drop HEADER_BYTES frame)))"

section \<open>SQL values and functions\<close>

definition sql_and :: "bool option \<Rightarrow> bool option \<Rightarrow> bool option" where
  "sql_and a b =
     (if a = Some False \<or> b = Some False then Some False
      else if a = None \<or> b = None then None else Some True)"

definition sql_gt0 :: "int option \<Rightarrow> bool option" where
  "sql_gt0 x = map_option (\<lambda>v. 0 < v) x"

definition sql_substring :: "bytes \<Rightarrow> nat \<Rightarrow> nat \<Rightarrow> bytes" where
  "sql_substring bs pos len = take len (drop (pos - 1) bs)"

definition hex_char :: "nat \<Rightarrow> char" where
  "hex_char n = (if n < 10 then digit_char n else char_of (55 + n))"

definition hex_byte :: "8 word \<Rightarrow> string" where
  "hex_byte b = [hex_char (unat b div 16), hex_char (unat b mod 16)]"

definition sql_hex :: "bytes \<Rightarrow> string" where
  "sql_hex bs = concat (map hex_byte bs)"

definition hex_digit_val :: "char \<Rightarrow> nat" where
  "hex_digit_val c = (if is_digit c then digit_val c else of_char c - 55)"

definition hex_val :: "string \<Rightarrow> nat" where
  "hex_val s = foldl (\<lambda>a c. 16 * a + hex_digit_val c) 0 s"

text \<open>\<open>conv(s, 16, 10)\<close> of an upper-case hexadecimal text: its decimal text, \<open>NULL\<close> for the empty text.\<close>

definition sql_conv_16_10 :: "string \<Rightarrow> string option" where
  "sql_conv_16_10 s = (if s = [] then None else Some (show_nat (hex_val s)))"

definition sql_cast_int :: "string \<Rightarrow> int option" where
  "sql_cast_int s =
     (case py_int s of None \<Rightarrow> None
      | Some v \<Rightarrow> if - (2 ^ 31) \<le> v \<and> v < 2 ^ 31 then Some v else None)"

section \<open>The SQL expressions\<close>

definition schema_id_sql :: "bytes \<Rightarrow> int option" where
  "schema_id_sql col = Option.bind (sql_conv_16_10 (sql_hex (sql_substring col 2 4))) sql_cast_int"

definition body_sql :: "bytes \<Rightarrow> bytes" where
  "body_sql col = drop (HEADER_BYTES + 1 - 1) col"

definition magic_ok_sql :: "bytes \<Rightarrow> bool option" where
  "magic_ok_sql col = Some (sql_hex (sql_substring col 1 1) = ''00'')"

definition schema_id_guarded_sql :: "bytes option \<Rightarrow> int option" where
  "schema_id_guarded_sql value =
     (case value of None \<Rightarrow> None
      | Some col \<Rightarrow>
          if sql_and (sql_and (Some (length col \<ge> HEADER_BYTES)) (magic_ok_sql col)) (sql_gt0 (schema_id_sql col)) = Some True
          then schema_id_sql col else None)"

text \<open>
  \<open>DECIMAL(p,s)\<close> values by their unscaled integer; a cast or quotient that does not fit is \<open>NULL\<close>.
  \<open>dec_div\<close> is the quotient at the given result scale, rounded half away from zero.
\<close>

definition dec_fit :: "nat \<Rightarrow> int \<Rightarrow> int option" where
  "dec_fit p u = (if \<bar>u\<bar> < 10 ^ p then Some u else None)"

definition dec_of_int :: "nat \<Rightarrow> nat \<Rightarrow> int \<Rightarrow> int option" where
  "dec_of_int p s v = dec_fit p (v * 10 ^ s)"

definition round_half_up_div :: "int \<Rightarrow> int \<Rightarrow> int" where
  "round_half_up_div a b = sgn a * ((2 * \<bar>a\<bar> + b) div (2 * b))"

definition dec_div :: "nat \<Rightarrow> nat \<Rightarrow> nat \<Rightarrow> int \<Rightarrow> int \<Rightarrow> int option" where
  "dec_div p s s1 u d = dec_fit p (round_half_up_div (u * 10 ^ s) (d * 10 ^ s1))"

text \<open>\<open>CAST(CAST(v AS DECIMAL(38,10)) / 100000000 AS DECIMAL(28,10))\<close>, as an unscaled integer at scale 10.\<close>

definition fixed_point_via :: "nat \<Rightarrow> int \<Rightarrow> int option" where
  "fixed_point_via p v =
     Option.bind (dec_of_int p 10 v)
       (\<lambda>u. Option.bind (dec_div 38 10 10 u (10 ^ FIXED_POINT_SCALE)) (dec_fit 28))"

definition fixed_point_sql :: "int \<Rightarrow> int option" where
  "fixed_point_sql v = fixed_point_via 38 v"

section \<open>Reading four bytes in hexadecimal and in binary agree\<close>

lemma hex_char_val [simp]: "n < 16 \<Longrightarrow> hex_digit_val (hex_char n) = n"
  by (auto simp: hex_char_def hex_digit_val_def) (auto simp: is_digit_def)

lemma hex_val_append: "hex_val (s @ t) = hex_val s * 16 ^ length t + hex_val t"
proof (induction t rule: rev_induct)
  case (snoc c t)
  then show ?case by (simp add: hex_val_def algebra_simps)
qed (simp add: hex_val_def)

lemma unat_byte: "unat (b :: 8 word) < 256"
proof -
  have "unat b < 2 ^ LENGTH(8)" by (rule unsigned_less)
  then show ?thesis by simp
qed

lemma hex_byte_val: "hex_val (hex_byte b) = unat b"
proof -
  have "unat b div 16 < 16" using unat_byte [of b] by simp
  then show ?thesis by (simp add: hex_byte_def hex_val_def)
qed

lemma hex_val_sql_hex: "hex_val (sql_hex bs) = be_nat bs"
proof (induction bs rule: rev_induct)
  case (snoc b bs)
  then show ?case
    by (simp add: sql_hex_def hex_val_append hex_byte_val be_nat_def) (simp add: hex_byte_def)
qed (simp add: sql_hex_def be_nat_def hex_val_def)

lemma be_nat_bound: "be_nat bs < 256 ^ length bs"
proof (induction bs rule: rev_induct)
  case (snoc b bs)
  have "256 * be_nat bs + unat b < 256 * (be_nat bs + 1)" using unat_byte [of b] by simp
  also have "\<dots> \<le> 256 * 256 ^ length bs" using snoc by simp
  finally show ?case by (simp add: be_nat_def)
qed (simp add: be_nat_def)

lemma sint_of_nat_32:
  assumes "n < 2 ^ 32"
  shows "sint (word_of_nat n :: 32 word) = (if n < 2 ^ 31 then int n else int n - 2 ^ 32)"
proof (cases "n < 2 ^ 31")
  case True
  with assms show ?thesis
    by (simp add: signed_of_nat signed_take_bit_eq_take_bit_shift take_bit_eq_mod)
next
  case False
  then have "(int n + 2147483648) mod 4294967296 = (int n - 2147483648 + 4294967296) mod 4294967296"
    by (simp add: algebra_simps)
  also have "\<dots> = int n - 2147483648"
    using False assms by (simp only: mod_add_self2) simp
  finally show ?thesis
    using False by (simp add: signed_of_nat signed_take_bit_eq_take_bit_shift take_bit_eq_mod)
qed

lemma sint_byte_zero: "sint (b :: 8 word) = 0 \<longleftrightarrow> b = 0"
  by (rule signed_eq_0_iff)

lemma hex_byte_zero: "hex_byte b = ''00'' \<longleftrightarrow> b = 0"
proof
  assume "hex_byte b = ''00''"
  then have "unat b = hex_val ''00''" using hex_byte_val [of b] by simp
  also have "\<dots> = 0" by (simp add: hex_val_def hex_digit_val_def is_digit_def digit_val_def)
  finally show "b = 0" by (simp add: unat_eq_zero)
qed (simp add: hex_byte_def hex_char_def digit_char_simps)

lemma schema_id_sql_value:
  assumes "5 \<le> length col"
  shows "schema_id_sql col = (let n = be_nat (take 4 (drop 1 col)) in if n < 2 ^ 31 then Some (int n) else None)"
proof -
  let ?b = "take 4 (drop 1 col)"
  have len: "length ?b = 4" using assms by simp
  then have "sql_hex ?b \<noteq> []" by (cases ?b) (auto simp: sql_hex_def hex_byte_def)
  then show ?thesis
    by (simp add: schema_id_sql_def sql_substring_def sql_conv_16_10_def hex_val_sql_hex
        sql_cast_int_def py_int_digits show_nat_digits Let_def)
qed

section \<open>Properties\<close>

text \<open>
  C18. The guarded SQL expression and the Python parser agree on every byte string: the executors'
  schema id is exactly the driver's, \<open>NULL\<close> exactly where the driver raises \<open>BadFrame\<close> (too short,
  wrong magic, id zero or with the high bit set), and the body they decode is the same suffix.
\<close>
theorem schema_id_guarded_agrees:
  "schema_id_guarded_sql (Some frame) = (case parse_confluent frame of Inl _ \<Rightarrow> None | Inr (i, _) \<Rightarrow> Some i)
   \<and> (case parse_confluent frame of Inl _ \<Rightarrow> True | Inr (_, b) \<Rightarrow> body_sql frame = b)"
proof (cases "length frame < 5")
  case True
  then show ?thesis
    by (auto simp: schema_id_guarded_sql_def parse_confluent_def HEADER_BYTES_def sql_and_def)
next
  case False
  then obtain m f where f: "frame = m # f" and lf: "4 \<le> length f" by (cases frame) auto
  define n where "n = be_nat (take 4 f)"
  have "n < 256 ^ 4" using be_nat_bound [of "take 4 f"] lf by (simp add: n_def min_absorb2)
  then have sn: "sint (word_of_nat n :: 32 word) = (if n < 2 ^ 31 then int n else int n - 2 ^ 32)"
    and small: "n < 2 ^ 32"
    using sint_of_nat_32 [of n] by simp_all
  have parse: "parse_confluent frame =
      (if m \<noteq> 0 \<or> n = 0 \<or> \<not> n < 2 ^ 31 then Inl BadFrame else Inr (int n, drop 5 frame))"
    using False small
    by (simp add: parse_confluent_def HEADER_BYTES_def unpack_bi_def f MAGIC_def sint_byte_zero
        n_def [symmetric] take_Cons' sn)
  have "schema_id_sql frame = (if n < 2 ^ 31 then Some (int n) else None)"
    using schema_id_sql_value [of frame] False by (simp add: f n_def Let_def)
  moreover have "magic_ok_sql frame = Some (m = 0)"
    by (simp add: magic_ok_sql_def sql_substring_def f sql_hex_def hex_byte_zero)
  ultimately show ?thesis
    using False by (auto simp: schema_id_guarded_sql_def parse sql_and_def sql_gt0_def HEADER_BYTES_def body_sql_def)
qed

text \<open>
  The fixed-point expression is exact on every 64-bit value (unscaled \<open>v * 100\<close> at scale 10 is
  \<open>v / 1e8\<close>), while the narrower \<open>DECIMAL(28,10)\<close> intermediate is \<open>NULL\<close> from 1e18 on.
\<close>
theorem fixed_point_exact:
  assumes "- (2 ^ 63) \<le> v" and "v < 2 ^ 63"
  shows "fixed_point_sql v = Some (v * 100) \<and> (\<bar>v\<bar> \<ge> 10 ^ 18 \<longleftrightarrow> fixed_point_via 28 v = None)"
proof -
  have div: "round_half_up_div (v * 10 ^ 10 * 10 ^ 10) (10 ^ 8 * 10 ^ 10) = v * 100"
  proof -
    have "(2 * (\<bar>v\<bar> * 10 ^ 20) + 10 ^ 18) div (2 * 10 ^ 18) = \<bar>v\<bar> * 100"
      by simp
    then show ?thesis
      by (simp add: round_half_up_div_def sgn_mult abs_mult mult.commute abs_mult_sgn)
  qed
  have wide: "\<bar>v * 10 ^ 10\<bar> < 10 ^ 38" and out: "\<bar>v * 100\<bar> < 10 ^ 28" "\<bar>v * 100\<bar> < 10 ^ 38"
    using assms by (simp_all add: abs_mult)
  have "fixed_point_via p v = (if \<bar>v * 10 ^ 10\<bar> < 10 ^ p then Some (v * 100) else None)" for p
    using div out by (simp add: fixed_point_via_def dec_of_int_def dec_fit_def dec_div_def FIXED_POINT_SCALE_def)
  then show ?thesis
    using wide by (auto simp: fixed_point_sql_def abs_mult)
qed

theorem fixed_point_exact_witness:
  "fixed_point_sql 9223372036854775807 = Some 922337203685477580700 \<and> fixed_point_via 28 9223372036854775807 = None"
  using fixed_point_exact [of 9223372036854775807] by simp

end
