(* ===== verification/Json.thy ===== *)
theory Json
  imports K2_Prelude
begin

text \<open>
  The JSON text the lake keeps in snapshot summaries: objects (nested) with integer leaves, as
  \<open>json.dumps(..., separators=(",", ":"))\<close> writes it and \<open>json.loads\<close> reads it back. Characters are
  the code points below 256; everything outside printable ASCII is escaped as the library does.
  \<open>json_loads\<close> is \<open>None\<close> on text that is not such a document. The parser's fuel is the length of the text,
  which always suffices for a printed document (\<open>json_loads_dumps\<close>).
\<close>

datatype json = JInt int | JObj "(string \<times> json) list"

section \<open>Writing\<close>

definition lower_hex :: "nat \<Rightarrow> char" where
  "lower_hex n = (if n < 10 then digit_char n else char_of (87 + n))"

definition json_escape :: "char \<Rightarrow> string" where
  "json_escape c =
     (let n = (of_char c :: nat) in
      if n = 34 then [CHR 0x5C, CHR 0x22]
      else if n = 92 then [CHR 0x5C, CHR 0x5C]
      else if n = 10 then [CHR 0x5C, CHR ''n'']
      else if n = 13 then [CHR 0x5C, CHR ''r'']
      else if n = 9 then [CHR 0x5C, CHR ''t'']
      else if n = 12 then [CHR 0x5C, CHR ''f'']
      else if n = 8 then [CHR 0x5C, CHR ''b'']
      else if 32 \<le> n \<and> n \<le> 126 then [c]
      else [CHR 0x5C, CHR ''u'', CHR ''0'', CHR ''0'', lower_hex (n div 16), lower_hex (n mod 16)])"

definition json_string :: "string \<Rightarrow> string" where
  "json_string s = CHR 0x22 # concat (map json_escape s) @ [CHR 0x22]"

fun json_join :: "string list \<Rightarrow> string" where
  "json_join [] = []"
| "json_join [x] = x"
| "json_join (x # y # xs) = x @ CHR '','' # json_join (y # xs)"

fun json_dumps :: "json \<Rightarrow> string" where
  "json_dumps (JInt i) = show_int i"
| "json_dumps (JObj ms) =
     CHR ''{'' # json_join (map (\<lambda>(k, v). json_string k @ CHR '':'' # json_dumps v) ms) @ ''}''"

section \<open>Reading\<close>

definition json_ws :: "char \<Rightarrow> bool" where
  "json_ws c = ((of_char c :: nat) \<in> {9, 10, 13, 32})"

definition skip_ws :: "string \<Rightarrow> string" where
  "skip_ws s = dropWhile json_ws s"

definition hex_value :: "char \<Rightarrow> nat option" where
  "hex_value c =
     (let n = (of_char c :: nat) in
      if 48 \<le> n \<and> n \<le> 57 then Some (n - 48)
      else if 97 \<le> n \<and> n \<le> 102 then Some (n - 87)
      else if 65 \<le> n \<and> n \<le> 70 then Some (n - 55)
      else None)"

definition simple_escape :: "char \<Rightarrow> char option" where
  "simple_escape c =
     (let n = (of_char c :: nat) in
      if n = 34 \<or> n = 92 \<or> n = 47 then Some c
      else if n = 110 then Some (char_of (10::nat))
      else if n = 114 then Some (char_of (13::nat))
      else if n = 116 then Some (char_of (9::nat))
      else if n = 102 then Some (char_of (12::nat))
      else if n = 98 then Some (char_of (8::nat))
      else None)"

definition unicode_escape :: "string \<Rightarrow> (char \<times> string) option" where
  "unicode_escape s =
     (case map hex_value (take 4 s) of
        [Some a, Some b, Some c, Some d] \<Rightarrow>
          if a = 0 \<and> b = 0 then Some (char_of (16 * c + d), drop 4 s) else None
      | _ \<Rightarrow> None)"

function json_read_string :: "string \<Rightarrow> (string \<times> string) option" where
  "json_read_string s =
     (case s of [] \<Rightarrow> None
      | c # cs \<Rightarrow>
          if of_char c = (34 :: nat) then Some ([], cs)
          else if of_char c = (92 :: nat) then
            (case cs of [] \<Rightarrow> None
             | e # es \<Rightarrow>
                 if of_char e = (117 :: nat) then
                   (case unicode_escape es of None \<Rightarrow> None
                    | Some (ch, rest) \<Rightarrow>
                        if length rest < length s
                        then map_option (\<lambda>(t, r). (ch # t, r)) (json_read_string rest) else None)
                 else (case simple_escape e of None \<Rightarrow> None
                       | Some ch \<Rightarrow> map_option (\<lambda>(t, r). (ch # t, r)) (json_read_string es)))
          else if of_char c < (32 :: nat) then None
          else map_option (\<lambda>(t, r). (c # t, r)) (json_read_string cs))"
  by pat_completeness auto
termination by (relation "measure length") auto

declare json_read_string.simps [simp del]

definition number_tail :: "string \<Rightarrow> bool" where
  "number_tail r = (case r of [] \<Rightarrow> True | c # _ \<Rightarrow> c \<noteq> CHR ''.'' \<and> c \<noteq> CHR ''e'' \<and> c \<noteq> CHR ''E'')"

definition json_read_int :: "string \<Rightarrow> (int \<times> string) option" where
  "json_read_int s =
     (let neg = (take 1 s = ''-'');
          body = (if neg then drop 1 s else s);
          ds = takeWhile is_digit body;
          rest = dropWhile is_digit body
      in if ds = [] \<or> \<not> number_tail rest then None
         else if hd ds = CHR ''0'' \<and> length ds > 1 then None
         else Some (if neg then - int (digits_val ds) else int (digits_val ds), rest))"

fun json_read :: "nat \<Rightarrow> string \<Rightarrow> (json \<times> string) option"
  and json_members :: "nat \<Rightarrow> string \<Rightarrow> ((string \<times> json) list \<times> string) option" where
  "json_read 0 s = None"
| "json_read (Suc n) s =
     (case skip_ws s of [] \<Rightarrow> None
      | c # cs \<Rightarrow>
          if c = CHR ''{'' then
            (case skip_ws cs of [] \<Rightarrow> None
             | d # ds \<Rightarrow>
                 if d = CHR ''}'' then Some (JObj [], ds)
                 else map_option (\<lambda>(ms, r). (JObj (dict_update [] ms), r)) (json_members n (d # ds)))
          else map_option (\<lambda>(i, r). (JInt i, r)) (json_read_int (c # cs)))"
| "json_members 0 s = None"
| "json_members (Suc n) s =
     (case s of [] \<Rightarrow> None
      | q # cs \<Rightarrow>
          if q \<noteq> CHR 0x22 then None
          else (case json_read_string cs of None \<Rightarrow> None
            | Some (k, r) \<Rightarrow>
                (case skip_ws r of [] \<Rightarrow> None
                 | c # r1 \<Rightarrow>
                     if c \<noteq> CHR '':'' then None
                     else (case json_read n r1 of None \<Rightarrow> None
                       | Some (v, r2) \<Rightarrow>
                           (case skip_ws r2 of [] \<Rightarrow> None
                            | d # r3 \<Rightarrow>
                                if d = CHR '','' then
                                  map_option (\<lambda>(ms, r). ((k, v) # ms, r)) (json_members n (skip_ws r3))
                                else if d = CHR ''}'' then Some ([(k, v)], r3)
                                else None)))))"

definition json_loads :: "string \<Rightarrow> json option" where
  "json_loads s =
     (case json_read (length s) s of None \<Rightarrow> None
      | Some (v, r) \<Rightarrow> if skip_ws r = [] then Some v else None)"

text \<open>Documents whose objects have distinct keys: what a Python dict prints.\<close>

fun json_ok :: "json \<Rightarrow> bool" where
  "json_ok (JInt i) = True"
| "json_ok (JObj ms) = (dict_ok ms \<and> (\<forall>kv \<in> set ms. json_ok (snd kv)))"

section \<open>Reading back what was written\<close>

lemma hex_value_lower: "n < 16 \<Longrightarrow> hex_value (lower_hex n) = Some n"
  by (auto simp: hex_value_def lower_hex_def of_char_digit)

lemma of_char_bound: "(of_char c :: nat) < 256"
  by simp

lemma char_of_quote: "char_of (34 :: nat) = CHR 0x22" "char_of (92 :: nat) = CHR 0x5C"
  by (simp_all add: char_of_def bit_0)

lemma read_escape:
  "json_read_string (json_escape c @ s) = map_option (\<lambda>(t, r). (c # t, r)) (json_read_string s)"
proof -
  let ?n = "of_char c :: nat"
  have chr: "char_of ?n = c" by simp
  consider "?n \<in> {34, 92, 10, 13, 9, 12, 8}" | "32 \<le> ?n" "?n \<le> 126" "?n \<notin> {34, 92}"
    | "?n \<notin> {34, 92, 10, 13, 9, 12, 8}" "\<not> (32 \<le> ?n \<and> ?n \<le> 126)" by auto
  then show ?thesis
  proof cases
    case 1
    then have "c \<in> char_of ` {34, 92, 10, 13, 9, 12, 8 :: nat}" using chr by (metis imageI)
    then show ?thesis
      by (elim imageE insertE emptyE)
        (simp_all add: json_escape_def Let_def simple_escape_def json_read_string.simps [of "_ # _ # _"] char_of_quote)
  next
    case 2
    then show ?thesis
      by (auto simp: json_escape_def Let_def json_read_string.simps [of "c # s"])
  next
    case 3
    have "?n div 16 < 16" using of_char_bound [of c] by (intro less_mult_imp_div_less) simp
    then have "unicode_escape (CHR ''0'' # CHR ''0'' # lower_hex (?n div 16) # lower_hex (?n mod 16) # s) = Some (c, s)"
      by (simp add: unicode_escape_def hex_value_lower) (simp add: hex_value_def chr)
    with 3 show ?thesis
      by (auto simp: json_escape_def Let_def json_read_string.simps [of "CHR 0x5C # _"])
  qed
qed

lemma read_json_string: "json_read_string (concat (map json_escape s) @ CHR 0x22 # r) = Some (s, r)"
proof (induction s)
  case Nil
  then show ?case by (simp add: json_read_string.simps [of "_ # _"])
next
  case (Cons c s)
  then show ?case by (simp add: read_escape)
qed

definition tail_ok :: "string \<Rightarrow> bool" where
  "tail_ok r = (case r of [] \<Rightarrow> True | c # _ \<Rightarrow> c = CHR '','' \<or> c = CHR ''}'')"

lemma tail_ok_simps [simp]:
  "tail_ok []" "tail_ok (CHR '','' # r)" "tail_ok (CHR ''}'' # r)"
  by (simp_all add: tail_ok_def)

lemma tail_ok_number:
  "tail_ok r \<Longrightarrow> number_tail r \<and> takeWhile is_digit r = [] \<and> dropWhile is_digit r = r"
  by (auto simp: tail_ok_def number_tail_def is_digit_def split: list.splits)

lemma show_nat_leading_zero: "hd (show_nat n) = CHR ''0'' \<Longrightarrow> n = 0"
proof (induction n rule: show_nat.induct)
  case (1 n)
  show ?case
  proof (cases "n < 10")
    case True
    then have "of_char (digit_char n) = (of_char (CHR ''0'') :: nat)" using "1.prems" by (simp add: show_nat.simps [of n])
    with True show ?thesis by (simp add: of_char_digit)
  next
    case False
    then have "hd (show_nat (n div 10)) = CHR ''0''"
      using "1.prems" by (simp add: show_nat.simps [of n])
    with 1 False show ?thesis by simp
  qed
qed

lemma show_nat_no_zero: "\<not> (hd (show_nat n) = CHR ''0'' \<and> length (show_nat n) > 1)"
  using show_nat_leading_zero [of n] by (auto simp: show_nat.simps [of 0])

lemma split_digits:
  "tail_ok r \<Longrightarrow> takeWhile is_digit (show_nat n @ r) = show_nat n \<and> dropWhile is_digit (show_nat n @ r) = r"
  using show_nat_digits [of n] tail_ok_number [of r]
  by (simp add: list_all_iff takeWhile_append2 dropWhile_append2)

lemma show_nat_hd: "is_digit (hd (show_nat n))"
  using show_nat_digits [of n] by (cases "show_nat n") simp_all

lemma read_int_show_int: "tail_ok r \<Longrightarrow> json_read_int (show_int i @ r) = Some (i, r)"
proof -
  assume t: "tail_ok r"
  have "take 1 (show_nat n @ r) \<noteq> ''-''" for n
    using show_nat_hd [of n] by (cases "show_nat n") (auto simp: is_digit_def)
  then show ?thesis
    using t split_digits [OF t] show_nat_no_zero tail_ok_number [OF t]
    by (auto simp: json_read_int_def show_int_def Let_def)
qed

lemma skip_ws_simps [simp]:
  "skip_ws [] = []" "skip_ws (CHR '','' # r) = CHR '','' # r" "skip_ws (CHR ''}'' # r) = CHR ''}'' # r"
  "skip_ws (CHR ''{'' # r) = CHR ''{'' # r" "skip_ws (CHR '':'' # r) = CHR '':'' # r"
  "skip_ws (CHR 0x22 # r) = CHR 0x22 # r"
  by (simp_all add: skip_ws_def json_ws_def)

lemma int_first: "\<exists>c cs. show_int i @ r = c # cs \<and> c \<noteq> CHR ''{'' \<and> \<not> json_ws c"
proof (cases "i < 0")
  case False
  then have "is_digit (hd (show_int i))" by (simp add: show_int_def show_nat_hd)
  then show ?thesis
    by (cases "show_int i") (auto simp: is_digit_def json_ws_def)
qed (simp add: show_int_def json_ws_def)

lemma update_fresh: "k \<notin> set (dkeys d) \<Longrightarrow> AList.update k v d = d @ [(k, v)]"
  by (induction d) auto

lemma dict_update_fresh: "dict_ok (d @ e) \<Longrightarrow> dict_update d e = d @ e"
proof (induction e arbitrary: d)
  case (Cons kv e)
  obtain k v where kv: "kv = (k, v)" by force
  have "AList.update k v d = d @ [(k, v)]"
    using Cons.prems kv by (intro update_fresh) (simp add: dict_ok_def)
  with Cons kv show ?case by simp
qed simp

lemma json_join_Cons: "xs \<noteq> [] \<Longrightarrow> json_join (x # xs) = x @ CHR '','' # json_join xs"
  by (cases xs) simp_all

abbreviation json_member :: "string \<times> json \<Rightarrow> string" where
  "json_member \<equiv> \<lambda>(k, v). json_string k @ CHR '':'' # json_dumps v"

lemma join_first: "ms \<noteq> [] \<Longrightarrow> \<exists>y. json_join (map json_member ms) = CHR 0x22 # y"
  by (cases "map json_member ms" rule: json_join.cases) (auto simp: json_string_def)

lemma read_members:
  assumes "ms \<noteq> []"
    and "\<And>k v n r. (k, v) \<in> set ms \<Longrightarrow> length (json_dumps v) \<le> n \<Longrightarrow> tail_ok r \<Longrightarrow> json_read n (json_dumps v @ r) = Some (v, r)"
    and "length (json_join (map json_member ms)) < n"
  shows "json_members n (json_join (map json_member ms) @ CHR ''}'' # r) = Some (ms, r)"
  using assms
proof (induction ms arbitrary: n)
  case (Cons m ms)
  obtain k v where m: "m = (k, v)" by force
  obtain n' where n: "n = Suc n'" using Cons.prems(3) by (cases n) simp_all
  show ?case
  proof (cases "ms = []")
    case True
    have "json_read n' (json_dumps v @ CHR ''}'' # r) = Some (v, CHR ''}'' # r)"
      using Cons.prems(2) [of k v n'] Cons.prems(3) m n True by (simp add: json_string_def)
    with True m n show ?thesis by (simp add: json_string_def read_json_string)
  next
    case False
    let ?t = "CHR '','' # json_join (map json_member ms) @ CHR ''}'' # r"
    have "json_read n' (json_dumps v @ ?t) = Some (v, ?t)"
      using Cons.prems(2) [of k v n'] Cons.prems(3) m n False by (simp add: json_string_def json_join_Cons)
    moreover have "json_members n' (json_join (map json_member ms) @ CHR ''}'' # r) = Some (ms, r)"
    proof (rule Cons.IH [OF False])
      fix k' v' i t assume "(k', v') \<in> set ms" "length (json_dumps v') \<le> i" "tail_ok t"
      then show "json_read i (json_dumps v' @ t) = Some (v', t)" by (intro Cons.prems(2) [of k']) simp_all
    qed (use Cons.prems(3) m n False in \<open>simp add: json_string_def json_join_Cons\<close>)
    moreover obtain y where "json_join (map json_member ms) = CHR 0x22 # y"
      using join_first [OF False] by blast
    ultimately show ?thesis using m n False by (simp add: json_join_Cons json_string_def read_json_string)
  qed
qed simp

lemma json_read_dumps:
  "json_ok j \<Longrightarrow> length (json_dumps j) \<le> n \<Longrightarrow> tail_ok r \<Longrightarrow> json_read n (json_dumps j @ r) = Some (j, r)"
proof (induction j arbitrary: n r)
  case (JInt i)
  then obtain n' where "n = Suc n'" by (cases n) simp_all
  moreover obtain c cs where "show_int i @ r = c # cs" "c \<noteq> CHR ''{''" "\<not> json_ws c"
    using int_first [of i r] by auto
  moreover from this have "skip_ws (c # cs) = c # cs" by (simp add: skip_ws_def)
  ultimately show ?case using read_int_show_int [OF JInt.prems(3), of i] by simp
next
  case (JObj ms)
  then obtain n' where n: "n = Suc n'" by (cases n) simp_all
  show ?case
  proof (cases "ms = []")
    case False
    have "json_members n' (json_join (map json_member ms) @ CHR ''}'' # r) = Some (ms, r)"
    proof (rule read_members [OF False])
      fix k v m t assume "(k, v) \<in> set ms" "length (json_dumps v) \<le> m" "tail_ok t"
      with JObj.prems(1) show "json_read m (json_dumps v @ t) = Some (v, t)"
        by (intro JObj.IH [of "(k, v)" v]) auto
    qed (use JObj.prems(2) n in simp)
    moreover obtain y where "json_join (map json_member ms) = CHR 0x22 # y"
      using join_first [OF False] by blast
    ultimately show ?thesis using n JObj.prems(1) by (simp add: dict_update_fresh)
  qed (simp add: n)
qed

lemma json_loads_dumps: "json_ok j \<Longrightarrow> json_loads (json_dumps j) = Some j"
  using json_read_dumps [of j "length (json_dumps j)" "[]"] by (simp add: json_loads_def)

end
