(* ===== verification/Offsets.thy ===== *)
theory Offsets
  imports Json
begin

text \<open>
  \<open>docker/lake/offsets.py\<close>: the arithmetic of the exactly-once contract. An offset map is Python's
  \<open>{topic: {partition: offset}}\<close>; a snapshot summary is a dictionary of strings; a hole or a recorded
  gap is a tuple \<open>(topic, partition, first, last)\<close>. \<open>off\<close> looks a partition's offset up.
  A document whose leaves are not integers is outside \<open>Json\<close> and makes \<open>decode\<close> an error here.
\<close>

type_synonym parts = "(int \<times> int) list"
type_synonym offs = "(string \<times> parts) list"
type_synonym summary = "(string \<times> string) list"
type_synonym gap = "string \<times> int \<times> int \<times> int"
type_synonym loss = "string \<times> int \<times> int \<times> int \<times> int"

definition EARLIEST :: int where "EARLIEST = - 2"
definition LATEST :: int where "LATEST = - 1"

definition JOB :: string where "JOB = ''k2.job''"
definition KAFKA_OFFSETS :: string where "KAFKA_OFFSETS = ''k2.kafka-offsets''"
definition KAFKA_BACKLOG :: string where "KAFKA_BACKLOG = ''k2.kafka-backlog''"
definition MAX_KAFKA_TS :: string where "MAX_KAFKA_TS = ''k2.max-kafka-ts''"
definition SRC_SNAPSHOT_ID :: string where "SRC_SNAPSHOT_ID = ''k2.src-snapshot-id''"
definition AUDIT_FAILURES :: string where "AUDIT_FAILURES = ''k2.audit-failures''"
definition UNRESOLVABLE_IDS :: string where "UNRESOLVABLE_IDS = ''k2.unresolvable-schema-ids''"
definition OFFSET_GAPS :: string where "OFFSET_GAPS = ''k2.offset-gaps''"
definition JOB_INGEST :: string where "JOB_INGEST = ''ingest''"
definition JOB_DECODE :: string where "JOB_DECODE = ''decode''"
definition JOB_MAINTENANCE :: string where "JOB_MAINTENANCE = ''maintenance''"

section \<open>Looking offsets up\<close>

definition off :: "offs \<Rightarrow> string \<Rightarrow> int \<Rightarrow> int option" where
  "off d t p = Option.bind (map_of d t) (\<lambda>ps. map_of ps p)"

definition off0 :: "offs \<Rightarrow> string \<Rightarrow> int \<Rightarrow> int \<Rightarrow> int" where
  "off0 d t p v = dget (dget d t []) p v"

definition offs_ok :: "offs \<Rightarrow> bool" where
  "offs_ok d = (dict_ok d \<and> (\<forall>tp \<in> set d. dict_ok (snd tp)))"

lemma off0_off: "off0 d t p v = (case off d t p of None \<Rightarrow> v | Some x \<Rightarrow> x)"
  by (simp add: off0_def off_def dget_def split: option.splits)

lemma offs_okD [k2_ok]:
  "offs_ok d \<Longrightarrow> dict_ok d"
  "offs_ok d \<Longrightarrow> map_of d t = Some ps \<Longrightarrow> dict_ok ps"
  "offs_ok d \<Longrightarrow> (t, ps) \<in> set d \<Longrightarrow> dict_ok ps"
  by (force simp: offs_ok_def dest: map_of_SomeD)+

lemma mem_update: "x \<in> set (AList.update k v d) \<Longrightarrow> x = (k, v) \<or> x \<in> set d"
  by (induction d) (auto split: if_splits)

lemma dict_ok_dget: "offs_ok d \<Longrightarrow> dict_ok (dget d t [])"
  by (auto simp: dget_def dest: offs_okD split: option.splits)

lemma map_of_dget: "map_of (dget d t []) p = off d t p"
  by (simp add: dget_def off_def split: option.splits)

lemma offs_ok_update [simp]: "offs_ok d \<Longrightarrow> dict_ok ps \<Longrightarrow> offs_ok (AList.update t ps d)"
  by (auto simp: offs_ok_def dest!: mem_update)

lemma off_update: "off (AList.update t ps d) t' p = (if t' = t then map_of ps p else off d t' p)"
  by (simp add: off_def update_conv')

lemma off_map_val:
  "off (map (\<lambda>(t, ps). (t, map (\<lambda>(p, o1). (p, f t p o1)) ps)) d) t p = map_option (f t p) (off d t p)"
  by (simp add: off_def map_of_map_val split: option.splits bind_splits)

lemma offs_ok_map_val [simp]:
  "offs_ok d \<Longrightarrow> offs_ok (map (\<lambda>(t, ps). (t, map (\<lambda>(p, o1). (p, f t p o1)) ps)) d)"
  by (auto simp: offs_ok_def)

section \<open>The offsets as text\<close>

definition encode_parts :: "parts \<Rightarrow> json" where
  "encode_parts ps = JObj (map (\<lambda>(p, o1). (show_int p, JInt o1)) (sort_key fst ps))"

definition encode :: "offs \<Rightarrow> string" where
  "encode d = json_dumps (JObj (map (\<lambda>(t, ps). (t, encode_parts ps)) (sort_key fst d)))"

definition decode_part :: "string \<times> json \<Rightarrow> (int \<times> int) res" where
  "decode_part kv =
     (case kv of (p, o1) \<Rightarrow>
        (case py_int p of None \<Rightarrow> Inl ValueError
         | Some i \<Rightarrow> (case o1 of JInt n \<Rightarrow> Inr (i, n) | JObj _ \<Rightarrow> Inl TypeError)))"

definition decode_topic :: "string \<times> json \<Rightarrow> (string \<times> parts) res" where
  "decode_topic kv =
     (case kv of (t, JInt _) \<Rightarrow> Inl TypeError
      | (t, JObj ms) \<Rightarrow> res_bind (res_map decode_part ms) (\<lambda>ps. Inr (t, dict_update [] ps)))"

definition decode :: "string \<Rightarrow> offs res" where
  "decode raw =
     (case json_loads raw of None \<Rightarrow> Inl ValueError
      | Some (JInt _) \<Rightarrow> Inl TypeError
      | Some (JObj ms) \<Rightarrow> res_map decode_topic ms)"

lemma dict_ok_show: "dict_ok ps \<Longrightarrow> dict_ok (map (\<lambda>(p, o1). (show_int p, JInt o1)) ps)"
  by (simp add: dict_ok_def case_prod_unfold comp_def distinct_map inj_on_def show_int_inj)

lemma json_ok_parts: "dict_ok ps \<Longrightarrow> json_ok (encode_parts ps)"
  by (auto simp: encode_parts_def dict_ok_show)

lemma decode_parts:
  "dict_ok ps \<Longrightarrow> decode_topic (t, encode_parts ps) = Inr (t, sort_key fst ps)"
proof -
  assume ok: "dict_ok ps"
  have "res_map decode_part (map (\<lambda>(p, o1). (show_int p, JInt o1)) ps') = Inr ps'" for ps'
    by (induction ps') (auto simp: decode_part_def)
  moreover have "dict_update [] (sort_key fst ps) = sort_key fst ps"
    using ok dict_update_fresh [of "[]" "sort_key fst ps"] by simp
  ultimately show ?thesis by (simp add: decode_topic_def encode_parts_def)
qed

definition sorted_offs :: "offs \<Rightarrow> offs" where
  "sorted_offs d = map (\<lambda>(t, ps). (t, sort_key fst ps)) (sort_key fst d)"

lemma off_sorted: "offs_ok d \<Longrightarrow> off (sorted_offs d) t p = off d t p"
  by (auto simp: off_def sorted_offs_def map_of_map_val map_of_sort_key offs_okD
      split: option.splits bind_splits dest: offs_okD)

lemma offs_ok_sorted: "offs_ok d \<Longrightarrow> offs_ok (sorted_offs d)"
  by (auto simp: offs_ok_def sorted_offs_def)

lemma decode_encode_sorted: "offs_ok d \<Longrightarrow> decode (encode d) = Inr (sorted_offs d)"
proof -
  assume ok: "offs_ok d"
  let ?ms = "map (\<lambda>(t, ps). (t, encode_parts ps)) (sort_key fst d)"
  have "json_ok (JObj ?ms)"
    using ok by (auto simp: offs_ok_def json_ok_parts)
  moreover have "res_map decode_topic ?ms = Inr (sorted_offs d)"
    unfolding sorted_offs_def res_map_Inr_iff list_all2_map1 list_all2_map2
    using ok by (auto simp: offs_ok_def decode_parts list_all2_same)
  ultimately show ?thesis
    using json_loads_dumps [of "JObj ?ms"] unfolding decode_def encode_def
    by (simp del: json_dumps.simps json_ok.simps)
qed

section \<open>Where a run starts, where it stops\<close>

definition all_earliest :: "int \<Rightarrow> parts" where
  "all_earliest n = map (\<lambda>p. (p, EARLIEST)) [0..n - 1]"

definition next_starting_offsets :: "offs \<Rightarrow> (string \<times> int) list \<Rightarrow> offs" where
  "next_starting_offsets committed counts =
     map (\<lambda>(t, n). (t, dict_update (all_earliest n) (dget committed t []))) counts"

text \<open>One partition of \<open>bounded_offsets\<close>: the resolved start, the stop and what is left behind.\<close>

definition resolve_start :: "int \<Rightarrow> int \<Rightarrow> int \<Rightarrow> int" where
  "resolve_start offset first end_of_log =
     (if offset = EARLIEST then first else if offset = LATEST then end_of_log else offset)"

definition bounded_one :: "int \<Rightarrow> int \<Rightarrow> int \<Rightarrow> int \<Rightarrow> int option \<Rightarrow> int \<times> int \<times> int" where
  "bounded_one offset first end_of_log max_per_partition at_instant =
     (let start = resolve_start offset first end_of_log;
          stop1 = (case at_instant of None \<Rightarrow> end_of_log
                   | Some i \<Rightarrow> if i \<ge> 0 then min end_of_log i else end_of_log);
          stop2 = (if max_per_partition > 0 then min stop1 (start + max_per_partition) else stop1);
          stop = max stop2 start
      in (start, stop, max 0 (end_of_log - stop)))"

definition bounded_part ::
  "offs \<Rightarrow> offs \<Rightarrow> int \<Rightarrow> offs option \<Rightarrow> string \<Rightarrow> int \<Rightarrow> int \<Rightarrow> int \<times> int \<times> int" where
  "bounded_part earliest latest max_per_partition until topic part offset =
     (let first = off0 earliest topic part 0;
          end_of_log = off0 latest topic part first
      in bounded_one offset first end_of_log max_per_partition
           (map_option (\<lambda>u. off0 u topic part (- 1)) until))"

definition bounded_offsets ::
  "offs \<Rightarrow> offs \<Rightarrow> offs \<Rightarrow> int \<Rightarrow> offs option \<Rightarrow> offs \<times> offs \<times> (string \<times> int) list" where
  "bounded_offsets starting earliest latest max_per_partition until =
     (let one = bounded_part earliest latest max_per_partition until in
      (map (\<lambda>(t, ps). (t, map (\<lambda>(p, o1). (p, fst (one t p o1))) ps)) starting,
       map (\<lambda>(t, ps). (t, map (\<lambda>(p, o1). (p, fst (snd (one t p o1)))) ps)) starting,
       map (\<lambda>(t, ps). (t, sum_list (map (\<lambda>(p, o1). snd (snd (one t p o1))) ps))) starting))"

definition evicted :: "offs \<Rightarrow> offs \<Rightarrow> loss list" where
  "evicted starts earliest =
     concat (map (\<lambda>(t, ps).
       concat (map (\<lambda>(p, start).
         let log_start = off0 earliest t p 0 in
         if start < log_start then [(t, p, start, log_start, log_start - start)] else [])
         (sort_key fst ps))) starts)"

fun skip_evicted :: "offs \<Rightarrow> loss list \<Rightarrow> offs res" where
  "skip_evicted repaired [] = Inr repaired"
| "skip_evicted repaired ((t, p, _, log_start, _) # losses) =
     (case map_of repaired t of None \<Rightarrow> Inl KeyError
      | Some ps \<Rightarrow> skip_evicted (AList.update t (AList.update p log_start ps) repaired) losses)"

definition merge_committed :: "offs \<Rightarrow> offs \<Rightarrow> offs" where
  "merge_committed previous produced =
     foldl (\<lambda>merged (t, ps). AList.update t (dict_update (dget merged t []) ps) merged) previous produced"

section \<open>What the run relies on\<close>

lemma off_next_starting:
  assumes "offs_ok committed"
  shows "off (next_starting_offsets committed counts) t p =
     (case map_of counts t of None \<Rightarrow> None
      | Some n \<Rightarrow> (case off committed t p of Some x \<Rightarrow> Some x
                  | None \<Rightarrow> if 0 \<le> p \<and> p < n then Some EARLIEST else None))"
proof -
  have e: "map_of (all_earliest n) p = (if 0 \<le> p \<and> p < n then Some EARLIEST else None)" for n p
    by (simp add: all_earliest_def map_of_map_restrict restrict_map_def)
  have "off (next_starting_offsets committed counts) t p =
      Option.bind (map_option (\<lambda>n. dict_update (all_earliest n) (dget committed t [])) (map_of counts t)) (\<lambda>ps. map_of ps p)"
    by (simp add: off_def next_starting_offsets_def map_of_map_val)
  then show ?thesis
    using dict_ok_dget [OF assms, of t]
    by (auto simp: e map_of_dict_update map_add_def map_of_dget split: option.splits)
qed

lemma offs_ok_next_starting: "dict_ok counts \<Longrightarrow> offs_ok (next_starting_offsets committed counts)"
proof -
  have "dict_ok (all_earliest n)" for n
    by (simp add: dict_ok_def all_earliest_def comp_def)
  then show "dict_ok counts \<Longrightarrow> offs_ok (next_starting_offsets committed counts)"
    by (auto simp: offs_ok_def next_starting_offsets_def)
qed

lemma bounded_offsets_off:
  assumes "bounded_offsets starting earliest latest m until = (starts, ends, backlog)"
  shows "off starts t p = map_option (\<lambda>o1. fst (bounded_part earliest latest m until t p o1)) (off starting t p)"
    and "off ends t p = map_option (\<lambda>o1. fst (snd (bounded_part earliest latest m until t p o1))) (off starting t p)"
    and "offs_ok starting \<Longrightarrow> offs_ok starts" and "offs_ok starting \<Longrightarrow> offs_ok ends"
  using assms by (auto simp: bounded_offsets_def Let_def off_map_val)

lemma offs_ok_merge_step:
  "offs_ok d \<Longrightarrow> offs_ok (AList.update t (dict_update (dget d t []) ps) d)"
  by (simp add: dict_ok_dget)

lemma offs_ok_merge: "offs_ok previous \<Longrightarrow> offs_ok (merge_committed previous produced)"
  unfolding merge_committed_def
  by (rule foldl_pres [where P = offs_ok]) (auto simp: offs_ok_merge_step)

lemma off_merge_step:
  "offs_ok d \<Longrightarrow> dict_ok ps \<Longrightarrow>
   off (AList.update t (dict_update (dget d t []) ps) d) t' p =
     (if t' = t then (case map_of ps p of Some x \<Rightarrow> Some x | None \<Rightarrow> off d t' p) else off d t' p)"
  by (auto simp: off_update map_of_dict_update map_add_def map_of_dget split: option.splits)

lemma off_Cons: "off ((t', ps) # d) t p = (if t = t' then map_of ps p else off d t p)"
  by (simp add: off_def)

lemma off_merge:
  "offs_ok previous \<Longrightarrow> offs_ok produced \<Longrightarrow>
   off (merge_committed previous produced) t p =
     (case off produced t p of Some x \<Rightarrow> Some x | None \<Rightarrow> off previous t p)"
proof (induction produced arbitrary: previous)
  case Nil
  then show ?case by (simp add: merge_committed_def off_def)
next
  case (Cons tp produced)
  obtain t' ps where tp: "tp = (t', ps)" by force
  let ?prev = "AList.update t' (dict_update (dget previous t' []) ps) previous"
  have ok: "offs_ok ?prev" "offs_ok produced" "dict_ok ps" "t' \<notin> fst ` set produced"
    using Cons.prems(2) offs_ok_merge_step [OF Cons.prems(1)] by (auto simp: tp offs_ok_def [of produced] offs_ok_def [of "_ # _"] dict_ok_def)
  then have "off produced t' p = None" by (simp add: off_def map_of_eq_None_iff [symmetric])
  moreover have "merge_committed previous (tp # produced) = merge_committed ?prev produced"
    by (simp add: merge_committed_def tp)
  ultimately show ?case
    using Cons.IH [OF ok(1,2)] off_merge_step [OF Cons.prems(1) ok(3), of t' t p]
    by (auto simp: tp off_Cons split: option.splits)
qed

section \<open>Evicted partitions\<close>

lemma evicted_mem:
  assumes "offs_ok starts"
  shows "(t, p, s, l, n) \<in> set (evicted starts earliest) \<longleftrightarrow>
           off starts t p = Some s \<and> l = off0 earliest t p 0 \<and> s < l \<and> n = l - s"
proof -
  have "(t, p, s, l, n) \<in> set (evicted starts earliest) \<longleftrightarrow>
          (\<exists>ps. (t, ps) \<in> set starts \<and> (p, s) \<in> set ps \<and> l = off0 earliest t p 0 \<and> s < l \<and> n = l - s)"
    by (fastforce simp: evicted_def Let_def split: if_splits)
  also have "\<dots> \<longleftrightarrow> off starts t p = Some s \<and> l = off0 earliest t p 0 \<and> s < l \<and> n = l - s"
    using assms by (auto simp: off_def bind_eq_Some_conv map_of_mem offs_okD)
  finally show ?thesis .
qed

lemma evicted_Nil_iff:
  assumes "offs_ok starts"
  shows "evicted starts earliest = [] \<longleftrightarrow> (\<forall>t p s. off starts t p = Some s \<longrightarrow> off0 earliest t p 0 \<le> s)"
proof -
  have "evicted starts earliest = [] \<longleftrightarrow> (\<forall>t p s l n. (t, p, s, l, n) \<notin> set (evicted starts earliest))"
    by (metis list.set_intros(1) list.exhaust prod_cases5 empty_iff list.set(1))
  then show ?thesis by (auto simp: evicted_mem [OF assms] not_less)
qed

definition loss_start :: "loss list \<Rightarrow> string \<Rightarrow> int \<Rightarrow> int option" where
  "loss_start losses t p = map_of (map (\<lambda>(t, p, _, l, _). ((t, p), l)) (rev losses)) (t, p)"

lemma loss_start_simps [simp]:
  "loss_start [] t p = None"
  "loss_start ((t', p', s, l, n) # losses) t p =
     (case loss_start losses t p of Some k \<Rightarrow> Some k | None \<Rightarrow> if (t, p) = (t', p') then Some l else None)"
  by (auto simp: loss_start_def map_add_def split: option.splits)

lemma off_skip:
  assumes "offs_ok starts" and "\<forall>x \<in> set losses. fst x \<in> dom (map_of starts)"
  shows "\<exists>r. skip_evicted starts losses = Inr r \<and> offs_ok r \<and> dkeys r = dkeys starts \<and>
           (\<forall>t p. off r t p = (case loss_start losses t p of Some l \<Rightarrow> Some l | None \<Rightarrow> off starts t p))"
  using assms
proof (induction losses arbitrary: starts)
  case Nil
  then show ?case by (simp add: loss_start_def)
next
  case (Cons x losses)
  obtain t p s l n where x: "x = (t, p, s, l, n)" by (cases x) blast
  then obtain ps where ps: "map_of starts t = Some ps" using Cons.prems(2) by fastforce
  let ?st = "AList.update t (AList.update p l ps) starts"
  have mem: "t \<in> dom (map_of starts)" using ps by auto
  have ok: "offs_ok ?st" using Cons.prems(1) ps by (simp add: offs_okD)
  obtain r where r: "skip_evicted ?st losses = Inr r" "offs_ok r" "dkeys r = dkeys ?st"
      "\<And>t p. off r t p = (case loss_start losses t p of Some l \<Rightarrow> Some l | None \<Rightarrow> off ?st t p)"
  proof -
    have "\<forall>x \<in> set losses. fst x \<in> dom (map_of ?st)" using Cons.prems(2) by (auto simp: update_conv')
    from Cons.IH [OF ok this] show thesis using that by blast
  qed
  have "dkeys ?st = dkeys starts"
    using mem by (auto simp: update_keys dom_map_of_conv_image_fst)
  moreover have "off ?st t' p' = (if (t', p') = (t, p) then Some l else off starts t' p')" for t' p'
    using ps by (auto simp: off_update off_def update_conv')
  ultimately show ?case using ps r x
    by (intro exI [of _ r]) (simp split: option.splits)
qed

text \<open>The repair as one equation: a partition below the log start moves there, every other stays.\<close>

lemma loss_start_evicted:
  assumes "offs_ok starts"
  shows "loss_start (evicted starts earliest) t p =
     (case off starts t p of None \<Rightarrow> None
      | Some s \<Rightarrow> if s < off0 earliest t p 0 then Some (off0 earliest t p 0) else None)"
proof -
  let ?kv = "map (\<lambda>(t, p, _, l, _). ((t, p), l)) (rev (evicted starts earliest))"
  have mem: "((t, p), l) \<in> set ?kv \<longleftrightarrow>
      (\<exists>s. off starts t p = Some s \<and> l = off0 earliest t p 0 \<and> s < l)" for l
    using evicted_mem [OF assms] by (force simp: image_iff)
  show ?thesis
  proof (cases "map_of ?kv (t, p)")
    case None
    then have "\<And>l. ((t, p), l) \<notin> set ?kv" by (metis weak_map_of_SomeI option.distinct(1))
    then show ?thesis using mem None by (auto simp: loss_start_def split: option.splits)
  next
    case (Some l)
    then have "((t, p), l) \<in> set ?kv" by (rule map_of_SomeD)
    then show ?thesis using mem [of l] Some by (auto simp: loss_start_def)
  qed
qed

lemma skip_evicted_evicted:
  assumes "offs_ok starts"
  shows "\<exists>r. skip_evicted starts (evicted starts earliest) = Inr r \<and> offs_ok r \<and> dkeys r = dkeys starts \<and>
           (\<forall>t p. off r t p = map_option (\<lambda>s. max s (off0 earliest t p 0)) (off starts t p))"
proof -
  have "\<forall>x \<in> set (evicted starts earliest). fst x \<in> dom (map_of starts)"
    using evicted_mem [OF assms] by (fastforce simp: off_def bind_eq_Some_conv)
  moreover have "(case loss_start (evicted starts earliest) t p of Some l \<Rightarrow> Some l | None \<Rightarrow> off starts t p) =
      map_option (\<lambda>s. max s (off0 earliest t p 0)) (off starts t p)" for t p
    by (simp add: loss_start_evicted [OF assms] split: option.splits)
  ultimately show ?thesis using off_skip [OF assms, of "evicted starts earliest"] by simp
qed

section \<open>The newest commit of a job\<close>

text \<open>
  A snapshot is a pair of a commit time and a summary (\<open>None\<close> when the column is null). \<open>job_log\<close> is the
  contract of every reader of "the newest commit this job made": it looks at tagged entries only, so
  what other writers (compaction, expiry) append is invisible.
\<close>

definition of_job :: "string \<Rightarrow> summary option \<Rightarrow> bool" where
  "of_job job s = (case s of None \<Rightarrow> False | Some m \<Rightarrow> map_of m JOB = Some job)"

definition latest_summary :: "('t::linorder \<times> summary option) list \<Rightarrow> string \<Rightarrow> summary option" where
  "latest_summary snapshots job =
     (case py_max_by fst (filter (\<lambda>(_, s). of_job job s) snapshots) of None \<Rightarrow> None | Some (_, s) \<Rightarrow> s)"

locale job_log =
  fixes stamp :: "'a \<Rightarrow> 't::linorder"
    and tagged :: "'a \<Rightarrow> bool"
    and newest :: "'a list \<Rightarrow> 'a option"
  assumes newest: "newest xs = py_max_by stamp (filter tagged xs)"
begin

lemma newest_foreign: "\<not> tagged x \<Longrightarrow> newest (xs @ [x]) = newest xs"
  by (simp add: newest)

lemma newest_append:
  "tagged x \<Longrightarrow> (\<And>y. y \<in> set xs \<Longrightarrow> stamp y < stamp x) \<Longrightarrow> newest (xs @ [x]) = Some x"
  by (auto simp: newest intro: py_max_by_append_greater)

lemma newest_None: "newest xs = None \<longleftrightarrow> (\<forall>x \<in> set xs. \<not> tagged x)"
  by (simp add: newest filter_empty_conv)

lemma newest_mem: "newest xs = Some x \<Longrightarrow> x \<in> set xs \<and> tagged x"
  by (auto simp: newest dest: py_max_by_mem)

lemma newest_max: "newest xs = Some x \<Longrightarrow> y \<in> set xs \<Longrightarrow> tagged y \<Longrightarrow> stamp y \<le> stamp x"
  by (auto simp: newest dest: py_max_by_ge)

lemma newest_foreign_many: "(\<And>y. y \<in> set ys \<Longrightarrow> \<not> tagged y) \<Longrightarrow> newest (xs @ ys) = newest xs"
  by (simp add: newest filter_False)

end

interpretation job_summaries: job_log fst "\<lambda>(_, s). of_job job s"
  "\<lambda>snaps. py_max_by fst (filter (\<lambda>(_, s). of_job job s) snaps)" for job
  by unfold_locales simp

lemma latest_summary_append:
  "of_job job s \<Longrightarrow> (\<And>x. x \<in> set snaps \<Longrightarrow> fst x < ts) \<Longrightarrow> latest_summary (snaps @ [(ts, s)]) job = s"
  using job_summaries.newest_append [of job "(ts, s)" snaps] by (simp add: latest_summary_def)

lemma latest_summary_foreign:
  "\<not> of_job job s \<Longrightarrow> latest_summary (snaps @ [(ts, s)]) job = latest_summary snaps job"
  using job_summaries.newest_foreign [of job "(ts, s)" snaps] by (simp add: latest_summary_def)

section \<open>Continuity\<close>

record finding =
  scope :: string
  observed :: int
  detail :: string

definition scope_of :: "string \<Rightarrow> int \<Rightarrow> string" where
  "scope_of t p = t @ ''/'' @ show_int p"

definition offset_gap :: "string \<times> int \<times> int \<times> int \<times> int \<Rightarrow> finding list" where
  "offset_gap row =
     (case row of (t, p, n, lo, hi) \<Rightarrow>
        let expected = hi - lo + 1 in
        if expected = n then []
        else [\<lparr>scope = scope_of t p, observed = expected - n,
               detail = ''offsets '' @ show_int lo @ ''..'' @ show_int hi @ '' span '' @ show_int expected @
                 '' records but '' @ show_int n @ '' rows are present ('' @
                 (if expected > n then ''missing'' else ''duplicated'') @ '')''\<rparr>])"

definition offset_gaps :: "(string \<times> int \<times> int \<times> int \<times> int) list \<Rightarrow> finding list" where
  "offset_gaps rows = concat (map offset_gap rows)"

text \<open>The aggregate row of a partition's archived offsets.\<close>

definition gap_row :: "string \<Rightarrow> int \<Rightarrow> int list \<Rightarrow> string \<times> int \<times> int \<times> int \<times> int" where
  "gap_row t p os = (t, p, int (length os), Min (set os), Max (set os))"

section \<open>Recorded gaps\<close>

definition gap_offsets :: "int \<Rightarrow> int \<Rightarrow> string" where
  "gap_offsets committed log_start = ''committed '' @ show_int committed @ '', broker LOG-START '' @ show_int log_start"

fun strip_prefix :: "string \<Rightarrow> string \<Rightarrow> string option" where
  "strip_prefix [] s = Some s"
| "strip_prefix (c # cs) [] = None"
| "strip_prefix (c # cs) (d # ds) = (if c = d then strip_prefix cs ds else None)"

definition read_number :: "string \<Rightarrow> (int \<times> string) option" where
  "read_number s =
     (let ds = takeWhile is_digit s in
      if ds = [] then None else Some (int (digits_val ds), dropWhile is_digit s))"

definition gap_match :: "string \<Rightarrow> (int \<times> int) option" where
  "gap_match s =
     Option.bind (strip_prefix ''committed '' s) (\<lambda>s1.
     Option.bind (read_number s1) (\<lambda>(a, s2).
     Option.bind (strip_prefix '', broker LOG-START '' s2) (\<lambda>s3.
     Option.bind (read_number s3) (\<lambda>(b, _). Some (a, b)))))"

fun gap_search :: "string \<Rightarrow> (int \<times> int) option" where
  "gap_search [] = None"
| "gap_search (c # cs) = (case gap_match (c # cs) of Some r \<Rightarrow> Some r | None \<Rightarrow> gap_search cs)"

text \<open>\<open>str.rpartition("/")\<close>, without the separator: the topic is empty when there is none.\<close>

definition rpartition_slash :: "string \<Rightarrow> string \<times> string" where
  "rpartition_slash s =
     (let r = rev s; tail = rev (takeWhile (\<lambda>c. c \<noteq> CHR ''/'') r); front = dropWhile (\<lambda>c. c \<noteq> CHR ''/'') r
      in (rev (drop 1 front), tail))"

text \<open>\<open>str.isdigit\<close> below code point 256: the decimal digits and the three superscript digits, which
  \<open>int()\<close> then refuses.\<close>

definition py_isdigit :: "string \<Rightarrow> bool" where
  "py_isdigit s = (s \<noteq> [] \<and> list_all (\<lambda>c. is_digit c \<or> (of_char c :: nat) \<in> {178, 179, 185}) s)"

definition recorded_gap :: "string option \<times> string option \<Rightarrow> gap list res" where
  "recorded_gap row =
     (case row of (sc, det) \<Rightarrow>
        (case (gap_search (case det of None \<Rightarrow> [] | Some d \<Rightarrow> d),
               rpartition_slash (case sc of None \<Rightarrow> [] | Some x \<Rightarrow> x)) of
           (None, _) \<Rightarrow> Inr []
         | (Some (a, b), (topic, part)) \<Rightarrow>
             if \<not> py_isdigit part then Inr []
             else (case py_int part of None \<Rightarrow> Inl ValueError
                   | Some p \<Rightarrow> Inr [(topic, p, a, b - 1)])))"

definition recorded_gaps :: "(string option \<times> string option) list \<Rightarrow> gap list res" where
  "recorded_gaps rows = res_bind (res_map recorded_gap rows) (\<lambda>gs. Inr (concat gs))"

section \<open>Holes no recorded gap accounts for\<close>

definition covered_add :: "((string \<times> int) \<times> (int \<times> int) list) list \<Rightarrow> gap \<Rightarrow> ((string \<times> int) \<times> (int \<times> int) list) list" where
  "covered_add d g = (case g of (t, p, first, final) \<Rightarrow> AList.update (t, p) (dget d (t, p) [] @ [(first, final)]) d)"

definition cursor_step :: "int \<Rightarrow> int \<times> int \<Rightarrow> int" where
  "cursor_step cursor r = (case r of (lo, hi) \<Rightarrow> if lo \<le> cursor \<and> cursor \<le> hi then hi + 1 else cursor)"

definition uncovered_holes :: "gap list \<Rightarrow> gap list \<Rightarrow> gap list" where
  "uncovered_holes holes gaps =
     (let covered = foldl covered_add [] gaps in
      filter (\<lambda>(t, p, first, final).
        foldl cursor_step first (sort (dget covered (t, p) [])) \<le> final) holes)"

lemma covered_gaps:
  "dget (foldl covered_add d gaps) (t, p) [] =
     dget d (t, p) [] @ map (\<lambda>(_, _, r). r) (filter (\<lambda>(t', p', _). (t', p') = (t, p)) gaps)"
proof (induction gaps arbitrary: d)
  case (Cons g gaps)
  obtain t' p' a b where "g = (t', p', a, b)" by (cases g) blast
  then show ?case by (simp add: Cons.IH) (auto simp: covered_add_def dget_def update_conv')
qed simp

lemma cursor_mono: "foldl cursor_step c rs \<ge> c"
proof (induction rs arbitrary: c)
  case (Cons r rs)
  have "c \<le> cursor_step c r" by (auto simp: cursor_step_def split: prod.splits)
  then show ?case using Cons.IH [of "cursor_step c r"] by simp
qed simp

lemma cursor_covered:
  "c \<le> x \<Longrightarrow> x < foldl cursor_step c rs \<Longrightarrow> \<exists>(lo, hi) \<in> set rs. lo \<le> x \<and> x \<le> hi"
proof (induction rs arbitrary: c)
  case (Cons r rs)
  show ?case
  proof (cases "x < cursor_step c r")
    case True
    with Cons.prems(1) show ?thesis by (auto simp: cursor_step_def split: prod.splits if_splits)
  next
    case False
    with Cons.IH [of "cursor_step c r"] Cons.prems show ?thesis by auto
  qed
qed simp

lemma cursor_stuck: "\<forall>r \<in> set rs. c < fst r \<Longrightarrow> foldl cursor_step c rs = c"
  by (induction rs) (auto simp: cursor_step_def)

lemma cursor_end_uncovered:
  "sorted rs \<Longrightarrow> (lo, hi) \<in> set rs \<Longrightarrow> \<not> (lo \<le> foldl cursor_step c rs \<and> foldl cursor_step c rs \<le> hi)"
proof (induction rs arbitrary: c)
  case (Cons r rs)
  show ?case
  proof (cases "(lo, hi) = r")
    case False
    with Cons show ?thesis by auto
  next
    case True
    have later: "lo \<le> fst r'" if "r' \<in> set rs" for r'
      using Cons.prems(1) that True by (cases r') (auto simp: less_eq_prod_def)
    show ?thesis
    proof (cases "cursor_step c r < lo")
      case True
      then have "foldl cursor_step (cursor_step c r) rs = cursor_step c r"
        using later by (intro cursor_stuck) fastforce
      with True show ?thesis by simp
    next
      case False
      then have "hi < cursor_step c r" using True [symmetric] by (auto simp: cursor_step_def split: if_splits)
      then show ?thesis using cursor_mono [of "cursor_step c r" rs] by simp
    qed
  qed
qed simp

lemma cursor_reaches:
  assumes "sorted rs"
  shows "foldl cursor_step c rs \<le> final \<longleftrightarrow> (\<exists>x \<ge> c. x \<le> final \<and> (\<forall>(lo, hi) \<in> set rs. \<not> (lo \<le> x \<and> x \<le> hi)))"
proof
  assume "foldl cursor_step c rs \<le> final"
  then show "\<exists>x \<ge> c. x \<le> final \<and> (\<forall>(lo, hi) \<in> set rs. \<not> (lo \<le> x \<and> x \<le> hi))"
    using cursor_end_uncovered [OF assms] cursor_mono [of c rs] by (intro exI [of _ "foldl cursor_step c rs"]) blast
next
  assume "\<exists>x \<ge> c. x \<le> final \<and> (\<forall>(lo, hi) \<in> set rs. \<not> (lo \<le> x \<and> x \<le> hi))"
  then obtain x where x: "c \<le> x" "x \<le> final" "\<forall>(lo, hi) \<in> set rs. \<not> (lo \<le> x \<and> x \<le> hi)" by blast
  then show "foldl cursor_step c rs \<le> final" using cursor_covered [of c x rs] by force
qed

section \<open>Acknowledged windows\<close>

fun iso_like :: "string \<Rightarrow> string \<Rightarrow> bool" where
  "iso_like [] s = (s = [])"
| "iso_like (t # ts) [] = False"
| "iso_like (t # ts) (c # cs) = ((if t = CHR ''0'' then is_digit c else c = t) \<and> iso_like ts cs)"

definition iso_template :: string where "iso_template = ''0000-00-00T00:00:00Z''"

definition ack_match :: "string \<Rightarrow> (string \<times> string) option" where
  "ack_match s =
     Option.bind (strip_prefix ''from '' s) (\<lambda>s1.
     if \<not> iso_like iso_template (take 20 s1) then None else
     Option.bind (strip_prefix '' to '' (drop 20 s1)) (\<lambda>s2.
     if \<not> iso_like iso_template (take 20 s2) then None else Some (take 20 s1, take 20 s2)))"

fun ack_search :: "string \<Rightarrow> (string \<times> string) option" where
  "ack_search [] = None"
| "ack_search (c # cs) = (case ack_match (c # cs) of Some r \<Rightarrow> Some r | None \<Rightarrow> ack_search cs)"

definition ack_text :: "string \<Rightarrow> string" where
  "ack_text g = map (\<lambda>c. if c = CHR ''T'' then CHR '' '' else c) (rev (dropWhile (\<lambda>c. c = CHR ''Z'') (rev g)))"

definition ack_window :: "string option \<Rightarrow> (string \<times> string) option" where
  "ack_window det = map_option (\<lambda>(a, b). (ack_text a, ack_text b)) (ack_search (case det of None \<Rightarrow> [] | Some d \<Rightarrow> d))"

section \<open>Reading a recorded gap back\<close>

lemma strip_prefix_append [simp]: "strip_prefix p (p @ s) = Some s"
  by (induction p) simp_all

lemma strip_prefix_Some: "strip_prefix p s = Some r \<longleftrightarrow> s = p @ r"
  by (induction p s rule: strip_prefix.induct) auto

lemma read_number_show:
  assumes "0 \<le> i" and "case r of [] \<Rightarrow> True | c # _ \<Rightarrow> \<not> is_digit c"
  shows "read_number (show_int i @ r) = Some (i, r)"
proof -
  have "takeWhile is_digit r = [] \<and> dropWhile is_digit r = r"
    using assms(2) by (cases r) simp_all
  then have "takeWhile is_digit (show_int i @ r) = show_int i \<and> dropWhile is_digit (show_int i @ r) = r"
    using show_int_nonneg_digits [OF assms(1)] by (simp add: list_all_iff takeWhile_append2 dropWhile_append2)
  moreover have "int (digits_val (show_int i)) = i" using assms(1) by (simp add: show_int_def)
  ultimately show ?thesis by (simp add: read_number_def)
qed

lemma gap_match_offsets:
  assumes "0 \<le> a" and "0 \<le> b" and "case r of [] \<Rightarrow> True | c # _ \<Rightarrow> \<not> is_digit c"
  shows "gap_match (gap_offsets a b @ r) = Some (a, b)"
proof -
  have "read_number (show_int a @ '', broker LOG-START '' @ show_int b @ r) = Some (a, '', broker LOG-START '' @ show_int b @ r)"
    using read_number_show [OF assms(1), of "'', broker LOG-START '' @ show_int b @ r"] by (simp add: is_digit_def)
  then show ?thesis
    using read_number_show [OF assms(2,3)]
      strip_prefix_append [of "''committed ''" "show_int a @ '', broker LOG-START '' @ show_int b @ r"]
      strip_prefix_append [of "'', broker LOG-START ''" "show_int b @ r"]
    unfolding gap_match_def gap_offsets_def by (simp del: strip_prefix_append strip_prefix.simps)
qed

lemma gap_search_match: "gap_match s = Some r \<Longrightarrow> gap_search s = Some r"
  by (cases s) (simp_all add: gap_match_def)

text \<open>A word (no blank inside) that does not end in "committed" cannot start a match.\<close>

definition plain_word :: "string \<Rightarrow> bool" where
  "plain_word w = (CHR '' '' \<notin> set w \<and> drop (length w - 9) w \<noteq> ''committed'')"

lemma committed_word:
  assumes "CHR '' '' \<notin> set w" and "w @ CHR '' '' # s = ''committed '' @ r"
  shows "w = ''committed''"
proof -
  have "takeWhile (\<lambda>c. c \<noteq> CHR '' '') (w @ CHR '' '' # s) = w"
    using assms(1) by (induction w) auto
  moreover have "takeWhile (\<lambda>c. c \<noteq> CHR '' '') (''committed '' @ r) = ''committed''" by simp
  ultimately show ?thesis using assms(2) by simp
qed

lemma gap_search_word: "plain_word w \<Longrightarrow> gap_search (w @ CHR '' '' # s) = gap_search s"
proof (induction w)
  case Nil
  then show ?case by (simp add: gap_match_def)
next
  case (Cons c w)
  then have w: "CHR '' '' \<notin> set (c # w)" "c # w \<noteq> ''committed''"
    by (auto simp: plain_word_def)
  have "strip_prefix ''committed '' ((c # w) @ CHR '' '' # s) = None"
  proof (rule ccontr)
    assume "\<not> ?thesis"
    then obtain r where "(c # w) @ CHR '' '' # s = ''committed '' @ r"
      by (auto simp only: not_None_eq strip_prefix_Some)
    with committed_word [OF w(1)] w(2) show False by blast
  qed
  then have "gap_match ((c # w) @ CHR '' '' # s) = None" unfolding gap_match_def by simp
  moreover have "plain_word w"
  proof (cases "length w < 9")
    case True
    then have "length (drop (length w - 9) w) < length ''committed''" by simp
    then show ?thesis using Cons.prems by (auto simp: plain_word_def)
  next
    case False
    then have "length (c # w) - 9 = Suc (length w - 9)" by simp
    then show ?thesis using Cons.prems by (simp add: plain_word_def)
  qed
  ultimately show ?case using Cons.IH by simp
qed

lemma show_nat_char: "c \<in> set (show_nat n) \<Longrightarrow> is_digit c"
  using show_nat_digits [of n] by (simp add: list_all_iff)

lemma rpartition_scope: "rpartition_slash (scope_of t p) = (t, show_int p)"
proof -
  have "CHR ''/'' \<notin> set (show_int p)"
    using show_nat_char [of "CHR ''/''"] by (auto simp: show_int_def is_digit_def [of "CHR ''/''"])
  then have all: "\<And>c. c \<in> set (rev (show_int p)) \<Longrightarrow> c \<noteq> CHR ''/''" by auto
  have "takeWhile (\<lambda>c. c \<noteq> CHR ''/'') (rev (show_int p) @ CHR ''/'' # x) = rev (show_int p)"
    and "dropWhile (\<lambda>c. c \<noteq> CHR ''/'') (rev (show_int p) @ CHR ''/'' # x) = CHR ''/'' # x" for x
    using all by (subst takeWhile_append2 dropWhile_append2; auto)+
  then show ?thesis by (simp add: rpartition_slash_def scope_of_def)
qed

lemma recorded_gap_scope:
  assumes "gap_search d = Some (a, b)" and "0 \<le> p"
  shows "recorded_gap (Some (scope_of t p), Some d) = Inr [(t, p, a, b - 1)]"
proof -
  have "py_isdigit (show_int p)"
    using show_int_nonneg_digits [OF assms(2)] by (auto simp: py_isdigit_def list_all_iff)
  with assms(1) show ?thesis by (simp add: recorded_gap_def rpartition_scope)
qed

section \<open>Properties\<close>

lemma bounded_one_window:
  assumes "bounded_one offset first end_of_log m at = (s, e, left)"
    and "i = (case at of None \<Rightarrow> - 1 | Some i \<Rightarrow> i)"
  shows "s = resolve_start offset first end_of_log \<and> s \<le> e \<and> e \<le> max s end_of_log \<and>
      (m \<le> 0 \<or> e \<le> s + m) \<and> (i < 0 \<or> e \<le> max s i) \<and>
      (e = s \<or> e = end_of_log \<or> (0 < m \<and> e = s + m) \<or> (0 \<le> i \<and> e = i))"
  using assms by (auto simp: bounded_one_def Let_def max_def min_def split: if_splits option.splits)

lemma bounded_one_level: "0 \<le> o1 \<Longrightarrow> end_of_log \<le> o1 \<Longrightarrow> bounded_one o1 first end_of_log m None = (o1, o1, 0)"
  by (auto simp: bounded_one_def resolve_start_def EARLIEST_def LATEST_def Let_def)

lemma bounded_window:
  assumes "bounded_offsets starting earliest latest m until = (starts, ends, backlog)"
    and "off starting t p = Some o1"
  shows "\<exists>s e. off starts t p = Some s \<and> off ends t p = Some e \<and>
     (let first = off0 earliest t p 0; end_of_log = off0 latest t p first;
          at = (case until of None \<Rightarrow> - 1 | Some u \<Rightarrow> off0 u t p (- 1)) in
      s = resolve_start o1 first end_of_log \<and> s \<le> e \<and> e \<le> max s end_of_log \<and>
      (m \<le> 0 \<or> e \<le> s + m) \<and> (at < 0 \<or> e \<le> max s at) \<and>
      (e = s \<or> e = end_of_log \<or> (0 < m \<and> e = s + m) \<or> (0 \<le> at \<and> e = at)))"
proof -
  let ?first = "off0 earliest t p 0"
  let ?eol = "off0 latest t p ?first"
  let ?at = "map_option (\<lambda>u. off0 u t p (- 1)) until"
  obtain s e l where b: "bounded_part earliest latest m until t p o1 = (s, e, l)" by (cases "bounded_part earliest latest m until t p o1")
  then have w: "bounded_one o1 ?first ?eol m ?at = (s, e, l)" by (simp add: bounded_part_def Let_def)
  show ?thesis
    using bounded_offsets_off(1,2) [OF assms(1), of t p] assms(2) b bounded_one_window [OF w refl]
    by (cases until) (clarsimp simp: Let_def)+
qed

lemma bounded_facts:
  assumes "bounded_offsets starting earliest latest m until = (starts, ends, backlog)"
    and "off starting t p = Some o1" and "o1 = EARLIEST \<or> 0 \<le> o1" and "0 \<le> off0 earliest t p 0"
  shows "\<exists>s e. off starts t p = Some s \<and> off ends t p = Some e \<and> 0 \<le> s \<and> s \<le> e \<and>
           (0 \<le> o1 \<longrightarrow> s = o1) \<and> (o1 = EARLIEST \<longrightarrow> s = off0 earliest t p 0) \<and>
           (s = e \<or> e \<le> off0 latest t p (off0 earliest t p 0))"
proof -
  obtain s e where w: "off starts t p = Some s" "off ends t p = Some e"
      "s = resolve_start o1 (off0 earliest t p 0) (off0 latest t p (off0 earliest t p 0))" "s \<le> e"
      "e \<le> max s (off0 latest t p (off0 earliest t p 0))"
    using bounded_window [OF assms(1,2)] by (auto simp: Let_def)
  moreover have "0 \<le> o1 \<longrightarrow> s = o1" and "o1 = EARLIEST \<longrightarrow> s = off0 earliest t p 0"
    using w(3) by (auto simp: resolve_start_def EARLIEST_def LATEST_def)
  ultimately show ?thesis using assms(3,4) by auto
qed

text \<open>
  Every partition of a run is read from its resolved start (the committed offset copied verbatim,
  or the sentinel's meaning) to an end that never lies before it, never past the log end or past the
  first record at \<open>--end-timestamp\<close>, and never more than the bound ahead; and the end is one of those
  limits, so nothing short of a limit is left unread.
\<close>
theorem bounded_offsets_window:
  assumes "bounded_offsets starting earliest latest m until = (starts, ends, backlog)"
    and "off starting t p = Some o1"
  shows "\<exists>s e. off starts t p = Some s \<and> off ends t p = Some e \<and>
     (let first = off0 earliest t p 0; end_of_log = off0 latest t p first;
          at = (case until of None \<Rightarrow> - 1 | Some u \<Rightarrow> off0 u t p (- 1)) in
      s = resolve_start o1 first end_of_log \<and> s \<le> e \<and> e \<le> max s end_of_log \<and>
      (m \<le> 0 \<or> e \<le> s + m) \<and> (at < 0 \<or> e \<le> max s at) \<and>
      (e = s \<or> e = end_of_log \<or> (0 < m \<and> e = s + m) \<or> (0 \<le> at \<and> e = at)))"
  using assms by (rule bounded_window)

lemma bounded_offsets_window_witness:
  "\<exists>s e. off [(''t'', [(0, 10)])] ''t'' 0 = Some s \<and> off [(''t'', [(0, 15)])] ''t'' 0 = Some e \<and>
     (let first = off0 [(''t'', [(0, 3)])] ''t'' 0 0; end_of_log = off0 [(''t'', [(0, 40)])] ''t'' 0 first;
          at = (case None :: offs option of None \<Rightarrow> - 1 | Some u \<Rightarrow> off0 u ''t'' 0 (- 1)) in
      s = resolve_start 10 first end_of_log \<and> s \<le> e \<and> e \<le> max s end_of_log \<and>
      ((5::int) \<le> 0 \<or> e \<le> s + 5) \<and> (at < 0 \<or> e \<le> max s at) \<and>
      (e = s \<or> e = end_of_log \<or> (0 < (5::int) \<and> e = s + 5) \<or> (0 \<le> at \<and> e = at)))"
  by (rule bounded_offsets_window [where starting = "[(''t'', [(0, 10)])]" and backlog = "[(''t'', 25)]"])
    (simp_all add: bounded_offsets_def bounded_part_def bounded_one_def resolve_start_def off0_def off_def
      EARLIEST_def LATEST_def)

text \<open>
  The repair behind \<open>--accept-data-loss\<close> moves exactly the evicted partitions, exactly to the log
  start, never fails on what \<open>evicted\<close> reported, and leaves nothing evicted.
\<close>
theorem skip_evicted_repairs:
  assumes "offs_ok starts"
  shows "\<exists>r. skip_evicted starts (evicted starts earliest) = Inr r \<and> evicted r earliest = [] \<and>
           (\<forall>t p. off r t p = map_option (\<lambda>s. max s (off0 earliest t p 0)) (off starts t p))"
proof -
  obtain r where r: "skip_evicted starts (evicted starts earliest) = Inr r" "offs_ok r"
      "\<forall>t p. off r t p = map_option (\<lambda>s. max s (off0 earliest t p 0)) (off starts t p)"
    using skip_evicted_evicted [OF assms] by blast
  then have "evicted r earliest = []" by (auto simp: evicted_Nil_iff)
  with r show ?thesis by blast
qed

lemma skip_evicted_repairs_witness:
  "\<exists>r. skip_evicted [(''t'', [(0, 4), (1, 9)])] (evicted [(''t'', [(0, 4), (1, 9)])] [(''t'', [(0, 7), (1, 2)])]) = Inr r \<and>
     evicted r [(''t'', [(0, 7), (1, 2)])] = [] \<and>
     (\<forall>t p. off r t p = map_option (\<lambda>s. max s (off0 [(''t'', [(0, 7), (1, 2)])] t p 0)) (off [(''t'', [(0, 4), (1, 9)])] t p))"
  by (rule skip_evicted_repairs) (simp add: offs_ok_def dict_ok_def)

text \<open>
  C16. The offsets written into a snapshot summary are the offsets read back: the same value for every
  topic and partition, and no other.
\<close>
theorem decode_encode:
  assumes "offs_ok d"
  shows "\<exists>d'. decode (encode d) = Inr d' \<and> offs_ok d' \<and> (\<forall>t p. off d' t p = off d t p)"
  using decode_encode_sorted [OF assms] off_sorted [OF assms] offs_ok_sorted [OF assms] by blast

lemma decode_encode_witness:
  "\<exists>d'. decode (encode [(''b'', [(1, 20), (0, 10)]), (''a'', [])]) = Inr d' \<and> offs_ok d' \<and>
     (\<forall>t p. off d' t p = off [(''b'', [(1, 20), (0, 10)]), (''a'', [])] t p)"
  by (rule decode_encode) (simp add: offs_ok_def dict_ok_def)

lemma uncovered_holes_mem:
  "(t, p, first, final) \<in> set (uncovered_holes holes gaps) \<longleftrightarrow>
     (t, p, first, final) \<in> set holes \<and>
     (\<exists>x \<ge> first. x \<le> final \<and> (t, p, x) \<notin> {(t', p', y). \<exists>lo hi. (t', p', lo, hi) \<in> set gaps \<and> lo \<le> y \<and> y \<le> hi})"
proof -
  let ?rs = "map (\<lambda>(_, _, r). r) (filter (\<lambda>(t', p', _). (t', p') = (t, p)) gaps)"
  have c: "dget (foldl covered_add [] gaps) (t, p) [] = ?rs" by (simp add: covered_gaps)
  have m: "(lo, hi) \<in> set ?rs \<longleftrightarrow> (t, p, lo, hi) \<in> set gaps" for lo hi by force
  have "foldl cursor_step first (sort ?rs) \<le> final \<longleftrightarrow>
      (\<exists>x \<ge> first. x \<le> final \<and> (\<forall>(lo, hi) \<in> set ?rs. \<not> (lo \<le> x \<and> x \<le> hi)))"
    by (simp add: cursor_reaches)
  also have "\<dots> \<longleftrightarrow> (\<exists>x \<ge> first. x \<le> final \<and>
      (t, p, x) \<notin> {(t', p', y). \<exists>lo hi. (t', p', lo, hi) \<in> set gaps \<and> lo \<le> y \<and> y \<le> hi})"
    using m by (simp only: Ball_def split_paired_All mem_Collect_eq prod.case) blast
  finally show ?thesis by (simp add: uncovered_holes_def c)
qed

text \<open>
  A hole survives the netting exactly when one of its offsets lies in no gap recorded for its own
  topic and partition: coverage is by the union of the gaps, and partial coverage is none.
\<close>
theorem uncovered_holes_exact:
  "(t, p, first, final) \<in> set (uncovered_holes holes gaps) \<longleftrightarrow>
     (t, p, first, final) \<in> set holes \<and>
     (\<exists>x \<ge> first. x \<le> final \<and> (t, p, x) \<notin> {(t', p', y). \<exists>lo hi. (t', p', lo, hi) \<in> set gaps \<and> lo \<le> y \<and> y \<le> hi})"
  by (rule uncovered_holes_mem)

text \<open>
  What the continuity check reports for a partition is the number of missing offsets minus the
  number of surplus copies; so a partition archived without duplicates is reported exactly when an
  offset is missing, but one duplicate hides one hole.
\<close>
theorem offset_gaps_net:
  assumes "os \<noteq> []"
  shows "(case offset_gaps [gap_row t p os] of
            [] \<Rightarrow> card ({Min (set os)..Max (set os)} - set os) = length os - card (set os)
          | f # fs \<Rightarrow> fs = [] \<and> scope f = scope_of t p \<and> observed f \<noteq> 0 \<and>
              observed f = int (card ({Min (set os)..Max (set os)} - set os)) - int (length os - card (set os)))"
proof -
  let ?lo = "Min (set os)" and ?hi = "Max (set os)"
  have sub: "set os \<subseteq> {?lo..?hi}" by auto
  have ne: "?lo \<le> ?hi" using assms by (metis List.finite_set Min_le Max_ge order_trans set_empty2 ex_in_conv)
  have "card ({?lo..?hi} - set os) = card {?lo..?hi} - card (set os)"
    by (rule card_Diff_subset) (use sub in auto)
  moreover have "card (set os) \<le> card {?lo..?hi}" by (rule card_mono) (use sub in auto)
  moreover have "int (card {?lo..?hi}) = ?hi - ?lo + 1" using ne by simp
  moreover have "card (set os) \<le> length os" by (rule card_length)
  ultimately have k: "?hi - ?lo + 1 - int (length os) =
      int (card ({?lo..?hi} - set os)) - int (length os - card (set os))"
    by linarith
  then show ?thesis by (auto simp: offset_gaps_def offset_gap_def gap_row_def Let_def)
qed

lemma offset_gaps_net_witness:
  "(case offset_gaps [gap_row ''t'' 0 [3, 5, 6]] of
      [] \<Rightarrow> card ({Min (set [3, 5, 6])..Max (set [3, 5, 6])} - set [3, 5, 6 :: int]) = length [3, 5, 6 :: int] - card (set [3, 5, 6 :: int])
    | f # fs \<Rightarrow> fs = [] \<and> scope f = scope_of ''t'' 0 \<and> observed f \<noteq> 0 \<and>
        observed f = int (card ({Min (set [3, 5, 6])..Max (set [3, 5, 6])} - set [3, 5, 6 :: int])) -
          int (length [3, 5, 6 :: int] - card (set [3, 5, 6 :: int])))"
  by (rule offset_gaps_net) simp

lemma drain_step:
  assumes "0 \<le> s" and "s \<le> end_of_log" and "0 < m"
  shows "fst (snd (bounded_one s first end_of_log m None)) = min end_of_log (s + m)"
  using assms by (auto simp: bounded_one_def resolve_start_def EARLIEST_def LATEST_def Let_def max_def min_def)



end
