(* ===== verification/Iceberg.thy ===== *)
theory Iceberg
  imports Offsets
begin

text \<open>
  \<open>docker/lake/catalog.py\<close> and the part of an Iceberg table the lake sees. A table is its list of
  commits, oldest first (Iceberg commits are atomic and serialised), and the snapshot its \<open>main\<close>
  reference names. A commit carries an id, its commit time, a summary and the rows it appended; a
  rewrite (compaction) is a commit that appends nothing and changes no row. What a table's readers see
  is a function of that list: \<open>rows_at\<close> and the incremental \<open>rows_between\<close>, which the library refuses
  when the start is not a proper ancestor of the end.

  The broker's answers, the registry's replies, commit ids and commit times are arguments.
\<close>

section \<open>Tables\<close>

record 'r snapshot =
  snap_id :: int
  committed_at :: int
  summ :: "summary option"
  added :: "'r list"

record 'r table =
  snaps :: "'r snapshot list"
  main_ref :: "int option"

definition empty_table :: "'r table" where
  "empty_table = \<lparr>snaps = [], main_ref = None\<rparr>"

text \<open>What Iceberg puts in the summary of an append, beside the writer's properties.\<close>

definition commit_summary :: "summary \<Rightarrow> 'r list \<Rightarrow> summary" where
  "commit_summary props rows =
     props @ (if rows = [] then [] else [(''added-records'', show_int (int (length rows)))])"

definition table_append :: "'r table \<Rightarrow> int \<Rightarrow> int \<Rightarrow> summary \<Rightarrow> 'r list \<Rightarrow> 'r table" where
  "table_append t i ts props rows =
     \<lparr>snaps = snaps t @ [\<lparr>snap_id = i, committed_at = ts, summ = Some (commit_summary props rows), added = rows\<rparr>],
      main_ref = Some i\<rparr>"

text \<open>A commit by another writer (compaction, expiry) that leaves the rows as they are.\<close>

definition table_rewrite :: "'r table \<Rightarrow> int \<Rightarrow> int \<Rightarrow> summary option \<Rightarrow> 'r table" where
  "table_rewrite t i ts s =
     \<lparr>snaps = snaps t @ [\<lparr>snap_id = i, committed_at = ts, summ = s, added = []\<rparr>], main_ref = Some i\<rparr>"

definition table_rows :: "'r table \<Rightarrow> 'r list" where
  "table_rows t = concat (map added (snaps t))"

fun upto_snap :: "int \<Rightarrow> 'r snapshot list \<Rightarrow> 'r snapshot list" where
  "upto_snap i [] = []"
| "upto_snap i (s # ss) = s # (if snap_id s = i then [] else upto_snap i ss)"

fun after_snap :: "int \<Rightarrow> 'r snapshot list \<Rightarrow> 'r snapshot list" where
  "after_snap i [] = []"
| "after_snap i (s # ss) = (if snap_id s = i then ss else after_snap i ss)"

definition rows_at :: "'r table \<Rightarrow> int \<Rightarrow> 'r list" where
  "rows_at t i = concat (map added (upto_snap i (snaps t)))"

definition rows_between :: "'r table \<Rightarrow> int \<Rightarrow> int \<Rightarrow> 'r list res" where
  "rows_between t i j =
     (let later = after_snap i (snaps t) in
      if i \<in> set (map snap_id (snaps t)) \<and> j \<in> set (map snap_id later)
      then Inr (concat (map added (upto_snap j later)))
      else Inl ValueError)"

section \<open>catalog.py\<close>

definition snapshot_history :: "'r table \<Rightarrow> (int \<times> summary option) list" where
  "snapshot_history t =
     map (\<lambda>s. (committed_at s, Some (case summ s of None \<Rightarrow> [] | Some m \<Rightarrow> m))) (snaps t)"

definition current_snapshot_id :: "'r table \<Rightarrow> int option" where
  "current_snapshot_id t = main_ref t"

definition added_records :: "'r table \<Rightarrow> int res" where
  "added_records t =
     (case current_snapshot_id t of None \<Rightarrow> Inr 0
      | Some i \<Rightarrow>
          (case filter (\<lambda>s. snap_id s = i) (snaps t) of
             [] \<Rightarrow> Inr 0
           | s # _ \<Rightarrow>
               (case map_of (case summ s of None \<Rightarrow> [] | Some m \<Rightarrow> m) ''added-records'' of
                  None \<Rightarrow> Inr 0
                | Some v \<Rightarrow> (case py_int v of None \<Rightarrow> Inl ValueError | Some n \<Rightarrow> Inr n))))"

datatype offset_spec = SpecEarliest | SpecLatest | SpecTimestamp int

definition list_offsets ::
  "(string \<times> int) list \<Rightarrow> (offset_spec \<Rightarrow> string \<Rightarrow> int \<Rightarrow> int) \<Rightarrow> offset_spec \<Rightarrow> offs" where
  "list_offsets counts answer spec = map (\<lambda>(t, n). (t, map (\<lambda>p. (p, answer spec t p)) [0..n - 1])) counts"

definition broker_offsets ::
  "(string \<Rightarrow> int) \<Rightarrow> (offset_spec \<Rightarrow> string \<Rightarrow> int \<Rightarrow> int) \<Rightarrow> string list \<Rightarrow> int \<Rightarrow> offs \<times> offs \<times> offs option" where
  "broker_offsets describe answer topic_list at_timestamp_ms =
     (let counts = dict_update [] (map (\<lambda>t. (t, describe t)) topic_list) in
      (list_offsets counts answer SpecEarliest, list_offsets counts answer SpecLatest,
       if at_timestamp_ms \<noteq> 0 then Some (list_offsets counts answer (SpecTimestamp at_timestamp_ms)) else None))"

text \<open>The registry's replies: a document with or without a \<open>schema\<close> member, an HTTP error, no answer.\<close>

datatype reply = Served "string option" | HttpError int | NoReply

definition fetch_schema :: "(int \<Rightarrow> reply) \<Rightarrow> int \<Rightarrow> string res" where
  "fetch_schema registry schema_id =
     (case registry schema_id of
        Served (Some s) \<Rightarrow> Inr s
      | Served None \<Rightarrow> Inl KeyError
      | HttpError _ \<Rightarrow> Inl UnresolvableSchema
      | NoReply \<Rightarrow> Inl OSError)"

record audit_row =
  a_run_ts :: int
  a_job :: string
  a_check :: string
  a_scope :: string
  a_passed :: bool
  a_observed :: int
  a_detail :: string

text \<open>\<open>lands\<close> is whether the append commits; the commit id and time are the table's.\<close>

definition write_audit_rows ::
  "bool \<Rightarrow> int \<Rightarrow> int \<Rightarrow> audit_row table \<Rightarrow> audit_row list \<Rightarrow> summary \<Rightarrow> string \<Rightarrow> bool \<times> audit_row table" where
  "write_audit_rows lands i ts checks rows properties job =
     (let failures = length (filter (\<lambda>r. \<not> a_passed r) rows);
          props = dict_update [(JOB, job), (AUDIT_FAILURES, show_int (int failures))] properties
      in if lands then (True, table_append checks i ts props rows) else (False, checks))"

section \<open>Facts the writers share\<close>

lemma table_rows_append [simp, k2_simps]: "table_rows (table_append t i ts props rows) = table_rows t @ rows"
  by (simp add: table_rows_def table_append_def)

lemma table_rows_rewrite [simp, k2_simps]: "table_rows (table_rewrite t i ts s) = table_rows t"
  by (simp add: table_rows_def table_rewrite_def)

lemma table_rows_empty [simp]: "table_rows empty_table = []"
  by (simp add: table_rows_def empty_table_def)

lemma main_append [simp]: "main_ref (table_append t i ts props rows) = Some i"
  by (simp add: table_append_def)

lemma snaps_append [simp]:
  "snaps (table_append t i ts props rows) =
     snaps t @ [\<lparr>snap_id = i, committed_at = ts, summ = Some (commit_summary props rows), added = rows\<rparr>]"
  by (simp add: table_append_def)

lemma snaps_rewrite [simp]:
  "snaps (table_rewrite t i ts s) = snaps t @ [\<lparr>snap_id = i, committed_at = ts, summ = s, added = []\<rparr>]"
  by (simp add: table_rewrite_def)

lemma history_append [k2_simps]:
  "snapshot_history (table_append t i ts props rows) = snapshot_history t @ [(ts, Some (commit_summary props rows))]"
  by (simp add: snapshot_history_def)

lemma history_rewrite [k2_simps]:
  "snapshot_history (table_rewrite t i ts s) =
     snapshot_history t @ [(ts, Some (case s of None \<Rightarrow> [] | Some m \<Rightarrow> m))]"
  by (simp add: snapshot_history_def)

lemma commit_summary_lookup:
  "k \<noteq> ''added-records'' \<Longrightarrow> map_of (commit_summary props rows) k = map_of props k"
  by (cases "map_of props k") (auto simp: commit_summary_def map_add_def split: option.splits)

lemma upto_after_all: "i \<notin> set (map snap_id ss) \<Longrightarrow> upto_snap i ss = ss"
  by (induction ss) auto

lemma upto_split:
  "i \<in> set (map snap_id ss) \<Longrightarrow> upto_snap i ss @ after_snap i ss = ss"
  by (induction ss) auto

lemma upto_append:
  "i \<in> set (map snap_id ss) \<Longrightarrow> upto_snap i (ss @ ss') = upto_snap i ss"
  by (induction ss) auto

lemma after_append:
  "i \<in> set (map snap_id ss) \<Longrightarrow> after_snap i (ss @ ss') = after_snap i ss @ ss'"
  by (induction ss) auto

lemma upto_last: "distinct (map snap_id (ss @ [s])) \<Longrightarrow> upto_snap (snap_id s) (ss @ [s]) = ss @ [s]"
  by (induction ss) auto

lemma upto_after:
  assumes "distinct (map snap_id ss)" and "i \<in> set (map snap_id ss)" and "j \<in> set (map snap_id (after_snap i ss))"
  shows "upto_snap i ss @ upto_snap j (after_snap i ss) = upto_snap j ss"
  using assms
proof (induction ss)
  case (Cons s ss)
  have sub: "set (after_snap i ss) \<subseteq> set ss" for i :: int and ss :: "'a snapshot list"
    by (induction ss) auto
  show ?case
  proof (cases "snap_id s = i")
    case True
    then show ?thesis using Cons.prems by auto
  next
    case False
    then have "j \<in> snap_id ` set ss" using Cons.prems(3) sub [of i ss] by auto
    then show ?thesis using False Cons by auto
  qed
qed simp

lemma rows_between_at:
  assumes "distinct (map snap_id (snaps t))" and "rows_between t i j = Inr rows"
  shows "rows_at t j = rows_at t i @ rows"
proof -
  have "i \<in> set (map snap_id (snaps t))" "j \<in> set (map snap_id (after_snap i (snaps t)))"
    and r: "rows = concat (map added (upto_snap j (after_snap i (snaps t))))"
    using assms(2) by (auto simp: rows_between_def Let_def split: if_splits)
  from upto_after [OF assms(1) this(1,2)] show ?thesis
    unfolding rows_at_def r by (metis concat_append map_append)
qed

lemma added_records_append:
  assumes "i \<notin> set (map snap_id (snaps t))" and "map_of props ''added-records'' = None"
  shows "added_records (table_append t i ts props rows) = Inr (int (length rows))"
proof -
  have "filter (\<lambda>s. snap_id s = i) (snaps t) = []" using assms(1) by (auto simp: filter_empty_conv)
  then show ?thesis using assms(2)
    by (simp add: added_records_def current_snapshot_id_def commit_summary_def map_add_def)
qed

lemma off_list_offsets:
  "off (list_offsets counts answer spec) t p =
     (case map_of counts t of None \<Rightarrow> None | Some n \<Rightarrow> if 0 \<le> p \<and> p < n then Some (answer spec t p) else None)"
  by (auto simp: off_def list_offsets_def map_of_map_val map_of_map_restrict restrict_map_def split: option.splits)

lemma offs_ok_list_offsets: "dict_ok counts \<Longrightarrow> offs_ok (list_offsets counts answer spec)"
  by (auto simp: offs_ok_def list_offsets_def dict_ok_def comp_def case_prod_unfold)

end
