(* ===== verification/Lock.thy ===== *)
theory Lock
  imports K2_Prelude
begin

text \<open>
  \<open>docker/lake/lock.py\<close> and the guard at the top of the writers' \<open>main\<close>. The kernel's advisory lock
  is a map from lock files to the process whose descriptor holds it; it dies with the descriptor, hence
  with the process. A writer is \<open>Idle\<close>, \<open>Waiting\<close> (a blocking acquire), \<open>Writing\<close> or \<open>Done\<close> with an
  exit status.
\<close>

datatype acquired = Handle int | Refused | Blocked

text \<open>\<open>fcntl.flock(LOCK_EX)\<close>, with \<open>LOCK_NB\<close> unless blocking: \<open>None\<close> in the code is \<open>Refused\<close> here.\<close>

definition acquire_lock :: "(string \<rightharpoonup> int) \<Rightarrow> string \<Rightarrow> int \<Rightarrow> bool \<Rightarrow> acquired \<times> (string \<rightharpoonup> int)" where
  "acquire_lock owner path pid blocking =
     (case owner path of None \<Rightarrow> (Handle pid, owner(path \<mapsto> pid))
      | Some _ \<Rightarrow> (if blocking then Blocked else Refused, owner))"

definition release_lock :: "(string \<rightharpoonup> int) \<Rightarrow> string \<Rightarrow> int \<Rightarrow> (string \<rightharpoonup> int)" where
  "release_lock owner path pid = (if owner path = Some pid then owner(path := None) else owner)"

datatype phase = Idle | Waiting | Writing | Done int

record writers =
  owner :: "string \<rightharpoonup> int"
  phase_of :: "int \<Rightarrow> phase"

text \<open>How a writer's \<open>main\<close> goes on from the acquire: ingest exits 2 when refused, maintenance waits.\<close>

definition enter :: "acquired \<Rightarrow> phase" where
  "enter a = (case a of Handle _ \<Rightarrow> Writing | Refused \<Rightarrow> Done 2 | Blocked \<Rightarrow> Waiting)"

definition start_writer :: "string \<Rightarrow> int \<Rightarrow> bool \<Rightarrow> writers \<Rightarrow> writers" where
  "start_writer path pid blocking w =
     (let (a, ow) = acquire_lock (owner w) path pid blocking
      in \<lparr>owner = ow, phase_of = (phase_of w)(pid := enter a)\<rparr>)"

definition stop_writer :: "string \<Rightarrow> int \<Rightarrow> int \<Rightarrow> writers \<Rightarrow> writers" where
  "stop_writer path pid status w =
     \<lparr>owner = release_lock (owner w) path pid, phase_of = (phase_of w)(pid := Done status)\<rparr>"

text \<open>A process may be started, woken, and may end (or be killed) at any moment.\<close>

inductive writer_step :: "string \<Rightarrow> writers \<Rightarrow> writers \<Rightarrow> bool" for path where
  start: "phase_of w pid = Idle \<Longrightarrow> writer_step path w (start_writer path pid blocking w)"
| wake: "phase_of w pid = Waiting \<Longrightarrow> writer_step path w (start_writer path pid True w)"
| stop: "phase_of w pid \<noteq> Idle \<Longrightarrow> writer_step path w (stop_writer path pid status w)"

inductive_cases writer_stepE: "writer_step path w w'"

inductive writers_reach :: "string \<Rightarrow> writers \<Rightarrow> bool" for path where
  init: "writers_reach path \<lparr>owner = Map.empty, phase_of = (\<lambda>_. Idle)\<rparr>"
| step: "writers_reach path w \<Longrightarrow> writer_step path w w' \<Longrightarrow> writers_reach path w'"

lemma owner_iff_writing:
  "writers_reach path w \<Longrightarrow> phase_of w pid = Writing \<longleftrightarrow> owner w path = Some pid"
proof (induction arbitrary: pid rule: writers_reach.induct)
  case (step w w')
  from step.hyps(2) show ?case
  proof cases
    case (start p b)
    then show ?thesis using step.IH [of p] step.IH [of pid]
      by (auto simp: start_writer_def acquire_lock_def enter_def split: option.splits)
  next
    case (wake p)
    then show ?thesis using step.IH [of p] step.IH [of pid]
      by (auto simp: start_writer_def acquire_lock_def enter_def split: option.splits)
  next
    case (stop p st)
    then show ?thesis using step.IH [of p] step.IH [of pid]
      by (auto simp: stop_writer_def release_lock_def)
  qed
qed simp

text \<open>
  Whatever the order in which ingest and maintenance processes start, wait, end or are killed, at
  most one of them writes at a time; and when none writes, the next to ask gets the lock, so a killed
  process leaves nothing stale behind.
\<close>
theorem one_writer:
  assumes "writers_reach path w"
  shows "(phase_of w p = Writing \<and> phase_of w q = Writing \<longrightarrow> p = q) \<and>
    ((\<exists>p. phase_of w p = Writing) \<or> fst (acquire_lock (owner w) path pid blocking) = Handle pid)"
  using owner_iff_writing [OF assms] by (auto simp: acquire_lock_def split: option.splits)

lemma one_writer_witness:
  "fst (acquire_lock (owner (stop_writer ''l'' 1 9 (start_writer ''l'' 1 False \<lparr>owner = Map.empty, phase_of = (\<lambda>_. Idle)\<rparr>))) ''l'' 2 False) = Handle 2"
proof -
  let ?idle = "\<lparr>owner = Map.empty, phase_of = (\<lambda>_. Idle)\<rparr>"
  let ?w = "stop_writer ''l'' 1 9 (start_writer ''l'' 1 False ?idle)"
  have "writers_reach ''l'' (start_writer ''l'' 1 False ?idle)"
    by (rule writers_reach.step [OF writers_reach.init writer_step.start]) simp
  then have "writers_reach ''l'' ?w"
    by (rule writers_reach.step [OF _ writer_step.stop]) (simp add: start_writer_def acquire_lock_def enter_def)
  from one_writer [OF this, of 1 2 2 False] show ?thesis
    by (auto simp: stop_writer_def start_writer_def acquire_lock_def enter_def split: if_splits)
qed

end
