(* ===== verification/Ingest.thy ===== *)
theory Ingest
  imports Iceberg Wire Lock
begin

text \<open>
  \<open>docker/lake/ingest.py\<close>, stage 1: one bounded, pinned Kafka range appended to \<open>raw.messages\<close>, with the
  offsets it consumed in the summary of the same commit. The lake's state here is two tables,
  \<open>raw.messages\<close> and \<open>audit.checks\<close>. What is outside the repository is in the environment of a run: the
  broker's partition counts, offsets and records, whether the audit append lands, the ids and times
  Iceberg gives the commits, the application id, and the library's ISO-8601 reader and printer.

  \<open>ingest_step\<close> is everything that can happen between two runs under the write lock: a run, a run killed
  before its data commit, a foreign commit on the table, an unrelated finding.
\<close>

section \<open>Records and rows\<close>

record msg =
  m_topic :: string
  m_part :: int
  m_off :: int
  m_ts :: int
  m_key :: "bytes option"
  m_value :: "bytes option"
  m_headers :: "(string \<times> bytes) list option"

record raw_row =
  r_topic :: string
  r_part :: int
  r_off :: int
  r_kafka_ts :: int
  r_ingest_ts :: int
  r_key :: "bytes option"
  r_schema_id :: "int option"
  r_payload :: "bytes option"
  r_headers :: "(string \<times> bytes) list option"

definition raw_row_of :: "int \<Rightarrow> msg \<Rightarrow> raw_row" where
  "raw_row_of ingest_ts m =
     \<lparr>r_topic = m_topic m, r_part = m_part m, r_off = m_off m, r_kafka_ts = m_ts m, r_ingest_ts = ingest_ts,
      r_key = m_key m, r_schema_id = schema_id_guarded_sql (m_value m), r_payload = m_value m,
      r_headers = map_option (dict_update []) (m_headers m)\<rparr>"

record lake =
  raw :: "raw_row table"
  checks :: "audit_row table"

record env =
  e_prefix :: string
  e_exchanges :: string
  e_describe :: "string \<Rightarrow> int"
  e_answer :: "offset_spec \<Rightarrow> string \<Rightarrow> int \<Rightarrow> int"
  e_load :: "offs \<Rightarrow> offs \<Rightarrow> msg list"
  e_lands :: bool
  e_commit :: "int \<times> int"
  e_audit_commit :: "int \<times> int"
  e_app :: string
  e_iso :: "string \<Rightarrow> int res"
  e_isoformat :: "int \<Rightarrow> string"

section \<open>The topics\<close>

fun split_comma :: "string \<Rightarrow> string list" where
  "split_comma [] = [[]]"
| "split_comma (c # cs) =
     (if c = CHR '','' then [] # split_comma cs
      else (case split_comma cs of [] \<Rightarrow> [[c]] | w # ws \<Rightarrow> (c # w) # ws))"

definition EXCHANGES :: string where "EXCHANGES = ''binance,kraken,coinbase''"
definition V3_PREFIX :: string where "V3_PREFIX = ''market.crypto.v3''"

definition topics :: "string \<Rightarrow> string \<Rightarrow> string \<Rightarrow> string list" where
  "topics prefix exchanges kind = map (\<lambda>ex. prefix @ ''.'' @ kind @ ''.'' @ ex) (split_comma exchanges)"

definition all_topics :: "string \<Rightarrow> string \<Rightarrow> string list" where
  "all_topics prefix exchanges =
     topics prefix exchanges ''raw'' @ topics prefix exchanges ''trades'' @ topics prefix exchanges ''book''"

definition MAX_OFFSETS_PER_PARTITION :: int where "MAX_OFFSETS_PER_PARTITION = 200000"

section \<open>Stage 1\<close>

definition epoch_ms :: "(string \<Rightarrow> int res) \<Rightarrow> string \<Rightarrow> int res" where
  "epoch_ms from_iso value =
     (if py_isdigit value then (case py_int value of None \<Rightarrow> Inl ValueError | Some n \<Rightarrow> Inr n) else from_iso value)"

definition gap_detail :: "string \<Rightarrow> loss \<Rightarrow> string" where
  "gap_detail app l =
     (case l of (t, p, start, log_start, lost) \<Rightarrow>
        ''--accept-data-loss: '' @ t @ '' partition '' @ show_int p @ '' '' @ gap_offsets start log_start @
        '', '' @ show_int lost @ '' records evicted by Redpanda retention and permanently gone; resumed at '' @
        show_int log_start @ '' by run '' @ app)"

definition gap_audit_row :: "string \<Rightarrow> int \<Rightarrow> loss \<Rightarrow> audit_row" where
  "gap_audit_row app run_ts l =
     (case l of (t, p, start, log_start, lost) \<Rightarrow>
        \<lparr>a_run_ts = run_ts, a_job = ''ingest'', a_check = ''offset_gap'', a_scope = scope_of t p,
         a_passed = False, a_observed = lost, a_detail = gap_detail app l\<rparr>)"

definition accept_data_loss ::
  "env \<Rightarrow> loss list \<Rightarrow> offs \<Rightarrow> offs \<Rightarrow> offs \<Rightarrow> int \<Rightarrow> offs option \<Rightarrow> int \<Rightarrow> audit_row table \<Rightarrow>
   audit_row table \<times> (offs \<times> offs \<times> (string \<times> int) list) res" where
  "accept_data_loss env losses starts earliest latest max_per_partition until run_ts chk =
     (let rows = map (gap_audit_row (e_app env) run_ts) losses;
          (landed, chk') = write_audit_rows (e_lands env) (fst (e_audit_commit env)) (snd (e_audit_commit env))
             chk rows [(OFFSET_GAPS, show_int (int (length rows)))] ''ingest''
      in if \<not> landed then (chk', Inl SystemExit)
         else (chk', res_bind (skip_evicted starts losses)
                 (\<lambda>s. Inr (bounded_offsets s earliest latest max_per_partition until))))"

definition committed_offsets :: "raw_row table \<Rightarrow> offs res" where
  "committed_offsets t =
     (case latest_summary (snapshot_history t) JOB_INGEST of None \<Rightarrow> Inr []
      | Some m \<Rightarrow> (case map_of m KAFKA_OFFSETS of None \<Rightarrow> Inr [] | Some s \<Rightarrow> decode s))"

text \<open>The read and the commit, once the range is decided.\<close>

definition commit_range ::
  "env \<Rightarrow> int \<Rightarrow> offs \<Rightarrow> offs \<times> offs \<times> (string \<times> int) list \<Rightarrow> raw_row table \<Rightarrow> raw_row table \<times> int res" where
  "commit_range env ingest_ts committed window t =
     (case window of (starts, ends, backlog) \<Rightarrow>
        if starts = ends then (t, Inr 0)
        else (let loaded = e_load env starts ends in
          case py_max_by id (map m_ts loaded) of None \<Rightarrow> (t, Inr 0)
          | Some max_kafka_ts \<Rightarrow>
              (let props = [(JOB, JOB_INGEST), (KAFKA_OFFSETS, encode (merge_committed committed ends)),
                     (KAFKA_BACKLOG, json_dumps (JObj (map (\<lambda>(k, n). (k, JInt n)) backlog))),
                     (MAX_KAFKA_TS, e_isoformat env max_kafka_ts)];
                   t' = table_append t (fst (e_commit env)) (snd (e_commit env)) props (map (raw_row_of ingest_ts) loaded)
               in (t', added_records t'))))"

definition stage_raw :: "env \<Rightarrow> int \<Rightarrow> string \<Rightarrow> int \<Rightarrow> bool \<Rightarrow> lake \<Rightarrow> lake \<times> int res" where
  "stage_raw env ingest_ts end_timestamp max_per_partition accept lk =
     (case (committed_offsets (raw lk), if end_timestamp = [] then Inr 0 else epoch_ms (e_iso env) end_timestamp) of
        (Inl e, _) \<Rightarrow> (lk, Inl e)
      | (Inr _, Inl e) \<Rightarrow> (lk, Inl e)
      | (Inr committed, Inr end_ms) \<Rightarrow>
          (let (earliest, latest, until) =
                 broker_offsets (e_describe env) (e_answer env) (all_topics (e_prefix env) (e_exchanges env)) end_ms;
               starting = next_starting_offsets committed (map (\<lambda>(t, p). (t, int (length p))) earliest);
               (starts, ends, backlog) = bounded_offsets starting earliest latest max_per_partition until;
               losses = evicted starts earliest
           in if losses = [] then
                (let (t, r) = commit_range env ingest_ts committed (starts, ends, backlog) (raw lk)
                 in (lk\<lparr>raw := t\<rparr>, r))
              else if \<not> accept then (lk, Inl SystemExit)
              else (case accept_data_loss env losses starts earliest latest max_per_partition until ingest_ts (checks lk) of
                      (chk, Inl e) \<Rightarrow> (lk\<lparr>checks := chk\<rparr>, Inl e)
                    | (chk, Inr window) \<Rightarrow>
                        (let (t, r) = commit_range env ingest_ts committed window (raw lk)
                         in (\<lparr>raw = t, checks = chk\<rparr>, r)))))"

section \<open>What the archive must satisfy\<close>

text \<open>
  \<open>log t p\<close> is the set of offsets at which partition \<open>p\<close> of topic \<open>t\<close> ever carries a record. A broker serves
  it: offsets are natural numbers, the log start does not pass the log end, and a load of a retained range
  is exactly the records of the range, once each.
\<close>

type_synonym produced = "string \<Rightarrow> int \<Rightarrow> int set"

definition row_key :: "raw_row \<Rightarrow> string \<times> int \<times> int" where
  "row_key r = (r_topic r, r_part r, r_off r)"

definition msg_key :: "msg \<Rightarrow> string \<times> int \<times> int" where
  "msg_key m = (m_topic m, m_part m, m_off m)"

definition in_window :: "offs \<Rightarrow> offs \<Rightarrow> string \<Rightarrow> int \<Rightarrow> int \<Rightarrow> bool" where
  "in_window starts ends t p x =
     (case (off starts t p, off ends t p) of (Some s, Some e) \<Rightarrow> s \<le> x \<and> x < e | _ \<Rightarrow> False)"

definition retained :: "env \<Rightarrow> offs \<Rightarrow> offs \<Rightarrow> bool" where
  "retained env starts ends =
     (\<forall>t p s e. off starts t p = Some s \<longrightarrow> off ends t p = Some e \<longrightarrow>
        s = e \<or> (e_answer env SpecEarliest t p \<le> s \<and> e \<le> e_answer env SpecLatest t p))"

definition broker_ok :: "produced \<Rightarrow> env \<Rightarrow> bool" where
  "broker_ok log env =
     ((\<forall>t \<in> set (all_topics (e_prefix env) (e_exchanges env)). plain_word t) \<and>
      (\<forall>t p. 0 \<le> e_answer env SpecEarliest t p \<and> e_answer env SpecEarliest t p \<le> e_answer env SpecLatest t p) \<and>
      (\<forall>starts ends. offs_ok starts \<longrightarrow> offs_ok ends \<longrightarrow> retained env starts ends \<longrightarrow>
         distinct (map msg_key (e_load env starts ends)) \<and>
         (\<forall>t p x. (t, p, x) \<in> msg_key ` set (e_load env starts ends) \<longleftrightarrow> in_window starts ends t p x \<and> x \<in> log t p)))"

definition gaps_of :: "audit_row table \<Rightarrow> gap list res" where
  "gaps_of t =
     recorded_gaps (map (\<lambda>r. (Some (a_scope r), Some (a_detail r)))
       (filter (\<lambda>r. a_check r = ''offset_gap'') (table_rows t)))"

definition archived :: "raw_row table \<Rightarrow> string \<Rightarrow> int \<Rightarrow> int \<Rightarrow> bool" where
  "archived tbl t p x = ((t, p, x) \<in> row_key ` set (table_rows tbl))"

definition recorded :: "audit_row table \<Rightarrow> string \<Rightarrow> int \<Rightarrow> int \<Rightarrow> bool" where
  "recorded chk t p x =
     (case gaps_of chk of Inl _ \<Rightarrow> False
      | Inr gs \<Rightarrow> \<exists>lo hi. (t, p, lo, hi) \<in> set gs \<and> lo \<le> x \<and> x \<le> hi)"

definition newer :: "'r table \<Rightarrow> int \<Rightarrow> bool" where
  "newer t ts = (\<forall>s \<in> set (snaps t). committed_at s < ts)"

inductive ingest_step :: "produced \<Rightarrow> lake \<Rightarrow> lake \<Rightarrow> bool" for log where
  run: "broker_ok log env \<Longrightarrow> newer (raw lk) (snd (e_commit env)) \<Longrightarrow>
     ingest_step log lk (fst (stage_raw env ts end_ts m accept lk))"
| killed: "broker_ok log env \<Longrightarrow> newer (raw lk) (snd (e_commit env)) \<Longrightarrow>
     ingest_step log lk (lk\<lparr>checks := checks (fst (stage_raw env ts end_ts m accept lk))\<rparr>)"
| rewrite: "newer (raw lk) ts \<Longrightarrow> \<not> of_job JOB_INGEST sm \<Longrightarrow>
     ingest_step log lk (lk\<lparr>raw := table_rewrite (raw lk) i ts sm\<rparr>)"
| finding: "\<forall>r \<in> set rows. a_check r \<noteq> ''offset_gap'' \<Longrightarrow>
     ingest_step log lk (lk\<lparr>checks := table_append (checks lk) i ts props rows\<rparr>)"

inductive ingest_reach :: "produced \<Rightarrow> lake \<Rightarrow> bool" for log where
  init: "ingest_reach log \<lparr>raw = empty_table, checks = empty_table\<rparr>"
| step: "ingest_reach log lk \<Longrightarrow> ingest_step log lk lk' \<Longrightarrow> ingest_reach log lk'"

section \<open>The recorded gaps\<close>

lemma recorded_gaps_append:
  "recorded_gaps (xs @ ys) = res_bind (recorded_gaps xs) (\<lambda>a. res_bind (recorded_gaps ys) (\<lambda>b. Inr (a @ b)))"
  by (auto simp: recorded_gaps_def res_map_append res_bind_def split: sum.splits)

lemma plain_words:
  "plain_word ''--accept-data-loss:''" "plain_word ''partition''"
  by (simp_all add: plain_word_def)

lemma plain_number: "plain_word (show_nat n)"
proof -
  have d: "\<forall>c \<in> set (show_nat n). is_digit c" using show_nat_char by blast
  have "drop k (show_nat n) \<noteq> ''committed''" for k
  proof
    assume eq: "drop k (show_nat n) = ''committed''"
    have "CHR ''c'' \<in> set (drop k (show_nat n))" unfolding eq by simp
    then have "CHR ''c'' \<in> set (show_nat n)" by (rule in_set_dropD)
    with d have "is_digit (CHR ''c'')" by blast
    then show False by (simp add: is_digit_def)
  qed
  moreover have "CHR '' '' \<notin> set (show_nat n)" using d by (auto simp: is_digit_def [of "CHR '' ''"])
  ultimately show ?thesis by (simp add: plain_word_def)
qed

lemma gap_row_read_back:
  assumes "plain_word t" and "0 \<le> p" and "0 \<le> s" and "0 \<le> l"
  shows "recorded_gap (Some (a_scope (gap_audit_row app ts (t, p, s, l, n))),
           Some (a_detail (gap_audit_row app ts (t, p, s, l, n)))) = Inr [(t, p, s, l - 1)]"
proof -
  let ?rest = "'', '' @ show_int n @ '' records evicted by Redpanda retention and permanently gone; resumed at '' @
        show_int l @ '' by run '' @ app"
  have d: "gap_detail app (t, p, s, l, n) =
      ''--accept-data-loss:'' @ CHR '' '' # (t @ CHR '' '' # (''partition'' @ CHR '' '' # (show_int p @ CHR '' '' #
        (gap_offsets s l @ ?rest))))"
    by (simp add: gap_detail_def)
  have "gap_search (gap_offsets s l @ ?rest) = Some (s, l)"
    by (rule gap_search_match, rule gap_match_offsets) (use assms in \<open>simp_all add: is_digit_def\<close>)
  moreover have "plain_word (show_int p)" using assms(2) plain_number by (simp add: show_int_def)
  ultimately have "gap_search (gap_detail app (t, p, s, l, n)) = Some (s, l)"
    unfolding d gap_search_word [OF plain_words(1)] gap_search_word [OF assms(1)] gap_search_word [OF plain_words(2)]
    by (simp only: gap_search_word)
  from recorded_gap_scope [OF this assms(2)] show ?thesis by (simp add: gap_audit_row_def)
qed

lemma gap_rows_read_back:
  assumes "\<And>t p s l n. (t, p, s, l, n) \<in> set losses \<Longrightarrow> plain_word t \<and> 0 \<le> p \<and> 0 \<le> s \<and> 0 \<le> l"
  shows "recorded_gaps (map (\<lambda>r. (Some (a_scope r), Some (a_detail r))) (map (gap_audit_row app ts) losses)) =
           Inr (map (\<lambda>(t, p, s, l, _). (t, p, s, l - 1)) losses)"
proof -
  have "res_map recorded_gap (map (\<lambda>r. (Some (a_scope r), Some (a_detail r))) (map (gap_audit_row app ts) losses)) =
      Inr (map (\<lambda>(t, p, s, l, _). [(t, p, s, l - 1)]) losses)"
    unfolding res_map_Inr_iff list_all2_map1 list_all2_map2
    using assms by (auto simp: list_all2_same gap_row_read_back)
  moreover have "concat (map (\<lambda>(t, p, s, l, _). [(t, p, s, l - 1)]) losses) = map (\<lambda>(t, p, s, l, _). (t, p, s, l - 1)) losses"
    by (induction losses) auto
  ultimately show ?thesis by (simp add: recorded_gaps_def)
qed

lemma gaps_of_append:
  "gaps_of chk = Inr gs \<Longrightarrow>
   recorded_gaps (map (\<lambda>r. (Some (a_scope r), Some (a_detail r))) (filter (\<lambda>r. a_check r = ''offset_gap'') rows)) = Inr gs' \<Longrightarrow>
   gaps_of (table_append chk i ts props rows) = Inr (gs @ gs')"
  by (simp add: gaps_of_def recorded_gaps_append)

lemma recorded_mono:
  "gaps_of chk = Inr gs \<Longrightarrow> gaps_of chk' = Inr (gs @ gs') \<Longrightarrow> recorded chk t p x \<Longrightarrow> recorded chk' t p x"
  by (fastforce simp: recorded_def)

section \<open>The invariant\<close>

definition accounted :: "raw_row table \<Rightarrow> audit_row table \<Rightarrow> string \<Rightarrow> int \<Rightarrow> int \<Rightarrow> bool" where
  "accounted tbl chk t p x =
     (archived tbl t p x \<or> recorded chk t p x \<or> (\<forall>a. archived tbl t p a \<longrightarrow> x < a))"

definition archive_inv :: "produced \<Rightarrow> offs \<Rightarrow> raw_row table \<Rightarrow> audit_row table \<Rightarrow> bool" where
  "archive_inv log c tbl chk =
     (committed_offsets tbl = Inr c \<and> offs_ok c \<and>
      (\<forall>t p n. off c t p = Some n \<longrightarrow> 0 \<le> n \<and> 0 \<le> p) \<and>
      distinct (map row_key (table_rows tbl)) \<and>
      (\<forall>t p x. archived tbl t p x \<longrightarrow> x \<in> log t p \<and> (\<exists>n. off c t p = Some n \<and> x < n)) \<and>
      (\<forall>t p n x. off c t p = Some n \<longrightarrow> x \<in> log t p \<longrightarrow> x < n \<longrightarrow> accounted tbl chk t p x) \<and>
      (\<exists>gs. gaps_of chk = Inr gs))"

lemma archive_invD:
  assumes "archive_inv log c tbl chk"
  shows "committed_offsets tbl = Inr c" and "offs_ok c"
    and "off c t p = Some n \<Longrightarrow> 0 \<le> n \<and> 0 \<le> p"
    and "distinct (map row_key (table_rows tbl))"
    and "archived tbl t p x \<Longrightarrow> x \<in> log t p \<and> (\<exists>n. off c t p = Some n \<and> x < n)"
    and "off c t p = Some n \<Longrightarrow> x \<in> log t p \<Longrightarrow> x < n \<Longrightarrow> accounted tbl chk t p x"
    and "\<exists>gs. gaps_of chk = Inr gs"
  using assms unfolding archive_inv_def by blast+

lemma archive_inv_init: "archive_inv log [] empty_table empty_table"
  by (simp add: archive_inv_def committed_offsets_def snapshot_history_def empty_table_def latest_summary_def
      offs_ok_def off_def archived_def table_rows_def gaps_of_def recorded_gaps_def)

lemma archive_inv_checks:
  assumes "archive_inv log c tbl chk" and "gaps_of chk = Inr gs" and "gaps_of chk' = Inr (gs @ gs')"
  shows "archive_inv log c tbl chk'"
  using assms(1) recorded_mono [OF assms(2,3)] assms(3) unfolding archive_inv_def accounted_def by blast

text \<open>The window a run reads, relative to what is committed.\<close>

definition window_ok :: "env \<Rightarrow> offs \<Rightarrow> audit_row table \<Rightarrow> offs \<Rightarrow> offs \<Rightarrow> bool" where
  "window_ok env c chk starts ends =
     (offs_ok starts \<and> offs_ok ends \<and> retained env starts ends \<and>
      (\<forall>t p. case (off starts t p, off ends t p) of
          (Some s, Some e) \<Rightarrow> 0 \<le> s \<and> s \<le> e \<and> 0 \<le> p \<and>
            (case off c t p of None \<Rightarrow> True | Some n \<Rightarrow> n \<le> s \<and> (\<forall>x. n \<le> x \<longrightarrow> x < s \<longrightarrow> recorded chk t p x))
        | (None, None) \<Rightarrow> True | _ \<Rightarrow> False))"

lemma window_okD:
  assumes "window_ok env c chk starts ends"
  shows "offs_ok starts" "offs_ok ends" "retained env starts ends"
    and "off ends t p = Some e \<Longrightarrow> \<exists>s. off starts t p = Some s \<and> 0 \<le> s \<and> s \<le> e \<and> 0 \<le> p"
    and "off starts t p = Some s \<Longrightarrow> off c t p = Some n \<Longrightarrow> n \<le> s \<and> (\<forall>x. n \<le> x \<longrightarrow> x < s \<longrightarrow> recorded chk t p x)"
proof -
  have w: "case (off starts t p, off ends t p) of
          (Some s, Some e) \<Rightarrow> 0 \<le> s \<and> s \<le> e \<and> 0 \<le> p \<and>
            (case off c t p of None \<Rightarrow> True | Some n \<Rightarrow> n \<le> s \<and> (\<forall>x. n \<le> x \<longrightarrow> x < s \<longrightarrow> recorded chk t p x))
        | (None, None) \<Rightarrow> True | _ \<Rightarrow> False"
    using assms unfolding window_ok_def by blast
  show "offs_ok starts" "offs_ok ends" "retained env starts ends" using assms by (simp_all add: window_ok_def)
  show "off ends t p = Some e \<Longrightarrow> \<exists>s. off starts t p = Some s \<and> 0 \<le> s \<and> s \<le> e \<and> 0 \<le> p"
    using w by (auto split: option.splits)
  show "off starts t p = Some s \<Longrightarrow> off c t p = Some n \<Longrightarrow> n \<le> s \<and> (\<forall>x. n \<le> x \<longrightarrow> x < s \<longrightarrow> recorded chk t p x)"
    using w by (auto split: option.splits)
qed

lemma row_key_of [simp]: "row_key (raw_row_of ts m) = msg_key m"
  by (simp add: row_key_def raw_row_of_def msg_key_def)

lemma archived_append:
  "archived (table_append tbl i ts props (map (raw_row_of its) ms)) t p x \<longleftrightarrow> archived tbl t p x \<or> (t, p, x) \<in> msg_key ` set ms"
  by (simp add: archived_def image_Un image_image)

lemma committed_append:
  assumes "newer tbl ts" and "offs_ok c'" and "map_of props JOB = Some JOB_INGEST" and "map_of props KAFKA_OFFSETS = Some (encode c')"
  shows "committed_offsets (table_append tbl i ts props rows) = Inr (sorted_offs c')"
proof -
  have k: "JOB \<noteq> ''added-records''" "KAFKA_OFFSETS \<noteq> ''added-records''" by (simp_all add: JOB_def KAFKA_OFFSETS_def)
  have "of_job JOB_INGEST (Some (commit_summary props rows))"
    using assms(3) k by (simp add: of_job_def commit_summary_lookup)
  then have "latest_summary (snapshot_history (table_append tbl i ts props rows)) JOB_INGEST = Some (commit_summary props rows)"
    unfolding history_append
    by (rule latest_summary_append) (use assms(1) in \<open>auto simp: snapshot_history_def newer_def\<close>)
  then show ?thesis using assms(2,4) k by (simp add: committed_offsets_def commit_summary_lookup decode_encode_sorted)
qed

lemma committed_rewrite: "\<not> of_job JOB_INGEST sm \<Longrightarrow> committed_offsets (table_rewrite tbl i ts sm) = committed_offsets tbl"
proof -
  assume a: "\<not> of_job JOB_INGEST sm"
  then have "\<not> of_job JOB_INGEST (Some (case sm of None \<Rightarrow> [] | Some m \<Rightarrow> m))"
    by (cases sm) (auto simp: of_job_def)
  then show ?thesis by (simp add: committed_offsets_def history_rewrite latest_summary_foreign)
qed

text \<open>The data commit carries the archive to the end of its window.\<close>

lemma commit_keeps_inv:
  assumes inv: "archive_inv log c tbl chk" and br: "broker_ok log env" and w: "window_ok env c chk starts ends"
    and nw: "newer tbl ts" and ms: "ms = e_load env starts ends"
    and props: "map_of props JOB = Some JOB_INGEST" "map_of props KAFKA_OFFSETS = Some (encode (merge_committed c ends))"
  shows "archive_inv log (sorted_offs (merge_committed c ends)) (table_append tbl i ts props (map (raw_row_of its) ms)) chk"
proof -
  let ?c = "sorted_offs (merge_committed c ends)" and ?tbl = "table_append tbl i ts props (map (raw_row_of its) ms)"
  note I = archive_invD [OF inv] and W = window_okD [OF w]
  have mok: "offs_ok (merge_committed c ends)" using I(2) by (rule offs_ok_merge)
  have oc: "off ?c t p = (case off ends t p of Some e \<Rightarrow> Some e | None \<Rightarrow> off c t p)" for t p
    using off_sorted [OF mok] off_merge [OF I(2) W(2)] by simp
  have load: "distinct (map msg_key ms)" "\<And>t p x. (t, p, x) \<in> msg_key ` set ms \<longleftrightarrow> in_window starts ends t p x \<and> x \<in> log t p"
    using br W(1-3) unfolding broker_ok_def ms by blast+
  have win: "in_window starts ends t p x \<Longrightarrow> \<exists>s e. off starts t p = Some s \<and> off ends t p = Some e \<and> s \<le> x \<and> x < e" for t p x
    by (auto simp: in_window_def split: option.splits)
  have arch: "archived ?tbl t p x \<longleftrightarrow> archived tbl t p x \<or> (in_window starts ends t p x \<and> x \<in> log t p)" for t p x
    by (simp add: archived_append load(2))
  have old_below: "archived tbl t p a \<Longrightarrow> off starts t p = Some s \<Longrightarrow> a < s" for t p a s
    using I(5) W(5) by fastforce
  have "distinct (map row_key (table_rows ?tbl))"
  proof -
    have "row_key ` set (table_rows tbl) \<inter> msg_key ` set ms = {}"
    proof (rule equals0I)
      fix k assume k: "k \<in> row_key ` set (table_rows tbl) \<inter> msg_key ` set ms"
      obtain t p x where kk: "k = (t, p, x)" by (cases k) blast
      then have "archived tbl t p x" and "in_window starts ends t p x" using k load(2) by (auto simp: archived_def)
      with old_below win show False by fastforce
    qed
    then show ?thesis using I(4) load(1) by (simp add: comp_def)
  qed
  moreover have "x \<in> log t p \<and> (\<exists>n. off ?c t p = Some n \<and> x < n)" if a: "archived ?tbl t p x" for t p x
  proof (cases "archived tbl t p x")
    case True
    then obtain n where n: "x \<in> log t p" "off c t p = Some n" "x < n" using I(5) by blast
    show ?thesis
    proof (cases "off ends t p")
      case None
      then show ?thesis using n by (simp add: oc)
    next
      case (Some e)
      then obtain s where "off starts t p = Some s" "s \<le> e" using W(4) by blast
      with old_below [OF True] n(1) Some show ?thesis by (fastforce simp: oc)
    qed
  next
    case False
    with a arch win [of t p x] show ?thesis by (fastforce simp: oc)
  qed
  moreover have "accounted ?tbl chk t p x" if h: "off ?c t p = Some n" "x \<in> log t p" "x < n" for t p n x
  proof (cases "off ends t p")
    case None
    then have "\<not> in_window starts ends t p y" for y by (auto simp: in_window_def split: option.splits)
    moreover have "accounted tbl chk t p x" using I(6) h None by (simp add: oc)
    ultimately show ?thesis by (auto simp: accounted_def arch)
  next
    case (Some e)
    then obtain s where s: "off starts t p = Some s" "s \<le> e" using W(4) by blast
    have e: "n = e" using h(1) Some by (simp add: oc)
    have in_w: "in_window starts ends t p y \<longleftrightarrow> s \<le> y \<and> y < e" for y by (simp add: in_window_def s Some)
    show ?thesis
    proof (cases "s \<le> x")
      case True
      then show ?thesis using h e by (auto simp: accounted_def arch in_w)
    next
      case below: False
      show ?thesis
      proof (cases "off c t p")
        case None
        then have "\<not> archived tbl t p a" for a using I(5) by fastforce
        then show ?thesis using below by (auto simp: accounted_def arch in_w)
      next
        case (Some m)
        then have m: "m \<le> s" "\<And>x. m \<le> x \<Longrightarrow> x < s \<Longrightarrow> recorded chk t p x" using W(5) [OF s(1)] by auto
        show ?thesis
        proof (cases "m \<le> x")
          case True
          then show ?thesis using m below by (simp add: accounted_def)
        next
          case False
          then have "accounted tbl chk t p x" using I(6) Some h(2) by simp
          then show ?thesis using below by (auto simp: accounted_def arch in_w)
        qed
      qed
    qed
  qed
  moreover have "0 \<le> n \<and> 0 \<le> p" if "off ?c t p = Some n" for t p n
    using that W(4) [of t p] I(3) [of t p] by (fastforce simp: oc split: option.splits)
  ultimately show ?thesis
    using committed_append [OF nw mok props] I(7) offs_ok_sorted [OF mok] by (simp add: archive_inv_def)
qed

section \<open>The window of a run\<close>

lemma broker_views:
  assumes "broker_offsets describe answer ts ms = (earliest, latest, until)"
  shows "offs_ok earliest" and "t \<in> set (dkeys earliest) \<Longrightarrow> t \<in> set ts"
    and "(off0 earliest t p 0 = answer SpecEarliest t p \<and> off0 latest t p (off0 earliest t p 0) = answer SpecLatest t p)
       \<or> (off0 earliest t p 0 = 0 \<and> off0 latest t p (off0 earliest t p 0) = 0)"
proof -
  let ?n = "dict_update [] (map (\<lambda>t. (t, describe t)) ts)"
  have v: "earliest = list_offsets ?n answer SpecEarliest" "latest = list_offsets ?n answer SpecLatest"
    using assms by (auto simp: broker_offsets_def Let_def)
  show "offs_ok earliest" unfolding v by (rule offs_ok_list_offsets) simp
  have "dkeys earliest = dkeys ?n" unfolding v by (simp add: list_offsets_def comp_def case_prod_unfold)
  then show "t \<in> set (dkeys earliest) \<Longrightarrow> t \<in> set ts"
    using dkeys_dict_update [of "[]" "map (\<lambda>t. (t, describe t)) ts"] by (auto simp: comp_def simp del: set_map)
  show "(off0 earliest t p 0 = answer SpecEarliest t p \<and> off0 latest t p (off0 earliest t p 0) = answer SpecLatest t p)
       \<or> (off0 earliest t p 0 = 0 \<and> off0 latest t p (off0 earliest t p 0) = 0)"
    unfolding v by (auto simp: off0_off off_list_offsets split: option.splits)
qed

lemma starting_facts:
  assumes "archive_inv log c tbl chk" and "offs_ok earliest"
    and "off (next_starting_offsets c (map (\<lambda>(t, p). (t, int (length p))) earliest)) t p = Some o1"
  shows "t \<in> set (dkeys earliest)" and "0 \<le> p" and "o1 = EARLIEST \<or> 0 \<le> o1"
    and "off c t p = Some n \<Longrightarrow> o1 = n" and "off c t p = None \<Longrightarrow> o1 = EARLIEST"
proof -
  note I = archive_invD [OF assms(1)]
  obtain k where k: "map_of (map (\<lambda>(t, p). (t, int (length p))) earliest) t = Some k"
    and o1: "(case off c t p of Some x \<Rightarrow> Some x | None \<Rightarrow> if 0 \<le> p \<and> p < k then Some EARLIEST else None) = Some o1"
    using assms(3) off_next_starting [OF I(2), of "map (\<lambda>(t, p). (t, int (length p))) earliest" t p]
    by (auto split: option.splits)
  from k have "(t, k) \<in> set (map (\<lambda>(t, p). (t, int (length p))) earliest)" by (rule map_of_SomeD)
  then show "t \<in> set (dkeys earliest)" by force
  show "0 \<le> p" "o1 = EARLIEST \<or> 0 \<le> o1" "off c t p = Some n \<Longrightarrow> o1 = n" "off c t p = None \<Longrightarrow> o1 = EARLIEST"
    using o1 I(3) [of t p] by (auto split: option.splits if_splits)
qed

text \<open>A window computed from starts that are at or above the log start is retained.\<close>

lemma window_retained:
  assumes br: "broker_ok log env"
    and bo: "broker_offsets (e_describe env) (e_answer env) ts ms = (earliest, latest, until)"
    and b: "bounded_offsets starting earliest latest m until = (starts, ends, backlog)"
    and st: "\<And>t p o1. off starting t p = Some o1 \<Longrightarrow>
       (o1 = EARLIEST \<or> (0 \<le> o1 \<and> off0 earliest t p 0 \<le> o1))"
  shows "retained env starts ends"
  unfolding retained_def
proof (intro allI impI)
  fix t p s e assume s: "off starts t p = Some s" and e: "off ends t p = Some e"
  obtain o1 where o1: "off starting t p = Some o1" using s bounded_offsets_off(1) [OF b, of t p] by auto
  note v = broker_views(3) [OF bo, of t p]
  have z: "0 \<le> off0 earliest t p 0" using br v unfolding broker_ok_def by fastforce
  have "0 \<le> s \<and> s \<le> e \<and> off0 earliest t p 0 \<le> s \<and> (s = e \<or> e \<le> off0 latest t p (off0 earliest t p 0))"
    using bounded_facts [OF b o1 _ z] st [OF o1] s e by (auto simp: EARLIEST_def)
  with v show "s = e \<or> e_answer env SpecEarliest t p \<le> s \<and> e \<le> e_answer env SpecLatest t p"
    by auto
qed

lemma plain_window:
  assumes inv: "archive_inv log c tbl chk" and br: "broker_ok log env"
    and bo: "broker_offsets (e_describe env) (e_answer env) ts ms = (earliest, latest, until)"
    and b: "bounded_offsets (next_starting_offsets c (map (\<lambda>(t, p). (t, int (length p))) earliest))
              earliest latest m until = (starts, ends, backlog)"
    and le: "evicted starts earliest = []"
  shows "window_ok env c chk starts ends"
proof -
  let ?st = "next_starting_offsets c (map (\<lambda>(t, p). (t, int (length p))) earliest)"
  note v = broker_views [OF bo]
  have z: "0 \<le> off0 earliest t p 0" for t p using br v(3) [of t p] unfolding broker_ok_def by fastforce
  have "dict_ok (map (\<lambda>(t, p). (t, int (length p))) earliest)" using v(1) by (simp add: offs_ok_def)
  then have sok: "offs_ok ?st" by (rule offs_ok_next_starting)
  then have ok: "offs_ok starts" "offs_ok ends" using bounded_offsets_off(3,4) [OF b] by blast+
  note sf = starting_facts [OF inv v(1)]
  have not_ev: "off starts t p = Some s \<Longrightarrow> off0 earliest t p 0 \<le> s" for t p s
    using le evicted_Nil_iff [OF ok(1)] by blast
  have ret: "retained env starts ends"
  proof (rule window_retained [OF br bo b])
    fix t p o1 assume o1: "off ?st t p = Some o1"
    show "o1 = EARLIEST \<or> (0 \<le> o1 \<and> off0 earliest t p 0 \<le> o1)"
      using bounded_facts [OF b o1 sf(3) [OF o1] z] sf(3) [OF o1] not_ev by auto
  qed
  show ?thesis unfolding window_ok_def
  proof (intro conjI ok ret allI)
    fix t p
    show "case (off starts t p, off ends t p) of
          (Some s, Some e) \<Rightarrow> 0 \<le> s \<and> s \<le> e \<and> 0 \<le> p \<and>
            (case off c t p of None \<Rightarrow> True | Some n \<Rightarrow> n \<le> s \<and> (\<forall>x. n \<le> x \<longrightarrow> x < s \<longrightarrow> recorded chk t p x))
        | (None, None) \<Rightarrow> True | _ \<Rightarrow> False"
    proof (cases "off ?st t p")
      case None
      then show ?thesis using bounded_offsets_off(1,2) [OF b, of t p] by simp
    next
      case (Some o1)
      have "0 \<le> n" if "off c t p = Some n" for n using that archive_invD(3) [OF inv] by blast
      then show ?thesis
        using bounded_facts [OF b Some sf(3) [OF Some] z] sf(2,4) [OF Some] by (fastforce split: option.splits)
    qed
  qed
qed

lemma recorded_gapI:
  "gaps_of chk = Inr gs \<Longrightarrow> (t, p, lo, hi) \<in> set gs \<Longrightarrow> lo \<le> x \<Longrightarrow> x \<le> hi \<Longrightarrow> recorded chk t p x"
  by (auto simp: recorded_def)

lemma repaired_window:
  assumes inv: "archive_inv log c tbl chk" and br: "broker_ok log env"
    and bo: "broker_offsets (e_describe env) (e_answer env) ts ms = (earliest, latest, until)"
    and b: "bounded_offsets (next_starting_offsets c (map (\<lambda>(t, p). (t, int (length p))) earliest))
              earliest latest m until = (starts, ends, backlog)"
    and sk: "skip_evicted starts (evicted starts earliest) = Inr r"
    and b2: "bounded_offsets r earliest latest m until = (starts2, ends2, backlog2)"
    and gs: "gaps_of chk' = Inr (gs @ map (\<lambda>(t, p, s, l, _). (t, p, s, l - 1)) (evicted starts earliest))"
  shows "window_ok env c chk' starts2 ends2"
proof -
  let ?st = "next_starting_offsets c (map (\<lambda>(t, p). (t, int (length p))) earliest)"
  note v = broker_views [OF bo]
  have z: "0 \<le> off0 earliest t p 0" for t p using br v(3) [of t p] unfolding broker_ok_def by fastforce
  have "dict_ok (map (\<lambda>(t, p). (t, int (length p))) earliest)" using v(1) by (simp add: offs_ok_def)
  then have sok: "offs_ok starts" using bounded_offsets_off(3) [OF b] offs_ok_next_starting by blast
  have r: "offs_ok r" "\<And>t p. off r t p = map_option (\<lambda>s. max s (off0 earliest t p 0)) (off starts t p)"
    using skip_evicted_evicted [OF sok, of earliest] sk by auto
  then have ok: "offs_ok starts2" "offs_ok ends2" using bounded_offsets_off(3,4) [OF b2] by blast+
  note sf = starting_facts [OF inv v(1)]
  have s1: "0 \<le> s \<and> 0 \<le> p \<and> (case off c t p of None \<Rightarrow> True | Some n \<Rightarrow> s = n)" if st: "off starts t p = Some s" for t p s
  proof -
    obtain o1 where o1: "off ?st t p = Some o1" using st bounded_offsets_off(1) [OF b, of t p] by auto
    have "0 \<le> n" if "off c t p = Some n" for n using that archive_invD(3) [OF inv] by blast
    then show ?thesis
      using bounded_facts [OF b o1 sf(3) [OF o1] z] sf(2,4) [OF o1] st by (fastforce split: option.splits)
  qed
  have rpos: "0 \<le> o1 \<and> off0 earliest t p 0 \<le> o1" if "off r t p = Some o1" for t p o1
    using that z [of t p] by (auto simp: r(2))
  have ret: "retained env starts2 ends2"
    by (rule window_retained [OF br bo b2]) (use rpos in blast)
  show ?thesis unfolding window_ok_def
  proof (intro conjI ok ret allI)
    fix t p
    show "case (off starts2 t p, off ends2 t p) of
          (Some s, Some e) \<Rightarrow> 0 \<le> s \<and> s \<le> e \<and> 0 \<le> p \<and>
            (case off c t p of None \<Rightarrow> True | Some n \<Rightarrow> n \<le> s \<and> (\<forall>x. n \<le> x \<longrightarrow> x < s \<longrightarrow> recorded chk' t p x))
        | (None, None) \<Rightarrow> True | _ \<Rightarrow> False"
    proof (cases "off starts t p")
      case None
      then show ?thesis using bounded_offsets_off(1,2) [OF b2, of t p] by (simp add: r(2))
    next
      case (Some s)
      let ?o = "max s (off0 earliest t p 0)"
      have ro: "off r t p = Some ?o" by (simp add: r(2) Some)
      obtain e where w: "off starts2 t p = Some ?o" "off ends2 t p = Some e" "?o \<le> e"
        using bounded_facts [OF b2 ro _ z] rpos [OF ro] by auto
      have "recorded chk' t p x" if "s \<le> x" "x < ?o" for x
      proof (rule recorded_gapI [OF gs])
        have "(t, p, s, off0 earliest t p 0, off0 earliest t p 0 - s) \<in> set (evicted starts earliest)"
          using that evicted_mem [OF sok] Some by simp
        then show "(t, p, s, off0 earliest t p 0 - 1) \<in> set (gs @ map (\<lambda>(t, p, s, l, _). (t, p, s, l - 1)) (evicted starts earliest))"
          by force
      qed (use that in simp_all)
      then show ?thesis using w s1 [OF Some] by (auto split: option.splits)
    qed
  qed
qed

lemma window_gaps:
  assumes inv: "archive_inv log c tbl chk" and br: "broker_ok log env"
    and bo: "broker_offsets (e_describe env) (e_answer env) (all_topics (e_prefix env) (e_exchanges env)) ms = (earliest, latest, until)"
    and b: "bounded_offsets (next_starting_offsets c (map (\<lambda>(t, p). (t, int (length p))) earliest))
              earliest latest m until = (starts, ends, backlog)"
    and l: "(t, p, s, l, n) \<in> set (evicted starts earliest)"
  shows "plain_word t \<and> 0 \<le> p \<and> 0 \<le> s \<and> 0 \<le> l"
proof -
  note v = broker_views [OF bo]
  have z: "0 \<le> off0 earliest t p 0" for t p using br v(3) [of t p] unfolding broker_ok_def by fastforce
  have "dict_ok (map (\<lambda>(t, p). (t, int (length p))) earliest)" using v(1) by (simp add: offs_ok_def)
  then have sok: "offs_ok starts" using bounded_offsets_off(3) [OF b] offs_ok_next_starting by blast
  have s: "off starts t p = Some s" "l = off0 earliest t p 0" using l evicted_mem [OF sok] by auto
  then obtain o1 where o1: "off (next_starting_offsets c (map (\<lambda>(t, p). (t, int (length p))) earliest)) t p = Some o1"
    using bounded_offsets_off(1) [OF b, of t p] by auto
  note sf = starting_facts [OF inv v(1) o1]
  have "plain_word t" using br sf(1) v(2) unfolding broker_ok_def by blast
  then show ?thesis using bounded_facts [OF b o1 sf(3) z] sf(2) s z by auto
qed

section \<open>Every run keeps the invariant\<close>

lemma commit_range_inv:
  assumes "archive_inv log c tbl chk" and "broker_ok log env" and "window_ok env c chk starts ends"
    and "newer tbl (snd (e_commit env))" and "commit_range env its c (starts, ends, backlog) tbl = (tbl', r)"
  shows "\<exists>c'. archive_inv log c' tbl' chk"
proof (cases "starts = ends \<or> py_max_by id (map m_ts (e_load env starts ends)) = None")
  case True
  then have "tbl' = tbl" using assms(5) by (auto simp: commit_range_def Let_def split: if_splits)
  then show ?thesis using assms(1) by blast
next
  case False
  then obtain mx where mx: "py_max_by id (map m_ts (e_load env starts ends)) = Some mx" by blast
  let ?props = "[(JOB, JOB_INGEST), (KAFKA_OFFSETS, encode (merge_committed c ends)),
       (KAFKA_BACKLOG, json_dumps (JObj (map (\<lambda>(k, n). (k, JInt n)) backlog))), (MAX_KAFKA_TS, e_isoformat env mx)]"
  have "tbl' = table_append tbl (fst (e_commit env)) (snd (e_commit env)) ?props
      (map (raw_row_of its) (e_load env starts ends))"
    using assms(5) False mx by (simp add: commit_range_def Let_def)
  moreover have "map_of ?props JOB = Some JOB_INGEST" "map_of ?props KAFKA_OFFSETS = Some (encode (merge_committed c ends))"
    by (simp_all add: JOB_def KAFKA_OFFSETS_def)
  ultimately show ?thesis using commit_keeps_inv [OF assms(1-4) refl, of ?props] by blast
qed

lemma accept_data_loss_cases:
  assumes inv: "archive_inv log c tbl chk" and br: "broker_ok log env"
    and bo: "broker_offsets (e_describe env) (e_answer env) (all_topics (e_prefix env) (e_exchanges env)) ms = (earliest, latest, until)"
    and b: "bounded_offsets (next_starting_offsets c (map (\<lambda>(t, p). (t, int (length p))) earliest))
              earliest latest m until = (starts, ends, backlog)"
    and a: "accept_data_loss env (evicted starts earliest) starts earliest latest m until ts chk = (chk', res)"
  shows "(chk' = chk \<and> res = Inl SystemExit) \<or>
    (\<exists>starts2 ends2 backlog2. res = Inr (starts2, ends2, backlog2) \<and>
       archive_inv log c tbl chk' \<and> window_ok env c chk' starts2 ends2)"
proof (cases "e_lands env")
  case False
  then show ?thesis using a by (auto simp: accept_data_loss_def write_audit_rows_def Let_def)
next
  case True
  note v = broker_views [OF bo]
  have "dict_ok (map (\<lambda>(t, p). (t, int (length p))) earliest)" using v(1) by (simp add: offs_ok_def)
  then have sok: "offs_ok starts" using bounded_offsets_off(3) [OF b] offs_ok_next_starting by blast
  obtain r where r: "skip_evicted starts (evicted starts earliest) = Inr r"
    using skip_evicted_evicted [OF sok] by blast
  obtain starts2 ends2 backlog2 where b2: "bounded_offsets r earliest latest m until = (starts2, ends2, backlog2)"
    by (cases "bounded_offsets r earliest latest m until") blast
  obtain gs where gs: "gaps_of chk = Inr gs" using archive_invD(7) [OF inv] by blast
  let ?rows = "map (gap_audit_row (e_app env) ts) (evicted starts earliest)"
  have chk': "\<exists>i t props. chk' = table_append chk i t props ?rows" and res: "res = Inr (starts2, ends2, backlog2)"
    using a True r b2 by (auto simp: accept_data_loss_def write_audit_rows_def Let_def)
  have "filter (\<lambda>r. a_check r = ''offset_gap'') ?rows = ?rows"
    by (auto simp: gap_audit_row_def intro!: filter_True)
  then have "gaps_of chk' = Inr (gs @ map (\<lambda>(t, p, s, l, _). (t, p, s, l - 1)) (evicted starts earliest))"
    using chk' gaps_of_append [OF gs, of ?rows] gap_rows_read_back [OF window_gaps [OF inv br bo b]] by auto
  then show ?thesis
    using archive_inv_checks [OF inv gs] repaired_window [OF inv br bo b r b2] res by blast
qed

lemma stage_raw_inv:
  assumes inv: "archive_inv log c (raw lk) (checks lk)" and br: "broker_ok log env"
    and nw: "newer (raw lk) (snd (e_commit env))"
    and st: "stage_raw env ts end_ts m accept lk = (lk', r)"
  shows "\<exists>c'. archive_inv log c' (raw lk') (checks lk')" and "archive_inv log c (raw lk) (checks lk')"
proof -
  let ?ms = "if end_ts = [] then Inr 0 else epoch_ms (e_iso env) end_ts"
  have "(\<exists>c'. archive_inv log c' (raw lk') (checks lk')) \<and> archive_inv log c (raw lk) (checks lk')"
  proof (cases ?ms)
    case (Inl e)
    then show ?thesis using st inv archive_invD(1) [OF inv] by (auto simp: stage_raw_def)
  next
    case (Inr end_ms)
    obtain earliest latest until where bo: "broker_offsets (e_describe env) (e_answer env)
        (all_topics (e_prefix env) (e_exchanges env)) end_ms = (earliest, latest, until)"
      by (metis prod_cases3)
    let ?st = "next_starting_offsets c (map (\<lambda>(t, p). (t, int (length p))) earliest)"
    obtain starts ends backlog where b: "bounded_offsets ?st earliest latest m until = (starts, ends, backlog)"
      by (metis prod_cases3)
    let ?L = "evicted starts earliest"
    have body: "(lk', r) =
       (if ?L = [] then (let (t, r) = commit_range env ts c (starts, ends, backlog) (raw lk) in (lk\<lparr>raw := t\<rparr>, r))
        else if \<not> accept then (lk, Inl SystemExit)
        else (case accept_data_loss env ?L starts earliest latest m until ts (checks lk) of
                (chk, Inl e) \<Rightarrow> (lk\<lparr>checks := chk\<rparr>, Inl e)
              | (chk, Inr window) \<Rightarrow>
                  (let (t, r) = commit_range env ts c window (raw lk) in (\<lparr>raw = t, checks = chk\<rparr>, r))))"
      using st Inr archive_invD(1) [OF inv] bo b by (simp add: stage_raw_def Let_def)
    consider (clean) "?L = []" | (refuse) "?L \<noteq> []" "\<not> accept" | (take) "?L \<noteq> []" "accept" by blast
    then show ?thesis
    proof cases
      case clean
      obtain t r' where cr: "commit_range env ts c (starts, ends, backlog) (raw lk) = (t, r')" by force
      have "\<exists>c'. archive_inv log c' t (checks lk)"
        by (rule commit_range_inv [OF inv br plain_window [OF inv br bo b clean] nw cr])
      then show ?thesis using body clean cr inv by simp
    next
      case refuse
      then show ?thesis using body inv by auto
    next
      case take
      obtain chk res where ac: "accept_data_loss env ?L starts earliest latest m until ts (checks lk) = (chk, res)" by force
      from accept_data_loss_cases [OF inv br bo b ac] show ?thesis
      proof (elim disjE exE conjE)
        assume "chk = checks lk" "res = Inl SystemExit"
        then have "lk' = lk" using body take ac by simp
        then show ?thesis using inv by blast
      next
        fix s2 e2 b2 assume res: "res = Inr (s2, e2, b2)" and i2: "archive_inv log c (raw lk) chk" and w2: "window_ok env c chk s2 e2"
        obtain t r' where cr: "commit_range env ts c (s2, e2, b2) (raw lk) = (t, r')" by force
        have "\<exists>c'. archive_inv log c' t chk" by (rule commit_range_inv [OF i2 br w2 nw cr])
        then show ?thesis using body take ac res cr i2 by simp
      qed
    qed
  qed
  then show "\<exists>c'. archive_inv log c' (raw lk') (checks lk')" and "archive_inv log c (raw lk) (checks lk')" by blast+
qed

lemma ingest_step_inv:
  assumes "ingest_step log lk lk'" and "archive_inv log c (raw lk) (checks lk)"
  shows "\<exists>c'. archive_inv log c' (raw lk') (checks lk')"
  using assms(1)
proof cases
  case (run env ts end_ts m accept)
  then show ?thesis
    using stage_raw_inv(1) [OF assms(2) run(2,3)] by (metis prod.collapse)
next
  case (killed env ts end_ts m accept)
  then have "archive_inv log c (raw lk') (checks lk')"
    using stage_raw_inv(2) [OF assms(2) killed(2,3), of ts end_ts m accept] by (metis lake.select_convs(1) lake.select_convs(2) lake.surjective lake.update_convs(2) prod.collapse)
  then show ?thesis by blast
next
  case (rewrite ts sm i)
  then have "archive_inv log c (raw lk') (checks lk')"
    using assms(2) by (simp add: archive_inv_def committed_rewrite archived_def accounted_def)
  then show ?thesis by blast
next
  case (finding rows i ts props)
  obtain gs where gs: "gaps_of (checks lk) = Inr gs" using archive_invD(7) [OF assms(2)] by blast
  have "gaps_of (checks lk') = Inr (gs @ [])"
    using finding gs by (simp add: gaps_of_append filter_False recorded_gaps_def gaps_of_def)
  then have "archive_inv log c (raw lk) (checks lk')" by (rule archive_inv_checks [OF assms(2) gs])
  then show ?thesis using finding by auto
qed

lemma ingest_reach_inv: "ingest_reach log lk \<Longrightarrow> \<exists>c. archive_inv log c (raw lk) (checks lk)"
proof (induction rule: ingest_reach.induct)
  case init
  then show ?case using archive_inv_init by auto
next
  case (step lk lk')
  then show ?case using ingest_step_inv by blast
qed

section \<open>A broker that serves a log\<close>

definition demo_load :: "(string \<Rightarrow> int \<Rightarrow> int list) \<Rightarrow> offs \<Rightarrow> offs \<Rightarrow> msg list" where
  "demo_load content starts ends =
     concat (map (\<lambda>(t, ps). concat (map (\<lambda>(p, s).
       case off ends t p of None \<Rightarrow> []
       | Some e \<Rightarrow> map (\<lambda>x. \<lparr>m_topic = t, m_part = p, m_off = x, m_ts = 1000 + x, m_key = None, m_value = None, m_headers = None\<rparr>)
           (filter (\<lambda>x. s \<le> x \<and> x < e) (content t p))) ps)) starts)"

definition demo_env :: "(string \<Rightarrow> int \<Rightarrow> int list) \<Rightarrow> (string \<Rightarrow> int \<Rightarrow> int) \<Rightarrow> (string \<Rightarrow> int \<Rightarrow> int) \<Rightarrow> int \<Rightarrow> env" where
  "demo_env content earliest latest k =
     \<lparr>e_prefix = V3_PREFIX, e_exchanges = EXCHANGES, e_describe = (\<lambda>_. 1),
      e_answer = (\<lambda>spec t p. case spec of SpecEarliest \<Rightarrow> earliest t p | SpecLatest \<Rightarrow> latest t p | SpecTimestamp _ \<Rightarrow> - 1),
      e_load = demo_load content, e_lands = True, e_commit = (k, k), e_audit_commit = (k, k), e_app = ''app'',
      e_iso = (\<lambda>_. Inl ValueError), e_isoformat = (\<lambda>_. ''1970-01-01T00:00:01'')\<rparr>"

lemma demo_load_keys:
  "map msg_key (demo_load content starts ends) =
     concat (map (\<lambda>(t, ps). concat (map (\<lambda>(p, s).
       case off ends t p of None \<Rightarrow> [] | Some e \<Rightarrow> map (\<lambda>x. (t, p, x)) (filter (\<lambda>x. s \<le> x \<and> x < e) (content t p))) ps)) starts)"
  by (auto simp: demo_load_def map_concat msg_key_def comp_def case_prod_unfold intro!: arg_cong [of _ _ concat] map_cong split: option.splits)

lemma demo_load_mem:
  assumes "offs_ok starts"
  shows "(t, p, x) \<in> msg_key ` set (demo_load content starts ends) \<longleftrightarrow>
     in_window starts ends t p x \<and> x \<in> set (content t p)"
proof -
  have "(t, p, x) \<in> msg_key ` set (demo_load content starts ends) \<longleftrightarrow>
     (\<exists>ps s e. (t, ps) \<in> set starts \<and> (p, s) \<in> set ps \<and> off ends t p = Some e \<and> s \<le> x \<and> x < e \<and> x \<in> set (content t p))"
    unfolding set_map [symmetric] demo_load_keys
  proof
    assume "\<exists>ps s e. (t, ps) \<in> set starts \<and> (p, s) \<in> set ps \<and> off ends t p = Some e \<and> s \<le> x \<and> x < e \<and> x \<in> set (content t p)"
    then obtain ps s e where h: "(t, ps) \<in> set starts" "(p, s) \<in> set ps" "off ends t p = Some e" "s \<le> x" "x < e" "x \<in> set (content t p)"
      by blast
    show "(t, p, x) \<in> set (concat (map (\<lambda>(t, ps). concat (map (\<lambda>(p, s).
       case off ends t p of None \<Rightarrow> [] | Some e \<Rightarrow> map (\<lambda>x. (t, p, x)) (filter (\<lambda>x. s \<le> x \<and> x < e) (content t p))) ps)) starts))"
      by (rule concat_mapI [OF h(1)], simp only: prod.case, rule concat_mapI [OF h(2)]) (simp add: h)
  qed (auto split: option.splits, metis)
  also have "\<dots> \<longleftrightarrow> (\<exists>s e. off starts t p = Some s \<and> off ends t p = Some e \<and> s \<le> x \<and> x < e \<and> x \<in> set (content t p))"
    using assms by (auto simp: off_def bind_eq_Some_conv map_of_mem offs_okD)
  finally show ?thesis by (auto simp: in_window_def split: option.splits)
qed

lemma distinct_concat_keyed:
  assumes "distinct (map k xs)" and "\<And>x. x \<in> set xs \<Longrightarrow> distinct (f x)" and "\<And>x y. x \<in> set xs \<Longrightarrow> y \<in> set (f x) \<Longrightarrow> g y = k x"
  shows "distinct (concat (map f xs))"
  using assms
proof (induction xs)
  case (Cons x xs)
  have "set (f x) \<inter> set (concat (map f xs)) = {}"
  proof (rule equals0I)
    fix y assume "y \<in> set (f x) \<inter> set (concat (map f xs))"
    then obtain z where "z \<in> set xs" "y \<in> set (f z)" "y \<in> set (f x)" by auto
    then have "k z = k x" using Cons.prems(3) by (metis list.set_intros(1,2))
    with Cons.prems(1) \<open>z \<in> set xs\<close> show False by (auto simp: image_iff)
  qed
  with Cons show ?case by auto
qed simp

lemma demo_load_distinct:
  assumes "offs_ok starts" and "\<And>t p. distinct (content t p)"
  shows "distinct (map msg_key (demo_load content starts ends))"
proof -
  let ?one = "\<lambda>t p s. case off ends t p of None \<Rightarrow> [] | Some e \<Rightarrow> map (\<lambda>x. (t, p, x)) (filter (\<lambda>x. s \<le> x \<and> x < e) (content t p))"
  have d1: "distinct (?one t p s)" for t p s
    using assms(2) by (auto simp: distinct_map inj_on_def split: option.splits)
  have "distinct (concat (map (\<lambda>(p, s). ?one t p s) ps))" if "(t, ps) \<in> set starts" for t ps
    by (rule distinct_concat_keyed [where k = fst and g = "\<lambda>(t, p, x). p"])
      (use that assms(1) d1 offs_okD(3) in \<open>auto simp: dict_ok_def split: option.splits\<close>)
  then show ?thesis unfolding demo_load_keys
    by (intro distinct_concat_keyed [where k = fst and g = "\<lambda>(t, p, x). t"])
      (use assms(1) in \<open>auto simp: offs_ok_def dict_ok_def split: option.splits\<close>)
qed

lemma demo_broker_ok:
  assumes "\<And>t p. distinct (content t p)" and "\<And>t p. 0 \<le> earliest t p \<and> earliest t p \<le> latest t p"
  shows "broker_ok (\<lambda>t p. set (content t p)) (demo_env content earliest latest k)"
proof -
  have "\<forall>t \<in> set (all_topics V3_PREFIX EXCHANGES). plain_word t"
    by (simp add: all_topics_def topics_def V3_PREFIX_def EXCHANGES_def plain_word_def)
  then show ?thesis
    using assms demo_load_mem demo_load_distinct by (simp add: broker_ok_def demo_env_def)
qed

section \<open>Runs with nothing to lose or nothing to do\<close>

lemma counts_lookup:
  "map_of (dict_update d (map (\<lambda>t. (t, f t)) ts)) t = (if t \<in> set ts then Some (f t) else map_of d t)"
  by (induction ts arbitrary: d) (auto simp: update_conv')

lemma broker_lookup:
  assumes "broker_offsets describe answer ts ms = (earliest, latest, until)"
  shows "off earliest t p = (if t \<in> set ts \<and> 0 \<le> p \<and> p < describe t then Some (answer SpecEarliest t p) else None)"
    and "off latest t p = (if t \<in> set ts \<and> 0 \<le> p \<and> p < describe t then Some (answer SpecLatest t p) else None)"
    and "t \<in> set ts \<Longrightarrow> map_of (map (\<lambda>(t, p). (t, int (length p))) earliest) t = Some (max 0 (describe t))"
    and "t \<notin> set ts \<Longrightarrow> map_of (map (\<lambda>(t, p). (t, int (length p))) earliest) t = None"
    and "ms = 0 \<Longrightarrow> until = None"
proof -
  let ?n = "dict_update [] (map (\<lambda>t. (t, describe t)) ts)"
  have v: "earliest = list_offsets ?n answer SpecEarliest" "latest = list_offsets ?n answer SpecLatest"
      "until = (if ms \<noteq> 0 then Some (list_offsets ?n answer (SpecTimestamp ms)) else None)"
    using assms by (auto simp: broker_offsets_def Let_def)
  show "off earliest t p = (if t \<in> set ts \<and> 0 \<le> p \<and> p < describe t then Some (answer SpecEarliest t p) else None)"
    and "off latest t p = (if t \<in> set ts \<and> 0 \<le> p \<and> p < describe t then Some (answer SpecLatest t p) else None)"
    by (auto simp: v off_list_offsets counts_lookup)
  have "map (\<lambda>(t, p). (t, int (length p))) earliest = map (\<lambda>(t, n). (t, max 0 n)) ?n"
    by (simp add: v list_offsets_def case_prod_unfold comp_def)
  then show "t \<in> set ts \<Longrightarrow> map_of (map (\<lambda>(t, p). (t, int (length p))) earliest) t = Some (max 0 (describe t))"
    and "t \<notin> set ts \<Longrightarrow> map_of (map (\<lambda>(t, p). (t, int (length p))) earliest) t = None"
    by (simp_all add: map_of_map_val counts_lookup)
  show "ms = 0 \<Longrightarrow> until = None" by (simp add: v)
qed

lemma loss_stops_run:
  assumes c: "committed_offsets (raw lk) = Inr c" "offs_ok c"
    and tp: "t \<in> set (all_topics (e_prefix env) (e_exchanges env))" "0 \<le> p" "p < e_describe env t"
    and n: "off c t p = Some n" "0 \<le> n" "n < e_answer env SpecEarliest t p"
    and no: "\<not> accept \<or> \<not> e_lands env"
  shows "stage_raw env ts [] m accept lk = (lk, Inl SystemExit)"
proof -
  obtain earliest latest until where bo: "broker_offsets (e_describe env) (e_answer env)
      (all_topics (e_prefix env) (e_exchanges env)) 0 = (earliest, latest, until)"
    by (metis prod_cases3)
  let ?st = "next_starting_offsets c (map (\<lambda>(t, p). (t, int (length p))) earliest)"
  obtain starts ends backlog where b: "bounded_offsets ?st earliest latest m until = (starts, ends, backlog)"
    by (metis prod_cases3)
  have e: "off0 earliest t p 0 = e_answer env SpecEarliest t p"
    using broker_lookup(1) [OF bo, of t p] tp by (simp add: off0_off)
  have "off ?st t p = Some n"
    using broker_lookup(3) [OF bo tp(1)] n(1) off_next_starting [OF c(2), of "map (\<lambda>(t, p). (t, int (length p))) earliest" t p]
    by simp
  then have "off starts t p = Some n" using bounded_facts [OF b] n e by force
  moreover have "offs_ok starts"
    by (rule bounded_offsets_off(3) [OF b], rule offs_ok_next_starting)
      (use broker_views(1) [OF bo] in \<open>simp add: offs_ok_def\<close>)
  ultimately have ev: "evicted starts earliest \<noteq> []"
    using evicted_Nil_iff n(3) e by fastforce
  show ?thesis
  proof (cases accept)
    case True
    then have "accept_data_loss env (evicted starts earliest) starts earliest latest m until ts (checks lk) = (checks lk, Inl SystemExit)"
      using no by (simp add: accept_data_loss_def write_audit_rows_def Let_def)
    then show ?thesis using c bo b ev True by (simp add: stage_raw_def)
  next
    case False
    then show ?thesis using c bo b ev by (simp add: stage_raw_def)
  qed
qed

lemma level_run:
  assumes c: "committed_offsets (raw lk) = Inr c" "offs_ok c"
    and lev: "\<And>t p. t \<in> set (all_topics (e_prefix env) (e_exchanges env)) \<Longrightarrow> 0 \<le> p \<Longrightarrow> p < e_describe env t \<Longrightarrow>
       off c t p = Some (e_answer env SpecLatest t p) \<and> 0 \<le> e_answer env SpecEarliest t p \<and>
         e_answer env SpecEarliest t p \<le> e_answer env SpecLatest t p"
    and out: "\<And>t p n. off c t p = Some n \<Longrightarrow> 0 \<le> n \<and> (t \<in> set (all_topics (e_prefix env) (e_exchanges env)) \<longrightarrow> 0 \<le> p)"
  shows "stage_raw env ts [] m accept lk = (lk, Inr 0)"
proof -
  let ?T = "all_topics (e_prefix env) (e_exchanges env)"
  obtain earliest latest until where bo: "broker_offsets (e_describe env) (e_answer env) ?T 0 = (earliest, latest, until)"
    by (metis prod_cases3)
  let ?st = "next_starting_offsets c (map (\<lambda>(t, p). (t, int (length p))) earliest)"
  obtain starts ends backlog where b: "bounded_offsets ?st earliest latest m until = (starts, ends, backlog)"
    by (metis prod_cases3)
  note v = broker_views [OF bo]
  have sok: "offs_ok ?st" by (rule offs_ok_next_starting) (use v(1) in \<open>simp add: offs_ok_def\<close>)
  have one: "bounded_part earliest latest m until t p o1 = (o1, o1, 0) \<and> off0 earliest t p 0 \<le> o1" if "off ?st t p = Some o1" for t p o1
  proof -
    have T: "t \<in> set ?T" using that off_next_starting [OF c(2), of "map (\<lambda>(t, p). (t, int (length p))) earliest" t p]
        broker_lookup(4) [OF bo, of t] by (fastforce split: option.splits)
    show ?thesis
    proof (cases "0 \<le> p \<and> p < e_describe env t")
      case True
      then have l: "off0 earliest t p 0 = e_answer env SpecEarliest t p" "off0 latest t p x = e_answer env SpecLatest t p" for x
        using broker_lookup(1,2) [OF bo, of t p] T by (simp_all add: off0_off)
      have "o1 = e_answer env SpecLatest t p"
        using that lev [OF T] True off_next_starting [OF c(2), of "map (\<lambda>(t, p). (t, int (length p))) earliest" t p]
          broker_lookup(3) [OF bo T] by simp
      moreover have "0 \<le> e_answer env SpecLatest t p" "e_answer env SpecEarliest t p \<le> e_answer env SpecLatest t p"
        using lev [OF T, of p] True by auto
      ultimately show ?thesis using l broker_lookup(5) [OF bo]
        by (simp add: bounded_part_def bounded_one_level)
    next
      case False
      then have "off earliest t p = None" "off latest t p = None"
        using broker_lookup(1,2) [OF bo, of t p] by auto
      then have l: "off0 earliest t p x = x" "off0 latest t p x = x" for x
        by (simp_all add: off0_off)
      have "off c t p = Some o1"
        using that False off_next_starting [OF c(2), of "map (\<lambda>(t, p). (t, int (length p))) earliest" t p]
          broker_lookup(3) [OF bo T] by (auto split: option.splits if_splits)
      then have "0 \<le> o1" using out by blast
      then show ?thesis using l broker_lookup(5) [OF bo]
        by (simp add: bounded_part_def bounded_one_level)
    qed
  qed
  have mem: "off ?st t p = Some o1" if "(t, ps) \<in> set ?st" "(p, o1) \<in> set ps" for t ps p o1
    using that sok by (simp add: off_def map_of_mem [symmetric] offs_okD bind_eq_Some_conv) (metis offs_okD(1,3) map_of_mem)
  have "starts = ends"
  proof -
    have "map (\<lambda>(p, o1). (p, fst (bounded_part earliest latest m until t p o1))) ps =
        map (\<lambda>(p, o1). (p, fst (snd (bounded_part earliest latest m until t p o1)))) ps" if "(t, ps) \<in> set ?st" for t ps
      using one mem [OF that] by (auto simp: map_eq_conv)
    then show ?thesis using b by (auto simp: bounded_offsets_def Let_def map_eq_conv)
  qed
  moreover have "evicted starts earliest = []"
  proof -
    have "offs_ok starts" using bounded_offsets_off(3) [OF b sok] .
    moreover have "off0 earliest t p 0 \<le> s" if "off starts t p = Some s" for t p s
      using that one bounded_offsets_off(1) [OF b, of t p] by fastforce
    ultimately show ?thesis by (simp add: evicted_Nil_iff)
  qed
  ultimately show ?thesis using c bo b by (simp add: stage_raw_def commit_range_def)
qed

section \<open>Properties\<close>


definition demo_content :: "string \<Rightarrow> int \<Rightarrow> int list" where
  "demo_content t p = (if t = ''market.crypto.v3.raw.kraken'' \<and> p = 0 then [3, 4, 5, 8] else [])"

definition demo_run :: lake where
  "demo_run = fst (stage_raw (demo_env demo_content (\<lambda>_ _. 3) (\<lambda>_ _. 9) 1) 0 [] 0 False \<lparr>raw = empty_table, checks = empty_table\<rparr>)"

lemma demo_reach: "ingest_reach (\<lambda>t p. set (demo_content t p)) demo_run"
  unfolding demo_run_def
  by (rule ingest_reach.step [OF ingest_reach.init], rule ingest_step.run, rule demo_broker_ok)
    (simp_all add: demo_content_def newer_def empty_table_def)

lemma demo_rows:
  "map row_key (table_rows (raw demo_run)) = map (\<lambda>x. (''market.crypto.v3.raw.kraken'', 0, x)) [3, 4, 5, 8]"
  by code_simp


text \<open>
  Never skip without a record. When retention has overtaken the committed offset of a partition, a
  run without \<open>--accept-data-loss\<close>, and a run with it whose audit row does not land, stops with an error
  and leaves both tables as they were.
\<close>
theorem eviction_stops_run:
  assumes "committed_offsets (raw lk) = Inr c" and "offs_ok c"
    and "t \<in> set (all_topics (e_prefix env) (e_exchanges env))" and "0 \<le> p" and "p < e_describe env t"
    and "off c t p = Some n" and "0 \<le> n" and "n < e_answer env SpecEarliest t p"
    and "\<not> accept \<or> \<not> e_lands env"
  shows "stage_raw env ts [] m accept lk = (lk, Inl SystemExit)"
  using assms by (rule loss_stops_run)

definition evicted_lake :: lake where
  "evicted_lake = \<lparr>raw = table_append empty_table 1 1
     [(JOB, JOB_INGEST), (KAFKA_OFFSETS, encode [(''market.crypto.v3.raw.kraken'', [(0, 2)])])] [], checks = empty_table\<rparr>"

lemma evicted_committed: "committed_offsets (raw evicted_lake) = Inr [(''market.crypto.v3.raw.kraken'', [(0, 2)])]"
proof -
  have "committed_offsets (raw evicted_lake) = Inr (sorted_offs [(''market.crypto.v3.raw.kraken'', [(0, 2)])])"
    unfolding evicted_lake_def lake.select_convs
    by (rule committed_append) (simp_all add: newer_def empty_table_def offs_ok_def dict_ok_def JOB_def KAFKA_OFFSETS_def)
  then show ?thesis by (simp add: sorted_offs_def)
qed

theorem eviction_stops_run_witness:
  "stage_raw (demo_env demo_content (\<lambda>_ _. 3) (\<lambda>_ _. 9) 2) 0 [] 200000 False evicted_lake = (evicted_lake, Inl SystemExit)"
  by (rule eviction_stops_run [OF evicted_committed, where t = "''market.crypto.v3.raw.kraken''" and p = 0 and n = 2])
    (simp_all add: offs_ok_def dict_ok_def off_def demo_env_def all_topics_def topics_def V3_PREFIX_def EXCHANGES_def)

text \<open>
  Re-running with no new data is a no-op: when every partition of every topic is committed up to the
  log end, a run commits nothing and reports no rows, whatever its bound and flags.
\<close>
theorem level_run_is_noop:
  assumes "committed_offsets (raw lk) = Inr c" and "offs_ok c"
    and "\<And>t p. t \<in> set (all_topics (e_prefix env) (e_exchanges env)) \<Longrightarrow> 0 \<le> p \<Longrightarrow> p < e_describe env t \<Longrightarrow>
       off c t p = Some (e_answer env SpecLatest t p) \<and> 0 \<le> e_answer env SpecEarliest t p \<and>
         e_answer env SpecEarliest t p \<le> e_answer env SpecLatest t p"
    and "\<And>t p n. off c t p = Some n \<Longrightarrow> 0 \<le> n \<and> (t \<in> set (all_topics (e_prefix env) (e_exchanges env)) \<longrightarrow> 0 \<le> p)"
  shows "stage_raw env ts [] m accept lk = (lk, Inr 0)"
  using assms by (rule level_run)

theorem level_run_is_noop_witness:
  "stage_raw ((demo_env demo_content (\<lambda>_ _. 0) (\<lambda>_ _. 2) 2)\<lparr>e_describe := (\<lambda>t. if t = ''market.crypto.v3.raw.kraken'' then 1 else 0)\<rparr>)
     0 [] 200000 False evicted_lake = (evicted_lake, Inr 0)"
  by (rule level_run_is_noop [OF evicted_committed])
    (auto simp: offs_ok_def dict_ok_def off_def demo_env_def split: if_splits)

text \<open>
  C7. The \<open>offset_gap\<close> rows \<open>--accept-data-loss\<close> writes are read back by the audit as exactly the ranges
  it skipped, one per partition, in order: the prose around the two numbers does not get in the way.
\<close>
theorem accepted_gaps_read_back:
  assumes "\<And>t p s l n. (t, p, s, l, n) \<in> set losses \<Longrightarrow> plain_word t \<and> 0 \<le> p \<and> 0 \<le> s \<and> 0 \<le> l"
  shows "recorded_gaps (map (\<lambda>r. (Some (a_scope r), Some (a_detail r))) (map (gap_audit_row app ts) losses)) =
           Inr (map (\<lambda>(t, p, s, l, _). (t, p, s, l - 1)) losses)"
  using assms by (rule gap_rows_read_back)

theorem accepted_gaps_read_back_witness:
  "recorded_gaps (map (\<lambda>r. (Some (a_scope r), Some (a_detail r)))
     (map (gap_audit_row ''app'' 0) [(''market.crypto.v3.raw.kraken'', 0, 120, 1300, 1180)])) =
   Inr (map (\<lambda>(t, p, s, l, _). (t, p, s, l - 1)) [(''market.crypto.v3.raw.kraken'', 0, 120, 1300, 1180 :: int)])"
  by (rule accepted_gaps_read_back) (simp add: plain_word_def)

end
