(* ===== verification/Layer.thy ===== *)
theory Layer
  imports Iceberg
begin

text \<open>
  The step every layer above \<open>raw\<close> repeats (\<open>bronze.stage\<close>, \<open>silver.stage\<close>, \<open>gold.stage_trades\<close>,
  \<open>books.stage\<close>): read back from the newest \<open>decode\<close> commit the upstream snapshot it consumed, read the
  upstream table past it (or as of its current snapshot when there is none), and append the result with
  the new position in the same commit. The locale \<open>incremental_layer\<close> states what such a step needs of a
  layer's transformation and proves once that the layer then always holds the transformation of the
  upstream rows up to its position, each exactly once.
\<close>

section \<open>The shared step\<close>

definition src_position :: "'r table \<Rightarrow> string \<Rightarrow> string option" where
  "src_position t key =
     (case latest_summary (snapshot_history t) JOB_DECODE of None \<Rightarrow> None | Some m \<Rightarrow> map_of m key)"

text \<open>\<open>if start:\<close> is false for a missing and for an empty position.\<close>

definition has_position :: "string option \<Rightarrow> bool" where
  "has_position start = (start \<noteq> None \<and> start \<noteq> Some [])"

definition level_with :: "string option \<Rightarrow> int \<Rightarrow> bool" where
  "level_with start end_id = (has_position start \<and> start = Some (show_int end_id))"

definition incremental_read :: "'r table \<Rightarrow> string option \<Rightarrow> int \<Rightarrow> 'r list res" where
  "incremental_read up start end_id =
     (if has_position start
      then (case py_int (the start) of None \<Rightarrow> Inl ValueError | Some i \<Rightarrow> rows_between up i end_id)
      else Inr (rows_at up end_id))"

definition decode_props :: "string \<Rightarrow> int \<Rightarrow> summary" where
  "decode_props key end_id = [(JOB, JOB_DECODE), (key, show_int end_id)]"

section \<open>What the step guarantees\<close>

text \<open>
  \<open>down\<close> is in step with \<open>up\<close>: it holds, each row seen through \<open>view\<close> (which drops the rows of another
  upstream table), the transformation of the upstream rows up to
  the snapshot it names, or nothing when it names none.
\<close>

definition each :: "'a \<Rightarrow> 'a list" where "each r = [r]"

lemma concat_each [simp]: "concat (map each xs) = xs" "concat (map (each \<circ> f) xs) = map f xs" "concat (map (\<lambda>x. each (f x)) xs) = map f xs"
  by (induction xs) (simp_all add: each_def)

definition in_step :: "('a list \<Rightarrow> 'c list) \<Rightarrow> ('b \<Rightarrow> 'c list) \<Rightarrow> string \<Rightarrow> 'a table \<Rightarrow> 'b table \<Rightarrow> bool" where
  "in_step f view key up down =
     (case src_position down key of
        None \<Rightarrow> concat (map view (table_rows down)) = []
      | Some s \<Rightarrow> \<exists>i. s = show_int i \<and> i \<in> set (map snap_id (snaps up)) \<and>
          mset (concat (map view (table_rows down))) = mset (f (rows_at up i)))"

text \<open>
  A layer being rebuilt in slices: \<open>rows\<close> are the upstream rows of the slices done, \<open>i\<close> the pinned snapshot every
  slice's commit names.
\<close>

definition sliced :: "('a list \<Rightarrow> 'c list) \<Rightarrow> ('b \<Rightarrow> 'c list) \<Rightarrow> string \<Rightarrow> int \<Rightarrow> 'a list \<Rightarrow> 'b table \<Rightarrow> bool" where
  "sliced f view key i rows down =
     (mset (concat (map view (table_rows down))) = mset (f rows) \<and>
      (src_position down key = Some (show_int i) \<or> down = empty_table))"

lemma src_position_append:
  assumes "\<forall>s \<in> set (snaps t). committed_at s < ts"
    and "map_of props JOB = Some JOB_DECODE" and "key \<noteq> ''added-records''"
  shows "src_position (table_append t i ts props rows) key = map_of props key"
proof -
  have "JOB \<noteq> ''added-records''" by (simp add: JOB_def)
  then have "of_job JOB_DECODE (Some (commit_summary props rows))"
    using assms(2) by (simp add: of_job_def commit_summary_lookup)
  then have "latest_summary (snapshot_history (table_append t i ts props rows)) JOB_DECODE = Some (commit_summary props rows)"
    unfolding history_append
    by (rule latest_summary_append) (use assms(1) in \<open>auto simp: snapshot_history_def\<close>)
  then show ?thesis using assms(3) by (simp add: src_position_def commit_summary_lookup)
qed

lemma src_position_foreign:
  "map_of props JOB \<noteq> Some JOB_DECODE \<Longrightarrow> src_position (table_append t i ts props rows) key = src_position t key"
proof -
  assume a: "map_of props JOB \<noteq> Some JOB_DECODE"
  have "JOB \<noteq> ''added-records''" by (simp add: JOB_def)
  then have "\<not> of_job JOB_DECODE (Some (commit_summary props rows))"
    using a by (simp add: of_job_def commit_summary_lookup)
  then show ?thesis by (simp add: src_position_def history_append latest_summary_foreign)
qed

lemma src_position_rewrite: "\<not> of_job JOB_DECODE sm \<Longrightarrow> src_position (table_rewrite t i ts sm) key = src_position t key"
proof -
  assume a: "\<not> of_job JOB_DECODE sm"
  then have "\<not> of_job JOB_DECODE (Some (case sm of None \<Rightarrow> [] | Some m \<Rightarrow> m))"
    by (cases sm) (auto simp: of_job_def)
  then show ?thesis by (simp add: src_position_def history_rewrite latest_summary_foreign)
qed

lemma empty_table_position: "src_position empty_table key = None" "table_rows empty_table = []"
  by (simp_all add: src_position_def snapshot_history_def latest_summary_def empty_table_def table_rows_def)

locale incremental_layer =
  fixes trans :: "'a list \<Rightarrow> 'c list"
    and view :: "'b \<Rightarrow> 'c list"
    and key :: string
  assumes trans_append: "mset (trans (xs @ ys)) = mset (trans xs) + mset (trans ys)"
    and key_name: "key \<noteq> ''added-records''" "key \<noteq> JOB"
begin

lemma trans_Nil: "trans [] = []"
  using trans_append [of "[]" "[]"] by simp

lemma step_keeps:
  assumes sync: "in_step trans view key up down"
    and ids: "distinct (map snap_id (snaps up))" "end_id \<in> set (map snap_id (snaps up))"
    and rd: "incremental_read up (src_position down key) end_id = Inr rows"
    and out: "mset (concat (map view out)) = mset (trans rows)"
    and fresh: "\<forall>s \<in> set (snaps down). committed_at s < ts"
    and props: "map_of props JOB = Some JOB_DECODE" "map_of props key = Some (show_int end_id)"
  shows "in_step trans view key up (table_append down i ts props out)"
proof -
  have pos: "src_position (table_append down i ts props out) key = Some (show_int end_id)"
    using src_position_append [OF fresh props(1) key_name(1)] props(2) by simp
  have "mset (concat (map view (table_rows down))) + mset (trans rows) = mset (trans (rows_at up end_id))"
  proof (cases "src_position down key")
    case None
    then show ?thesis using sync rd by (simp add: in_step_def incremental_read_def has_position_def)
  next
    case (Some s)
    then obtain j where j: "s = show_int j" "mset (concat (map view (table_rows down))) = mset (trans (rows_at up j))"
      using sync by (auto simp: in_step_def)
    have "rows_between up j end_id = Inr rows"
      using rd Some j(1) by (simp add: incremental_read_def has_position_def)
    then have "rows_at up end_id = rows_at up j @ rows" by (rule rows_between_at [OF ids(1)])
    then show ?thesis using j(2) by (simp add: trans_append)
  qed
  then show ?thesis using ids(2) pos out by (auto simp: in_step_def)
qed

lemma trans_perm: "mset xs = mset ys \<Longrightarrow> mset (trans xs) = mset (trans ys)"
proof -
  define g where "g z = mset (trans [z])" for z
  have cons: "mset (trans (z # zs)) = g z + mset (trans zs)" for z zs
    using trans_append [of "[z]" zs] by (simp add: g_def)
  have single: "mset (trans zs) = sum_mset (image_mset g (mset zs))" for zs
    by (induction zs) (simp_all add: trans_Nil cons)
  assume "mset xs = mset ys"
  then show "mset (trans xs) = mset (trans ys)" by (simp add: single)
qed

lemma sliced_start: "sliced trans view key i [] empty_table"
  by (simp add: sliced_def trans_Nil empty_table_position)

lemma sliced_skip: "sliced trans view key i xs down \<Longrightarrow> trans ys = [] \<Longrightarrow> sliced trans view key i (xs @ ys) down"
  by (simp add: sliced_def trans_append)

lemma sliced_append:
  assumes "sliced trans view key i xs down" and "mset (concat (map view out)) = mset (trans ys)"
    and "\<forall>s \<in> set (snaps down). committed_at s < ts"
    and "map_of props JOB = Some JOB_DECODE" "map_of props key = Some (show_int i)"
  shows "sliced trans view key i (xs @ ys) (table_append down j ts props out)"
  using assms src_position_append [OF assms(3,4) key_name(1)] by (simp add: sliced_def trans_append)

lemma sliced_in_step:
  assumes "sliced trans view key i xs down" and "i \<in> set (map snap_id (snaps up))" and "mset (trans xs) = mset (trans (rows_at up i))"
  shows "in_step trans view key up down"
proof (cases "down = empty_table")
  case True
  then show ?thesis by (simp add: in_step_def empty_table_position)
next
  case False
  then have "src_position down key = Some (show_int i)" using assms(1) by (simp add: sliced_def)
  then show ?thesis using assms by (auto simp: sliced_def in_step_def)
qed

lemma upstream_grows:
  assumes "in_step trans view key up down" and "snaps up' = snaps up @ later"
  shows "in_step trans view key up' down"
proof (cases "src_position down key")
  case None
  then show ?thesis using assms(1) by (simp add: in_step_def)
next
  case (Some s)
  then obtain i where i: "s = show_int i" "i \<in> set (map snap_id (snaps up))"
      "mset (concat (map view (table_rows down))) = mset (trans (rows_at up i))"
    using assms(1) by (auto simp: in_step_def)
  then have "rows_at up' i = rows_at up i" by (simp add: rows_at_def assms(2) upto_append)
  then show ?thesis using i Some assms(2) by (auto simp: in_step_def)
qed

lemma foreign_commit:
  "in_step trans view key up down \<Longrightarrow> \<not> of_job JOB_DECODE sm \<Longrightarrow> in_step trans view key up (table_rewrite down i ts sm)"
  by (simp add: in_step_def src_position_rewrite split: option.splits)

lemma other_commit:
  assumes "in_step trans view key up down" and "concat (map view out) = []"
    and "\<forall>s \<in> set (snaps down). committed_at s < ts"
    and "map_of props JOB = Some JOB_DECODE" and "map_of props key = src_position down key"
  shows "in_step trans view key up (table_append down i ts props out)"
proof -
  have "src_position (table_append down i ts props out) key = src_position down key"
    using src_position_append [OF assms(3,4) key_name(1)] assms(5) by simp
  moreover have "concat (map view (table_rows (table_append down i ts props out))) = concat (map view (table_rows down))"
    using assms(2) by simp
  ultimately show ?thesis using assms(1) by (simp only: in_step_def split: option.splits)
qed

lemma caught_up:
  assumes "in_step trans view key up down" and "distinct (map snap_id (snaps up))"
    and "snaps up = before @ [s]" and "src_position down key = Some (show_int (snap_id s))"
  shows "mset (concat (map view (table_rows down))) = mset (trans (table_rows up))"
proof -
  have "rows_at up (snap_id s) = table_rows up"
    using assms(2) by (simp add: rows_at_def table_rows_def assms(3) upto_last)
  then show ?thesis using assms(1,4) by (auto simp: in_step_def show_int_inj)
qed

end

end
