(* ===== verification/Bronze.thy ===== *)
theory Bronze
  imports Layer Ingest
begin

text \<open>
  \<open>docker/lake/bronze.py\<close>: the raw archive decoded into one table per venue and stream. The Avro and
  JSON readers, the registry and the text of an HTTP error are arguments (\<open>bronze_env\<close>); the venue's own
  columns are the type \<open>'j\<close> the JSON reader returns, \<open>None\<close> when a frame did not parse. The state is the
  bronze tables by name, \<open>audit.checks\<close>, and the commits Iceberg will still let land: when the list is
  exhausted the next append raises, so a crash between any two commits is a state of the model.
\<close>

section \<open>The venue tables\<close>

record venue_table =
  vt_name :: string
  vt_exchange :: string
  vt_stream :: string
  vt_schema :: string
  vt_required :: string
  vt_keys :: "(string \<times> string list) list"

definition VENUE_TABLES :: "venue_table list" where
  "VENUE_TABLES = [
   \<lparr>vt_name = ''binance_trade'', vt_exchange = ''binance'', vt_stream = ''trade'',
    vt_schema = ''stream STRING, data STRUCT<e: STRING, E: BIGINT, s: STRING, t: BIGINT, p: STRING, q: STRING, '' @
                ''T: BIGINT, m: BOOLEAN, M: BOOLEAN>'',
    vt_required = ''data'',
    vt_keys = [(''$'', [''stream'', ''data'']),
                (''$.data'', [''e'', ''E'', ''s'', ''t'', ''p'', ''q'', ''T'', ''m'', ''M''])]\<rparr>,
   \<lparr>vt_name = ''binance_depth20'', vt_exchange = ''binance'', vt_stream = ''depth20'',
    vt_schema = ''stream STRING, data STRUCT<lastUpdateId: BIGINT, bids: ARRAY<ARRAY<STRING>>, asks: '' @
                ''ARRAY<ARRAY<STRING>>>'',
    vt_required = ''data'',
    vt_keys = [(''$'', [''stream'', ''data'']),
                (''$.data'', [''lastUpdateId'', ''bids'', ''asks''])]\<rparr>,
   \<lparr>vt_name = ''kraken_trade'', vt_exchange = ''kraken'', vt_stream = ''trade'',
    vt_schema = ''channel STRING, type STRING, data ARRAY<STRUCT<symbol: STRING, side: STRING, price: '' @
                ''DECIMAL(28,10), qty: DECIMAL(28,10), ord_type: STRING, trade_id: BIGINT, timestamp: STRING>>'',
    vt_required = ''channel'',
    vt_keys = [(''$'', [''channel'', ''type'', ''data'']),
                (''$.data[0]'', [''symbol'', ''side'', ''price'', ''qty'', ''ord_type'', ''trade_id'', ''timestamp''])]\<rparr>,
   \<lparr>vt_name = ''kraken_book'', vt_exchange = ''kraken'', vt_stream = ''book'',
    vt_schema = ''channel STRING, type STRING, data ARRAY<STRUCT<symbol: STRING, bids: ARRAY<STRUCT<price: '' @
                ''DECIMAL(28,10), qty: DECIMAL(28,10)>>, asks: ARRAY<STRUCT<price: DECIMAL(28,10), qty: '' @
                ''DECIMAL(28,10)>>, checksum: BIGINT, timestamp: STRING>>'',
    vt_required = ''channel'',
    vt_keys = [(''$'', [''channel'', ''type'', ''data'']),
                (''$.data[0]'', [''symbol'', ''bids'', ''asks'', ''checksum'', ''timestamp''])]\<rparr>,
   \<lparr>vt_name = ''kraken_instrument'', vt_exchange = ''kraken'', vt_stream = ''instrument'',
    vt_schema = ''channel STRING, type STRING, data STRUCT<assets: ARRAY<STRUCT<id: STRING, status: STRING, '' @
                ''precision: INT, precision_display: INT, borrowable: BOOLEAN, collateral_value: DECIMAL(28,10), '' @
                ''class: STRING, margin_rate: DECIMAL(28,10)>>, pairs: ARRAY<STRUCT<symbol: STRING, base: '' @
                ''STRING, quote: STRING, status: STRING, qty_precision: INT, qty_increment: DECIMAL(28,10), '' @
                ''price_precision: INT, cost_precision: INT, marginable: BOOLEAN, has_index: BOOLEAN, '' @
                ''ws_display_price_precision: INT, cost_min: DECIMAL(28,10), margin_initial: DECIMAL(28,10), '' @
                ''position_limit_long: BIGINT, position_limit_short: BIGINT, tick_size: DECIMAL(28,10), '' @
                ''price_increment: DECIMAL(28,10), qty_min: DECIMAL(28,10)>>>'',
    vt_required = ''channel'',
    vt_keys = [(''$'', [''channel'', ''type'', ''data'']),
                (''$.data'', [''assets'', ''pairs'']),
                (''$.data.pairs[0]'', [''symbol'', ''base'', ''quote'', ''status'', ''qty_precision'', ''qty_increment'', ''price_precision'', ''cost_precision'', ''marginable'', ''has_index'', ''ws_display_price_precision'', ''cost_min'', ''margin_initial'', ''position_limit_long'', ''position_limit_short'', ''tick_size'', ''price_increment'', ''qty_min''])]\<rparr>,
   \<lparr>vt_name = ''coinbase_market_trades'', vt_exchange = ''coinbase'', vt_stream = ''market_trades'',
    vt_schema = ''channel STRING, timestamp STRING, sequence_num BIGINT, events ARRAY<STRUCT<type: STRING, '' @
                ''trades: ARRAY<STRUCT<product_id: STRING, trade_id: STRING, price: STRING, size: STRING, time: '' @
                ''STRING, side: STRING>>>>'',
    vt_required = ''channel'',
    vt_keys = [(''$'', [''channel'', ''timestamp'', ''sequence_num'', ''events'']),
                (''$.events[0]'', [''type'', ''trades'']),
                (''$.events[0].trades[0]'', [''product_id'', ''trade_id'', ''price'', ''size'', ''time'', ''side''])]\<rparr>,
   \<lparr>vt_name = ''coinbase_level2'', vt_exchange = ''coinbase'', vt_stream = ''l2_data'',
    vt_schema = ''channel STRING, timestamp STRING, sequence_num BIGINT, events ARRAY<STRUCT<type: STRING, '' @
                ''product_id: STRING, updates: ARRAY<STRUCT<side: STRING, event_time: STRING, price_level: '' @
                ''STRING, new_quantity: STRING>>>>'',
    vt_required = ''channel'',
    vt_keys = [(''$'', [''channel'', ''timestamp'', ''sequence_num'', ''events'']),
                (''$.events[0]'', [''type'', ''product_id'', ''updates'']),
                (''$.events[0].updates[0]'', [''side'', ''event_time'', ''price_level'', ''new_quantity''])]\<rparr>]"

definition venue_tables :: "string \<Rightarrow> venue_table list" where
  "venue_tables exchange = filter (\<lambda>t. vt_exchange t = exchange) VENUE_TABLES"

fun first_route :: "venue_table list \<Rightarrow> string \<Rightarrow> string \<Rightarrow> venue_table option" where
  "first_route [] exchange stream = None"
| "first_route (t # ts) exchange stream =
     (if vt_exchange t = exchange \<and> vt_stream t = stream then Some t else first_route ts exchange stream)"

definition route :: "string \<Rightarrow> string \<Rightarrow> venue_table option" where
  "route exchange stream = first_route VENUE_TABLES exchange stream"

definition routed_streams :: "string \<Rightarrow> string list" where
  "routed_streams exchange = map vt_stream (venue_tables exchange)"

definition drift :: "(string \<times> string list) list \<Rightarrow> (string \<times> string list) list \<Rightarrow> (string \<times> string list) list" where
  "drift seen expected =
     concat (map (\<lambda>(path, keys).
       let extra = sort (remdups (filter (\<lambda>k. k \<notin> set keys) (dget seen path [])))
       in if extra = [] then [] else [(path, extra)]) expected)"

section \<open>The decode\<close>

record frame =
  f_stream :: string
  f_symbol :: "string option"
  f_recv_ts_ns :: int
  f_conn_id :: string
  f_conn_msg_seq :: int
  f_payload :: bytes

record 'j bronze_row =
  b_cols :: "'j option"
  b_symbol :: "string option"
  b_recv_ts_ns :: int
  b_recv_ts :: int
  b_conn_id :: string
  b_conn_msg_seq :: int
  b_topic :: string
  b_part :: int
  b_off :: int
  b_ingest_ts :: int

record 'j bronze_env =
  be_registry :: "int \<Rightarrow> reply"
  be_error :: "int \<Rightarrow> string"
  be_avro :: "string \<Rightarrow> bytes \<Rightarrow> frame res"
  be_json :: "string \<Rightarrow> bytes \<Rightarrow> 'j option"

record 'j bronze =
  b_tables :: "string \<Rightarrow> 'j bronze_row table"
  b_checks :: "audit_row table"
  b_commits :: "(int \<times> int) list"
  b_audit_commits :: "(int \<times> int) list"

definition schema_ids :: "raw_row list \<Rightarrow> int list" where
  "schema_ids source = sort (remdups (map (\<lambda>r. the (r_schema_id r)) source))"

text \<open>The rows of one writer schema with the decoded message beside them; \<open>FAILFAST\<close> raises on the first
  record that does not decode.\<close>

definition decode_part_rows :: "'j bronze_env \<Rightarrow> string \<Rightarrow> raw_row list \<Rightarrow> (raw_row \<times> frame) list res" where
  "decode_part_rows env schema rows =
     res_map (\<lambda>r. res_bind (be_avro env schema (body_sql (case r_payload r of None \<Rightarrow> [] | Some v \<Rightarrow> v)))
       (\<lambda>f. Inr (r, f))) rows"

fun decoded_parts ::
  "'j bronze_env \<Rightarrow> raw_row list \<Rightarrow> int list \<Rightarrow> ((raw_row \<times> frame) list list \<times> (int \<times> string) list) res" where
  "decoded_parts env source [] = Inr ([], [])"
| "decoded_parts env source (i # ids) =
     (case fetch_schema (be_registry env) i of
        Inl UnresolvableSchema \<Rightarrow>
          res_bind (decoded_parts env source ids)
            (\<lambda>(parts, un). Inr (parts, (i, ''schema id '' @ show_int i @ '': '' @ be_error env i) # un))
      | Inl e \<Rightarrow> Inl e
      | Inr schema \<Rightarrow>
          res_bind (decode_part_rows env schema (filter (\<lambda>r. r_schema_id r = Some i) source)) (\<lambda>part.
          res_bind (decoded_parts env source ids) (\<lambda>(parts, un). Inr (part # parts, un))))"

definition decoded_raw ::
  "'j bronze_env \<Rightarrow> raw_row list \<Rightarrow> ((raw_row \<times> frame) list option \<times> (int \<times> string) list) res" where
  "decoded_raw env source =
     res_bind (decoded_parts env source (schema_ids source))
       (\<lambda>(parts, un). Inr (if parts = [] then None else Some (concat parts), un))"

definition bronze_row_of :: "'j bronze_env \<Rightarrow> venue_table \<Rightarrow> raw_row \<times> frame \<Rightarrow> 'j bronze_row" where
  "bronze_row_of env t rf =
     (case rf of (r, f) \<Rightarrow>
        \<lparr>b_cols = be_json env (vt_schema t) (f_payload f), b_symbol = f_symbol f, b_recv_ts_ns = f_recv_ts_ns f,
         b_recv_ts = trunc_div (f_recv_ts_ns f) 1000, b_conn_id = f_conn_id f, b_conn_msg_seq = f_conn_msg_seq f,
         b_topic = r_topic r, b_part = r_part r, b_off = r_off r, b_ingest_ts = r_ingest_ts r\<rparr>)"

definition bronze_project :: "'j bronze_env \<Rightarrow> (raw_row \<times> frame) list \<Rightarrow> venue_table \<Rightarrow> 'j bronze_row list" where
  "bronze_project env frames t = map (bronze_row_of env t) (filter (\<lambda>(_, f). f_stream f = vt_stream t) frames)"

fun write_tables ::
  "'j bronze_env \<Rightarrow> (raw_row \<times> frame) list \<Rightarrow> int \<Rightarrow> venue_table list \<Rightarrow> 'j bronze \<Rightarrow> 'j bronze \<times> (string \<times> int) list res" where
  "write_tables env frames raw_id [] st = (st, Inr [])"
| "write_tables env frames raw_id (t # ts) st =
     (case b_commits st of [] \<Rightarrow> (st, Inl OSError)
      | (i, time) # rest \<Rightarrow>
          (let tbl = table_append (b_tables st (vt_name t)) i time (decode_props SRC_SNAPSHOT_ID raw_id) (bronze_project env frames t);
               st' = st\<lparr>b_tables := (b_tables st)(vt_name t := tbl), b_commits := rest\<rparr>
           in (case added_records tbl of Inl e \<Rightarrow> (st', Inl e)
               | Inr n \<Rightarrow> (case write_tables env frames raw_id ts st' of
                     (st'', Inl e) \<Rightarrow> (st'', Inl e)
                   | (st'', Inr w) \<Rightarrow> (st'', Inr ((vt_name t, n) # w))))))"

definition unresolvable_row :: "int \<Rightarrow> string \<Rightarrow> int \<times> string \<Rightarrow> audit_row" where
  "unresolvable_row run_ts exchange u =
     \<lparr>a_run_ts = run_ts, a_job = ''ingest'', a_check = ''unresolvable_schema_id'',
      a_scope = ''bronze.'' @ exchange @ ''/schema_id='' @ show_int (fst u), a_passed = False,
      a_observed = fst u, a_detail = snd u\<rparr>"

definition parity_row :: "int \<Rightarrow> string \<Rightarrow> int \<Rightarrow> int \<Rightarrow> int \<Rightarrow> int \<Rightarrow> audit_row" where
  "parity_row run_ts exchange n_input n_routed n_unrouted raw_id =
     \<lparr>a_run_ts = run_ts, a_job = ''ingest'', a_check = ''bronze_parity'', a_scope = ''bronze.'' @ exchange,
      a_passed = False, a_observed = n_input - n_routed - n_unrouted,
      a_detail = show_int n_input @ '' raw frames in the range, '' @ show_int n_routed @ '' written, '' @
        show_int n_unrouted @ '' control; src snapshot '' @ show_int raw_id\<rparr>"

text \<open>Filing findings is best effort: a write that does not land changes nothing.\<close>

definition file_findings :: "audit_row list \<Rightarrow> 'j bronze \<Rightarrow> 'j bronze" where
  "file_findings findings st =
     (if findings = [] then st
      else (case b_audit_commits st of [] \<Rightarrow> st
            | (i, time) # rest \<Rightarrow>
                st\<lparr>b_checks := snd (write_audit_rows True i time (b_checks st) findings
                      [(''k2.bronze-findings'', show_int (int (length findings)))] ''ingest''),
                   b_audit_commits := rest\<rparr>))"

definition bronze_decode ::
  "'j bronze_env \<Rightarrow> raw_row list \<Rightarrow> int \<Rightarrow> int \<Rightarrow> string \<Rightarrow> 'j bronze \<Rightarrow> 'j bronze \<times> (string \<times> int) list res" where
  "bronze_decode env source raw_id run_ts exchange st =
     (case decoded_raw env source of Inl e \<Rightarrow> (st, Inl e)
      | Inr (frames, unresolvable) \<Rightarrow>
          (let un = map (unresolvable_row run_ts exchange) unresolvable in
           case frames of None \<Rightarrow> (file_findings un st, Inr [])
           | Some fs \<Rightarrow>
               (case write_tables env fs raw_id (venue_tables exchange) st of
                  (st', Inl e) \<Rightarrow> (st', Inl e)
                | (st', Inr written) \<Rightarrow>
                    (let n_input = int (length source);
                         n_unrouted = int (length (filter (\<lambda>(_, f). f_stream f \<notin> set (routed_streams exchange)) fs));
                         n_routed = sum_list (map snd written);
                         findings = un @ (if n_input = n_routed + n_unrouted then []
                           else [parity_row run_ts exchange n_input n_routed n_unrouted raw_id])
                     in (file_findings findings st', Inr written)))))"

section \<open>The incremental step and the rebuild\<close>

definition ends_with :: "string \<Rightarrow> string \<Rightarrow> bool" where
  "ends_with s suf = (length suf \<le> length s \<and> drop (length s - length suf) s = suf)"

definition MS_PER_DAY :: int where "MS_PER_DAY = 86400000"

definition venue_raw :: "string \<Rightarrow> int option \<Rightarrow> raw_row \<Rightarrow> bool" where
  "venue_raw exchange day r =
     (ends_with (r_topic r) (''.raw.'' @ exchange) \<and> r_schema_id r \<noteq> None \<and>
      (case day of None \<Rightarrow> True | Some d \<Rightarrow> r_kafka_ts r div MS_PER_DAY = d))"

definition bronze_source :: "raw_row table \<Rightarrow> int \<Rightarrow> string option \<Rightarrow> string \<Rightarrow> int option \<Rightarrow> raw_row list res" where
  "bronze_source rawt raw_id start exchange day =
     res_bind (incremental_read rawt start raw_id) (\<lambda>rows. Inr (filter (venue_raw exchange day) rows))"

definition bronze_exchanges :: "string list" where
  "bronze_exchanges = sort (remdups (map vt_exchange VENUE_TABLES))"

definition venue_starts :: "string \<Rightarrow> 'j bronze \<Rightarrow> string option list" where
  "venue_starts exchange st =
     map (\<lambda>t. src_position (b_tables st (vt_name t)) SRC_SNAPSHOT_ID) (venue_tables exchange)"

fun stage_venues ::
  "'j bronze_env \<Rightarrow> raw_row table \<Rightarrow> int \<Rightarrow> int \<Rightarrow> string list \<Rightarrow> 'j bronze \<Rightarrow> 'j bronze \<times> int res" where
  "stage_venues env rawt raw_id run_ts [] st = (st, Inr 0)"
| "stage_venues env rawt raw_id run_ts (ex # exs) st =
     (let starts = venue_starts ex st in
      if 1 < length (remdups starts) then (st, Inl SystemExit)
      else if level_with (hd starts) raw_id then stage_venues env rawt raw_id run_ts exs st
      else (case bronze_source rawt raw_id (hd starts) ex None of Inl e \<Rightarrow> (st, Inl e)
            | Inr source \<Rightarrow>
                (case bronze_decode env source raw_id run_ts ex st of (st', Inl e) \<Rightarrow> (st', Inl e)
                 | (st', Inr written) \<Rightarrow>
                     (case stage_venues env rawt raw_id run_ts exs st' of (st'', Inl e) \<Rightarrow> (st'', Inl e)
                      | (st'', Inr n) \<Rightarrow> (st'', Inr (sum_list (map snd written) + n))))))"

definition bronze_stage :: "'j bronze_env \<Rightarrow> raw_row table \<Rightarrow> int option \<Rightarrow> int \<Rightarrow> 'j bronze \<Rightarrow> 'j bronze \<times> int res" where
  "bronze_stage env rawt raw_id run_ts st =
     (case raw_id of None \<Rightarrow> (st, Inr 0) | Some i \<Rightarrow> stage_venues env rawt i run_ts bronze_exchanges st)"

fun rebuild_days ::
  "'j bronze_env \<Rightarrow> raw_row table \<Rightarrow> int \<Rightarrow> int \<Rightarrow> (string \<times> int) list \<Rightarrow> (string \<times> int) list \<Rightarrow> 'j bronze \<Rightarrow>
   'j bronze \<times> (string \<times> int) list res" where
  "rebuild_days env rawt raw_id run_ts [] totals st = (st, Inr totals)"
| "rebuild_days env rawt raw_id run_ts ((ex, day) # slices) totals st =
     (case bronze_source rawt raw_id None ex (Some day) of Inl e \<Rightarrow> (st, Inl e)
      | Inr source \<Rightarrow>
          (case bronze_decode env source raw_id run_ts ex st of (st', Inl e) \<Rightarrow> (st', Inl e)
           | (st', Inr written) \<Rightarrow>
               rebuild_days env rawt raw_id run_ts slices
                 (foldl (\<lambda>tot (t, n). AList.update t (dget tot t 0 + n) tot) totals written) st'))"

definition bronze_rebuild ::
  "'j bronze_env \<Rightarrow> raw_row table \<Rightarrow> int \<Rightarrow> int \<Rightarrow> int list \<Rightarrow> string list \<Rightarrow> 'j bronze \<Rightarrow> 'j bronze \<times> (string \<times> int) list res" where
  "bronze_rebuild env rawt raw_id run_ts days exchanges st =
     rebuild_days env rawt raw_id run_ts
       (concat (map (\<lambda>ex. map (\<lambda>d. (ex, d)) days) (sort (if exchanges = [] then bronze_exchanges else exchanges)))) [] st"

section \<open>Facts about the tables\<close>

lemma venue_facts:
  "map (\<lambda>t. (vt_name t, vt_exchange t, vt_stream t)) VENUE_TABLES =
     [(''binance_trade'', ''binance'', ''trade''), (''binance_depth20'', ''binance'', ''depth20''),
      (''kraken_trade'', ''kraken'', ''trade''), (''kraken_book'', ''kraken'', ''book''),
      (''kraken_instrument'', ''kraken'', ''instrument''),
      (''coinbase_market_trades'', ''coinbase'', ''market_trades''), (''coinbase_level2'', ''coinbase'', ''l2_data'')]"
  by (simp add: VENUE_TABLES_def)

lemma venue_names_distinct: "distinct (map vt_name VENUE_TABLES)"
proof -
  have "map vt_name VENUE_TABLES = map fst (map (\<lambda>t. (vt_name t, vt_exchange t, vt_stream t)) VENUE_TABLES)" by simp
  then show ?thesis unfolding venue_facts by simp
qed

lemma routed_streams_distinct: "distinct (routed_streams exchange)"
proof -
  have "routed_streams exchange = map (\<lambda>x. snd (snd x)) (filter (\<lambda>x. fst (snd x) = exchange)
      (map (\<lambda>t. (vt_name t, vt_exchange t, vt_stream t)) VENUE_TABLES))"
    by (simp add: routed_streams_def venue_tables_def filter_map comp_def)
  then show ?thesis unfolding venue_facts by auto
qed

lemma venue_tables_names: "distinct (map vt_name (venue_tables exchange))"
  unfolding venue_tables_def by (rule distinct_map_filter) (rule venue_names_distinct)

lemma venue_name_inj: "t \<in> set VENUE_TABLES \<Longrightarrow> u \<in> set VENUE_TABLES \<Longrightarrow> vt_name t = vt_name u \<Longrightarrow> t = u"
  using venue_names_distinct by (auto simp: distinct_map dest: inj_onD)

section \<open>What a batch decodes to\<close>

definition row_frame :: "'j bronze_env \<Rightarrow> raw_row \<Rightarrow> (raw_row \<times> frame) option" where
  "row_frame env r =
     (case fetch_schema (be_registry env) (the (r_schema_id r)) of Inl _ \<Rightarrow> None
      | Inr schema \<Rightarrow>
          (case be_avro env schema (body_sql (case r_payload r of None \<Rightarrow> [] | Some v \<Rightarrow> v)) of
             Inl _ \<Rightarrow> None | Inr f \<Rightarrow> Some (r, f)))"

definition frames_of :: "'j bronze_env \<Rightarrow> raw_row list \<Rightarrow> (raw_row \<times> frame) list" where
  "frames_of env rows = concat (map (\<lambda>r. case row_frame env r of None \<Rightarrow> [] | Some rf \<Rightarrow> [rf]) rows)"

definition bronze_view :: "'j bronze_env \<Rightarrow> venue_table \<Rightarrow> raw_row list \<Rightarrow> 'j bronze_row list" where
  "bronze_view env t rows = bronze_project env (frames_of env (filter (venue_raw (vt_exchange t) None) rows)) t"

lemma frames_of_append [simp]: "frames_of env (xs @ ys) = frames_of env xs @ frames_of env ys"
  by (simp add: frames_of_def)

lemma bronze_project_append [simp]: "bronze_project env (xs @ ys) t = bronze_project env xs t @ bronze_project env ys t"
  by (simp add: bronze_project_def)

lemma mset_frames_of: "mset xs = mset ys \<Longrightarrow> mset (frames_of env xs) = mset (frames_of env ys)"
  unfolding frames_of_def mset_concat_map by simp

lemma mset_bronze_project: "mset xs = mset ys \<Longrightarrow> mset (bronze_project env xs t) = mset (bronze_project env ys t)"
  by (simp add: bronze_project_def)

interpretation bronze_layer: incremental_layer "bronze_view env t" each SRC_SNAPSHOT_ID for env t
  by unfold_locales (simp_all add: bronze_view_def SRC_SNAPSHOT_ID_def JOB_def)

lemma decode_part_rows_frames:
  "fetch_schema (be_registry env) i = Inr schema \<Longrightarrow> \<forall>r \<in> set rows. r_schema_id r = Some i \<Longrightarrow>
   decode_part_rows env schema rows = Inr part \<Longrightarrow> part = frames_of env rows"
proof (induction rows arbitrary: part)
  case (Cons r rows)
  then show ?case
    by (auto simp: decode_part_rows_def frames_of_def row_frame_def res_bind_Inr)
qed (simp add: decode_part_rows_def frames_of_def)

lemma split_by_id:
  assumes "i \<notin> set ids" and "\<forall>r \<in> set source. r_schema_id r \<noteq> None"
  shows "mset (filter (\<lambda>r. the (r_schema_id r) \<in> set (i # ids)) source) =
     mset (filter (\<lambda>r. r_schema_id r = Some i) source) + mset (filter (\<lambda>r. the (r_schema_id r) \<in> set ids) source)"
  using assms by (induction source) auto

lemma fetch_error_cases:
  assumes "decoded_parts env source (i # ids) = Inr (parts, un)"
  shows "(fetch_schema (be_registry env) i = Inl UnresolvableSchema \<and> un \<noteq> [] \<and>
            (\<exists>un'. decoded_parts env source ids = Inr (parts, un'))) \<or>
    (\<exists>schema part parts'. fetch_schema (be_registry env) i = Inr schema \<and>
       decode_part_rows env schema (filter (\<lambda>r. r_schema_id r = Some i) source) = Inr part \<and>
       decoded_parts env source ids = Inr (parts', un) \<and> parts = part # parts')"
proof (cases "fetch_schema (be_registry env) i")
  case (Inl e)
  then have "e = UnresolvableSchema" using assms by (cases e) auto
  then show ?thesis using assms Inl by (auto simp: res_bind_Inr)
next
  case (Inr schema)
  then show ?thesis using assms by (auto simp: res_bind_Inr)
qed

lemma decoded_parts_frames:
  "distinct ids \<Longrightarrow> \<forall>r \<in> set source. r_schema_id r \<noteq> None \<Longrightarrow> decoded_parts env source ids = Inr (parts, un) \<Longrightarrow>
   mset (concat parts) = mset (frames_of env (filter (\<lambda>r. the (r_schema_id r) \<in> set ids) source))"
proof (induction ids arbitrary: parts un)
  case Nil
  then show ?case by (simp add: frames_of_def)
next
  case (Cons i ids)
  let ?here = "filter (\<lambda>r. r_schema_id r = Some i) source"
  let ?rest = "filter (\<lambda>r. the (r_schema_id r) \<in> set ids) source"
  have "mset (filter (\<lambda>r. the (r_schema_id r) \<in> set (i # ids)) source) = mset (?here @ ?rest)"
    using split_by_id [of i ids source] Cons.prems(1,2) by simp
  from mset_frames_of [OF this, of env]
  have split: "mset (frames_of env (filter (\<lambda>r. the (r_schema_id r) \<in> set (i # ids)) source)) =
      mset (frames_of env ?here) + mset (frames_of env ?rest)" by simp
  note IH = Cons.IH [OF _ Cons.prems(2)]
  from fetch_error_cases [OF Cons.prems(3)] show ?case
  proof (elim disjE exE conjE)
    fix un' assume f: "fetch_schema (be_registry env) i = Inl UnresolvableSchema" and d: "decoded_parts env source ids = Inr (parts, un')"
    have "frames_of env ?here = []" by (auto simp: frames_of_def row_frame_def f)
    then show ?thesis unfolding split using IH [OF _ d] Cons.prems(1) by simp
  next
    fix schema part parts'
    assume f: "fetch_schema (be_registry env) i = Inr schema" and p: "decode_part_rows env schema ?here = Inr part"
      and d: "decoded_parts env source ids = Inr (parts', un)" and parts: "parts = part # parts'"
    have "part = frames_of env ?here" by (rule decode_part_rows_frames [OF f _ p]) simp
    then show ?thesis unfolding split using IH [OF _ d] Cons.prems(1) parts by simp
  qed
qed

lemma decoded_parts_length:
  "distinct ids \<Longrightarrow> \<forall>r \<in> set source. r_schema_id r \<noteq> None \<Longrightarrow> decoded_parts env source ids = Inr (parts, []) \<Longrightarrow>
   length (concat parts) = length (filter (\<lambda>r. the (r_schema_id r) \<in> set ids) source)"
proof (induction ids arbitrary: parts)
  case (Cons i ids)
  obtain schema part parts' where p: "decode_part_rows env schema (filter (\<lambda>r. r_schema_id r = Some i) source) = Inr part"
      "decoded_parts env source ids = Inr (parts', [])" "parts = part # parts'"
    using fetch_error_cases [OF Cons.prems(3)] by auto
  have "length part = length (filter (\<lambda>r. r_schema_id r = Some i) source)"
    using p(1) unfolding decode_part_rows_def res_map_Inr_iff by (rule list_all2_lengthD [symmetric])
  moreover have "length (concat parts') = length (filter (\<lambda>r. the (r_schema_id r) \<in> set ids) source)"
    using Cons.IH [OF _ Cons.prems(2) p(2)] Cons.prems(1) by simp
  moreover have "length (filter (\<lambda>r. the (r_schema_id r) \<in> set (i # ids)) source) =
      length (filter (\<lambda>r. r_schema_id r = Some i) source) + length (filter (\<lambda>r. the (r_schema_id r) \<in> set ids) source)"
    using arg_cong [OF split_by_id [OF _ Cons.prems(2), of i ids], of size] Cons.prems(1)
    by (simp only: size_union size_mset distinct.simps simp_thms)
  ultimately show ?case using p(3) by simp
qed simp

lemma schema_ids_all: "filter (\<lambda>r. the (r_schema_id r) \<in> set (schema_ids source)) source = source"
  by (auto simp: schema_ids_def intro!: filter_True)

lemma decoded_raw_frames:
  assumes "\<forall>r \<in> set source. r_schema_id r \<noteq> None" and "decoded_raw env source = Inr (fr, un)"
  shows "mset (case fr of None \<Rightarrow> [] | Some fs \<Rightarrow> fs) = mset (frames_of env source)"
    and "un = [] \<Longrightarrow> length (case fr of None \<Rightarrow> [] | Some fs \<Rightarrow> fs) = length source"
proof -
  obtain parts where p: "decoded_parts env source (schema_ids source) = Inr (parts, un)"
      "fr = (if parts = [] then None else Some (concat parts))"
    using assms(2) by (auto simp: decoded_raw_def res_bind_Inr)
  have d: "distinct (schema_ids source)" by (simp add: schema_ids_def)
  have fr: "(case fr of None \<Rightarrow> [] | Some fs \<Rightarrow> fs) = concat parts" using p(2) by simp
  show "mset (case fr of None \<Rightarrow> [] | Some fs \<Rightarrow> fs) = mset (frames_of env source)"
    using decoded_parts_frames [OF d assms(1) p(1)] unfolding fr schema_ids_all .
  show "un = [] \<Longrightarrow> length (case fr of None \<Rightarrow> [] | Some fs \<Rightarrow> fs) = length source"
    using decoded_parts_length [OF d assms(1)] p(1) unfolding fr schema_ids_all by blast
qed

section \<open>Every append of a decode\<close>

definition clock_ok :: "(int \<times> int) list \<Rightarrow> 'r table \<Rightarrow> bool" where
  "clock_ok commits t =
     (distinct (map fst commits) \<and> sorted_wrt (<) (map snd commits) \<and>
      (\<forall>s \<in> set (snaps t). \<forall>c \<in> set commits. committed_at s < snd c \<and> snap_id s \<noteq> fst c))"

lemma clock_ok_tail: "clock_ok (c # cs) t \<Longrightarrow> clock_ok cs t"
  by (simp add: clock_ok_def)

lemma clock_ok_append: "clock_ok ((i, ts) # cs) t \<Longrightarrow> clock_ok cs (table_append t i ts props rows)"
  by (force simp: clock_ok_def)

definition bronze_ok :: "'j bronze_env \<Rightarrow> raw_row table \<Rightarrow> 'j bronze \<Rightarrow> bool" where
  "bronze_ok env rawt st =
     ((\<forall>nm. clock_ok (b_commits st) (b_tables st nm)) \<and>
      (\<forall>t \<in> set VENUE_TABLES. in_step (bronze_view env t) each SRC_SNAPSHOT_ID rawt (b_tables st (vt_name t))))"

lemma decode_props_lookup:
  "map_of (decode_props SRC_SNAPSHOT_ID i) JOB = Some JOB_DECODE"
  "map_of (decode_props SRC_SNAPSHOT_ID i) SRC_SNAPSHOT_ID = Some (show_int i)"
  by (simp_all add: decode_props_def JOB_def SRC_SNAPSHOT_ID_def)

lemma write_tables_ok:
  assumes "bronze_ok env rawt st" and "distinct (map vt_name ts)" and "set ts \<subseteq> set VENUE_TABLES"
    and "distinct (map snap_id (snaps rawt))" and "raw_id \<in> set (map snap_id (snaps rawt))"
    and "\<forall>t \<in> set ts. incremental_read rawt (src_position (b_tables st (vt_name t)) SRC_SNAPSHOT_ID) raw_id = Inr rows \<and>
           mset (bronze_project env fs t) = mset (bronze_view env t rows)"
    and "write_tables env fs raw_id ts st = (st', r)"
  shows "bronze_ok env rawt st'"
  using assms
proof (induction ts arbitrary: st st' r)
  case (Cons t ts)
  show ?case
  proof (cases "b_commits st")
    case Nil
    then show ?thesis using Cons.prems(1,7) by simp
  next
    case (Cons c rest)
    obtain i time where c: "c = (i, time)" by force
    let ?tbl = "table_append (b_tables st (vt_name t)) i time (decode_props SRC_SNAPSHOT_ID raw_id) (bronze_project env fs t)"
    let ?st = "st\<lparr>b_tables := (b_tables st)(vt_name t := ?tbl), b_commits := rest\<rparr>"
    note ok = Cons.prems(1) [unfolded bronze_ok_def]
    have clk: "clock_ok ((i, time) # rest) (b_tables st nm)" for nm using ok Cons c by simp
    have step: "in_step (bronze_view env t) each SRC_SNAPSHOT_ID rawt ?tbl"
    proof (rule bronze_layer.step_keeps)
      show "in_step (bronze_view env t) each SRC_SNAPSHOT_ID rawt (b_tables st (vt_name t))"
        using ok Cons.prems(3) by auto
      show "\<forall>s \<in> set (snaps (b_tables st (vt_name t))). committed_at s < time"
        using clk by (auto simp: clock_ok_def)
    qed (use Cons.prems decode_props_lookup in auto)
    have "in_step (bronze_view env u) each SRC_SNAPSHOT_ID rawt (b_tables ?st (vt_name u))" if "u \<in> set VENUE_TABLES" for u
      using ok step that venue_name_inj [OF that, of t] Cons.prems(3) by (cases "u = t") auto
    then have "bronze_ok env rawt ?st"
      using clock_ok_append [OF clk] clock_ok_tail [OF clk] by (simp add: bronze_ok_def)
    moreover have "\<forall>u \<in> set ts. vt_name u \<noteq> vt_name t" using Cons.prems(2) by (fastforce simp: image_iff)
    moreover obtain n where "added_records ?tbl = Inr n"
      using added_records_append [of i "b_tables st (vt_name t)"] clk by (force simp: clock_ok_def decode_props_def JOB_def SRC_SNAPSHOT_ID_def)
    ultimately show ?thesis
      using Cons.prems(2-7) Cons c Cons.IH [of ?st]
      by (cases "write_tables env fs raw_id ts ?st") (auto simp: Let_def split: sum.splits)
  qed
qed simp

lemma file_findings_tables [simp]:
  "b_tables (file_findings fs st) = b_tables st" "b_commits (file_findings fs st) = b_commits st"
  by (simp_all add: file_findings_def split: list.splits prod.splits)

lemma bronze_ok_file [simp]: "bronze_ok env rawt (file_findings fs st) = bronze_ok env rawt st"
  by (simp add: bronze_ok_def)

lemma venue_tables_sub: "set (venue_tables ex) \<subseteq> set VENUE_TABLES"
  by (auto simp: venue_tables_def)

lemma venue_tables_exchange: "t \<in> set (venue_tables ex) \<Longrightarrow> vt_exchange t = ex"
  by (simp add: venue_tables_def)

lemma bronze_decode_ok:
  assumes ok: "bronze_ok env rawt st"
    and ids: "distinct (map snap_id (snaps rawt))" "raw_id \<in> set (map snap_id (snaps rawt))"
    and starts: "\<forall>t \<in> set (venue_tables ex). src_position (b_tables st (vt_name t)) SRC_SNAPSHOT_ID = start"
    and src: "bronze_source rawt raw_id start ex None = Inr source"
    and dec: "bronze_decode env source raw_id run_ts ex st = (st', r)"
  shows "bronze_ok env rawt st'"
proof (cases "decoded_raw env source")
  case (Inl e)
  then show ?thesis using dec ok by (simp add: bronze_decode_def)
next
  case (Inr x)
  obtain fr un where x: "x = (fr, un)" by force
  obtain rows where rows: "incremental_read rawt start raw_id = Inr rows" "source = filter (venue_raw ex None) rows"
    using src by (auto simp: bronze_source_def res_bind_Inr)
  have ns: "\<forall>r \<in> set source. r_schema_id r \<noteq> None" by (auto simp: rows(2) venue_raw_def)
  show ?thesis
  proof (cases fr)
    case None
    then show ?thesis using dec Inr x ok by (auto simp: bronze_decode_def Let_def)
  next
    case (Some fs)
    have fs: "mset fs = mset (frames_of env source)" using decoded_raw_frames(1) [OF ns] Inr x Some by fastforce
    obtain st1 r1 where w: "write_tables env fs raw_id (venue_tables ex) st = (st1, r1)" by force
    have "bronze_ok env rawt st1"
    proof (rule write_tables_ok [OF ok venue_tables_names venue_tables_sub ids _ w], intro ballI conjI)
      fix t assume t: "t \<in> set (venue_tables ex)"
      show "incremental_read rawt (src_position (b_tables st (vt_name t)) SRC_SNAPSHOT_ID) raw_id = Inr rows"
        using starts t rows(1) by simp
      show "mset (bronze_project env fs t) = mset (bronze_view env t rows)"
        using mset_bronze_project [OF fs] rows(2) venue_tables_exchange [OF t] by (simp add: bronze_view_def)
    qed
    then show ?thesis using dec Inr x Some w by (auto simp: bronze_decode_def Let_def split: sum.splits)
  qed
qed

lemma starts_equal: "\<not> 1 < length (remdups xs) \<Longrightarrow> x \<in> set xs \<Longrightarrow> x = hd xs"
proof -
  assume a: "\<not> 1 < length (remdups xs)" and x: "x \<in> set xs"
  then have "hd xs \<in> set (remdups xs)" "x \<in> set (remdups xs)" by (cases xs; auto)+
  then show "x = hd xs" using a
    by (cases "remdups xs" rule: remdups_adj.cases) auto
qed

lemma stage_venues_ok:
  assumes "bronze_ok env rawt st"
    and "distinct (map snap_id (snaps rawt))" "raw_id \<in> set (map snap_id (snaps rawt))"
    and "stage_venues env rawt raw_id run_ts exs st = (st', r)"
  shows "bronze_ok env rawt st'"
  using assms
proof (induction exs arbitrary: st st' r)
  case (Cons ex exs)
  show ?case
  proof (cases "1 < length (remdups (venue_starts ex st)) \<or> level_with (hd (venue_starts ex st)) raw_id")
    case True
    then show ?thesis using Cons by (auto simp: Let_def split: if_splits)
  next
    case False
    have starts: "\<forall>t \<in> set (venue_tables ex). src_position (b_tables st (vt_name t)) SRC_SNAPSHOT_ID = hd (venue_starts ex st)"
      using starts_equal [of "venue_starts ex st"] False by (auto simp: venue_starts_def)
    show ?thesis
    proof (cases "bronze_source rawt raw_id (hd (venue_starts ex st)) ex None")
      case (Inl e)
      then show ?thesis using Cons.prems False by simp
    next
      case (Inr source)
      obtain st1 r1 where d: "bronze_decode env source raw_id run_ts ex st = (st1, r1)" by force
      have "bronze_ok env rawt st1"
        by (rule bronze_decode_ok [OF Cons.prems(1-3) starts Inr d])
      then show ?thesis using Cons.prems(2-4) False Inr d Cons.IH [of st1]
        by (cases r1; cases "stage_venues env rawt raw_id run_ts exs st1") (auto simp: Let_def split: sum.splits)
    qed
  qed
qed simp

section \<open>Accounting\<close>

lemma routed_count:
  "distinct ss \<Longrightarrow>
   sum_list (map (\<lambda>s. length (filter (\<lambda>(_, f). f_stream f = s) fs)) ss) +
   length (filter (\<lambda>(_, f). f_stream f \<notin> set ss) fs) = length fs"
proof (induction ss)
  case (Cons s ss)
  have "length (filter (\<lambda>(_, f). f_stream f \<notin> set ss) fs) =
      length (filter (\<lambda>(_, f). f_stream f = s) fs) + length (filter (\<lambda>(_, f). f_stream f \<notin> set (s # ss)) fs)"
    using Cons.prems by (induction fs) auto
  then show ?case using Cons by simp
qed (simp add: filter_True case_prod_unfold)

lemma write_tables_lands:
  assumes "\<forall>nm. clock_ok (b_commits st) (b_tables st nm)" and "length ts \<le> length (b_commits st)" and "distinct (map vt_name ts)"
  shows "\<exists>st'. write_tables env fs raw_id ts st =
      (st', Inr (map (\<lambda>t. (vt_name t, int (length (bronze_project env fs t)))) ts)) \<and> b_checks st' = b_checks st \<and>
      (\<forall>nm. table_rows (b_tables st' nm) = table_rows (b_tables st nm) @
         concat (map (\<lambda>t. if vt_name t = nm then bronze_project env fs t else []) ts))"
  using assms
proof (induction ts arbitrary: st)
  case (Cons t ts)
  obtain i time rest where c: "b_commits st = (i, time) # rest" using Cons.prems(2) by (cases "b_commits st") auto
  let ?tbl = "table_append (b_tables st (vt_name t)) i time (decode_props SRC_SNAPSHOT_ID raw_id) (bronze_project env fs t)"
  let ?st = "st\<lparr>b_tables := (b_tables st)(vt_name t := ?tbl), b_commits := rest\<rparr>"
  have clk: "clock_ok ((i, time) # rest) (b_tables st nm)" for nm using Cons.prems(1) c by simp
  have "added_records ?tbl = Inr (int (length (bronze_project env fs t)))"
    using clk [of "vt_name t"]
    by (intro added_records_append) (auto simp: clock_ok_def decode_props_def JOB_def SRC_SNAPSHOT_ID_def)
  moreover have "\<forall>nm. clock_ok (b_commits ?st) (b_tables ?st nm)"
    using clock_ok_append [OF clk] clock_ok_tail [OF clk] by simp
  then obtain st' where "write_tables env fs raw_id ts ?st =
      (st', Inr (map (\<lambda>t. (vt_name t, int (length (bronze_project env fs t)))) ts))" "b_checks st' = b_checks st"
      "\<forall>nm. table_rows (b_tables st' nm) = table_rows (b_tables ?st nm) @
         concat (map (\<lambda>t. if vt_name t = nm then bronze_project env fs t else []) ts)"
    using Cons.IH [of ?st] Cons.prems(2,3) c by auto
  ultimately show ?case using c by (auto simp: Let_def)
qed simp

lemma concat_one:
  "distinct (map vt_name ts) \<Longrightarrow> t \<in> set ts \<Longrightarrow> concat (map (\<lambda>u. if vt_name u = vt_name t then g u else []) ts) = g t"
proof (induction ts)
  case (Cons u ts)
  show ?case
  proof (cases "u = t")
    case True
    then have "concat (map (\<lambda>u. if vt_name u = vt_name t then g u else []) ts) = []"
      using Cons.prems(1) by (force simp: image_iff)
    then show ?thesis using True by simp
  next
    case False
    then have "vt_name u \<noteq> vt_name t" using Cons.prems by (auto simp: image_iff)
    then show ?thesis using Cons False by simp
  qed
qed simp

lemma torn_after_crash:
  assumes "0 < length (b_commits st)" and "length (b_commits st) < length ts" and "distinct (map vt_name ts)"
    and "\<forall>nm. clock_ok (b_commits st) (b_tables st nm)"
    and "write_tables env fs raw_id ts st = (st', r)"
  shows "src_position (b_tables st' (vt_name (hd ts))) SRC_SNAPSHOT_ID = Some (show_int raw_id) \<and>
    b_tables st' (vt_name (last ts)) = b_tables st (vt_name (last ts))"
  using assms
proof (induction ts arbitrary: st st' r)
  case (Cons t ts)
  obtain i time rest where c: "b_commits st = (i, time) # rest" using Cons.prems(1) by (cases "b_commits st") auto
  let ?tbl = "table_append (b_tables st (vt_name t)) i time (decode_props SRC_SNAPSHOT_ID raw_id) (bronze_project env fs t)"
  let ?st = "st\<lparr>b_tables := (b_tables st)(vt_name t := ?tbl), b_commits := rest\<rparr>"
  have clk: "clock_ok ((i, time) # rest) (b_tables st nm)" for nm using Cons.prems(4) c by simp
  have ne: "ts \<noteq> []" using Cons.prems(2) c by auto
  then have lt: "vt_name (last ts) \<noteq> vt_name t" using Cons.prems(3) by (metis distinct.simps(2) imageI last_in_set list.set_map list.simps(9))
  have pos: "src_position ?tbl SRC_SNAPSHOT_ID = Some (show_int raw_id)"
    using src_position_append [of "b_tables st (vt_name t)" time "decode_props SRC_SNAPSHOT_ID raw_id" SRC_SNAPSHOT_ID]
      clk [of "vt_name t"] decode_props_lookup by (auto simp: clock_ok_def SRC_SNAPSHOT_ID_def)
  have keep: "b_tables s1 nm = b_tables s0 nm" if "write_tables env fs raw_id us s0 = (s1, q)" "nm \<notin> set (map vt_name us)" for us s0 s1 q nm
    using that
  proof (induction us arbitrary: s0 s1 q)
    case (Cons u us)
    then show ?case
      by (auto simp: Let_def split: list.splits sum.splits prod.splits)
  qed simp
  obtain s1 q where w: "write_tables env fs raw_id ts ?st = (s1, q)" by force
  obtain n where n: "added_records ?tbl = Inr n"
    using added_records_append [of i "b_tables st (vt_name t)"] clk by (force simp: clock_ok_def decode_props_def JOB_def SRC_SNAPSHOT_ID_def)
  then have st': "st' = s1" using Cons.prems(5) c w by (auto simp: Let_def split: sum.splits)
  have first: "b_tables st' (vt_name t) = ?tbl"
    using keep [OF w, of "vt_name t"] Cons.prems(3) st' by auto
  have "b_tables st' (vt_name (last ts)) = b_tables ?st (vt_name (last ts))"
  proof (cases "rest = []")
    case True
    then show ?thesis using w ne st' by (cases ts) auto
  next
    case False
    have "\<forall>nm. clock_ok (b_commits ?st) (b_tables ?st nm)"
      using clock_ok_append [OF clk] clock_ok_tail [OF clk] by simp
    then show ?thesis using Cons.IH [of ?st s1 q] False Cons.prems(2,3) c w st' by auto
  qed
  then show ?case using first pos ne lt by simp
qed simp

section \<open>Properties\<close>

text \<open>
  C4. The incremental decode is exactly-once however it ends: if every bronze table holds the decode of
  the archive up to the snapshot it names, then so does every one after a tick, even a tick that crashed
  between two of its commits, decoded nothing, or stopped on an error.
\<close>
theorem bronze_stage_in_step:
  assumes "\<forall>nm. clock_ok (b_commits st) (b_tables st nm)"
    and "\<forall>t \<in> set VENUE_TABLES. in_step (bronze_view env t) each SRC_SNAPSHOT_ID rawt (b_tables st (vt_name t))"
    and "distinct (map snap_id (snaps rawt))" and "raw_id \<in> set (map snap_id (snaps rawt))"
    and "t \<in> set VENUE_TABLES"
  shows "in_step (bronze_view env t) each SRC_SNAPSHOT_ID rawt
    (b_tables (fst (bronze_stage env rawt (Some raw_id) run_ts st)) (vt_name t))"
proof -
  obtain st' r where s: "stage_venues env rawt raw_id run_ts bronze_exchanges st = (st', r)" by force
  have "bronze_ok env rawt st'"
    using stage_venues_ok [OF _ assms(3,4) s] assms(1,2) by (simp add: bronze_ok_def)
  then show ?thesis using assms(5) s by (simp add: bronze_ok_def bronze_stage_def)
qed

definition demo_bronze_env :: "nat bronze_env" where
  "demo_bronze_env = \<lparr>be_registry = (\<lambda>i. if i = 7 then Served (Some ''schema'') else HttpError 404),
     be_error = (\<lambda>_. ''404''),
     be_avro = (\<lambda>_ b. Inr \<lparr>f_stream = ''trade'', f_symbol = None, f_recv_ts_ns = 0, f_conn_id = ''c'', f_conn_msg_seq = 0, f_payload = b\<rparr>),
     be_json = (\<lambda>_ b. Some (length b))\<rparr>"

definition demo_raw_row :: raw_row where
  "demo_raw_row = \<lparr>r_topic = ''market.crypto.v3.raw.kraken'', r_part = 0, r_off = 5, r_kafka_ts = 0, r_ingest_ts = 0,
     r_key = None, r_schema_id = Some 7, r_payload = Some [0, 0, 0, 0, 7, 123, 125], r_headers = None\<rparr>"

definition demo_bronze :: "nat bronze" where
  "demo_bronze = \<lparr>b_tables = (\<lambda>_. empty_table), b_checks = empty_table, b_commits = [(1, 1), (2, 2)], b_audit_commits = []\<rparr>"

theorem bronze_stage_in_step_witness:
  "in_step (bronze_view demo_bronze_env (VENUE_TABLES ! 2)) each SRC_SNAPSHOT_ID (table_append empty_table 10 10 [] [demo_raw_row])
    (b_tables (fst (bronze_stage demo_bronze_env (table_append empty_table 10 10 [] [demo_raw_row]) (Some 10) 0 demo_bronze))
      (vt_name (VENUE_TABLES ! 2)))"
proof (rule bronze_stage_in_step)
  show "VENUE_TABLES ! 2 \<in> set VENUE_TABLES"
    by (rule nth_mem) (use arg_cong [OF venue_facts, of length] in simp)
qed (simp_all add: demo_bronze_def clock_ok_def empty_table_def in_step_def src_position_def snapshot_history_def
    latest_summary_def table_rows_def table_append_def)

text \<open>
  No frame is lost or counted twice in the decode: when every writer schema resolves and the commits
  land, each table grows by exactly its own stream's frames, the frames written and the control frames
  left in the archive add up to the input, and no finding is filed.
\<close>
theorem bronze_decode_accounts:
  assumes "decoded_raw env source = Inr (Some fs, [])" and "\<forall>r \<in> set source. r_schema_id r \<noteq> None"
    and "\<forall>nm. clock_ok (b_commits st) (b_tables st nm)" and "length (venue_tables ex) \<le> length (b_commits st)"
  shows "\<exists>st' written. bronze_decode env source raw_id run_ts ex st = (st', Inr written) \<and>
    b_checks st' = b_checks st \<and> map fst written = map vt_name (venue_tables ex) \<and>
    (\<forall>t \<in> set (venue_tables ex). table_rows (b_tables st' (vt_name t)) =
       table_rows (b_tables st (vt_name t)) @ bronze_project env fs t) \<and>
    int (length source) = sum_list (map snd written) +
      int (length (filter (\<lambda>(_, f). f_stream f \<notin> set (routed_streams ex)) fs))"
proof -
  let ?w = "map (\<lambda>t. (vt_name t, int (length (bronze_project env fs t)))) (venue_tables ex)"
  obtain st' where w: "write_tables env fs raw_id (venue_tables ex) st = (st', Inr ?w)" "b_checks st' = b_checks st"
      "\<forall>nm. table_rows (b_tables st' nm) = table_rows (b_tables st nm) @
         concat (map (\<lambda>t. if vt_name t = nm then bronze_project env fs t else []) (venue_tables ex))"
    using write_tables_lands [OF assms(3,4) venue_tables_names] by blast
  have n: "length fs = length source" using decoded_raw_frames(2) [OF assms(2,1)] by simp
  have "sum_list (map snd ?w) = int (sum_list (map (\<lambda>s. length (filter (\<lambda>(_, f). f_stream f = s) fs)) (routed_streams ex)))"
    by (simp add: routed_streams_def bronze_project_def comp_def int_sum_list)
  then have bal: "int (length source) = sum_list (map snd ?w) +
      int (length (filter (\<lambda>(_, f). f_stream f \<notin> set (routed_streams ex)) fs))"
    using routed_count [OF routed_streams_distinct [of ex], of fs] n by simp
  then have "bronze_decode env source raw_id run_ts ex st = (st', Inr ?w)"
    using assms(1) w(1) by (simp add: bronze_decode_def file_findings_def)
  then show ?thesis
    using w(2,3) bal concat_one [OF venue_tables_names, where g = "bronze_project env fs"]
    by (intro exI [of _ st'] exI [of _ ?w]) (simp add: comp_def)
qed

lemma demo_decoded: "decoded_raw demo_bronze_env [demo_raw_row] =
    Inr (Some [(demo_raw_row, \<lparr>f_stream = ''trade'', f_symbol = None, f_recv_ts_ns = 0, f_conn_id = ''c'', f_conn_msg_seq = 0, f_payload = [123, 125]\<rparr>)], [])"
  by (simp add: decoded_raw_def schema_ids_def demo_raw_row_def demo_bronze_env_def fetch_schema_def decode_part_rows_def
      body_sql_def HEADER_BYTES_def)

theorem bronze_decode_accounts_witness:
  "\<exists>st' written. bronze_decode demo_bronze_env [demo_raw_row] 10 0 ''binance'' demo_bronze = (st', Inr written) \<and>
    b_checks st' = b_checks demo_bronze \<and> map fst written = map vt_name (venue_tables ''binance'') \<and>
    (\<forall>t \<in> set (venue_tables ''binance''). table_rows (b_tables st' (vt_name t)) =
       table_rows (b_tables demo_bronze (vt_name t)) @ bronze_project demo_bronze_env
         [(demo_raw_row, \<lparr>f_stream = ''trade'', f_symbol = None, f_recv_ts_ns = 0, f_conn_id = ''c'', f_conn_msg_seq = 0, f_payload = [123, 125]\<rparr>)] t) \<and>
    int (length [demo_raw_row]) = sum_list (map snd written) +
      int (length (filter (\<lambda>(_, f). f_stream f \<notin> set (routed_streams ''binance''))
        [(demo_raw_row, \<lparr>f_stream = ''trade'', f_symbol = None, f_recv_ts_ns = 0, f_conn_id = ''c'', f_conn_msg_seq = 0, f_payload = [123, 125]\<rparr>)]))"
proof (rule bronze_decode_accounts [OF demo_decoded])
  show "length (venue_tables ''binance'') \<le> length (b_commits demo_bronze)"
  proof -
    have "length (venue_tables ''binance'') = length (filter (\<lambda>x. fst (snd x) = ''binance'')
        (map (\<lambda>t. (vt_name t, vt_exchange t, vt_stream t)) VENUE_TABLES))"
      by (simp add: venue_tables_def filter_map comp_def)
    then show ?thesis unfolding venue_facts by (simp add: demo_bronze_def)
  qed
qed (simp_all add: demo_raw_row_def demo_bronze_def clock_ok_def empty_table_def)

text \<open>
  A venue whose tables were torn apart by a crash is neither doubled nor skipped: after a tick that
  landed some but not all of the venue's commits, the next tick stops at that venue without writing.
\<close>
theorem torn_venue_stops:
  assumes "\<forall>t \<in> set (venue_tables ex). src_position (b_tables st (vt_name t)) SRC_SNAPSHOT_ID = start"
    and "start \<noteq> Some (show_int raw_id)"
    and "decoded_raw env source = Inr (Some fs, un)"
    and "0 < length (b_commits st)" and "length (b_commits st) < length (venue_tables ex)"
    and "\<forall>nm. clock_ok (b_commits st) (b_tables st nm)"
    and "bronze_decode env source raw_id run_ts ex st = (st', r)"
  shows "stage_venues env rawt raw_id' run_ts' (ex # exs) st' = (st', Inl SystemExit)"
proof -
  obtain st1 r1 where w: "write_tables env fs raw_id (venue_tables ex) st = (st1, r1)" by force
  note torn = torn_after_crash [OF assms(4,5) venue_tables_names assms(6) w]
  have tabs: "b_tables st' = b_tables st1" using assms(3,7) w by (auto simp: bronze_decode_def Let_def split: sum.splits)
  have ne: "venue_tables ex \<noteq> []" using assms(5) by auto
  have "Some (show_int raw_id) \<in> set (venue_starts ex st')" "start \<in> set (venue_starts ex st')"
    using torn tabs ne assms(1) unfolding venue_starts_def by (auto simp: image_iff) (metis hd_in_set, metis last_in_set)
  then have "card {Some (show_int raw_id), start} \<le> card (set (venue_starts ex st'))" by (intro card_mono) auto
  then have "1 < length (remdups (venue_starts ex st'))" using assms(2) by (simp add: length_remdups_card_conv)
  then show ?thesis by simp
qed

theorem torn_venue_stops_witness:
  "stage_venues demo_bronze_env empty_table 11 0 [''binance'']
     (fst (bronze_decode demo_bronze_env [demo_raw_row] 10 0 ''binance'' (demo_bronze\<lparr>b_commits := [(1, 1)]\<rparr>))) =
   (fst (bronze_decode demo_bronze_env [demo_raw_row] 10 0 ''binance'' (demo_bronze\<lparr>b_commits := [(1, 1)]\<rparr>)), Inl SystemExit)"
proof (rule torn_venue_stops [OF _ _ demo_decoded])
  show "length (b_commits (demo_bronze\<lparr>b_commits := [(1, 1)]\<rparr>)) < length (venue_tables ''binance'')"
  proof -
    have "length (venue_tables ''binance'') = length (filter (\<lambda>x. fst (snd x) = ''binance'')
        (map (\<lambda>t. (vt_name t, vt_exchange t, vt_stream t)) VENUE_TABLES))"
      by (simp add: venue_tables_def filter_map comp_def)
    then show ?thesis unfolding venue_facts by simp
  qed
  show "bronze_decode demo_bronze_env [demo_raw_row] 10 0 ''binance'' (demo_bronze\<lparr>b_commits := [(1, 1)]\<rparr>) =
    (fst (bronze_decode demo_bronze_env [demo_raw_row] 10 0 ''binance'' (demo_bronze\<lparr>b_commits := [(1, 1)]\<rparr>)),
     snd (bronze_decode demo_bronze_env [demo_raw_row] 10 0 ''binance'' (demo_bronze\<lparr>b_commits := [(1, 1)]\<rparr>)))" by simp
  show "None \<noteq> Some (show_int 10)" by simp
qed (simp_all add: demo_bronze_def clock_ok_def empty_table_def src_position_def snapshot_history_def latest_summary_def)

end
