(* ===== verification/Scd2.thy ===== *)
theory Scd2
  imports K2_Prelude
begin

text \<open>
  \<open>docker/lake/scd2.py\<close> and the Iceberg half of it in \<open>gold._merge_dim\<close>. A stored version is its
  attributes (a dictionary) with the five bookkeeping columns beside them; a table is the list of its
  versions with their natural keys. \<open>sha\<close>, the hexadecimal SHA-256 digest, is an argument. A decimal
  attribute is represented by the text \<open>str\<close> gives it; times are microseconds since the epoch.
\<close>

section \<open>Rows and hashes\<close>

datatype aval = ANull | AStr string | AInt int | ADec string | ABool bool

type_synonym attrs = "(string \<times> aval) list"
type_synonym nkey = "string list"

record version =
  v_attrs :: attrs
  attr_hash_of :: string
  valid_from :: int
  valid_to :: int
  is_current :: bool
  recorded_at :: int

definition FOREVER :: int where "FOREVER = 253402300799000000"
definition EPOCH :: int where "EPOCH = 0"
definition SEP :: char where "SEP = CHR 0x1F"
definition NULL_MARK :: char where "NULL_MARK = CHR 0x00"

definition py_str :: "aval \<Rightarrow> string" where
  "py_str v = (case v of ANull \<Rightarrow> ''None'' | AStr s \<Rightarrow> s | AInt i \<Rightarrow> show_int i | ADec s \<Rightarrow> s
     | ABool b \<Rightarrow> (if b then ''True'' else ''False''))"

fun join_with :: "char \<Rightarrow> string list \<Rightarrow> string" where
  "join_with c [] = []"
| "join_with c [x] = x"
| "join_with c (x # y # xs) = x @ c # join_with c (y # xs)"

definition surrogate :: "(string \<Rightarrow> string) \<Rightarrow> string list \<Rightarrow> string" where
  "surrogate sha parts = take 32 (sha (join_with SEP parts))"

definition attr_text :: "attrs \<Rightarrow> string \<Rightarrow> string" where
  "attr_text row f = (case dget row f ANull of ANull \<Rightarrow> [NULL_MARK] | v \<Rightarrow> py_str v)"

definition attr_payload :: "attrs \<Rightarrow> string list \<Rightarrow> string" where
  "attr_payload row tracked = join_with SEP (map (attr_text row) tracked)"

definition attr_hash :: "(string \<Rightarrow> string) \<Rightarrow> attrs \<Rightarrow> string list \<Rightarrow> string" where
  "attr_hash sha row tracked = take 32 (sha (attr_payload row tracked))"

section \<open>The diff\<close>

definition new_version :: "(string \<Rightarrow> string) \<Rightarrow> string list \<Rightarrow> int \<Rightarrow> attrs \<Rightarrow> int \<Rightarrow> version" where
  "new_version sha tracked run_ts row from_ts =
     \<lparr>v_attrs = row, attr_hash_of = attr_hash sha row tracked, valid_from = from_ts, valid_to = FOREVER,
      is_current = True, recorded_at = run_ts\<rparr>"

definition truthy :: "aval \<Rightarrow> bool" where
  "truthy v = (case v of ANull \<Rightarrow> False | AStr s \<Rightarrow> s \<noteq> [] | AInt i \<Rightarrow> i \<noteq> 0 | ADec s \<Rightarrow> list_ex (\<lambda>c. c \<in> set ''123456789'') s | ABool b \<Rightarrow> b)"

definition carried :: "version \<Rightarrow> attrs" where
  "carried v = AList.update ''subscribed'' (ABool False) (v_attrs v)"

definition changed :: "(string \<Rightarrow> string) \<Rightarrow> string list \<Rightarrow> (nkey \<times> version) list \<Rightarrow> nkey \<times> attrs \<Rightarrow> bool" where
  "changed sha tracked previous kr =
     (case map_of previous (fst kr) of None \<Rightarrow> True | Some v \<Rightarrow> attr_hash_of v \<noteq> attr_hash sha (snd kr) tracked)"

definition gone :: "(nkey \<times> attrs) list \<Rightarrow> nkey \<times> version \<Rightarrow> bool" where
  "gone current kv = (map_of current (fst kv) = None \<and> truthy (dget (v_attrs (snd kv)) ''subscribed'' ANull))"

definition plan ::
  "(string \<Rightarrow> string) \<Rightarrow> (nkey \<times> version) list \<Rightarrow> (nkey \<times> attrs) list \<Rightarrow> string list \<Rightarrow> int \<Rightarrow>
   nkey list \<times> (nkey \<times> version) list" where
  "plan sha previous current tracked run_ts =
     (let ch = filter (changed sha tracked previous) current; gn = filter (gone current) previous in
      (map fst (filter (\<lambda>kr. map_of previous (fst kr) \<noteq> None) ch) @ map fst gn,
       map (\<lambda>(k, row). (k, new_version sha tracked run_ts row (if map_of previous k \<noteq> None then run_ts else EPOCH))) ch @
       map (\<lambda>(k, v). (k, new_version sha tracked run_ts (carried v) run_ts)) gn))"

section \<open>One cycle against the table\<close>

definition open_versions :: "(nkey \<times> version) list \<Rightarrow> (nkey \<times> version) list" where
  "open_versions tbl = dict_update [] (filter (\<lambda>(_, v). is_current v) tbl)"

definition close_keys :: "nkey list \<Rightarrow> int \<Rightarrow> (nkey \<times> version) list \<Rightarrow> (nkey \<times> version) list" where
  "close_keys ks run_ts tbl =
     map (\<lambda>(k, v). if k \<in> set ks \<and> is_current v then (k, v\<lparr>valid_to := run_ts, is_current := False\<rparr>) else (k, v)) tbl"

text \<open>
  Two commits, close first; \<open>landed\<close> is how many of them land before the process dies (two when it does
  not). An empty close list or insert list commits nothing.
\<close>

definition merge_dim ::
  "(string \<Rightarrow> string) \<Rightarrow> string list \<Rightarrow> nat \<Rightarrow> (nkey \<times> attrs) list \<Rightarrow> int \<Rightarrow> (nkey \<times> version) list \<Rightarrow> (nkey \<times> version) list" where
  "merge_dim sha tracked landed current run_ts tbl =
     (let (close, ins) = plan sha (open_versions tbl) current tracked run_ts;
          closed = (if close = [] then tbl else close_keys close run_ts tbl)
      in if landed = 0 then tbl
         else if landed = 1 then (if close = [] then tbl @ ins else closed)
         else closed @ ins)"

section \<open>The hash tells attribute tuples apart\<close>

lemma join_with_inj:
  "\<forall>x \<in> set xs. c \<notin> set x \<Longrightarrow> \<forall>y \<in> set ys. c \<notin> set y \<Longrightarrow> length xs = length ys \<Longrightarrow>
   join_with c xs = join_with c ys \<Longrightarrow> xs = ys"
proof (induction xs arbitrary: ys rule: join_with.induct)
  case (2 c x)
  then obtain y where "ys = [y]" by (cases ys) auto
  with 2 show ?case by simp
next
  case (3 c x x' xs)
  then obtain y y' ys' where ys: "ys = y # y' # ys'" by (cases ys; cases "tl ys") auto
  have tw: "takeWhile (\<lambda>d. d \<noteq> c) (a @ c # b) = a" if "c \<notin> set a" for a b
    using that by (induction a) auto
  have "x @ c # join_with c (x' # xs) = y @ c # join_with c (y' # ys')" using "3.prems"(4) ys by simp
  moreover from this have "x = y"
    using tw [of x "join_with c (x' # xs)"] tw [of y "join_with c (y' # ys')"] "3.prems"(1,2) ys by simp
  ultimately show ?case using "3.IH" [of "y' # ys'"] "3.prems" ys by simp
qed simp

section \<open>The timeline of a key\<close>

definition versions_of :: "nkey \<Rightarrow> (nkey \<times> version) list \<Rightarrow> version list" where
  "versions_of k tbl = map snd (filter (\<lambda>kv. fst kv = k) tbl)"

definition valid_at :: "int \<Rightarrow> version \<Rightarrow> bool" where
  "valid_at t v = (valid_from v \<le> t \<and> t < valid_to v)"

text \<open>
  A key is well kept when it has no version, or exactly one version valid at every instant and exactly one
  open version, open since before \<open>now\<close> and for ever, whose hash is that of its attributes.
\<close>

definition timeline_ok :: "(string \<Rightarrow> string) \<Rightarrow> string list \<Rightarrow> int \<Rightarrow> version list \<Rightarrow> bool" where
  "timeline_ok sha tracked now vs =
     (vs = [] \<or>
      ((\<forall>t. EPOCH \<le> t \<longrightarrow> t < FOREVER \<longrightarrow> length (filter (valid_at t) vs) = 1) \<and>
       (\<exists>v. filter is_current vs = [v] \<and> valid_from v < now \<and> valid_to v = FOREVER \<and>
            attr_hash_of v = attr_hash sha (v_attrs v) tracked)))"

definition dim_ok :: "(string \<Rightarrow> string) \<Rightarrow> string list \<Rightarrow> int \<Rightarrow> (nkey \<times> version) list \<Rightarrow> bool" where
  "dim_ok sha tracked now tbl = (\<forall>k. timeline_ok sha tracked now (versions_of k tbl))"

lemma versions_of_append [simp]: "versions_of k (a @ b) = versions_of k a @ versions_of k b"
  by (simp add: versions_of_def)

lemma versions_of_Cons: "versions_of k ((k', v) # tbl) = (if k' = k then v # versions_of k tbl else versions_of k tbl)"
  by (simp add: versions_of_def)

lemma versions_of_close:
  "versions_of k (close_keys ks ts tbl) =
     (if k \<in> set ks then map (\<lambda>v. if is_current v then v\<lparr>valid_to := ts, is_current := False\<rparr> else v) (versions_of k tbl)
      else versions_of k tbl)"
proof (induction tbl)
  case (Cons kv tbl)
  obtain k' v where "kv = (k', v)" by force
  then show ?case using Cons by (auto simp: close_keys_def versions_of_Cons)
qed (simp add: close_keys_def versions_of_def)

lemma map_of_open:
  assumes "length (filter is_current (versions_of k tbl)) \<le> 1"
  shows "map_of (open_versions tbl) k = (case filter is_current (versions_of k tbl) of [] \<Rightarrow> None | v # _ \<Rightarrow> Some v)"
proof -
  have gen: "map_of (dict_update d es) k = (case rev (versions_of k es) of [] \<Rightarrow> map_of d k | v # _ \<Rightarrow> Some v)" for d es
  proof (induction es arbitrary: d)
    case (Cons e es)
    obtain k' v where e: "e = (k', v)" by force
    show ?case
    proof (cases "rev (versions_of k es)")
      case Nil
      then show ?thesis using Cons.IH [of "AList.update k' v d"] by (auto simp: e versions_of_Cons update_conv')
    next
      case (Cons w ws)
      then show ?thesis using Cons.IH [of "AList.update k' v d"] by (simp add: e versions_of_Cons)
    qed
  qed (simp add: versions_of_def)
  have "versions_of k (filter (\<lambda>(_, v). is_current v) tbl) = filter is_current (versions_of k tbl)"
    by (induction tbl) (auto simp: versions_of_def)
  then show ?thesis using assms gen [of "[]"]
    by (cases "filter is_current (versions_of k tbl)") (auto simp: open_versions_def)
qed

section \<open>What one cycle does to a key\<close>

lemma versions_of_map:
  "dict_ok d \<Longrightarrow> versions_of k (map (\<lambda>(k, x). (k, f k x)) (filter P d)) =
     (case map_of d k of None \<Rightarrow> [] | Some x \<Rightarrow> if P (k, x) then [f k x] else [])"
proof (induction d)
  case (Cons e d)
  obtain k' x where e: "e = (k', x)" by force
  have "dict_ok d" "k' = k \<Longrightarrow> map_of d k = None"
    using Cons.prems by (auto simp: dict_ok_def e map_of_eq_None_iff)
  then show ?case using Cons.IH by (auto simp: e versions_of_Cons)
qed (simp add: versions_of_def)

lemma dict_ok_open: "dict_ok (open_versions tbl)"
  by (simp add: open_versions_def)

lemma mem_keys_filter:
  "dict_ok d \<Longrightarrow> k \<in> fst ` set (filter P d) \<longleftrightarrow> (case map_of d k of None \<Rightarrow> False | Some x \<Rightarrow> P (k, x))"
  by (auto simp: image_iff map_of_mem split: option.splits)

lemma plan_close:
  assumes "dict_ok previous" and "dict_ok current"
  shows "k \<in> set (fst (plan sha previous current tracked ts)) \<longleftrightarrow>
    (case map_of previous k of None \<Rightarrow> False
     | Some v \<Rightarrow> (case map_of current k of Some row \<Rightarrow> attr_hash_of v \<noteq> attr_hash sha row tracked
                  | None \<Rightarrow> truthy (dget (v_attrs v) ''subscribed'' ANull)))"
  using mem_keys_filter [OF assms(2), of k "\<lambda>kr. map_of previous (fst kr) \<noteq> None \<and> changed sha tracked previous kr"]
    mem_keys_filter [OF assms(1), of k "gone current"]
  by (auto simp: plan_def Let_def changed_def gone_def conj_commute split: option.splits)

lemma plan_insert:
  assumes "dict_ok previous" and "dict_ok current"
  shows "versions_of k (snd (plan sha previous current tracked ts)) =
    (case (map_of previous k, map_of current k) of
       (None, None) \<Rightarrow> []
     | (None, Some row) \<Rightarrow> [new_version sha tracked ts row EPOCH]
     | (Some v, Some row) \<Rightarrow> if attr_hash_of v \<noteq> attr_hash sha row tracked then [new_version sha tracked ts row ts] else []
     | (Some v, None) \<Rightarrow> if truthy (dget (v_attrs v) ''subscribed'' ANull) then [new_version sha tracked ts (carried v) ts] else [])"
proof -
  have "versions_of k (snd (plan sha previous current tracked ts)) =
      versions_of k (map (\<lambda>(k, row). (k, new_version sha tracked ts row (if map_of previous k \<noteq> None then ts else EPOCH)))
        (filter (changed sha tracked previous) current)) @
      versions_of k (map (\<lambda>(k, v). (k, new_version sha tracked ts (carried v) ts)) (filter (gone current) previous))"
    by (simp add: plan_def Let_def)
  then show ?thesis unfolding versions_of_map [OF assms(1)] versions_of_map [OF assms(2)]
    by (auto simp: changed_def gone_def split: option.splits)
qed

definition close_version :: "int \<Rightarrow> version \<Rightarrow> version" where
  "close_version ts v = (if is_current v then v\<lparr>valid_to := ts, is_current := False\<rparr> else v)"

text \<open>The effect of a whole cycle on one key, whatever happens to the others.\<close>

lemma merge_dim_key:
  assumes "length (filter is_current (versions_of k tbl)) \<le> 1" and "dict_ok current"
  shows "versions_of k (merge_dim sha tracked 2 current ts tbl) =
    (case (filter is_current (versions_of k tbl), map_of current k) of
       ([], None) \<Rightarrow> versions_of k tbl
     | ([], Some row) \<Rightarrow> versions_of k tbl @ [new_version sha tracked ts row EPOCH]
     | (v # _, Some row) \<Rightarrow> if attr_hash_of v \<noteq> attr_hash sha row tracked
          then map (close_version ts) (versions_of k tbl) @ [new_version sha tracked ts row ts] else versions_of k tbl
     | (v # _, None) \<Rightarrow> if truthy (dget (v_attrs v) ''subscribed'' ANull)
          then map (close_version ts) (versions_of k tbl) @ [new_version sha tracked ts (carried v) ts] else versions_of k tbl)"
proof -
  let ?prev = "open_versions tbl"
  have m: "versions_of k (merge_dim sha tracked 2 current ts tbl) =
      (if k \<in> set (fst (plan sha ?prev current tracked ts)) then map (close_version ts) (versions_of k tbl) else versions_of k tbl) @
      versions_of k (snd (plan sha ?prev current tracked ts))"
    by (auto simp: merge_dim_def Let_def case_prod_unfold versions_of_close close_version_def [abs_def])
  show ?thesis
    unfolding m plan_close [OF dict_ok_open assms(2)] plan_insert [OF dict_ok_open assms(2)] map_of_open [OF assms(1)]
    by (auto split: list.splits option.splits)
qed

text \<open>The effect of a cycle that dies after the close.\<close>

lemma merge_dim_torn:
  assumes "length (filter is_current (versions_of k tbl)) \<le> 1" and "dict_ok current"
    and "k \<in> set (fst (plan sha (open_versions tbl) current tracked ts))"
  shows "versions_of k (merge_dim sha tracked 1 current ts tbl) = map (close_version ts) (versions_of k tbl)"
proof -
  have "fst (plan sha (open_versions tbl) current tracked ts) \<noteq> []" using assms(3) by auto
  then show ?thesis using assms(3)
    by (auto simp: merge_dim_def Let_def case_prod_unfold versions_of_close close_version_def [abs_def])
qed

lemma filter_current_close: "filter is_current (map (close_version ts) vs) = []"
  by (induction vs) (auto simp: close_version_def)

lemma new_version_simps [simp]:
  "is_current (new_version sha tracked ts row f)" "valid_from (new_version sha tracked ts row f) = f"
  "valid_to (new_version sha tracked ts row f) = FOREVER" "v_attrs (new_version sha tracked ts row f) = row"
  "attr_hash_of (new_version sha tracked ts row f) = attr_hash sha row tracked"
  by (simp_all add: new_version_def)

lemma valid_new: "valid_at t (new_version sha tracked ts row f) \<longleftrightarrow> f \<le> t \<and> t < FOREVER"
  by (simp add: valid_at_def)

lemma one_open:
  assumes "timeline_ok sha tracked now vs" shows "length (filter is_current vs) \<le> 1"
  using assms by (auto simp: timeline_ok_def)

text \<open>Closing the open version at \<open>ts\<close> gives up exactly the instants from \<open>ts\<close> on.\<close>

lemma close_counts:
  assumes "filter is_current vs = [v]" and "valid_to v = FOREVER" and "valid_from v \<le> ts" and "ts < FOREVER" and "t < FOREVER"
  shows "length (filter (valid_at t) (map (close_version ts) vs)) =
    (if t < ts then length (filter (valid_at t) vs) else length (filter (valid_at t) (filter (\<lambda>w. \<not> is_current w) vs)))"
proof -
  have "\<forall>w \<in> set vs. is_current w \<longrightarrow> w = v"
  proof (intro ballI impI)
    fix w assume "w \<in> set vs" "is_current w"
    then have "w \<in> set (filter is_current vs)" by simp
    then show "w = v" using assms(1) by simp
  qed
  then show ?thesis
    using assms(2-5) by (induction vs) (auto simp: close_version_def valid_at_def)
qed

lemma open_counts:
  assumes "filter is_current vs = [v]" and "valid_to v = FOREVER" and "valid_from v \<le> t" and "t < FOREVER"
    and "length (filter (valid_at t) vs) = 1"
  shows "length (filter (valid_at t) (filter (\<lambda>w. \<not> is_current w) vs)) = 0"
proof -
  have "length (filter (valid_at t) vs) =
      length (filter (valid_at t) (filter is_current vs)) + length (filter (valid_at t) (filter (\<lambda>w. \<not> is_current w) vs))"
    by (induction vs) auto
  moreover have "valid_at t v" using assms(2-4) by (simp add: valid_at_def)
  ultimately show ?thesis using assms(1,5) by simp
qed

lemma timeline_step:
  assumes ok: "timeline_ok sha tracked now vs" and ts: "now \<le> ts" "EPOCH < ts" "ts < FOREVER" and cur: "filter is_current vs = [v]"
  shows "timeline_ok sha tracked (ts + 1) (map (close_version ts) vs @ [new_version sha tracked ts row ts])"
proof -
  have v: "valid_from v < now" "valid_to v = FOREVER"
    and one: "\<And>t. EPOCH \<le> t \<Longrightarrow> t < FOREVER \<Longrightarrow> length (filter (valid_at t) vs) = 1"
    using ok cur by (auto simp: timeline_ok_def)
  have "length (filter (valid_at t) (map (close_version ts) vs @ [new_version sha tracked ts row ts])) = 1"
    if "EPOCH \<le> t" "t < FOREVER" for t
  proof (cases "t < ts")
    case True
    then show ?thesis using close_counts [OF cur v(2), of ts t] v(1) ts one [OF that] that by (simp add: valid_new)
  next
    case False
    then have "length (filter (valid_at t) (filter (\<lambda>w. \<not> is_current w) vs)) = 0"
      using open_counts [OF cur v(2) _ that(2) one [OF that]] v(1) ts by simp
    then show ?thesis using False close_counts [OF cur v(2), of ts t] v(1) ts that by (simp add: valid_new)
  qed
  then show ?thesis by (simp add: timeline_ok_def filter_current_close)
qed

lemma new_key_timeline:
  "EPOCH < ts \<Longrightarrow> timeline_ok sha tracked (ts + 1) [new_version sha tracked ts row EPOCH]"
  by (auto simp: timeline_ok_def valid_new)

lemma timeline_later: "timeline_ok sha tracked now vs \<Longrightarrow> now \<le> now' \<Longrightarrow> timeline_ok sha tracked now' vs"
  by (force simp: timeline_ok_def)

lemma no_open_empty: "timeline_ok sha tracked now vs \<Longrightarrow> filter is_current vs = [] \<Longrightarrow> vs = []"
  by (auto simp: timeline_ok_def)

lemma merge_dim_ok:
  assumes "dim_ok sha tracked now tbl" and "dict_ok current" and "now \<le> ts" and "EPOCH < ts" and "ts < FOREVER"
  shows "dim_ok sha tracked (ts + 1) (merge_dim sha tracked 2 current ts tbl)"
  unfolding dim_ok_def
proof
  fix k
  have ok: "timeline_ok sha tracked now (versions_of k tbl)" using assms(1) by (simp add: dim_ok_def)
  have later: "timeline_ok sha tracked (ts + 1) (versions_of k tbl)" using timeline_later [OF ok] assms(3) by simp
  show "timeline_ok sha tracked (ts + 1) (versions_of k (merge_dim sha tracked 2 current ts tbl))"
  proof (cases "filter is_current (versions_of k tbl)")
    case Nil
    then have e: "versions_of k tbl = []" using no_open_empty [OF ok] by simp
    show ?thesis unfolding merge_dim_key [OF one_open [OF ok] assms(2)] Nil e
      using new_key_timeline [OF assms(4)] by (auto simp: timeline_ok_def [of _ _ _ "[]"] split: option.splits)
  next
    case (Cons v vs)
    then have cur: "filter is_current (versions_of k tbl) = [v]" using one_open [OF ok] by simp
    show ?thesis unfolding merge_dim_key [OF one_open [OF ok] assms(2)] cur
      using timeline_step [OF ok assms(3-5) cur] later by (auto split: option.splits)
  qed
qed

section \<open>Properties\<close>

text \<open>
  C5. The timeline of a dimension has no gap and no overlap: a cycle that completes leaves, for every key
  that has a version, exactly one version valid at each instant and exactly one open version.
\<close>
theorem scd2_timeline:
  assumes "dim_ok sha tracked now tbl" and "dict_ok current" and "now \<le> ts" and "EPOCH < ts" and "ts < FOREVER"
  shows "dim_ok sha tracked (ts + 1) (merge_dim sha tracked 2 current ts tbl)"
  using assms by (rule merge_dim_ok)

theorem scd2_timeline_witness: "dim_ok id [''tick''] (200 + 1)
    (merge_dim id [''tick''] 2 [([''kraken''], [(''tick'', ADec ''0.5''), (''subscribed'', ABool True)])] 200
      (merge_dim id [''tick''] 2 [([''kraken''], [(''tick'', ADec ''0.1''), (''subscribed'', ABool True)])] 100 []))"
  by (rule scd2_timeline [where now = 101], rule merge_dim_ok [of _ _ 0 _ _ 100, simplified])
    (simp_all add: dim_ok_def versions_of_def timeline_ok_def EPOCH_def FOREVER_def dict_ok_def)

text \<open>
  Running twice adds no rows: after a completed cycle, a second cycle with the same registry closes
  nothing and inserts nothing, delisted instruments included.
\<close>
theorem scd2_idempotent:
  assumes "dim_ok sha tracked now tbl" and "dict_ok current" and "now \<le> ts" and "EPOCH < ts" and "ts < FOREVER"
  shows "plan sha (open_versions (merge_dim sha tracked 2 current ts tbl)) current tracked ts' = ([], [])"
proof -
  let ?new = "merge_dim sha tracked 2 current ts tbl"
  have ok: "timeline_ok sha tracked (ts + 1) (versions_of k ?new)" for k
    using merge_dim_ok [OF assms] by (simp add: dim_ok_def)
  have okk: "timeline_ok sha tracked now (versions_of k tbl)" for k using assms(1) by (simp add: dim_ok_def)
  have op: "map_of (open_versions ?new) k = (case filter is_current (versions_of k ?new) of [] \<Rightarrow> None | v # _ \<Rightarrow> Some v)" for k
    by (rule map_of_open [OF one_open [OF ok]])
  have key: "(case map_of current k of
        Some row \<Rightarrow> (\<exists>v. map_of (open_versions ?new) k = Some v \<and> attr_hash_of v = attr_hash sha row tracked)
      | None \<Rightarrow> (case map_of (open_versions ?new) k of None \<Rightarrow> True | Some v \<Rightarrow> \<not> truthy (dget (v_attrs v) ''subscribed'' ANull)))" for k
  proof -
    note m = merge_dim_key [OF one_open [OF okk] assms(2), of k]
    have car: "truthy (dget (carried v) ''subscribed'' ANull) = False" for v
      by (simp add: carried_def dget_def update_conv' truthy_def)
    show ?thesis
    proof (cases "filter is_current (versions_of k tbl)")
      case Nil
      then have "versions_of k tbl = []" using no_open_empty [OF okk] by simp
      then show ?thesis using m Nil op [of k] by (auto split: option.splits)
    next
      case (Cons v vs)
      then have cur: "filter is_current (versions_of k tbl) = [v]" using one_open [OF okk, of k] by simp
      show ?thesis using m op [of k] unfolding cur
        by (auto simp: filter_current_close cur car split: option.splits if_splits)
    qed
  qed
  have "\<not> changed sha tracked (open_versions ?new) kr" if "kr \<in> set current" for kr
  proof -
    obtain k row where kr: "kr = (k, row)" by force
    then have "map_of current k = Some row" using that assms(2) by (simp add: map_of_mem)
    with key [of k] show ?thesis by (auto simp: changed_def kr)
  qed
  moreover have "\<not> gone current kv" if "kv \<in> set (open_versions ?new)" for kv
  proof -
    obtain k v where kv: "kv = (k, v)" by force
    then have "map_of (open_versions ?new) k = Some v" using that by (simp add: map_of_mem dict_ok_open)
    with key [of k] show ?thesis by (auto simp: gone_def kv split: option.splits)
  qed
  ultimately have "filter (changed sha tracked (open_versions ?new)) current = []"
    and "filter (gone current) (open_versions ?new) = []" by (auto simp: filter_empty_conv)
  then show ?thesis by (simp add: plan_def Let_def)
qed

theorem scd2_idempotent_witness:
  "plan id (open_versions (merge_dim id [''tick''] 2 [([''kraken''], [(''tick'', ADec ''0.1''), (''subscribed'', ABool True)])] 100 []))
     [([''kraken''], [(''tick'', ADec ''0.1''), (''subscribed'', ABool True)])] [''tick''] 200 = ([], [])"
  by (rule scd2_idempotent [where now = 0])
    (simp_all add: dim_ok_def versions_of_def timeline_ok_def EPOCH_def FOREVER_def dict_ok_def)

text \<open>
  What a crash between the two commits leaves behind is not healed. For a changed attribute the next
  run reopens the key at the epoch, so every instant before the crash has two valid versions.
\<close>
theorem torn_cycle_overlaps:
  assumes "dim_ok sha tracked now tbl" and "dict_ok current" and "now \<le> ts" and "EPOCH < ts" and "ts < ts'" and "ts' < FOREVER"
    and "filter is_current (versions_of k tbl) = [v]" and "map_of current k = Some row"
    and "attr_hash_of v \<noteq> attr_hash sha row tracked" and "EPOCH \<le> t" and "t < ts"
  shows "length (filter (valid_at t) (versions_of k
    (merge_dim sha tracked 2 current ts' (merge_dim sha tracked 1 current ts tbl)))) = 2"
proof -
  have ok: "timeline_ok sha tracked now (versions_of k tbl)" using assms(1) by (simp add: dim_ok_def)
  have v: "valid_to v = FOREVER" "valid_from v < now"
    and one: "length (filter (valid_at t) (versions_of k tbl)) = 1"
    using ok assms by (auto simp: timeline_ok_def)
  have "k \<in> set (fst (plan sha (open_versions tbl) current tracked ts))"
    unfolding plan_close [OF dict_ok_open assms(2)] map_of_open [OF one_open [OF ok]] using assms(7-9) by simp
  then have torn: "versions_of k (merge_dim sha tracked 1 current ts tbl) = map (close_version ts) (versions_of k tbl)"
    by (rule merge_dim_torn [OF one_open [OF ok] assms(2)])
  have "versions_of k (merge_dim sha tracked 2 current ts' (merge_dim sha tracked 1 current ts tbl)) =
      map (close_version ts) (versions_of k tbl) @ [new_version sha tracked ts' row EPOCH]"
    using merge_dim_key [of k "merge_dim sha tracked 1 current ts tbl" current] assms(2,8)
    by (simp add: torn filter_current_close del: One_nat_def)
  then show ?thesis
    using close_counts [OF assms(7) v(1), of ts t] v(2) assms one by (simp add: valid_new)
qed

theorem torn_cycle_overlaps_witness:
  "length (filter (valid_at 50) (versions_of [''kraken'']
    (merge_dim id [''tick''] 2 [([''kraken''], [(''tick'', ADec ''0.5'')])] 300
      (merge_dim id [''tick''] 1 [([''kraken''], [(''tick'', ADec ''0.5'')])] 200
        [([''kraken''], new_version id [''tick''] 100 [(''tick'', ADec ''0.1'')] EPOCH)])))) = 2"
  by (rule torn_cycle_overlaps [where now = 101 and row = "[(''tick'', ADec ''0.5'')]" and
        v = "new_version id [''tick''] 100 [(''tick'', ADec ''0.1'')] EPOCH"])
    (auto simp: dim_ok_def versions_of_def timeline_ok_def valid_new EPOCH_def FOREVER_def dict_ok_def
      attr_hash_def attr_payload_def attr_text_def py_str_def)

text \<open>
  A delisted instrument whose cycle dies between the two commits stays without an open version however
  many runs follow: it is in neither side of any later diff.
\<close>
theorem torn_delisting_lost:
  assumes "dim_ok sha tracked now tbl" and "dict_ok current"
    and "filter is_current (versions_of k tbl) = [v]" and "map_of current k = None"
    and "truthy (dget (v_attrs v) ''subscribed'' ANull)"
  shows "filter is_current (versions_of k (((\<lambda>t. merge_dim sha tracked 2 current ts' t) ^^ n)
    (merge_dim sha tracked 1 current ts tbl))) = []"
proof -
  have ok: "timeline_ok sha tracked now (versions_of k tbl)" using assms(1) by (simp add: dim_ok_def)
  have "k \<in> set (fst (plan sha (open_versions tbl) current tracked ts))"
    unfolding plan_close [OF dict_ok_open assms(2)] map_of_open [OF one_open [OF ok]] using assms(3-5) by simp
  then have torn: "versions_of k (merge_dim sha tracked 1 current ts tbl) = map (close_version ts) (versions_of k tbl)"
    by (rule merge_dim_torn [OF one_open [OF ok] assms(2)])
  show ?thesis
  proof (induction n)
    case 0
    then show ?case by (simp add: torn filter_current_close del: One_nat_def)
  next
    case (Suc n)
    then show ?case
      using merge_dim_key [of k "((\<lambda>t. merge_dim sha tracked 2 current ts' t) ^^ n) (merge_dim sha tracked 1 current ts tbl)" current] assms(2,4)
      by simp
  qed
qed

theorem torn_delisting_lost_witness:
  "filter is_current (versions_of [''kraken''] (((\<lambda>t. merge_dim id [''tick''] 2 [] 300 t) ^^ 5)
    (merge_dim id [''tick''] 1 [] 200
      [([''kraken''], new_version id [''tick''] 100 [(''tick'', ADec ''0.1''), (''subscribed'', ABool True)] EPOCH)]))) = []"
  by (rule torn_delisting_lost [where now = 101 and
        v = "new_version id [''tick''] 100 [(''tick'', ADec ''0.1''), (''subscribed'', ABool True)] EPOCH"])
    (auto simp: dim_ok_def versions_of_def timeline_ok_def valid_new EPOCH_def FOREVER_def dict_ok_def truthy_def)

text \<open>
  The payload that is hashed tells attribute tuples apart: when no attribute text holds the separator
  and no text is the null mark, two rows have the same payload exactly when every tracked attribute has
  the same text and is missing on both sides or on neither.
\<close>
theorem attr_payload_injective:
  assumes "\<forall>f \<in> set tracked. SEP \<notin> set (py_str (dget a f ANull)) \<and> SEP \<notin> set (py_str (dget b f ANull))"
    and "\<forall>f \<in> set tracked. py_str (dget a f ANull) \<noteq> [NULL_MARK] \<and> py_str (dget b f ANull) \<noteq> [NULL_MARK]"
  shows "attr_payload a tracked = attr_payload b tracked \<longleftrightarrow>
    (\<forall>f \<in> set tracked. (dget a f ANull = ANull) = (dget b f ANull = ANull) \<and>
       py_str (dget a f ANull) = py_str (dget b f ANull))"
proof -
  have sep: "SEP \<notin> set (attr_text r f)" if "f \<in> set tracked" "r = a \<or> r = b" for r f
    using assms(1) that by (auto simp: attr_text_def SEP_def NULL_MARK_def split: aval.splits)
  have same: "attr_text a f = attr_text b f \<longleftrightarrow>
      (dget a f ANull = ANull) = (dget b f ANull = ANull) \<and> py_str (dget a f ANull) = py_str (dget b f ANull)"
    if "f \<in> set tracked" for f
  proof (cases "dget a f ANull = ANull"; cases "dget b f ANull = ANull")
    assume "dget a f ANull \<noteq> ANull" "dget b f ANull \<noteq> ANull"
    then have "attr_text a f = py_str (dget a f ANull)" "attr_text b f = py_str (dget b f ANull)"
      by (auto simp: attr_text_def split: aval.splits)
    then show ?thesis by (simp add: \<open>dget a f ANull \<noteq> ANull\<close> \<open>dget b f ANull \<noteq> ANull\<close>)
  next
    assume n: "dget a f ANull \<noteq> ANull" "dget b f ANull = ANull"
    then have "attr_text a f = py_str (dget a f ANull)" by (auto simp: attr_text_def split: aval.splits)
    then show ?thesis using n assms(2) that by (auto simp: attr_text_def [of b])
  next
    assume n: "dget a f ANull = ANull" "dget b f ANull \<noteq> ANull"
    then have "attr_text b f = py_str (dget b f ANull)" by (auto simp: attr_text_def split: aval.splits)
    then show ?thesis using n assms(2) that by (auto simp: attr_text_def [of a])
  qed (simp_all add: attr_text_def)
  have "attr_payload a tracked = attr_payload b tracked \<longleftrightarrow> map (attr_text a) tracked = map (attr_text b) tracked"
  proof
    assume "attr_payload a tracked = attr_payload b tracked"
    then show "map (attr_text a) tracked = map (attr_text b) tracked"
      unfolding attr_payload_def by (rule join_with_inj [rotated 3]) (use sep in auto)
  qed (simp only: attr_payload_def)
  then show ?thesis using same by (auto simp: map_eq_conv)
qed

theorem attr_payload_injective_witness:
  "attr_payload [(''tick'', ADec ''0.1'')] [''tick'', ''status''] = attr_payload [(''tick'', ADec ''0.1''), (''status'', AStr ''None'')] [''tick'', ''status''] \<longleftrightarrow>
    (\<forall>f \<in> set [''tick'', ''status'']. (dget [(''tick'', ADec ''0.1'')] f ANull = ANull) = (dget [(''tick'', ADec ''0.1''), (''status'', AStr ''None'')] f ANull = ANull) \<and>
       py_str (dget [(''tick'', ADec ''0.1'')] f ANull) = py_str (dget [(''tick'', ADec ''0.1''), (''status'', AStr ''None'')] f ANull))"
  by (rule attr_payload_injective) (simp_all add: py_str_def SEP_def NULL_MARK_def)

end
