(* ===== verification/Instruments.thy ===== *)
theory Instruments
  imports K2_Prelude
begin

text \<open>
  \<open>docker/lake/instruments.py\<close>: the native to canonical symbol map per venue. The YAML document is its
  parsed value: a version and, per venue, the list of \<open>native\<close>/\<open>canonical\<close> pairs. A native symbol that is
  \<open>NULL\<close> (a frame that did not parse) is no key of the registry.
\<close>

type_synonym registry = "(string \<times> (string \<times> string) list) list"

record instruments_doc =
  doc_version :: "int option"
  doc_instruments :: "(string \<times> (string \<times> string) list) list"

definition load_instruments :: "instruments_doc \<Rightarrow> registry res" where
  "load_instruments doc =
     (if doc_version doc \<noteq> Some 2 then Inl ValueError
      else Inr (map (\<lambda>(ex, entries). (ex, dict_update [] entries)) (doc_instruments doc)))"

definition canonical :: "registry \<Rightarrow> string \<Rightarrow> string option \<Rightarrow> string res" where
  "canonical registry exchange native =
     (case map_of registry exchange of None \<Rightarrow> Inl UnknownInstrument
      | Some m \<Rightarrow> (case Option.bind native (map_of m) of None \<Rightarrow> Inl UnknownInstrument | Some c \<Rightarrow> Inr c))"

lemma canonical_known:
  "canonical registry exchange native = Inr c \<longleftrightarrow>
   (\<exists>m n. map_of registry exchange = Some m \<and> native = Some n \<and> map_of m n = Some c)"
  by (auto simp: canonical_def bind_eq_Some_conv split: option.splits)

lemma canonical_error: "canonical registry exchange native = Inl e \<Longrightarrow> e = UnknownInstrument"
  by (auto simp: canonical_def split: option.splits)

end
