(* ===== verification/Silver.thy ===== *)
theory Silver
  imports Bronze Instruments
begin

text \<open>
  \<open>docker/lake/silver.py\<close>: bronze frames typed, flattened to one row per trade and flagged. The venue's
  JSON columns are records of nullable fields; a decimal is its unscaled integer at scale 10, a timestamp
  its microseconds. Spark's string casts are arguments (\<open>casts\<close>). \<open>score\<close> is the two window functions over
  the batch and the lookback; inside one (symbol, trade id) group the order key (receive time, partition,
  offset, index) names the delivery, so the first delivery is the one no other precedes.
\<close>

section \<open>The venues' columns\<close>

record binance_data =
  bd_e :: "string option"
  bd_E :: "int option"
  bd_s :: "string option"
  bd_t :: "int option"
  bd_p :: "string option"
  bd_q :: "string option"
  bd_T :: "int option"
  bd_m :: "bool option"
  bd_M :: "bool option"

record kraken_elem =
  ke_symbol :: "string option"
  ke_side :: "string option"
  ke_price :: "int option"
  ke_qty :: "int option"
  ke_ord_type :: "string option"
  ke_trade_id :: "int option"
  ke_timestamp :: "string option"

record coinbase_elem =
  ct_product_id :: "string option"
  ct_trade_id :: "string option"
  ct_price :: "string option"
  ct_size :: "string option"
  ct_time :: "string option"
  ct_side :: "string option"

record coinbase_event =
  ce_type :: "string option"
  ce_trades :: "coinbase_elem list option"

datatype trade_cols =
    BinanceTrade "string option" "binance_data option"
  | KrakenTrade "string option" "string option" "kraken_elem list option"
  | CoinbaseTrades "string option" "string option" "int option" "coinbase_event list option"

record casts =
  cast_dec :: "string \<Rightarrow> int option"
  cast_big :: "string \<Rightarrow> int option"
  cast_ts :: "string \<Rightarrow> int option"

section \<open>One row per trade\<close>

datatype trade_extra =
    BinanceExtra "string option" "int option" "bool option" "bool option" "string option"
  | KrakenExtra "string option" "string option"
  | CoinbaseExtra "int option" "int option" "string option"

record silver_row =
  s_symbol :: "string option"
  s_trade_id :: "string option"
  s_trade_seq :: "int option"
  s_price :: "int option"
  s_qty :: "int option"
  s_side :: "string option"
  s_side_native :: "string option"
  s_exchange_ts :: "int option"
  s_extra :: trade_extra
  s_recv_ts_ns :: int
  s_recv_ts :: int
  s_conn_id :: string
  s_conn_msg_seq :: int
  s_topic :: string
  s_part :: int
  s_off :: int
  s_idx :: int
  s_ingest_ts :: int
  s_canonical :: string
  s_precision_loss :: "bool option"
  s_replay :: bool
  s_seq_gap :: "bool option"
  s_missing :: "int option"

datatype venue = Binance | Kraken | Coinbase

definition exchange_name :: "venue \<Rightarrow> string" where
  "exchange_name v = (case v of Binance \<Rightarrow> ''binance'' | Kraken \<Rightarrow> ''kraken'' | Coinbase \<Rightarrow> ''coinbase'')"

definition trade_source :: "venue \<Rightarrow> string" where
  "trade_source v = (case v of Binance \<Rightarrow> ''binance_trade'' | Kraken \<Rightarrow> ''kraken_trade'' | Coinbase \<Rightarrow> ''coinbase_market_trades'')"

definition lower_char :: "char \<Rightarrow> char" where
  "lower_char c = (let n = (of_char c :: nat) in if 65 \<le> n \<and> n \<le> 90 then char_of (n + 32) else c)"

definition text_of_bool :: "bool \<Rightarrow> string" where
  "text_of_bool b = (if b then ''true'' else ''false'')"

definition millis :: "int option \<Rightarrow> int option" where
  "millis t = map_option (\<lambda>x. 1000 * x) t"

text \<open>The venue's own columns of the row, and the position in the frame; the lineage is the frame's.\<close>

definition typed_row ::
  "trade_cols bronze_row \<Rightarrow> int \<Rightarrow> int \<Rightarrow> string option \<Rightarrow> string option \<Rightarrow> int option \<Rightarrow> int option \<Rightarrow> int option \<Rightarrow>
   string option \<Rightarrow> string option \<Rightarrow> int option \<Rightarrow> trade_extra \<Rightarrow> silver_row" where
  "typed_row b run_ts idx symbol trade_id trade_seq price qty side side_native exchange_ts extra =
     \<lparr>s_symbol = symbol, s_trade_id = trade_id, s_trade_seq = trade_seq, s_price = price, s_qty = qty, s_side = side,
      s_side_native = side_native, s_exchange_ts = exchange_ts, s_extra = extra, s_recv_ts_ns = b_recv_ts_ns b,
      s_recv_ts = trunc_div (b_recv_ts_ns b) 1000, s_conn_id = b_conn_id b, s_conn_msg_seq = b_conn_msg_seq b,
      s_topic = b_topic b, s_part = b_part b, s_off = b_off b, s_idx = idx, s_ingest_ts = run_ts,
      s_canonical = [], s_precision_loss = None, s_replay = False, s_seq_gap = None, s_missing = None\<rparr>"

definition binance_trade_row :: "casts \<Rightarrow> int \<Rightarrow> trade_cols bronze_row \<Rightarrow> string option \<Rightarrow> binance_data option \<Rightarrow> silver_row" where
  "binance_trade_row cs run_ts b stream data =
     (let m = Option.bind data bd_m; t = Option.bind data bd_t in
      typed_row b run_ts 0 (Option.bind data bd_s) (map_option show_int t) t
        (Option.bind (Option.bind data bd_p) (cast_dec cs)) (Option.bind (Option.bind data bd_q) (cast_dec cs))
        (Some (if m = Some True then ''sell'' else ''buy'')) (map_option text_of_bool m) (millis (Option.bind data bd_T))
        (BinanceExtra (Option.bind data bd_e) (millis (Option.bind data bd_E)) m (Option.bind data bd_M) stream))"

definition kraken_trade_row :: "casts \<Rightarrow> int \<Rightarrow> trade_cols bronze_row \<Rightarrow> string option \<Rightarrow> int \<times> kraken_elem \<Rightarrow> silver_row" where
  "kraken_trade_row cs run_ts b typ ie =
     (case ie of (i, d) \<Rightarrow>
      typed_row b run_ts i (ke_symbol d) (map_option show_int (ke_trade_id d)) (ke_trade_id d) (ke_price d) (ke_qty d)
        (ke_side d) (ke_side d) (Option.bind (ke_timestamp d) (cast_ts cs)) (KrakenExtra (ke_ord_type d) typ))"

definition coinbase_trade_row ::
  "casts \<Rightarrow> int \<Rightarrow> trade_cols bronze_row \<Rightarrow> string option \<Rightarrow> int option \<Rightarrow> int \<times> string option \<times> coinbase_elem \<Rightarrow> silver_row" where
  "coinbase_trade_row cs run_ts b timestamp sequence_num ie =
     (case ie of (i, ev_type, t) \<Rightarrow>
      typed_row b run_ts i (ct_product_id t) (ct_trade_id t) (Option.bind (ct_trade_id t) (cast_big cs))
        (Option.bind (ct_price t) (cast_dec cs)) (Option.bind (ct_size t) (cast_dec cs))
        (map_option (map lower_char) (ct_side t)) (ct_side t) (Option.bind (ct_time t) (cast_ts cs))
        (CoinbaseExtra (Option.bind timestamp (cast_ts cs)) sequence_num ev_type))"

text \<open>\<open>posexplode\<close>: positions from 0, no row for \<open>NULL\<close>; \<open>size(NULL)\<close> is \<open>-1\<close>.\<close>

definition posexplode :: "'a list option \<Rightarrow> (int \<times> 'a) list" where
  "posexplode xs = (case xs of None \<Rightarrow> [] | Some ys \<Rightarrow> zip (map int [0..<length ys]) ys)"

definition sql_size :: "'a list option \<Rightarrow> int" where
  "sql_size xs = (case xs of None \<Rightarrow> - 1 | Some ys \<Rightarrow> int (length ys))"

definition coinbase_explode :: "coinbase_event list option \<Rightarrow> (int \<times> string option \<times> coinbase_elem) list" where
  "coinbase_explode events =
     concat (map (\<lambda>(i, ev). map (\<lambda>(j, t).
       (sum_list (map (\<lambda>x. sql_size (ce_trades x)) (take (nat i) (case events of None \<Rightarrow> [] | Some es \<Rightarrow> es))) + j, ce_type ev, t))
       (posexplode (ce_trades ev))) (posexplode events))"

definition explode_frame :: "casts \<Rightarrow> int \<Rightarrow> venue \<Rightarrow> trade_cols bronze_row \<Rightarrow> silver_row list" where
  "explode_frame cs run_ts v b =
     (case v of
        Binance \<Rightarrow> (case b_cols b of Some (BinanceTrade stream data) \<Rightarrow> [binance_trade_row cs run_ts b stream data]
                    | _ \<Rightarrow> [binance_trade_row cs run_ts b None None])
      | Kraken \<Rightarrow> (case b_cols b of Some (KrakenTrade ch typ data) \<Rightarrow> map (kraken_trade_row cs run_ts b typ) (posexplode data)
                   | _ \<Rightarrow> [])
      | Coinbase \<Rightarrow> (case b_cols b of Some (CoinbaseTrades ch ts sq events) \<Rightarrow>
                         map (coinbase_trade_row cs run_ts b ts sq) (coinbase_explode events)
                     | _ \<Rightarrow> []))"

text \<open>\<open>price <> round(price, 8) OR qty <> round(qty, 8)\<close>, three-valued.\<close>

definition sql_or :: "bool option \<Rightarrow> bool option \<Rightarrow> bool option" where
  "sql_or a b = (if a = Some True \<or> b = Some True then Some True else if a = None \<or> b = None then None else Some False)"

definition not_8_decimals :: "int option \<Rightarrow> bool option" where
  "not_8_decimals u = map_option (\<lambda>x. x \<noteq> round_half_up_div x 100 * 100) u"

definition name_row :: "registry \<Rightarrow> string \<Rightarrow> silver_row \<Rightarrow> silver_row res" where
  "name_row registry exchange r =
     res_bind (canonical registry exchange (s_symbol r))
       (\<lambda>c. Inr (r\<lparr>s_canonical := c, s_precision_loss := sql_or (not_8_decimals (s_price r)) (not_8_decimals (s_qty r))\<rparr>))"

definition silver_project ::
  "casts \<Rightarrow> registry \<Rightarrow> int \<Rightarrow> venue \<Rightarrow> trade_cols bronze_row list \<Rightarrow> silver_row list res" where
  "silver_project cs registry run_ts v frames =
     res_map (name_row registry (exchange_name v)) (concat (map (explode_frame cs run_ts v) frames))"

section \<open>Scoring\<close>

definition trade_group :: "silver_row \<Rightarrow> string option \<times> string option" where
  "trade_group r = (s_symbol r, s_trade_id r)"

definition delivery_key :: "silver_row \<Rightarrow> int \<times> int \<times> int \<times> int" where
  "delivery_key r = (s_recv_ts_ns r, s_part r, s_off r, s_idx r)"

definition is_replay :: "silver_row list \<Rightarrow> silver_row \<Rightarrow> bool" where
  "is_replay both r = list_ex (\<lambda>q. trade_group q = trade_group r \<and> delivery_key q < delivery_key r) both"

definition prev_seq :: "silver_row list \<Rightarrow> silver_row \<Rightarrow> int option" where
  "prev_seq both r =
     (case s_trade_seq r of None \<Rightarrow> None
      | Some s \<Rightarrow>
          (let below = filter (\<lambda>x. x < s) (concat (map (\<lambda>q. case s_trade_seq q of None \<Rightarrow> [] | Some x \<Rightarrow> [x])
                 (filter (\<lambda>q. \<not> is_replay both q \<and> s_symbol q = s_symbol r) both)))
           in if below = [] then None else Some (foldl max (hd below) (tl below))))"

definition score_row :: "silver_row list \<Rightarrow> silver_row \<Rightarrow> silver_row" where
  "score_row both r =
     (if is_replay both r then r\<lparr>s_replay := True, s_seq_gap := Some False, s_missing := Some 0\<rparr>
      else (case (prev_seq both r, s_trade_seq r) of
              (Some p, Some s) \<Rightarrow> r\<lparr>s_replay := False, s_seq_gap := Some (s - p > 1), s_missing := Some (s - p - 1)\<rparr>
            | _ \<Rightarrow> r\<lparr>s_replay := False, s_seq_gap := None, s_missing := None\<rparr>))"

definition score :: "silver_row list \<Rightarrow> silver_row list \<Rightarrow> silver_row list" where
  "score batch lookback = map (score_row (batch @ lookback)) batch"

definition LOOKBACK :: int where "LOOKBACK = 86400000000"

section \<open>The incremental step and the rebuild\<close>

record silver_env =
  se_casts :: casts
  se_registry :: registry

text \<open>The table's \<open>NOT NULL\<close> columns: a batch with a \<open>NULL\<close> in one of them fails the append.\<close>

definition storable :: "silver_row \<Rightarrow> bool" where
  "storable r = (s_symbol r \<noteq> None \<and> s_trade_id r \<noteq> None \<and> s_trade_seq r \<noteq> None \<and> s_price r \<noteq> None \<and>
     s_qty r \<noteq> None \<and> s_side r \<noteq> None \<and> s_side_native r \<noteq> None \<and> s_exchange_ts r \<noteq> None \<and>
     s_precision_loss r \<noteq> None)"

definition silver_write ::
  "silver_env \<Rightarrow> venue \<Rightarrow> trade_cols bronze_row list \<Rightarrow> int \<Rightarrow> int \<Rightarrow> (int \<times> int) list \<times> silver_row table \<Rightarrow>
   ((int \<times> int) list \<times> silver_row table) \<times> int res" where
  "silver_write env v frames src_id run_ts st =
     (case silver_project (se_casts env) (se_registry env) run_ts v frames of Inl e \<Rightarrow> (st, Inl e)
      | Inr batch \<Rightarrow>
          if batch = [] then (st, Inr 0)
          else if \<not> list_all storable batch then (st, Inl NotNullViolation)
          else (let lo = foldl min (s_recv_ts (hd batch)) (map s_recv_ts (tl batch));
                    lookback = filter (\<lambda>r. s_recv_ts r \<ge> lo - LOOKBACK) (table_rows (snd st))
                in (case fst st of [] \<Rightarrow> (st, Inl OSError)
                    | (i, time) # rest \<Rightarrow>
                        (let t = table_append (snd st) i time (decode_props SRC_SNAPSHOT_ID src_id) (score batch lookback)
                         in ((rest, t), added_records t)))))"

definition silver_step ::
  "silver_env \<Rightarrow> venue \<Rightarrow> trade_cols bronze_row table \<Rightarrow> int \<Rightarrow> (int \<times> int) list \<times> silver_row table \<Rightarrow>
   ((int \<times> int) list \<times> silver_row table) \<times> int res" where
  "silver_step env v src run_ts st =
     (case current_snapshot_id src of None \<Rightarrow> (st, Inr 0)
      | Some end_id \<Rightarrow>
          (let start = src_position (snd st) SRC_SNAPSHOT_ID in
           if level_with start end_id then (st, Inr 0)
           else (case incremental_read src start end_id of Inl e \<Rightarrow> (st, Inl e)
                 | Inr frames \<Rightarrow> silver_write env v frames end_id run_ts st)))"

fun silver_stage ::
  "silver_env \<Rightarrow> (venue \<Rightarrow> trade_cols bronze_row table) \<Rightarrow> int \<Rightarrow> venue list \<Rightarrow>
   (int \<times> int) list \<times> (venue \<Rightarrow> silver_row table) \<Rightarrow> ((int \<times> int) list \<times> (venue \<Rightarrow> silver_row table)) \<times> int res" where
  "silver_stage env src run_ts [] st = (st, Inr 0)"
| "silver_stage env src run_ts (v # vs) st =
     (case silver_step env v (src v) run_ts (fst st, snd st v) of
        ((cs, t), Inl e) \<Rightarrow> ((cs, (snd st)(v := t)), Inl e)
      | ((cs, t), Inr n) \<Rightarrow>
          (case silver_stage env src run_ts vs (cs, (snd st)(v := t)) of
             (st', Inl e) \<Rightarrow> (st', Inl e) | (st', Inr m) \<Rightarrow> (st', Inr (n + m))))"

definition TRADES :: "venue list" where "TRADES = [Binance, Kraken, Coinbase]"

definition US_PER_DAY :: int where "US_PER_DAY = 86400000000"

fun silver_days ::
  "silver_env \<Rightarrow> venue \<Rightarrow> trade_cols bronze_row list \<Rightarrow> int \<Rightarrow> int \<Rightarrow> int list \<Rightarrow> (int \<times> int) list \<times> silver_row table \<Rightarrow>
   ((int \<times> int) list \<times> silver_row table) \<times> int res" where
  "silver_days env v rows end_id run_ts [] st = (st, Inr 0)"
| "silver_days env v rows end_id run_ts (d # ds) st =
     (case silver_write env v (filter (\<lambda>b. b_recv_ts b div US_PER_DAY = d) rows) end_id run_ts st of
        (st', Inl e) \<Rightarrow> (st', Inl e)
      | (st', Inr n) \<Rightarrow>
          (case silver_days env v rows end_id run_ts ds st' of (st'', Inl e) \<Rightarrow> (st'', Inl e) | (st'', Inr m) \<Rightarrow> (st'', Inr (n + m))))"

definition silver_rebuild_venue ::
  "silver_env \<Rightarrow> venue \<Rightarrow> trade_cols bronze_row table \<Rightarrow> int \<Rightarrow> (int \<times> int) list \<times> silver_row table \<Rightarrow>
   ((int \<times> int) list \<times> silver_row table) \<times> int res" where
  "silver_rebuild_venue env v src run_ts st =
     (case current_snapshot_id src of None \<Rightarrow> (st, Inr 0)
      | Some end_id \<Rightarrow>
          (let rows = rows_at src end_id in
           silver_days env v rows end_id run_ts (sort (remdups (map (\<lambda>b. b_recv_ts b div US_PER_DAY) rows))) st))"

fun silver_rebuild ::
  "silver_env \<Rightarrow> (venue \<Rightarrow> trade_cols bronze_row table) \<Rightarrow> int \<Rightarrow> string list \<Rightarrow> venue list \<Rightarrow>
   (int \<times> int) list \<times> (venue \<Rightarrow> silver_row table) \<Rightarrow> ((int \<times> int) list \<times> (venue \<Rightarrow> silver_row table)) \<times> int res" where
  "silver_rebuild env src run_ts only [] st = (st, Inr 0)"
| "silver_rebuild env src run_ts only (v # vs) st =
     (if only \<noteq> [] \<and> exchange_name v \<notin> set only then silver_rebuild env src run_ts only vs st
      else (case silver_rebuild_venue env v (src v) run_ts (fst st, snd st v) of
        ((cs, t), Inl e) \<Rightarrow> ((cs, (snd st)(v := t)), Inl e)
      | ((cs, t), Inr n) \<Rightarrow>
          (case silver_rebuild env src run_ts only vs (cs, (snd st)(v := t)) of
             (st', Inl e) \<Rightarrow> (st', Inl e) | (st', Inr m) \<Rightarrow> (st', Inr (n + m)))))"

section \<open>The transformation, seen without the flags and the run's clock\<close>

definition silver_view :: "silver_row \<Rightarrow> silver_row" where
  "silver_view r = r\<lparr>s_ingest_ts := 0, s_replay := False, s_seq_gap := None, s_missing := None\<rparr>"

definition silver_typed :: "silver_env \<Rightarrow> venue \<Rightarrow> trade_cols bronze_row list \<Rightarrow> silver_row list" where
  "silver_typed env v frames =
     concat (map (\<lambda>r. case name_row (se_registry env) (exchange_name v) r of Inl _ \<Rightarrow> [] | Inr x \<Rightarrow> [silver_view x])
       (concat (map (explode_frame (se_casts env) 0 v) frames)))"

interpretation silver_layer: incremental_layer "silver_typed env v" "each \<circ> silver_view" SRC_SNAPSHOT_ID for env v
  by unfold_locales (simp_all add: silver_typed_def SRC_SNAPSHOT_ID_def JOB_def)

lemma typed_row_clock [k2_simps]:
  "typed_row b run_ts i a1 a2 a3 a4 a5 a6 a7 a8 x = (typed_row b 0 i a1 a2 a3 a4 a5 a6 a7 a8 x)\<lparr>s_ingest_ts := run_ts\<rparr>"
  by (simp add: typed_row_def)

lemma explode_clock:
  "explode_frame cs run_ts v b = map (s_ingest_ts_update (\<lambda>_. run_ts)) (explode_frame cs 0 v b)"
  by (auto simp: explode_frame_def binance_trade_row_def kraken_trade_row_def coinbase_trade_row_def Let_def
      typed_row_def split: venue.splits option.splits trade_cols.splits prod.splits)

lemma name_row_clock:
  "name_row reg ex (r\<lparr>s_ingest_ts := run_ts\<rparr>) =
     (case name_row reg ex r of Inl e \<Rightarrow> Inl e | Inr x \<Rightarrow> Inr (x\<lparr>s_ingest_ts := run_ts\<rparr>))"
  by (simp add: name_row_def res_bind_def split: sum.splits)

lemma project_typed:
  assumes "silver_project (se_casts env) (se_registry env) run_ts v frames = Inr batch"
  shows "map silver_view batch = silver_typed env v frames"
proof -
  let ?f = "name_row (se_registry env) (exchange_name v)"
  let ?g = "\<lambda>r. case ?f r of Inl _ \<Rightarrow> [] | Inr x \<Rightarrow> [silver_view x]"
  have ex: "concat (map (explode_frame (se_casts env) run_ts v) frames) =
      map (s_ingest_ts_update (\<lambda>_. run_ts)) (concat (map (explode_frame (se_casts env) 0 v) frames))"
    by (simp add: map_concat comp_def explode_clock [where run_ts = run_ts, symmetric])
  have "res_map ?f (map (s_ingest_ts_update (\<lambda>_. run_ts)) rs) = Inr ys \<Longrightarrow> map silver_view ys = concat (map ?g rs)" for rs ys
    by (induction rs arbitrary: ys)
      (auto simp: res_bind_Inr name_row_clock silver_view_def split: sum.splits)
  from this [OF assms [unfolded silver_project_def ex]] show ?thesis by (simp add: silver_typed_def)
qed

lemma score_view [simp]: "map silver_view (score batch lookback) = map silver_view batch"
  by (auto simp: score_def score_row_def silver_view_def split: option.splits)

lemma score_row_simps [simp]:
  "s_recv_ts (score_row both r) = s_recv_ts r" "trade_group (score_row both r) = trade_group r"
  "delivery_key (score_row both r) = delivery_key r" "s_trade_seq (score_row both r) = s_trade_seq r"
  "s_symbol (score_row both r) = s_symbol r" "s_replay (score_row both r) = is_replay both r"
  by (auto simp: score_row_def trade_group_def delivery_key_def split: option.splits)

lemma silver_write_cases:
  assumes "silver_write env v frames src_id run_ts (cs, t) = ((cs', t'), r)"
  obtains (same) "t' = t" "cs' = cs"
  | (commit) batch i time where "silver_project (se_casts env) (se_registry env) run_ts v frames = Inr batch" "batch \<noteq> []" "list_all storable batch"
      "cs = (i, time) # cs'"
      "t' = table_append t i time (decode_props SRC_SNAPSHOT_ID src_id)
         (score batch (filter (\<lambda>r. s_recv_ts r \<ge> foldl min (s_recv_ts (hd batch)) (map s_recv_ts (tl batch)) - LOOKBACK) (table_rows t)))"
  using assms by (auto simp: silver_write_def Let_def split: sum.splits if_splits list.splits)

section \<open>Flags over the whole table\<close>

text \<open>A table's replay flags are right when a row is flagged exactly when an earlier delivery of its trade is in the table.\<close>

definition flags_ok :: "silver_row list \<Rightarrow> bool" where
  "flags_ok rows = list_all (\<lambda>r. s_replay r = is_replay rows r) rows"

text \<open>The next batch arrives in order, and a trade seen before was seen within the lookback.\<close>

definition batch_follows :: "silver_row list \<Rightarrow> silver_row list \<Rightarrow> bool" where
  "batch_follows rows batch =
     list_all (\<lambda>r. list_all (\<lambda>q. trade_group q = trade_group r \<longrightarrow>
        delivery_key q < delivery_key r \<and>
        list_ex (\<lambda>q'. trade_group q' = trade_group r \<and>
          s_recv_ts q' \<ge> foldl min (s_recv_ts (hd batch)) (map s_recv_ts (tl batch)) - LOOKBACK) rows) rows) batch"

lemma is_replay_iff: "is_replay both r \<longleftrightarrow> (\<exists>q \<in> set both. trade_group q = trade_group r \<and> delivery_key q < delivery_key r)"
  by (auto simp: is_replay_def list_ex_iff)

lemma is_replay_score [simp]:
  "is_replay (xs @ score batch look) r = is_replay (xs @ batch) r" "is_replay both (score_row both' r) = is_replay both r"
  by (simp_all add: is_replay_iff score_def bex_Un)

lemma score_flags:
  assumes "flags_ok rows" and "batch_follows rows batch"
  shows "flags_ok (rows @ score batch (filter (\<lambda>r. s_recv_ts r \<ge>
    foldl min (s_recv_ts (hd batch)) (map s_recv_ts (tl batch)) - LOOKBACK) rows))"
proof -
  let ?lo = "foldl min (s_recv_ts (hd batch)) (map s_recv_ts (tl batch)) - LOOKBACK"
  let ?look = "filter (\<lambda>r. s_recv_ts r \<ge> ?lo) rows"
  have follows: "delivery_key q < delivery_key r \<and> (\<exists>q' \<in> set ?look. trade_group q' = trade_group r)"
    if "r \<in> set batch" "q \<in> set rows" "trade_group q = trade_group r" for r q
    using assms(2) that by (auto simp: batch_follows_def list_all_iff list_ex_iff)
  have old: "is_replay (rows @ batch) r = is_replay rows r" if "r \<in> set rows" for r
    using follows [OF _ that] by (auto simp: is_replay_iff) (metis order.asym)
  have new: "is_replay (rows @ batch) r = is_replay (batch @ ?look) r" if r: "r \<in> set batch" for r
  proof
    assume "is_replay (rows @ batch) r"
    then obtain q where q: "q \<in> set rows \<union> set batch" "trade_group q = trade_group r" "delivery_key q < delivery_key r"
      by (auto simp: is_replay_iff)
    show "is_replay (batch @ ?look) r"
    proof (cases "q \<in> set batch")
      case True
      then show ?thesis using q by (auto simp: is_replay_iff)
    next
      case False
      then obtain q' where q': "q' \<in> set ?look" "trade_group q' = trade_group r" using follows [OF r _ q(2)] q(1) by auto
      then have "delivery_key q' < delivery_key r" using follows [OF r, of q'] by auto
      with q' show ?thesis by (auto simp: is_replay_iff)
    qed
  qed (auto simp: is_replay_iff)
  have "s_replay r = is_replay rows r" if "r \<in> set rows" for r
    using assms(1) that by (simp add: flags_ok_def list_all_iff)
  then have "list_all (\<lambda>r. s_replay r = is_replay (rows @ batch) r) (rows @ score batch ?look)"
    using old new by (auto simp: list_all_iff score_def)
  then show ?thesis unfolding flags_ok_def is_replay_score .
qed

lemma score_missing:
  assumes "r \<in> set batch" and "s_missing (score_row (batch @ look) r) = Some m" and "\<not> is_replay (batch @ look) r"
  shows "\<exists>s. s_trade_seq r = Some s \<and> 0 \<le> m \<and> s_seq_gap (score_row (batch @ look) r) = Some (m > 0) \<and>
    (\<exists>q \<in> set (batch @ look). \<not> is_replay (batch @ look) q \<and> s_symbol q = s_symbol r \<and> s_trade_seq q = Some (s - m - 1)) \<and>
    \<not> (\<exists>q \<in> set (batch @ look). \<not> is_replay (batch @ look) q \<and> s_symbol q = s_symbol r \<and>
          (\<exists>x. s_trade_seq q = Some x \<and> s - m - 1 < x \<and> x < s))"
proof -
  let ?both = "batch @ look"
  obtain p s where s: "s_trade_seq r = Some s" and p: "prev_seq ?both r = Some p" and m: "m = s - p - 1"
      and gap: "s_seq_gap (score_row ?both r) = Some (s - p > 1)"
    using assms(2,3) by (auto simp: score_row_def split: option.splits)
  define below where "below = filter (\<lambda>x. x < s) (concat (map (\<lambda>q. case s_trade_seq q of None \<Rightarrow> [] | Some x \<Rightarrow> [x])
                 (filter (\<lambda>q. \<not> is_replay ?both q \<and> s_symbol q = s_symbol r) ?both)))"
  have below: "x \<in> set below \<longleftrightarrow> x < s \<and> (\<exists>q \<in> set ?both. \<not> is_replay ?both q \<and> s_symbol q = s_symbol r \<and> s_trade_seq q = Some x)" for x
    by (force simp: below_def split: option.splits)
  have ne: "below \<noteq> []" and pm: "p = foldl max (hd below) (tl below)"
    using p unfolding prev_seq_def s option.case below_def [symmetric] Let_def by (simp_all split: if_splits)
  have "p \<in> set below \<and> (\<forall>x \<in> set below. x \<le> p)"
    using ne foldl_max_bounds [where x = "hd below" and xs = "tl below"] pm by (cases below) auto
  then have mem: "p \<in> set below" and top: "\<And>x. x \<in> set below \<Longrightarrow> x \<le> p" by auto
  have q: "\<exists>q \<in> set ?both. \<not> is_replay ?both q \<and> s_symbol q = s_symbol r \<and> s_trade_seq q = Some (s - m - 1)"
    and ps: "p < s" using mem below [of p] m by auto
  have none: "\<not> (\<exists>q \<in> set ?both. \<not> is_replay ?both q \<and> s_symbol q = s_symbol r \<and>
      (\<exists>x. s_trade_seq q = Some x \<and> s - m - 1 < x \<and> x < s))"
  proof
    assume "\<exists>q \<in> set ?both. \<not> is_replay ?both q \<and> s_symbol q = s_symbol r \<and>
      (\<exists>x. s_trade_seq q = Some x \<and> s - m - 1 < x \<and> x < s)"
    then obtain x where "x \<in> set below" "p < x" using below m by auto
    with top show False by force
  qed
  have "0 \<le> m" "(s - p > 1) = (m > 0)" using ps m by auto
  then show ?thesis using s gap q none by simp
qed

section \<open>Every commit of a run\<close>

definition silver_ok ::
  "silver_env \<Rightarrow> (venue \<Rightarrow> trade_cols bronze_row table) \<Rightarrow> (int \<times> int) list \<times> (venue \<Rightarrow> silver_row table) \<Rightarrow> bool" where
  "silver_ok env src st =
     ((\<forall>v. clock_ok (fst st) (snd st v)) \<and>
      (\<forall>v. in_step (silver_typed env v) (each \<circ> silver_view) SRC_SNAPSHOT_ID (src v) (snd st v)))"

lemma silver_step_ok:
  assumes ok: "silver_ok env src st"
    and ids: "distinct (map snap_id (snaps (src v)))" "\<forall>i. main_ref (src v) = Some i \<longrightarrow> i \<in> set (map snap_id (snaps (src v)))"
    and s: "silver_step env v (src v) run_ts (fst st, snd st v) = ((cs', t'), r)"
  shows "silver_ok env src (cs', (snd st)(v := t'))"
proof (cases "t' = snd st v \<and> cs' = fst st")
  case True
  then show ?thesis using ok by (simp add: silver_ok_def)
next
  case False
  then obtain e rows where e: "main_ref (src v) = Some e"
      "incremental_read (src v) (src_position (snd st v) SRC_SNAPSHOT_ID) e = Inr rows"
      and w: "silver_write env v rows e run_ts (fst st, snd st v) = ((cs', t'), r)"
    using s by (auto simp: silver_step_def current_snapshot_id_def Let_def split: option.splits if_splits sum.splits)
  from w show ?thesis
  proof (cases rule: silver_write_cases)
    case (commit batch i time)
    have clk: "clock_ok ((i, time) # cs') (snd st u)" for u using ok commit(4) by (simp add: silver_ok_def)
    have "in_step (silver_typed env v) (each \<circ> silver_view) SRC_SNAPSHOT_ID (src v) t'"
      unfolding commit(5)
    proof (rule silver_layer.step_keeps [OF _ ids(1) _ e(2)])
      show "in_step (silver_typed env v) (each \<circ> silver_view) SRC_SNAPSHOT_ID (src v) (snd st v)" using ok by (simp add: silver_ok_def)
      show "\<forall>s \<in> set (snaps (snd st v)). committed_at s < time" using clk by (auto simp: clock_ok_def)
    qed (use e(1) ids(2) decode_props_lookup project_typed [OF commit(1)] in auto)
    then show ?thesis using ok clock_ok_tail [OF clk] clock_ok_append [OF clk] by (simp add: silver_ok_def commit(5))
  qed (use False in simp)
qed

lemma silver_stage_ok:
  assumes "silver_ok env src st"
    and "\<forall>v. distinct (map snap_id (snaps (src v))) \<and> (\<forall>i. main_ref (src v) = Some i \<longrightarrow> i \<in> set (map snap_id (snaps (src v))))"
  shows "silver_ok env src (fst (silver_stage env src run_ts vs st))"
  using assms
proof (induction vs arbitrary: st)
  case (Cons v vs)
  obtain cs' t' r where s: "silver_step env v (src v) run_ts (fst st, snd st v) = ((cs', t'), r)" by (metis prod.exhaust)
  have "silver_ok env src (cs', (snd st)(v := t'))"
    by (rule silver_step_ok [where v = v and r = r and run_ts = run_ts]) (use Cons.prems s in auto)
  then show ?case using s Cons.IH [of "(cs', (snd st)(v := t'))"] Cons.prems(2)
    by (cases r; cases "silver_stage env src run_ts vs (cs', (snd st)(v := t'))") (auto split: sum.splits)
qed simp

lemma name_row_error: "name_row registry exchange r = Inl e \<Longrightarrow> e = UnknownInstrument"
  by (cases "canonical registry exchange (s_symbol r)") (auto simp: name_row_def dest: canonical_error)

lemma project_error:
  "silver_project cs registry run_ts v frames = Inl e \<Longrightarrow> e = UnknownInstrument"
  unfolding silver_project_def by (drule res_map_Inl) (blast dest: name_row_error)

lemma unparsed_blocks:
  assumes "b \<in> set frames" and "b_cols b = None"
  shows "silver_project cs registry run_ts Binance frames = Inl UnknownInstrument"
proof (cases "silver_project cs registry run_ts Binance frames")
  case (Inl e)
  then show ?thesis using project_error by metis
next
  case (Inr rows)
  have "binance_trade_row cs run_ts b None None \<in> set (concat (map (explode_frame cs run_ts Binance) frames))"
    using assms(1) by (rule concat_mapI) (simp add: explode_frame_def assms(2))
  then obtain x where "name_row registry (exchange_name Binance) (binance_trade_row cs run_ts b None None) = Inr x"
    using Inr unfolding silver_project_def by (blast dest: res_map_mem)
  then show ?thesis by (auto simp: name_row_def res_bind_Inr canonical_known binance_trade_row_def Let_def typed_row_def)
qed

lemma upto_snap_mem: "i \<in> set (map snap_id ss) \<Longrightarrow> i \<in> set (map snap_id (upto_snap i ss))"
  by (induction ss) auto

lemma rows_between_grows:
  assumes "rows_between up i j = Inr rows" and "snaps up' = snaps up @ more_snaps" and "distinct (map snap_id (snaps up'))"
    and "rows_between up' i j' = Inr rows'" and "j' \<notin> set (map snap_id (upto_snap j (snaps up)))"
  shows "set rows \<subseteq> set rows'"
proof -
  have pre: "j' \<notin> set (map snap_id (upto_snap j ss)) \<Longrightarrow> set (upto_snap j ss) \<subseteq> set (upto_snap j' (ss @ ys))" for ss ys :: "'a snapshot list"
    by (induction ss) auto
  have sub: "j \<in> set (map snap_id (after_snap i ss)) \<Longrightarrow> distinct (map snap_id ss) \<Longrightarrow>
      set (upto_snap j (after_snap i ss)) \<subseteq> set (upto_snap j ss)" for ss :: "'a snapshot list"
  proof -
    assume a: "j \<in> set (map snap_id (after_snap i ss))" "distinct (map snap_id ss)"
    have "i \<in> set (map snap_id ss)" using a(1) by (induction ss) (auto split: if_splits)
    from upto_after [OF a(2) this a(1)] show ?thesis by (metis UnCI set_append subsetI)
  qed
  have i: "i \<in> set (map snap_id (snaps up))" "j \<in> set (map snap_id (after_snap i (snaps up)))"
    and r: "rows = concat (map added (upto_snap j (after_snap i (snaps up))))"
    using assms(1) by (auto simp: rows_between_def Let_def split: if_splits)
  have r': "rows' = concat (map added (upto_snap j' (after_snap i (snaps up) @ more_snaps)))"
    using assms(2,4) i(1) by (auto simp: rows_between_def Let_def after_append split: if_splits)
  have "j' \<notin> set (map snap_id (upto_snap j (after_snap i (snaps up))))"
    using assms(5) sub [OF i(2)] assms(2,3) by auto
  from pre [OF this, of more_snaps] show ?thesis unfolding r r' by auto
qed

section \<open>A small feed for the witnesses\<close>

definition demo_trade :: "int \<Rightarrow> int \<Rightarrow> int \<Rightarrow> trade_cols bronze_row" where
  "demo_trade trade_no recv offset =
     \<lparr>b_cols = Some (KrakenTrade (Some ''trade'') (Some ''update'')
        (Some [\<lparr>ke_symbol = Some ''B'', ke_side = Some ''buy'', ke_price = Some 500, ke_qty = Some 100,
                ke_ord_type = None, ke_trade_id = Some trade_no, ke_timestamp = Some ''t''\<rparr>])),
      b_symbol = None, b_recv_ts_ns = recv * 1000, b_recv_ts = recv, b_conn_id = ''c'', b_conn_msg_seq = offset,
      b_topic = ''k'', b_part = 0, b_off = offset, b_ingest_ts = recv\<rparr>"

definition demo_silver_env :: silver_env where
  "demo_silver_env = \<lparr>se_casts = \<lparr>cast_dec = (\<lambda>_. None), cast_big = (\<lambda>_. None), cast_ts = (\<lambda>_. Some 7)\<rparr>,
     se_registry = [(''kraken'', [(''B'', ''BTC'')])]\<rparr>"

definition demo_typed :: "int \<Rightarrow> int \<Rightarrow> int \<Rightarrow> bool \<Rightarrow> int option \<Rightarrow> silver_row" where
  "demo_typed trade_no recv offset replay missing =
     \<lparr>s_symbol = Some ''B'', s_trade_id = Some (show_int trade_no), s_trade_seq = Some trade_no, s_price = Some 500,
      s_qty = Some 100, s_side = Some ''buy'', s_side_native = Some ''buy'', s_exchange_ts = Some 7,
      s_extra = KrakenExtra None (Some ''update''), s_recv_ts_ns = recv * 1000, s_recv_ts = recv, s_conn_id = ''c'',
      s_conn_msg_seq = offset, s_topic = ''k'', s_part = 0, s_off = offset, s_idx = 0, s_ingest_ts = 9,
      s_canonical = ''BTC'', s_precision_loss = Some False, s_replay = replay,
      s_seq_gap = (if replay then Some False else map_option (\<lambda>m. m > 0) missing), s_missing = missing\<rparr>"

lemma demo_project:
  "silver_project (se_casts demo_silver_env) (se_registry demo_silver_env) 9 Kraken [demo_trade a x i, demo_trade b y j] =
   Inr [demo_typed a x i False None\<lparr>s_precision_loss := sql_or (not_8_decimals (Some 500)) (not_8_decimals (Some 100))\<rparr>,
        demo_typed b y j False None\<lparr>s_precision_loss := sql_or (not_8_decimals (Some 500)) (not_8_decimals (Some 100))\<rparr>]"
  by (simp add: silver_project_def demo_trade_def demo_silver_env_def explode_frame_def posexplode_def kraken_trade_row_def
      typed_row_def name_row_def canonical_def exchange_name_def demo_typed_def)

lemma demo_precision: "demo_typed a x i r m\<lparr>s_precision_loss := sql_or (not_8_decimals (Some 500)) (not_8_decimals (Some 100))\<rparr> = demo_typed a x i r m"
  by (simp add: demo_typed_def sql_or_def not_8_decimals_def round_half_up_div_def)

lemma demo_typed_simps:
  "trade_group (demo_typed a x i r m) = (Some ''B'', Some (show_int a))" "delivery_key (demo_typed a x i r m) = (x * 1000, 0, i, 0)"
  "s_recv_ts (demo_typed a x i r m) = x" "s_replay (demo_typed a x i r m) = r" "s_trade_seq (demo_typed a x i r m) = Some a"
  "s_symbol (demo_typed a x i r m) = Some ''B''"
  by (simp_all add: demo_typed_def trade_group_def delivery_key_def)

section \<open>Properties\<close>

text \<open>
  Each silver table is its bronze table typed, every delivery once: if that holds for every venue up to
  the snapshot each table names, it holds after a run, also one that stopped at an unknown instrument or
  crashed between two venues' commits.
\<close>
theorem silver_stage_in_step:
  assumes "\<forall>v. clock_ok (fst st) (snd st v)"
    and "\<forall>v. in_step (silver_typed env v) (each \<circ> silver_view) SRC_SNAPSHOT_ID (src v) (snd st v)"
    and "\<forall>v. distinct (map snap_id (snaps (src v)))"
    and "\<forall>v i. main_ref (src v) = Some i \<longrightarrow> i \<in> set (map snap_id (snaps (src v)))"
  shows "in_step (silver_typed env v) (each \<circ> silver_view) SRC_SNAPSHOT_ID (src v) (snd (fst (silver_stage env src run_ts TRADES st)) v)"
  using silver_stage_ok [of env src st run_ts TRADES] assms by (simp add: silver_ok_def)

theorem silver_stage_in_step_witness:
  "in_step (silver_typed demo_silver_env Kraken) (each \<circ> silver_view) SRC_SNAPSHOT_ID (table_append empty_table 10 10 [] [demo_trade 5 20 1])
    (snd (fst (silver_stage demo_silver_env (\<lambda>_. table_append empty_table 10 10 [] [demo_trade 5 20 1]) 9 TRADES
       ([(1, 1)], \<lambda>_. empty_table))) Kraken)"
  by (rule silver_stage_in_step)
    (simp_all add: clock_ok_def empty_table_def in_step_def src_position_def snapshot_history_def latest_summary_def
      table_rows_def table_append_def)

text \<open>
  C6. Replay flags stay right however the feed is cut into runs: when every delivery of the batch is later
  than the deliveries of the same trade already in the table, and a trade seen before was seen within the
  lookback of the batch, then after the run a row is flagged as a replay exactly when an earlier delivery
  of its trade is in the table, so each trade has one original.
\<close>
theorem silver_replay_flags:
  assumes "flags_ok (table_rows t)"
    and "\<And>batch. silver_project (se_casts env) (se_registry env) run_ts v frames = Inr batch \<Longrightarrow> batch_follows (table_rows t) batch"
  shows "flags_ok (table_rows (snd (fst (silver_write env v frames src_id run_ts (cs, t)))))"
proof -
  obtain cs' t' r where w: "silver_write env v frames src_id run_ts (cs, t) = ((cs', t'), r)" by (metis prod.exhaust)
  from w show ?thesis
  proof (cases rule: silver_write_cases)
    case (commit batch i time)
    then show ?thesis using w score_flags [OF assms(1), of batch] assms(2) by simp
  qed (use w assms(1) in simp)
qed

theorem silver_replay_flags_witness:
  "flags_ok (table_rows (snd (fst (silver_write demo_silver_env Kraken [demo_trade 5 20 1, demo_trade 8 21 2] 10 9
     ([(2, 2)], table_append empty_table 1 1 [] [demo_typed 5 10 0 False None])))))"
proof (rule silver_replay_flags)
  show "batch_follows (table_rows (table_append empty_table 1 1 [] [demo_typed 5 10 0 False None])) batch"
    if "silver_project (se_casts demo_silver_env) (se_registry demo_silver_env) 9 Kraken [demo_trade 5 20 1, demo_trade 8 21 2] = Inr batch"
    for batch
  proof -
    have "batch = [demo_typed 5 20 1 False None, demo_typed 8 21 2 False None]"
      using that unfolding demo_project demo_precision by simp
    then show ?thesis by (simp add: batch_follows_def demo_typed_simps less_prod_def LOOKBACK_def show_int_inj)
  qed
qed (simp add: flags_ok_def is_replay_def demo_typed_simps)

text \<open>
  \<open>missing_before\<close> counts trades that never arrived: an original scored with \<open>m\<close> missing has a
  delivered original exactly \<open>m + 1\<close> ids below it, no original of its symbol in between, and is flagged as
  a gap exactly when \<open>m > 0\<close>.
\<close>
theorem silver_missing_before:
  assumes "r \<in> set (score batch look)" and "s_replay r = False" and "s_missing r = Some m"
  shows "\<exists>s. s_trade_seq r = Some s \<and> 0 \<le> m \<and> s_seq_gap r = Some (m > 0) \<and>
    list_ex (\<lambda>q. \<not> is_replay (batch @ look) q \<and> s_symbol q = s_symbol r \<and> s_trade_seq q = Some (s - m - 1)) (batch @ look) \<and>
    \<not> list_ex (\<lambda>q. \<not> is_replay (batch @ look) q \<and> s_symbol q = s_symbol r \<and>
        (\<exists>x. s_trade_seq q = Some x \<and> s - m - 1 < x \<and> x < s)) (batch @ look)"
proof -
  obtain r0 where r0: "r0 \<in> set batch" "r = score_row (batch @ look) r0" using assms(1) by (auto simp: score_def)
  have "s_missing (score_row (batch @ look) r0) = Some m" "\<not> is_replay (batch @ look) r0" using assms(2,3) r0(2) by simp_all
  from score_missing [OF r0(1) this] show ?thesis unfolding r0(2) list_ex_iff by simp
qed

theorem silver_missing_before_witness:
  "\<exists>s. s_trade_seq (demo_typed 8 21 2 False (Some 2)) = Some s \<and> 0 \<le> (2::int) \<and>
    s_seq_gap (demo_typed 8 21 2 False (Some 2)) = Some ((2::int) > 0) \<and>
    list_ex (\<lambda>q. \<not> is_replay ([demo_typed 8 21 2 False None] @ [demo_typed 5 10 0 False None]) q \<and>
        s_symbol q = s_symbol (demo_typed 8 21 2 False (Some 2)) \<and> s_trade_seq q = Some (s - 2 - 1))
      ([demo_typed 8 21 2 False None] @ [demo_typed 5 10 0 False None])"
proof -
  have d: "demo_typed 8 21 2 False (Some 2) \<in> set (score [demo_typed 8 21 2 False None] [demo_typed 5 10 0 False None])"
    by (simp add: score_def score_row_def is_replay_def prev_seq_def demo_typed_simps less_prod_def show_int_inj)
      (simp add: demo_typed_def)
  have "s_replay (demo_typed 8 21 2 False (Some 2)) = False" "s_missing (demo_typed 8 21 2 False (Some 2)) = Some 2"
    by (simp_all add: demo_typed_def)
  from silver_missing_before [OF d this] show ?thesis by blast
qed

text \<open>
  C8. One unparseable Binance frame stops the silver stage for good: the frame's columns are \<open>NULL\<close>, so its
  symbol is no registry key; the run raises \<open>UnknownInstrument\<close> and commits nothing, and so does every later
  run whatever bronze appends, because the position has not moved.
\<close>
theorem silver_null_frame_blocks:
  assumes "src_position t SRC_SNAPSHOT_ID = Some (show_int i)" and "rows_between up i j = Inr rows"
    and "b \<in> set rows" and "b_cols b = None"
    and "snaps up' = snaps up @ later" and "distinct (map snap_id (snaps up'))"
    and "main_ref up' = Some j'" and "j' = j \<or> j' \<in> set (map snap_id later)"
    and "rows_between up' i j' = Inr rows'"
  shows "silver_step env Binance up' run_ts (cs, t) = ((cs, t), Inl UnknownInstrument)"
proof -
  have b: "b \<in> set rows'"
  proof (cases "j' = j")
    case True
    have "rows_between up' i j = Inr rows"
      using assms(2,5) by (auto simp: rows_between_def Let_def after_append upto_append split: if_splits)
    then show ?thesis using assms(3,9) True by simp
  next
    case False
    have sub: "set (upto_snap j ss) \<subseteq> set ss" for ss :: "trade_cols bronze_row snapshot list" by (induction ss) auto
    have "j' \<notin> set (map snap_id (upto_snap j (snaps up)))"
      using False assms(5,6,8) sub [of "snaps up"] by auto
    from rows_between_grows [OF assms(2,5,6,9) this] show ?thesis using assms(3) by auto
  qed
  have "i \<noteq> j'"
    using assms(6,9) upto_split [of i "snaps up'"]
    by (auto simp: rows_between_def Let_def split: if_splits) (metis IntI distinct_append empty_iff image_eqI image_set map_append upto_snap_mem)
  then have "\<not> level_with (Some (show_int i)) j'" by (simp add: level_with_def show_int_inj)
  moreover have "incremental_read up' (Some (show_int i)) j' = Inr rows'"
    using assms(9) by (simp add: incremental_read_def has_position_def)
  ultimately show ?thesis
    using unparsed_blocks [OF b assms(4)] by (simp add: silver_step_def silver_write_def current_snapshot_id_def assms(1,7))
qed

definition demo_unparsed :: "trade_cols bronze_row" where
  "demo_unparsed = (demo_trade 1 5 1)\<lparr>b_cols := None\<rparr>"

theorem silver_null_frame_blocks_witness:
  "let up = table_append (table_append empty_table 1 1 [] [demo_trade 0 1 0]) 2 2 [] [demo_unparsed];
       up' = table_append up 3 3 [] [demo_trade 2 9 2];
       down = table_append empty_table 7 7 (decode_props SRC_SNAPSHOT_ID 1) []
   in silver_step demo_silver_env Binance up' 9 ([(8, 8)], down) = (([(8, 8)], down), Inl UnknownInstrument)"
  unfolding Let_def
proof (rule silver_null_frame_blocks [where i = 1 and j = 2 and j' = 3 and b = demo_unparsed
      and up = "table_append (table_append empty_table 1 1 [] [demo_trade 0 1 0]) 2 2 [] [demo_unparsed]"
      and later = "[\<lparr>snap_id = 3, committed_at = 3, summ = Some (commit_summary [] [demo_trade 2 9 2]), added = [demo_trade 2 9 2]\<rparr>]"
      and rows = "[demo_unparsed]" and rows' = "[demo_unparsed, demo_trade 2 9 2]"])
  show "src_position (table_append empty_table 7 7 (decode_props SRC_SNAPSHOT_ID 1) ([] :: silver_row list)) SRC_SNAPSHOT_ID = Some (show_int 1)"
    using src_position_append [of empty_table 7 "decode_props SRC_SNAPSHOT_ID 1" SRC_SNAPSHOT_ID 7 "[] :: silver_row list"]
    by (simp add: decode_props_lookup empty_table_def) (simp add: SRC_SNAPSHOT_ID_def)
qed (simp_all add: rows_between_def empty_table_def demo_unparsed_def)

end
