(* ===== verification/Bars.thy ===== *)
theory Bars
  imports Complex_Main K2_Prelude
begin

text \<open>
  \<open>docker/lake/bars.py\<close>: thresholds, the window query behind \<open>gold.bars\<close> and the sequential reference it has
  to agree with, and the comparison the nightly audit makes. Times are microseconds, prices and quantities
  1e-8 units. A YAML float is its exact rational value and \<open>rnd\<close> rounds a rational to a double; whatever is
  not a finite number (a boolean, a string, a NaN) is \<open>YOther\<close>. SQL integers are unbounded here.
\<close>

section \<open>gold.trades rows\<close>

record gold_trade =
  g_exchange :: string
  g_canonical :: string
  g_symbol :: string
  g_trade_id :: string
  g_seq :: int
  g_price :: int
  g_qty :: int
  g_side :: string
  g_ts :: int
  g_recv :: int
  g_conn_id :: string
  g_conn_msg_seq :: int
  g_seq_gap :: "bool option"
  g_missing :: "int option"
  g_topic :: string
  g_part :: int
  g_off :: int
  g_idx :: int
  g_ingest_ts :: int

definition order_key :: "gold_trade \<Rightarrow> int \<times> int \<times> int" where
  "order_key g = (g_ts g, g_recv g, g_seq g)"

section \<open>Thresholds\<close>

datatype bar_kind = Tick | Volume | Dollar

definition KINDS :: "bar_kind list" where "KINDS = [Tick, Volume, Dollar]"

definition kind_name :: "bar_kind \<Rightarrow> string" where
  "kind_name k = (case k of Tick \<Rightarrow> ''tick'' | Volume \<Rightarrow> ''volume'' | Dollar \<Rightarrow> ''dollar'')"

definition BAR_SCALE :: int where "BAR_SCALE = 100000000"

datatype yaml_num = YInt int | YFloat rat | YOther

record bars_doc =
  bd_version :: "int option"
  bd_thresholds :: "(string \<times> (string \<times> yaml_num) list) list"

type_synonym threshold = "string \<times> bar_kind \<times> rat"

definition yaml_float :: "(rat \<Rightarrow> rat) \<Rightarrow> yaml_num \<Rightarrow> rat option" where
  "yaml_float rnd t = (case t of YInt i \<Rightarrow> Some (rnd (of_int i)) | YFloat x \<Rightarrow> Some x | YOther \<Rightarrow> None)"

definition is_integer :: "rat \<Rightarrow> bool" where
  "is_integer x = (of_int \<lfloor>x\<rfloor> = x)"

definition yaml_positive :: "yaml_num \<Rightarrow> bool" where
  "yaml_positive t = (case t of YInt i \<Rightarrow> i > 0 | YFloat x \<Rightarrow> x > 0 | YOther \<Rightarrow> False)"

definition load_threshold :: "(rat \<Rightarrow> rat) \<Rightarrow> string \<Rightarrow> (string \<times> yaml_num) list \<Rightarrow> bar_kind \<Rightarrow> threshold res" where
  "load_threshold rnd symbol per_kind kind =
     (let t = dget per_kind (kind_name kind) YOther in
      if \<not> yaml_positive t then Inl ValueError
      else (case yaml_float rnd t of None \<Rightarrow> Inl ValueError
            | Some f \<Rightarrow> (if is_integer (if kind = Tick then f else rnd (f * of_int BAR_SCALE)) then Inr (symbol, kind, f)
                       else Inl ValueError)))"

definition load_bars :: "(rat \<Rightarrow> rat) \<Rightarrow> bars_doc \<Rightarrow> string list option \<Rightarrow> threshold list res" where
  "load_bars rnd doc canonical_symbols =
     (if bd_version doc \<noteq> Some 1 then Inl ValueError
      else res_bind (res_map (\<lambda>(symbol, per_kind). res_map (load_threshold rnd symbol per_kind) KINDS) (bd_thresholds doc))
        (\<lambda>rows. case canonical_symbols of None \<Rightarrow> Inr (concat rows)
           | Some cs \<Rightarrow> if list_all (\<lambda>c. c \<in> set (dkeys (bd_thresholds doc))) cs then Inr (concat rows) else Inl ValueError))"

section \<open>The window query\<close>

definition MICROS_PER_DAY :: int where "MICROS_PER_DAY = 86400000000"

definition day_of :: "int \<Rightarrow> int" where "day_of ts = ts div MICROS_PER_DAY"

type_synonym bar_group = "string \<times> string \<times> int"

definition group_of :: "gold_trade \<Rightarrow> bar_group" where
  "group_of g = (g_exchange g, g_canonical g, day_of (g_ts g))"

definition notional :: "gold_trade \<Rightarrow> int" where "notional g = g_price g * g_qty g"

definition unit_of :: "bar_kind \<Rightarrow> gold_trade \<Rightarrow> int" where
  "unit_of k g = (case k of Tick \<Rightarrow> 1 | Volume \<Rightarrow> g_qty g | Dollar \<Rightarrow> notional g)"

definition before :: "bar_kind \<Rightarrow> gold_trade list \<Rightarrow> int" where
  "before k earlier = sum_list (map (unit_of k) earlier)"

text \<open>\<open>ROWS BETWEEN UNBOUNDED PRECEDING AND CURRENT ROW\<close>, less the row itself: each row with the earlier ones.\<close>

definition windowed :: "'a list \<Rightarrow> ('a list \<times> 'a) list" where
  "windowed rows = map (\<lambda>i. (take i rows, rows ! i)) [0..<length rows]"

definition partition_rows :: "gold_trade list \<Rightarrow> bar_group \<Rightarrow> gold_trade list" where
  "partition_rows trades grp = sort_key order_key (filter (\<lambda>g. group_of g = grp) trades)"

definition counted :: "gold_trade list \<Rightarrow> (gold_trade list \<times> gold_trade) list" where
  "counted trades = concat (map (\<lambda>grp. windowed (partition_rows trades grp)) (remdups (map group_of trades)))"

definition rat_trunc :: "rat \<Rightarrow> int" where
  "rat_trunc x = (if x < 0 then \<lceil>x\<rceil> else \<lfloor>x\<rfloor>)"

definition spark_units :: "(rat \<Rightarrow> rat) \<Rightarrow> bar_kind \<Rightarrow> rat \<Rightarrow> int" where
  "spark_units rnd k t =
     (case k of Tick \<Rightarrow> rat_trunc t
      | Volume \<Rightarrow> rat_trunc (rnd (t * of_int BAR_SCALE))
      | Dollar \<Rightarrow> rat_trunc (rnd (t * of_int BAR_SCALE)) * BAR_SCALE)"

record bar =
  bar_exchange :: string
  bar_symbol :: string
  bar_kind_of :: bar_kind
  bar_threshold :: rat
  bar_day :: int
  bar_seq :: int
  bar_open :: int
  bar_high :: int
  bar_low :: int
  bar_close :: int
  bar_volume :: int
  bar_quote :: int
  bar_count :: int
  bar_open_time :: int
  bar_close_time :: int

definition min_by :: "('row \<Rightarrow> 'ord::linorder) \<Rightarrow> 'row list \<Rightarrow> 'row" where
  "min_by key rows = foldl (\<lambda>m y. if key y < key m then y else m) (hd rows) (tl rows)"

definition max_by :: "('row \<Rightarrow> 'ord::linorder) \<Rightarrow> 'row list \<Rightarrow> 'row" where
  "max_by key rows = foldl (\<lambda>m y. if key m \<le> key y then y else m) (hd rows) (tl rows)"

definition min_of :: "('a \<Rightarrow> int) \<Rightarrow> 'a list \<Rightarrow> int" where
  "min_of f rows = foldl min (f (hd rows)) (map f (tl rows))"

definition max_of :: "('a \<Rightarrow> int) \<Rightarrow> 'a list \<Rightarrow> int" where
  "max_of f rows = foldl max (f (hd rows)) (map f (tl rows))"

definition bar_of :: "bar_kind \<Rightarrow> rat \<Rightarrow> bar_group \<Rightarrow> int \<Rightarrow> gold_trade list \<Rightarrow> bar" where
  "bar_of k t grp s rows = (case grp of (ex, sy, d) \<Rightarrow>
     \<lparr>bar_exchange = ex, bar_symbol = sy, bar_kind_of = k, bar_threshold = t, bar_day = d, bar_seq = s,
      bar_open = g_price (min_by order_key rows), bar_high = max_of g_price rows, bar_low = min_of g_price rows,
      bar_close = g_price (max_by order_key rows), bar_volume = sum_list (map g_qty rows),
      bar_quote = trunc_div (sum_list (map notional rows)) BAR_SCALE, bar_count = int (length rows),
      bar_open_time = min_of g_ts rows, bar_close_time = max_of g_ts rows\<rparr>)"

definition keyed ::
  "(rat \<Rightarrow> rat) \<Rightarrow> gold_trade list \<Rightarrow> threshold list \<Rightarrow> ((bar_kind \<times> rat \<times> bar_group \<times> int) \<times> gold_trade) list" where
  "keyed rnd trades th =
     concat (map (\<lambda>(e, g). map (\<lambda>(sy, k, t). ((k, t, group_of g, trunc_div (before k e) (spark_units rnd k t)), g))
        (filter (\<lambda>(sy, k, t). sy = g_canonical g) th)) (counted trades))"

definition group_rows :: "('k \<times> 'a) list \<Rightarrow> 'k \<Rightarrow> 'a list" where
  "group_rows tagged key = map snd (filter (\<lambda>(k, _). k = key) tagged)"

definition bars_sql :: "(rat \<Rightarrow> rat) \<Rightarrow> gold_trade list \<Rightarrow> threshold list \<Rightarrow> bar list" where
  "bars_sql rnd trades th =
     (let rows = keyed rnd trades th
      in map (\<lambda>key. case key of (k, t, grp, s) \<Rightarrow> bar_of k t grp s (group_rows rows key)) (remdups (map fst rows)))"

section \<open>The sequential reference\<close>

record ref_bar =
  rb_open :: int
  rb_high :: int
  rb_low :: int
  rb_close :: int
  rb_volume :: int
  rb_quote_e16 :: int
  rb_quote :: int
  rb_count :: int
  rb_open_time :: int
  rb_close_time :: int

definition kind_of_name :: "string \<Rightarrow> bar_kind option" where
  "kind_of_name s = List.find (\<lambda>k. kind_name k = s) KINDS"

text \<open>Python's \<open>round\<close>: to the nearest integer, ties to even.\<close>

definition py_round :: "rat \<Rightarrow> int" where
  "py_round x = (let n = \<lfloor>x\<rfloor>; d = x - of_int n in
     if d < 1/2 then n else if d > 1/2 then n + 1 else if even n then n else n + 1)"

definition ref_units :: "(rat \<Rightarrow> rat) \<Rightarrow> bar_kind \<Rightarrow> rat \<Rightarrow> int" where
  "ref_units rnd k t =
     (case k of Tick \<Rightarrow> rat_trunc t
      | Volume \<Rightarrow> py_round (rnd (t * of_int BAR_SCALE))
      | Dollar \<Rightarrow> py_round (rnd (t * of_int BAR_SCALE)) * BAR_SCALE)"

definition ref_open :: "gold_trade \<Rightarrow> ref_bar" where
  "ref_open x = \<lparr>rb_open = g_price x, rb_high = g_price x, rb_low = g_price x, rb_close = g_price x, rb_volume = 0,
     rb_quote_e16 = 0, rb_quote = 0, rb_count = 0, rb_open_time = g_ts x, rb_close_time = g_ts x\<rparr>"

definition ref_add :: "ref_bar \<Rightarrow> gold_trade \<Rightarrow> ref_bar" where
  "ref_add b x = b\<lparr>rb_high := max (rb_high b) (g_price x), rb_low := min (rb_low b) (g_price x), rb_close := g_price x,
     rb_close_time := g_ts x, rb_volume := rb_volume b + g_qty x, rb_quote_e16 := rb_quote_e16 b + notional x,
     rb_quote := (rb_quote_e16 b + notional x) div BAR_SCALE, rb_count := rb_count b + 1\<rparr>"

type_synonym ref_state = "((bar_group \<times> int) \<times> ref_bar) list \<times> (bar_group \<times> int) list"

definition ref_step :: "bar_kind \<Rightarrow> int \<Rightarrow> ref_state \<Rightarrow> gold_trade \<Rightarrow> ref_state" where
  "ref_step k units st x =
     (let grp = group_of x; earlier = dget (snd st) grp 0; key = (grp, earlier div units)
      in (AList.update key (ref_add (dget (fst st) key (ref_open x)) x) (fst st),
          AList.update grp (earlier + unit_of k x) (snd st)))"

definition full_key :: "gold_trade \<Rightarrow> string \<times> string \<times> int \<times> int \<times> int" where
  "full_key g = (g_exchange g, g_canonical g, g_ts g, g_recv g, g_seq g)"

definition reference :: "(rat \<Rightarrow> rat) \<Rightarrow> gold_trade list \<Rightarrow> string \<Rightarrow> rat \<Rightarrow> ((bar_group \<times> int) \<times> ref_bar) list res" where
  "reference rnd trades kind t =
     (case kind_of_name kind of None \<Rightarrow> Inl ValueError
      | Some k \<Rightarrow>
          (let units = ref_units rnd k t in
           if units = 0 \<and> trades \<noteq> [] then Inl ZeroDivisionError
           else Inr (sort_key fst (fst (foldl (ref_step k units) ([], []) (sort_key full_key trades))))))"

section \<open>The nightly comparison\<close>

definition bar_key :: "bar \<Rightarrow> string \<times> string \<times> string \<times> int" where
  "bar_key b = (bar_exchange b, bar_symbol b, kind_name (bar_kind_of b), bar_seq b)"

definition same_bar :: "bar \<Rightarrow> bar \<Rightarrow> bool" where
  "same_bar a b = (bar_open a = bar_open b \<and> bar_high a = bar_high b \<and> bar_low a = bar_low b \<and> bar_close a = bar_close b \<and>
     bar_volume a = bar_volume b \<and> bar_quote a = bar_quote b \<and> bar_count a = bar_count b)"

definition bars_mismatches :: "bar list \<Rightarrow> bar list \<Rightarrow> nat \<times> (string \<times> string \<times> string \<times> int) list" where
  "bars_mismatches fresh_rows stored_rows =
     (let fresh = dict_update [] (map (\<lambda>r. (bar_key r, r)) fresh_rows);
          stored = dict_update [] (map (\<lambda>r. (bar_key r, r)) stored_rows);
          bad = sort (filter (\<lambda>key. case (map_of fresh key, map_of stored key) of
                    (Some a, Some b) \<Rightarrow> \<not> same_bar a b | _ \<Rightarrow> True) (remdups (dkeys fresh @ dkeys stored)))
      in (length bad, take 5 bad))"

section \<open>Windows and tags\<close>

lemma windowed_snoc [simp]: "windowed (xs @ [x]) = windowed xs @ [(xs, x)]"
  by (auto simp: windowed_def nth_append)

lemma windowed_Nil [simp]: "windowed [] = []"
  by (simp add: windowed_def)

lemma windowed_mem: "(e, g) \<in> set (windowed xs) \<Longrightarrow> set e \<subseteq> set xs \<and> g \<in> set xs"
  by (auto simp: windowed_def dest: in_set_takeD)

lemma group_rows_simps [simp]:
  "group_rows [] key = []" "group_rows (xs @ ys) key = group_rows xs key @ group_rows ys key"
  "group_rows ((k, x) # xs) key = (if k = key then x # group_rows xs key else group_rows xs key)"
  by (simp_all add: group_rows_def)

lemma group_rows_concat: "group_rows (concat xss) key = concat (map (\<lambda>xs. group_rows xs key) xss)"
  by (induction xss) simp_all

lemma group_rows_empty: "group_rows xs key = [] \<longleftrightarrow> key \<notin> set (map fst xs)"
  by (force simp: group_rows_def filter_empty_conv)

definition bucket_rows :: "bar_kind \<Rightarrow> int \<Rightarrow> gold_trade list \<Rightarrow> int \<Rightarrow> gold_trade list" where
  "bucket_rows k units rows q = map snd (filter (\<lambda>(e, g). before k e div units = q) (windowed rows))"

definition ref_tag :: "bar_kind \<Rightarrow> int \<Rightarrow> gold_trade list \<Rightarrow> ((bar_group \<times> int) \<times> gold_trade) list" where
  "ref_tag k units xs =
     map (\<lambda>(e, g). ((group_of g, before k (filter (\<lambda>q. group_of q = group_of g) e) div units), g)) (windowed xs)"

lemma ref_tag_snoc [simp]:
  "ref_tag k units (xs @ [x]) = ref_tag k units xs @ [((group_of x, before k (filter (\<lambda>q. group_of q = group_of x) xs) div units), x)]"
  by (simp add: ref_tag_def)

lemma ref_tag_Nil [simp]: "ref_tag k units [] = []" by (simp add: ref_tag_def)

lemma ref_tag_rows: "group_rows (ref_tag k units xs) (grp, q) = bucket_rows k units (filter (\<lambda>g. group_of g = grp) xs) q"
  by (induction xs rule: rev_induct) (auto simp: bucket_rows_def)

definition ref_agg :: "gold_trade list \<Rightarrow> ref_bar" where
  "ref_agg rows = foldl ref_add (ref_open (hd rows)) rows"

lemma ref_fold:
  "foldl (ref_step k units) ([], []) xs = (B, C) \<Longrightarrow>
   dict_ok B \<and> (\<forall>grp. dget C grp 0 = before k (filter (\<lambda>g. group_of g = grp) xs)) \<and>
   (\<forall>key. map_of B key = (if group_rows (ref_tag k units xs) key = [] then None else Some (ref_agg (group_rows (ref_tag k units xs) key))))"
proof (induction xs arbitrary: B C rule: rev_induct)
  case (snoc x xs)
  obtain B0 C0 where 0: "foldl (ref_step k units) ([], []) xs = (B0, C0)" by force
  note IH = snoc.IH [OF 0]
  from IH have cum: "dget C0 grp 0 = before k (filter (\<lambda>g. group_of g = grp) xs)" for grp by blast
  from IH have tab: "map_of B0 key = (if group_rows (ref_tag k units xs) key = [] then None
      else Some (ref_agg (group_rows (ref_tag k units xs) key)))" for key by blast
  let ?grp = "group_of x" let ?old = "before k (filter (\<lambda>g. group_of g = group_of x) xs)"
  have B: "B = AList.update (?grp, ?old div units) (ref_add (dget B0 (?grp, ?old div units) (ref_open x)) x) B0"
    and C: "C = AList.update ?grp (?old + unit_of k x) C0"
    using snoc.prems IH unfolding foldl_append 0 by (simp_all add: ref_step_def Let_def)
  have "dget C grp 0 = before k (filter (\<lambda>g. group_of g = grp) (xs @ [x]))" for grp
    using cum [of grp] by (auto simp: C dget_def update_conv before_def)
  moreover have "ref_add (dget B0 (?grp, ?old div units) (ref_open x)) x =
      ref_agg (group_rows (ref_tag k units xs) (?grp, ?old div units) @ [x])"
    by (simp add: dget_def tab ref_agg_def hd_append)
  moreover have "dict_ok B" using IH by (simp add: B)
  ultimately show ?case by (auto simp: B update_conv tab)
qed (auto simp: dget_def before_def)

section \<open>The aggregate of one bar\<close>

lemma by_snoc:
  assumes "rows \<noteq> []"
  shows "min_by key (rows @ [y]) = (if key y < key (min_by key rows) then y else min_by key rows)"
    and "max_by key (rows @ [y]) = (if key (max_by key rows) \<le> key y then y else max_by key rows)"
    and "min_of f (rows @ [y]) = min (min_of f rows) (f y)" and "max_of f (rows @ [y]) = max (max_of f rows) (f y)"
  using assms by (simp_all add: min_by_def max_by_def min_of_def max_of_def tl_append2 hd_append)

lemma by_single [simp]:
  "min_by key [y] = y" "max_by key [y] = y" "min_of f [y] = f y" "max_of f [y] = f y"
  by (simp_all add: min_by_def max_by_def min_of_def max_of_def)

lemma by_mem: "rows \<noteq> [] \<Longrightarrow> min_by key rows \<in> set rows \<and> max_by key rows \<in> set rows"
  by (induction rows rule: rev_induct) (auto simp: by_snoc, (metis append_self_conv2 by_snoc(1,2) by_single(1,2))+)

lemma order_key_ts: "order_key a \<le> order_key b \<Longrightarrow> g_ts a \<le> g_ts b"
  by (auto simp: order_key_def less_eq_prod_def)

lemma ref_agg_sorted:
  assumes "rows \<noteq> []" and "sorted (map order_key rows)"
  shows "ref_agg rows =
    \<lparr>rb_open = g_price (min_by order_key rows), rb_high = max_of g_price rows, rb_low = min_of g_price rows,
     rb_close = g_price (max_by order_key rows), rb_volume = sum_list (map g_qty rows),
     rb_quote_e16 = sum_list (map notional rows), rb_quote = sum_list (map notional rows) div BAR_SCALE,
     rb_count = int (length rows), rb_open_time = min_of g_ts rows, rb_close_time = max_of g_ts rows\<rparr> \<and>
     g_ts (last rows) = max_of g_ts rows"
  using assms
proof (induction rows rule: rev_induct)
  case (snoc y rows)
  show ?case
  proof (cases "rows = []")
    case True
    then show ?thesis by (simp add: ref_agg_def ref_open_def ref_add_def)
  next
    case False
    have s: "sorted (map order_key rows)" "\<And>z. z \<in> set rows \<Longrightarrow> order_key z \<le> order_key y"
      using snoc.prems(2) by (auto simp: sorted_append)
    note IH = snoc.IH [OF False s(1)]
    have "\<not> order_key y < order_key (min_by order_key rows)" "order_key (max_by order_key rows) \<le> order_key y"
      using s(2) by_mem [OF False] by (auto simp: not_less)
    moreover have "max_of g_ts rows \<le> g_ts y" using IH order_key_ts [OF s(2) [OF last_in_set [OF False]]] by simp
    moreover have "min_of g_ts rows \<le> max_of g_ts rows"
      using foldl_min_bounds(2) [of "g_ts (hd rows)" "g_ts (hd rows)" "map g_ts (tl rows)"]
        foldl_max_bounds(2) [of "g_ts (hd rows)" "g_ts (hd rows)" "map g_ts (tl rows)"]
      by (simp add: min_of_def max_of_def)
    moreover have "ref_agg (rows @ [y]) = ref_add (ref_agg rows) y" using False by (simp add: ref_agg_def)
    ultimately show ?thesis using IH False by (simp add: by_snoc ref_add_def)
  qed
qed simp

section \<open>The query's rows\<close>

lemma partition_rows_group: "g \<in> set (partition_rows trades grp) \<Longrightarrow> group_of g = grp"
  by (simp add: partition_rows_def)

lemma partition_rows_empty: "grp \<notin> set (map group_of trades) \<Longrightarrow> partition_rows trades grp = []"
proof -
  assume "grp \<notin> set (map group_of trades)"
  then have "filter (\<lambda>g. group_of g = grp) trades = []" by (auto simp: filter_empty_conv)
  then show "partition_rows trades grp = []" by (simp add: partition_rows_def)
qed

lemma filter_eq_conj: "distinct xs \<Longrightarrow> x \<in> set xs \<Longrightarrow> filter (\<lambda>y. y = x \<and> c) xs = (if c then [x] else [])"
  by (induction xs) (auto simp: filter_empty_conv)

lemma group_rows_map: "group_rows (map (\<lambda>x. (h x, g)) ts) key = map (\<lambda>_. g) (filter (\<lambda>x. h x = key) ts)"
  by (induction ts) auto

lemma concat_single:
  "distinct xs \<Longrightarrow> concat (map (\<lambda>x. if x = a then f x else []) xs) = (if a \<in> set xs then f a else [])"
  by (induction xs) auto

lemma keyed_rows:
  assumes "distinct th" and "(s, k, t) \<in> set th"
  shows "group_rows (keyed rnd trades th) (k, t, (ex, s, d), q) =
     map snd (filter (\<lambda>(e, g). trunc_div (before k e) (spark_units rnd k t) = q) (windowed (partition_rows trades (ex, s, d))))"
proof -
  let ?grp = "(ex, s, d)" let ?P = "\<lambda>(e, g). trunc_div (before k e) (spark_units rnd k t) = q"
  define inner where "inner = (\<lambda>(e, g). map (\<lambda>(sy, k, t). ((k, t, group_of g, trunc_div (before k e) (spark_units rnd k t)), g))
        (filter (\<lambda>(sy, k, t). sy = g_canonical g) th))"
  have row: "group_rows (inner (e, g)) (k, t, ?grp, q) = (if group_of g = ?grp \<and> ?P (e, g) then [g] else [])" for e g
  proof -
    let ?h = "\<lambda>(sy :: string, k, t). (k, t, group_of g, trunc_div (before k e) (spark_units rnd k t))"
    have "inner (e, g) = map (\<lambda>x. (?h x, g)) (filter (\<lambda>(sy, k, t). sy = g_canonical g) th)"
      by (auto simp: inner_def case_prod_unfold)
    moreover have "filter (\<lambda>x. ?h x = (k, t, ?grp, q)) (filter (\<lambda>(sy, k, t). sy = g_canonical g) th) =
        filter (\<lambda>x. x = (s, k, t) \<and> group_of g = ?grp \<and> ?P (e, g)) th"
      by (auto simp: group_of_def intro!: filter_cong)
    ultimately show ?thesis
      by (simp only: group_rows_map filter_eq_conj [OF assms]) simp
  qed
  have win: "group_rows (concat (map inner (windowed (partition_rows trades grp)))) (k, t, ?grp, q) =
      (if grp = ?grp then map snd (filter ?P (windowed (partition_rows trades ?grp))) else [])" for grp
  proof -
    have "group_rows (concat (map inner ws)) (k, t, ?grp, q) = map snd (filter (\<lambda>(e, g). group_of g = ?grp \<and> ?P (e, g)) ws)" for ws
    proof (induction ws)
      case (Cons w ws)
      then show ?case by (cases w) (simp add: row)
    qed simp
    moreover have "group_of g = grp" if "(e, g) \<in> set (windowed (partition_rows trades grp))" for e g
      using windowed_mem [OF that] partition_rows_group by blast
    ultimately show ?thesis
      by (cases "grp = ?grp") (force intro: arg_cong [of _ _ "map snd"] filter_cong simp: filter_empty_conv)+
  qed
  have "keyed rnd trades th = concat (map (\<lambda>grp. concat (map inner (windowed (partition_rows trades grp)))) (remdups (map group_of trades)))"
    by (simp add: keyed_def counted_def map_concat comp_def inner_def concat_concat_map)
  then have "group_rows (keyed rnd trades th) (k, t, ?grp, q) =
      concat (map (\<lambda>grp. if grp = ?grp then map snd (filter ?P (windowed (partition_rows trades grp))) else []) (remdups (map group_of trades)))"
    using win by (simp add: group_rows_concat comp_def cong: if_cong)
  then show ?thesis
    using partition_rows_empty [of ?grp trades] by (simp add: concat_single)
qed

lemma sort_inv: 
  assumes "distinct (map full_key trades)" and "mset trades' = mset trades"
  shows "partition_rows trades' (ex, s, d) =
    filter (\<lambda>g. group_of g = (ex, s, d)) (sort_key full_key (filter (\<lambda>g. g_canonical g = s) trades))"
  unfolding partition_rows_def
proof (rule sort_key_inj_key_eq)
  let ?P = "\<lambda>g. group_of g = (ex, s, d)"
  have P: "filter ?P (filter (\<lambda>g. g_canonical g = s) trades) = filter ?P trades"
    by (auto simp: group_of_def intro!: filter_cong)
  show "mset (filter ?P trades') = mset (filter ?P (sort_key full_key (filter (\<lambda>g. g_canonical g = s) trades)))"
    by (simp only: filter_sort P mset_sort mset_filter assms(2))
  have "set trades' = set trades" by (rule mset_eq_setD [OF assms(2)])
  then show "inj_on order_key (set (filter ?P trades'))"
    using assms(1) by (auto simp: distinct_map inj_on_def full_key_def order_key_def group_of_def)
  have "sorted (map full_key (filter ?P (sort_key full_key (filter (\<lambda>g. g_canonical g = s) trades))))"
    by (simp add: sorted_filter)
  then show "sorted (map order_key (filter ?P (sort_key full_key (filter (\<lambda>g. g_canonical g = s) trades))))"
    unfolding sorted_map
    by (rule sorted_wrt_mono_rel [rotated]) (auto simp: full_key_def order_key_def group_of_def)
qed

lemma bucket_same:
  assumes "\<And>g. g \<in> set rows \<Longrightarrow> 0 \<le> g_price g \<and> 0 \<le> g_qty g" and "0 < units"
  shows "map snd (filter (\<lambda>(e, g). trunc_div (before k e) units = q) (windowed rows)) = bucket_rows k units rows q"
proof -
  have "0 \<le> before k e" if "(e, g) \<in> set (windowed rows)" for e g
    unfolding before_def using windowed_mem [OF that] assms(1)
    by (intro sum_list_map_nonneg) (auto simp: unit_of_def notional_def split: bar_kind.splits)
  then have "trunc_div (before k e) units = before k e div units" if "(e, g) \<in> set (windowed rows)" for e g
    using that assms(2) by (force simp: trunc_div_def)
  then show ?thesis unfolding bucket_rows_def by (intro arg_cong [of _ _ "map snd"] filter_cong) auto
qed

lemma bucket_rows_sorted:
  assumes "sorted (map order_key rows)"
  shows "sorted (map order_key (bucket_rows k units rows q))" "set (bucket_rows k units rows q) \<subseteq> set rows"
proof -
  have s: "map snd (windowed rows) = rows" by (simp add: windowed_def comp_def map_nth)
  have "sorted (map order_key (map snd ws)) \<Longrightarrow> sorted (map order_key (map snd (filter P ws)))" for P and ws :: "(gold_trade list \<times> gold_trade) list"
    by (induction ws) auto
  then show "sorted (map order_key (bucket_rows k units rows q))" using assms s unfolding bucket_rows_def by metis
  show "set (bucket_rows k units rows q) \<subseteq> set rows" using windowed_mem by (fastforce simp: bucket_rows_def)
qed

definition bar_of_ref :: "bar_kind \<Rightarrow> rat \<Rightarrow> (bar_group \<times> int) \<times> ref_bar \<Rightarrow> bar" where
  "bar_of_ref k t r = (case r of (((ex, sy, d), q), b) \<Rightarrow>
     \<lparr>bar_exchange = ex, bar_symbol = sy, bar_kind_of = k, bar_threshold = t, bar_day = d, bar_seq = q,
      bar_open = rb_open b, bar_high = rb_high b, bar_low = rb_low b, bar_close = rb_close b, bar_volume = rb_volume b,
      bar_quote = rb_quote b, bar_count = rb_count b, bar_open_time = rb_open_time b, bar_close_time = rb_close_time b\<rparr>)"

lemma bar_agree:
  assumes "rows \<noteq> []" and "sorted (map order_key rows)" and "\<And>g. g \<in> set rows \<Longrightarrow> 0 \<le> g_price g \<and> 0 \<le> g_qty g"
  shows "bar_of k t (ex, s, d) q rows = bar_of_ref k t (((ex, s, d), q), ref_agg rows)"
proof -
  have "0 \<le> sum_list (map notional rows)" using assms(3) by (intro sum_list_map_nonneg) (auto simp: notional_def)
  then have "trunc_div (sum_list (map notional rows)) BAR_SCALE = sum_list (map notional rows) div BAR_SCALE"
    by (auto simp: trunc_div_def BAR_SCALE_def)
  then show ?thesis using ref_agg_sorted [OF assms(1,2)] by (simp add: bar_of_def bar_of_ref_def)
qed

lemma bars_of_symbol:
  assumes th: "distinct th" "(s, k, t) \<in> set th" "\<And>t'. (s, k, t') \<in> set th \<Longrightarrow> t' = t"
    and nodup: "distinct (map full_key trades)" and perm: "mset trades' = mset trades"
    and nonneg: "\<And>g. g \<in> set trades \<Longrightarrow> 0 \<le> g_price g \<and> 0 \<le> g_qty g"
    and units: "spark_units rnd k t = units" "0 < units"
    and B: "fst (foldl (ref_step k units) ([], []) (sort_key full_key (filter (\<lambda>g. g_canonical g = s) trades))) = B"
  shows "mset (filter (\<lambda>b. bar_symbol b = s \<and> bar_kind_of b = k) (bars_sql rnd trades' th)) = mset (map (bar_of_ref k t) B)"
proof -
  define xs where "xs = sort_key full_key (filter (\<lambda>g. g_canonical g = s) trades)"
  define rows where "rows = keyed rnd trades' th"
  let ?b = "\<lambda>grp q. bucket_rows k units (filter (\<lambda>g. group_of g = grp) xs) q"
  have xs: "set xs \<subseteq> set trades" "\<And>g. g \<in> set xs \<Longrightarrow> g_canonical g = s" by (auto simp: xs_def)
  have srt: "sorted (map order_key (filter (\<lambda>g. group_of g = grp) xs))" if "fst (snd grp) = s" for grp
    using sort_inv [OF nodup refl, of "fst grp" s "snd (snd grp)"] that unfolding xs_def partition_rows_def
    by (cases grp) (metis fst_conv snd_conv sorted_sort_key)
  have sql: "group_rows rows (k, t, (ex, s, d), q) = ?b (ex, s, d) q" for ex d q
    unfolding rows_def keyed_rows [OF th(1,2)] sort_inv [OF nodup perm] units(1) xs_def
    by (rule bucket_same) (use nonneg units(2) in auto)
  obtain C where "foldl (ref_step k units) ([], []) xs = (B, C)" using B unfolding xs_def by (metis prod.collapse)
  note ref = ref_fold [OF this, unfolded ref_tag_rows split_paired_All]
  then have dB: "dict_ok B" and mB: "\<And>grp q. map_of B (grp, q) = (if ?b grp q = [] then None else Some (ref_agg (?b grp q)))"
    by (auto simp: ref_tag_rows)
  have only_s: "?b grp q = []" if "fst (snd grp) \<noteq> s" for grp q
  proof -
    have "filter (\<lambda>g. group_of g = grp) xs = []" using xs(2) that by (auto simp: filter_empty_conv group_of_def)
    then show ?thesis by (simp add: bucket_rows_def)
  qed
  define keys where "keys = map (\<lambda>(k, t, grp, q). (grp, q)) (filter (\<lambda>(k', t', grp, q). fst (snd grp) = s \<and> k' = k) (remdups (map fst rows)))"
  have tk: "t' = t" if "((k, t', (ex, s, d), q), g) \<in> set rows" for t' ex d q g
    using that th(3) by (auto simp: rows_def keyed_def group_of_def)
  have keys_set: "set keys = set (dkeys B)"
  proof -
    have "(grp, q) \<in> set keys \<longleftrightarrow> ?b grp q \<noteq> []" for grp q
    proof (cases "fst (snd grp) = s")
      case True
      then obtain ex d where grp: "grp = (ex, s, d)" by (cases grp) auto
      have "(grp, q) \<in> set keys \<longleftrightarrow> (k, t, grp, q) \<in> set (map fst rows)"
        using tk by (force simp: keys_def grp)
      then show ?thesis unfolding grp sql [symmetric] group_rows_empty by simp
    qed (use only_s in \<open>auto simp: keys_def\<close>)
    moreover have "(grp, q) \<in> set (dkeys B) \<longleftrightarrow> ?b grp q \<noteq> []" for grp q
      using map_of_eq_None_iff [of B "(grp, q)"] mB [of grp q] by (cases "?b grp q = []") simp_all
    ultimately have "key \<in> set keys \<longleftrightarrow> key \<in> set (dkeys B)" for key by (metis surj_pair)
    then show ?thesis by blast
  qed
  have shape: "\<exists>ex d q g. key = (k, t, (ex, s, d), q) \<and> (key, g) \<in> set rows"
    if "key \<in> set (filter (\<lambda>(k', t', grp, q). fst (snd grp) = s \<and> k' = k) (remdups (map fst rows)))" for key
  proof -
    from that obtain t' ex d q g where "key = (k, t', (ex, s, d), q)" "(key, g) \<in> set rows" by force
    with tk show ?thesis by blast
  qed
  have "inj_on (\<lambda>(k, t, grp, q). (grp, q)) (set (filter (\<lambda>(k', t', grp, q). fst (snd grp) = s \<and> k' = k) (remdups (map fst rows))))"
    by (rule inj_onI) (auto dest!: shape simp del: set_filter)
  then have "distinct keys" by (simp add: keys_def distinct_map)
  then have keys_mset: "mset keys = mset (dkeys B)"
    using keys_set dB set_eq_iff_mset_eq_distinct [OF \<open>distinct keys\<close>] unfolding dict_ok_def by blast
  let ?bar = "\<lambda>(grp, q). bar_of_ref k t ((grp, q), ref_agg (?b grp q))"
  have "filter (\<lambda>b. bar_symbol b = s \<and> bar_kind_of b = k) (bars_sql rnd trades' th) = map ?bar keys"
  proof -
    have "filter (\<lambda>b. bar_symbol b = s \<and> bar_kind_of b = k) (bars_sql rnd trades' th) =
        map (\<lambda>key. case key of (k, t, grp, q) \<Rightarrow> bar_of k t grp q (group_rows rows key))
          (filter (\<lambda>(k', t', grp, q). fst (snd grp) = s \<and> k' = k) (remdups (map fst rows)))"
      unfolding bars_sql_def rows_def [symmetric] Let_def filter_map comp_def
      by (intro arg_cong [where f = "map _"] filter_cong refl) (simp add: bar_of_def case_prod_unfold)
    also have "\<dots> = map ?bar keys"
      unfolding keys_def map_map comp_def
    proof (rule map_cong [OF refl])
      fix key assume "key \<in> set (filter (\<lambda>(k', t', grp, q). fst (snd grp) = s \<and> k' = k) (remdups (map fst rows)))"
      then obtain ex d q g where key: "key = (k, t, (ex, s, d), q)" "(key, g) \<in> set rows" using shape by blast
      have "key \<in> set (map fst rows)" using key(2) by force
      then have ne: "?b (ex, s, d) q \<noteq> []" unfolding sql [symmetric] group_rows_empty [of rows] key(1) by simp
      have "bar_of k t (ex, s, d) q (?b (ex, s, d) q) = bar_of_ref k t (((ex, s, d), q), ref_agg (?b (ex, s, d) q))"
        using bucket_rows_sorted [OF srt, of "(ex, s, d)" k units q] nonneg xs(1)
        by (intro bar_agree [OF ne]) auto
      then show "(case key of (k, t, grp, q) \<Rightarrow> bar_of k t grp q (group_rows rows key)) =
          ?bar (case key of (k, t, grp, q) \<Rightarrow> (grp, q))"
        by (simp add: key(1) sql)
    qed
    finally show ?thesis .
  qed
  moreover have "map (bar_of_ref k t) B = map ?bar (dkeys B)"
  proof -
    have "bar_of_ref k t (key, b) = ?bar key" if "(key, b) \<in> set B" for key b
      using map_of_mem [OF dB] that mB by (cases key) (auto split: if_splits)
    then show ?thesis by (auto simp: case_prod_unfold)
  qed
  ultimately show ?thesis by (simp only: mset_map keys_mset)
qed

lemma load_entry:
  assumes "load_bars rnd doc cs = Inr th" and "(s, k, t) \<in> set th"
  shows "\<exists>per_kind. (s, per_kind) \<in> set (bd_thresholds doc) \<and> load_threshold rnd s per_kind k = Inr (s, k, t)"
proof -
  obtain rows where rows: "res_map (\<lambda>(symbol, per_kind). res_map (load_threshold rnd symbol per_kind) KINDS) (bd_thresholds doc) = Inr rows"
    and th: "th = concat rows"
    using assms(1) by (auto simp: load_bars_def res_bind_Inr split: if_splits option.splits)
  obtain row where "row \<in> set rows" "(s, k, t) \<in> set row" using assms(2) th by auto
  then obtain symbol per_kind where sp: "(symbol, per_kind) \<in> set (bd_thresholds doc)"
      "res_map (load_threshold rnd symbol per_kind) KINDS = Inr row" using res_map_image [OF rows] by fastforce
  obtain k' where k': "load_threshold rnd symbol per_kind k' = Inr (s, k, t)"
    using res_map_image [OF sp(2) \<open>(s, k, t) \<in> set row\<close>] by blast
  then have "symbol = s" "k' = k" by (auto simp: load_threshold_def Let_def split: if_splits option.splits)
  then show ?thesis using sp(1) k' by blast
qed

lemma load_distinct:
  assumes "load_bars rnd doc cs = Inr th" and "dict_ok (bd_thresholds doc)"
  shows "distinct (map (\<lambda>(s, k, _). (s, k)) th)"
proof -
  have one: "map (\<lambda>(s, k, _). (s, k)) row = map (Pair symbol) KINDS"
    if "res_map (load_threshold rnd symbol per_kind) KINDS = Inr row" for symbol per_kind row
    using that by (auto simp: KINDS_def res_bind_Inr load_threshold_def Let_def split: if_splits option.splits)
  have "map (\<lambda>(s, k, _). (s, k)) (concat rows) = concat (map (\<lambda>(symbol, _). map (Pair symbol) KINDS) ents)"
    if "res_map (\<lambda>(symbol, per_kind). res_map (load_threshold rnd symbol per_kind) KINDS) ents = Inr rows" for ents rows
    using that one by (induction ents arbitrary: rows) (fastforce simp: res_bind_Inr)+
  moreover obtain rows where "res_map (\<lambda>(symbol, per_kind). res_map (load_threshold rnd symbol per_kind) KINDS) (bd_thresholds doc) = Inr rows"
      "th = concat rows"
    using assms(1) by (auto simp: load_bars_def res_bind_Inr split: if_splits option.splits)
  moreover have "distinct (concat (map (\<lambda>(symbol, _). map (Pair symbol) KINDS) ents))" if "dict_ok ents" for ents :: "(string \<times> (string \<times> yaml_num) list) list"
    using that by (induction ents) (force simp: dict_ok_def KINDS_def)+
  ultimately show ?thesis using assms(2) by simp
qed

lemma integer_units: "is_integer x \<Longrightarrow> rat_trunc x = \<lfloor>x\<rfloor> \<and> py_round x = \<lfloor>x\<rfloor>"
proof -
  assume "is_integer x"
  then obtain n :: int where "x = of_int n" by (auto simp: is_integer_def)
  then show ?thesis by (simp add: rat_trunc_def py_round_def Let_def)
qed

lemma load_units:
  assumes "load_bars rnd doc cs = Inr th" and "(s, k, t) \<in> set th" and "0 < rnd (t * of_int BAR_SCALE)" "0 < t"
  shows "spark_units rnd k t = ref_units rnd k t" "0 < ref_units rnd k t"
proof -
  let ?x = "if k = Tick then t else rnd (t * of_int BAR_SCALE)"
  have i: "is_integer ?x"
    using load_entry [OF assms(1,2)] by (auto simp: load_threshold_def Let_def split: if_splits option.splits)
  then have "0 < \<lfloor>?x\<rfloor>" using assms(3,4) by (auto simp: is_integer_def split: if_splits)
  then show "spark_units rnd k t = ref_units rnd k t" "0 < ref_units rnd k t"
    using integer_units [OF i] by (auto simp: spark_units_def ref_units_def BAR_SCALE_def split: bar_kind.splits if_splits)
qed

lemma kind_of_kind_name [simp]: "kind_of_name (kind_name k) = Some k"
  by (cases k) (simp_all add: kind_of_name_def KINDS_def kind_name_def)

section \<open>Properties\<close>


definition demo_gold :: "int \<Rightarrow> int \<Rightarrow> int \<Rightarrow> int \<Rightarrow> gold_trade" where
  "demo_gold ts trade_no price qty =
     \<lparr>g_exchange = ''kraken'', g_canonical = ''BTC/USD'', g_symbol = ''BTC/USD'', g_trade_id = show_int trade_no, g_seq = trade_no,
      g_price = price, g_qty = qty, g_side = ''buy'', g_ts = ts, g_recv = ts, g_conn_id = ''c'', g_conn_msg_seq = trade_no,
      g_seq_gap = None, g_missing = None, g_topic = ''t'', g_part = 0, g_off = trade_no, g_idx = 0, g_ingest_ts = 0\<rparr>"

definition demo_doc :: bars_doc where
  "demo_doc = \<lparr>bd_version = Some 1,
     bd_thresholds = [(''BTC/USD'', [(''tick'', YInt 2), (''volume'', YFloat (1/2)), (''dollar'', YInt 1000)])]\<rparr>"

lemma demo_thresholds:
  "load_bars id demo_doc (Some [''BTC/USD'']) =
   Inr [(''BTC/USD'', Tick, 2), (''BTC/USD'', Volume, 1/2), (''BTC/USD'', Dollar, 1000)]"
proof -
  have "\<lfloor>50000000 :: rat\<rfloor> = 50000000" "\<lfloor>100000000000 :: rat\<rfloor> = 100000000000" "\<lfloor>2 :: rat\<rfloor> = 2" by simp_all
  then show ?thesis
    by (simp add: load_bars_def demo_doc_def KINDS_def load_threshold_def Let_def dget_def kind_name_def yaml_positive_def
        yaml_float_def is_integer_def BAR_SCALE_def)
qed


text \<open>
  A threshold that loads cuts the same bars everywhere: Spark's truncating cast and the reference's
  rounding give the same positive number of units, and every registry symbol has one threshold per kind.
\<close>
theorem thresholds_exact:
  assumes "load_bars rnd doc (Some cs) = Inr th" and "dict_ok (bd_thresholds doc)"
  shows "(\<forall>s k t. (s, k, t) \<in> set th \<and> 0 < t \<and> 0 < rnd (t * of_int BAR_SCALE) \<longrightarrow>
      spark_units rnd k t = ref_units rnd k t \<and> 0 < ref_units rnd k t) \<and>
    (\<forall>c k. c \<in> set cs \<longrightarrow> (\<exists>!t. (c, k, t) \<in> set th))"
proof (intro conjI allI impI)
  fix s k t assume "(s, k, t) \<in> set th \<and> 0 < t \<and> 0 < rnd (t * of_int BAR_SCALE)"
  then show "spark_units rnd k t = ref_units rnd k t" "0 < ref_units rnd k t"
    using load_units [OF assms(1)] by blast+
next
  fix c k assume c: "c \<in> set cs"
  have uniq: "t = t'" if "(c, k, t) \<in> set th" "(c, k, t') \<in> set th" for t t'
    using load_distinct [OF assms] that by (auto simp: distinct_map inj_on_def)
  have "\<exists>t. (c, k, t) \<in> set th"
  proof -
    obtain rows where rows: "res_map (\<lambda>(symbol, per_kind). res_map (load_threshold rnd symbol per_kind) KINDS) (bd_thresholds doc) = Inr rows"
        "th = concat rows" "c \<in> set (dkeys (bd_thresholds doc))"
      using assms(1) c by (auto simp: load_bars_def res_bind_Inr list_all_iff split: if_splits)
    then obtain per_kind where "(c, per_kind) \<in> set (bd_thresholds doc)" by auto
    then obtain row where row: "row \<in> set rows" "res_map (load_threshold rnd c per_kind) KINDS = Inr row"
      using res_map_mem [OF rows(1)] by fastforce
    obtain e where e: "e \<in> set row" "load_threshold rnd c per_kind k = Inr e"
      using res_map_mem [OF row(2), of k] by (cases k) (auto simp: KINDS_def)
    then obtain t where "e = (c, k, t)" by (auto simp: load_threshold_def Let_def split: if_splits option.splits)
    then show ?thesis using rows(2) row(1) e(1) by auto
  qed
  then show "\<exists>!t. (c, k, t) \<in> set th" using uniq by blast
qed

theorem thresholds_exact_witness: "\<exists>!t. (''BTC/USD'', Dollar, t) \<in> set [(''BTC/USD'', Tick, 2 :: rat), (''BTC/USD'', Volume, 1/2), (''BTC/USD'', Dollar, 1000)]"
proof -
  have "dict_ok (bd_thresholds demo_doc)" by (simp add: demo_doc_def dict_ok_def)
  from thresholds_exact [OF demo_thresholds this] show ?thesis by auto
qed

lemma bars_mismatches_iff:
  assumes "distinct (map bar_key fresh)" and "distinct (map bar_key stored)"
  shows "fst (bars_mismatches fresh stored) = 0 \<longleftrightarrow>
    set (map bar_key fresh) = set (map bar_key stored) \<and>
    (\<forall>a b. a \<in> set fresh \<and> b \<in> set stored \<and> bar_key a = bar_key b \<longrightarrow> same_bar a b)"
proof -
  have build: "map_of (dict_update [] (map (\<lambda>r. (bar_key r, r)) rows)) key = map_of (map (\<lambda>r. (bar_key r, r)) rows) key"
    if "distinct (map bar_key rows)" for rows :: "bar list" and key
    using that by (simp add: map_of_dict_update comp_def dict_ok_def)
  have look: "map_of (map (\<lambda>r. (bar_key r, r)) rows) key = Some r \<longleftrightarrow> r \<in> set rows \<and> bar_key r = key"
    if "distinct (map bar_key rows)" for rows key r
    using that by (induction rows) (auto simp: image_iff)
  have keys: "set (dkeys (dict_update [] (map (\<lambda>r. (bar_key r, r)) rows))) = set (map bar_key rows)" for rows :: "bar list"
    using dkeys_dict_update [of "[]" "map (\<lambda>r. (bar_key r, r)) rows"] by (simp add: image_image)
  let ?F = "map_of (map (\<lambda>r. (bar_key r, r)) fresh)" and ?S = "map_of (map (\<lambda>r. (bar_key r, r)) stored)"
  have "fst (bars_mismatches fresh stored) = 0 \<longleftrightarrow>
      (\<forall>key \<in> set (map bar_key fresh) \<union> set (map bar_key stored).
         \<not> (case (?F key, ?S key) of (Some a, Some b) \<Rightarrow> \<not> same_bar a b | _ \<Rightarrow> True))"
    by (simp only: bars_mismatches_def Let_def fst_conv length_0_conv sort_key_simps length_sort build [OF assms(1)] build [OF assms(2)]
        filter_empty_conv set_remdups set_append keys)
  also have "\<dots> \<longleftrightarrow> (\<forall>key \<in> set (map bar_key fresh) \<union> set (map bar_key stored).
      \<exists>a b. ?F key = Some a \<and> ?S key = Some b \<and> same_bar a b)"
    by (intro ball_cong refl) (auto split: option.splits)
  also have "\<dots> \<longleftrightarrow> set (map bar_key fresh) = set (map bar_key stored) \<and>
    (\<forall>a b. a \<in> set fresh \<and> b \<in> set stored \<and> bar_key a = bar_key b \<longrightarrow> same_bar a b)"
    unfolding look [OF assms(1)] look [OF assms(2)]
  proof (intro iffI conjI allI impI ballI)
    assume all: "\<forall>key \<in> set (map bar_key fresh) \<union> set (map bar_key stored).
      \<exists>a b. (a \<in> set fresh \<and> bar_key a = key) \<and> (b \<in> set stored \<and> bar_key b = key) \<and> same_bar a b"
    show "set (map bar_key fresh) = set (map bar_key stored)"
    proof (intro set_eqI iffI)
      fix key assume "key \<in> set (map bar_key fresh)"
      then obtain b where "b \<in> set stored" "bar_key b = key" using all by blast
      then show "key \<in> set (map bar_key stored)" by auto
    next
      fix key assume "key \<in> set (map bar_key stored)"
      then obtain a where "a \<in> set fresh" "bar_key a = key" using all by blast
      then show "key \<in> set (map bar_key fresh)" by auto
    qed
    fix a b assume ab: "a \<in> set fresh \<and> b \<in> set stored \<and> bar_key a = bar_key b"
    then obtain a' b' where "a' \<in> set fresh" "bar_key a' = bar_key a" "b' \<in> set stored" "bar_key b' = bar_key a" "same_bar a' b'"
      using bspec [OF all, of "bar_key a"] by auto
    moreover have inj: "x = y" if "distinct (map bar_key rows)" "x \<in> set rows" "y \<in> set rows" "bar_key x = bar_key y" for rows x y
      using that by (simp add: distinct_map inj_on_def)
    moreover have "a' = a" by (rule inj [OF assms(1)]) (use calculation ab in auto)
    moreover have "b' = b" by (rule inj [OF assms(2)]) (use calculation ab in auto)
    ultimately show "same_bar a b" by simp
  next
    fix key
    assume all: "set (map bar_key fresh) = set (map bar_key stored) \<and>
        (\<forall>a b. a \<in> set fresh \<and> b \<in> set stored \<and> bar_key a = bar_key b \<longrightarrow> same_bar a b)"
      and "key \<in> set (map bar_key fresh) \<union> set (map bar_key stored)"
    then obtain a b where "a \<in> set fresh" "bar_key a = key" "b \<in> set stored" "bar_key b = key" by (metis UnE in_set_conv_nth length_map nth_map nth_mem)
    then show "\<exists>a b. (a \<in> set fresh \<and> bar_key a = key) \<and> (b \<in> set stored \<and> bar_key b = key) \<and> same_bar a b"
      using all by metis
  qed
  finally show ?thesis .
qed

text \<open>
  The nightly comparison misses nothing: it reports no mismatch exactly when the recomputed and the
  stored bars have the same keys and agree on every compared column.
\<close>
theorem bars_mismatches_exact:
  assumes "distinct (map bar_key fresh)" and "distinct (map bar_key stored)"
  shows "fst (bars_mismatches fresh stored) = 0 \<longleftrightarrow>
    set (map bar_key fresh) = set (map bar_key stored) \<and>
    (\<forall>a b. a \<in> set fresh \<and> b \<in> set stored \<and> bar_key a = bar_key b \<longrightarrow> same_bar a b)"
  using assms by (rule bars_mismatches_iff)

theorem bars_mismatches_exact_witness:
  "fst (bars_mismatches [bar_of Tick 2 (''kraken'', ''BTC/USD'', 0) 0 [demo_gold 1 1 5 3]] []) \<noteq> 0"
proof -
  have "distinct (map bar_key [bar_of Tick 2 (''kraken'', ''BTC/USD'', 0) 0 [demo_gold 1 1 5 3]])" "distinct (map bar_key [])" by simp_all
  from bars_mismatches_exact [OF this] show ?thesis by simp
qed

end
