(* ===== verification/Gold.thy ===== *)
theory Gold
  imports Silver Bars Scd2
begin

text \<open>
  \<open>docker/lake/gold.py\<close>: the non-replay silver rows of every venue as one trades table with a position per
  venue, the two dimensions (Scd2), the candles recomputed per touched bucket and merged, and the bars
  recomputed per touched day, deleted and appended. A run that dies is one whose commits run out.
\<close>

section \<open>State\<close>

record candle =
  c_exchange :: string
  c_canonical :: string
  c_window :: int
  c_open :: int
  c_high :: int
  c_low :: int
  c_close :: int
  c_volume :: int
  c_quote_volume :: int
  c_count :: int
  c_open_time :: int
  c_close_time :: int
  c_src :: int
  c_computed_at :: int

record stored_bar =
  sb_bar :: bar
  sb_src :: int
  sb_computed_at :: int

record gold =
  gd_trades :: "gold_trade table"
  gd_instruments :: "(nkey \<times> version) list"
  gd_venues :: "(nkey \<times> version) list"
  gd_ohlcv :: "string \<Rightarrow> candle list"
  gd_bars :: "stored_bar list"
  gd_commits :: "(int \<times> int) list"

record kraken_pair =
  kp_symbol :: "string option"
  kp_tick_size :: "string option"
  kp_qty_increment :: "string option"
  kp_price_precision :: "int option"
  kp_qty_precision :: "int option"
  kp_status :: "string option"

record gold_env =
  ge_silver :: "venue \<Rightarrow> silver_row table"
  ge_instruments :: instruments_doc
  ge_pairs :: "(int \<times> kraken_pair) list"
  ge_bars :: bars_doc
  ge_rnd :: "rat \<Rightarrow> rat"
  ge_sha :: "string \<Rightarrow> string"

section \<open>Trades\<close>

text \<open>
  A silver price is its unscaled integer at scale 10; times 1e8 and cast to BIGINT it truncates to 1e-8
  units. The table's columns are \<open>NOT NULL\<close>.
\<close>

definition gold_row :: "venue \<Rightarrow> int \<Rightarrow> silver_row \<Rightarrow> gold_trade res" where
  "gold_row v run_ts r =
     (case (s_symbol r, s_trade_id r, s_trade_seq r, s_price r, s_qty r, s_side r, s_exchange_ts r) of
        (Some sy, Some i, Some n, Some p, Some q, Some sd, Some ts) \<Rightarrow>
          Inr \<lparr>g_exchange = exchange_name v, g_canonical = s_canonical r, g_symbol = sy, g_trade_id = i, g_seq = n,
            g_price = trunc_div p 100, g_qty = trunc_div q 100, g_side = sd, g_ts = ts, g_recv = s_recv_ts_ns r,
            g_conn_id = s_conn_id r, g_conn_msg_seq = s_conn_msg_seq r, g_seq_gap = s_seq_gap r, g_missing = s_missing r,
            g_topic = s_topic r, g_part = s_part r, g_off = s_off r, g_idx = s_idx r, g_ingest_ts = run_ts\<rparr>
      | _ \<Rightarrow> Inl NotNullViolation)"

definition project_silver :: "venue \<Rightarrow> int \<Rightarrow> silver_row list \<Rightarrow> gold_trade list res" where
  "project_silver v run_ts rows = res_map (gold_row v run_ts) (filter (\<lambda>r. \<not> s_replay r) rows)"

definition position_key :: "venue \<Rightarrow> string" where
  "position_key v = SRC_SNAPSHOT_ID @ ''.'' @ exchange_name v"

definition positions :: "gold_trade table \<Rightarrow> summary" where
  "positions t = (case latest_summary (snapshot_history t) JOB_DECODE of None \<Rightarrow> []
     | Some m \<Rightarrow> filter (\<lambda>(k, _). take (length (SRC_SNAPSHOT_ID @ ''.'')) k = SRC_SNAPSHOT_ID @ ''.'') m)"

type_synonym minute = "string \<times> string \<times> int"

definition minute_of :: "gold_trade \<Rightarrow> minute" where
  "minute_of g = (g_exchange g, g_canonical g, g_ts g div 60000000 * 60000000)"

definition gold_venue :: "gold_env \<Rightarrow> int \<Rightarrow> venue \<Rightarrow> gold \<Rightarrow> gold \<times> (int \<times> minute list option) res" where
  "gold_venue env run_ts v g =
     (case current_snapshot_id (ge_silver env v) of None \<Rightarrow> (g, Inr (0, None))
      | Some end_id \<Rightarrow>
          (let start = src_position (gd_trades g) (position_key v) in
           if level_with start end_id then (g, Inr (0, None))
           else (case res_bind (incremental_read (ge_silver env v) start end_id) (project_silver v run_ts) of
                   Inl e \<Rightarrow> (g, Inl e)
                 | Inr batch \<Rightarrow>
                     (case gd_commits g of [] \<Rightarrow> (g, Inl OSError)
                      | (i, time) # rest \<Rightarrow>
                          (let props = (JOB, JOB_DECODE) # AList.update (position_key v) (show_int end_id) (positions (gd_trades g));
                               t = table_append (gd_trades g) i time props batch
                           in (g\<lparr>gd_trades := t, gd_commits := rest\<rparr>,
                               res_bind (added_records t) (\<lambda>n. Inr (n, Some (remdups (map minute_of batch))))))))))"

fun gold_trades :: "gold_env \<Rightarrow> int \<Rightarrow> venue list \<Rightarrow> gold \<Rightarrow> gold \<times> (int \<times> minute list option) res" where
  "gold_trades env run_ts [] g = (g, Inr (0, None))"
| "gold_trades env run_ts (v # vs) g =
     (case gold_venue env run_ts v g of (g', Inl e) \<Rightarrow> (g', Inl e)
      | (g', Inr (n, touched)) \<Rightarrow>
          (case gold_trades env run_ts vs g' of (g'', Inl e) \<Rightarrow> (g'', Inl e)
           | (g'', Inr (m, touched')) \<Rightarrow>
               (g'', Inr (n + m, case (touched, touched') of (None, x) \<Rightarrow> x | (x, None) \<Rightarrow> x | (Some a, Some b) \<Rightarrow> Some (a @ b)))))"

section \<open>Dimensions\<close>

definition venue_depth :: "string \<Rightarrow> int res" where
  "venue_depth exchange =
     (case map_of [(''binance'', 20), (''kraken'', 25), (''coinbase'', 0)] exchange of None \<Rightarrow> Inl KeyError | Some d \<Rightarrow> Inr d)"

definition DIM_INSTRUMENT_TRACKED :: "string list" where
  "DIM_INSTRUMENT_TRACKED = [''symbol'', ''base'', ''quote'', ''book_depth'', ''subscribed'', ''tick_size'', ''qty_increment'',
     ''price_precision'', ''qty_precision'', ''venue_status'', ''source'']"

definition DIM_VENUE_TRACKED :: "string list" where
  "DIM_VENUE_TRACKED = [''book_depth'', ''instruments'', ''subscribed'', ''source'']"

fun split_on :: "char \<Rightarrow> string \<Rightarrow> string list" where
  "split_on d [] = [[]]"
| "split_on d (c # cs) =
     (if c = d then [] # split_on d cs
      else (case split_on d cs of [] \<Rightarrow> [[c]] | w # ws \<Rightarrow> (c # w) # ws))"

definition opt_dec :: "string option \<Rightarrow> aval" where "opt_dec x = (case x of None \<Rightarrow> ANull | Some s \<Rightarrow> ADec s)"
definition opt_int :: "int option \<Rightarrow> aval" where "opt_int x = (case x of None \<Rightarrow> ANull | Some i \<Rightarrow> AInt i)"
definition opt_str :: "string option \<Rightarrow> aval" where "opt_str x = (case x of None \<Rightarrow> ANull | Some s \<Rightarrow> AStr s)"

text \<open>\<open>max_by(field, recv_ts_ns)\<close> per pair and field.\<close>

definition kraken_pairs :: "(int \<times> kraken_pair) list \<Rightarrow> (string option \<times> attrs) list" where
  "kraken_pairs ps =
     map (\<lambda>sy. (sy, (let newest = snd (max_by fst (filter (\<lambda>(_, p). kp_symbol p = sy) ps)) in
       [(''symbol'', opt_str sy), (''tick_size'', opt_dec (kp_tick_size newest)), (''qty_increment'', opt_dec (kp_qty_increment newest)),
        (''price_precision'', opt_int (kp_price_precision newest)), (''qty_precision'', opt_int (kp_qty_precision newest)),
        (''venue_status'', opt_str (kp_status newest))])))
       (remdups (map (\<lambda>(_, p). kp_symbol p) ps))"

definition instrument_row ::
  "(string \<Rightarrow> string) \<Rightarrow> (string option \<times> attrs) list \<Rightarrow> string \<Rightarrow> string \<times> string \<Rightarrow> (nkey \<times> attrs) res" where
  "instrument_row sha pairs exchange nc =
     (case nc of (native, canon) \<Rightarrow>
      (case split_on (CHR ''/'') canon of
         [base, quote] \<Rightarrow>
           res_bind (venue_depth exchange) (\<lambda>depth.
             (let venue = (if exchange = ''kraken'' then dget pairs (Some native) [] else []) in
              Inr ([exchange, canon],
                [(''instrument_id'', AStr (surrogate sha [exchange, canon])), (''exchange'', AStr exchange),
                 (''canonical_symbol'', AStr canon), (''symbol'', AStr native), (''base'', AStr base), (''quote'', AStr quote),
                 (''book_depth'', AInt depth), (''subscribed'', ABool True), (''tick_size'', dget venue ''tick_size'' ANull),
                 (''qty_increment'', dget venue ''qty_increment'' ANull), (''price_precision'', dget venue ''price_precision'' ANull),
                 (''qty_precision'', dget venue ''qty_precision'' ANull), (''venue_status'', dget venue ''venue_status'' ANull),
                 (''source'', AStr (if venue \<noteq> [] then ''venue:kraken'' else ''registry''))])))
       | _ \<Rightarrow> Inl ValueError))"

definition venue_row :: "(string \<Rightarrow> string) \<Rightarrow> string \<times> (string \<times> string) list \<Rightarrow> (nkey \<times> attrs) res" where
  "venue_row sha en =
     (case en of (exchange, natives) \<Rightarrow>
      res_bind (venue_depth exchange) (\<lambda>depth.
        Inr ([exchange], [(''venue_id'', AStr (surrogate sha [exchange])), (''exchange'', AStr exchange), (''book_depth'', AInt depth),
          (''instruments'', AInt (int (length natives))), (''subscribed'', ABool True), (''source'', AStr ''registry'')])))"

definition dim_rows ::
  "(string \<Rightarrow> string) \<Rightarrow> (string option \<times> attrs) list \<Rightarrow> registry \<Rightarrow> ((nkey \<times> attrs) list \<times> (nkey \<times> attrs) list) res" where
  "dim_rows sha pairs reg =
     res_bind (res_map (\<lambda>(ex, natives). res_bind (res_map (instrument_row sha pairs ex) natives) (\<lambda>is. res_bind (venue_row sha (ex, natives)) (\<lambda>v. Inr (is, v)))) reg)
       (\<lambda>rows. Inr (dict_update [] (concat (map fst rows)), dict_update [] (map snd rows)))"

text \<open>One dimension's cycle, with the commits it needs.\<close>

definition gold_merge_dim ::
  "(string \<Rightarrow> string) \<Rightarrow> string list \<Rightarrow> (nkey \<times> attrs) list \<Rightarrow> int \<Rightarrow> (nkey \<times> version) list \<times> (int \<times> int) list \<Rightarrow>
   ((nkey \<times> version) list \<times> (int \<times> int) list) \<times> (nat \<times> nat) res" where
  "gold_merge_dim sha tracked current run_ts tc =
     (case tc of (tbl, commits) \<Rightarrow>
      (let (close, ins) = plan sha (open_versions tbl) current tracked run_ts;
           needed = (if close = [] then 0 else 1) + (if ins = [] then 0 else 1)
       in if length commits < needed
          then ((merge_dim sha tracked (length commits) current run_ts tbl, []), Inl OSError)
          else ((merge_dim sha tracked 2 current run_ts tbl, drop needed commits), Inr (length close, length ins))))"

definition load_dims :: "gold_env \<Rightarrow> int \<Rightarrow> gold \<Rightarrow> gold \<times> unit res" where
  "load_dims env run_ts g =
     (case res_bind (load_instruments (ge_instruments env)) (dim_rows (ge_sha env) (kraken_pairs (ge_pairs env))) of
        Inl e \<Rightarrow> (g, Inl e)
      | Inr (instrument_rows, venue_rows) \<Rightarrow>
          (case gold_merge_dim (ge_sha env) DIM_INSTRUMENT_TRACKED instrument_rows run_ts (gd_instruments g, gd_commits g) of
             ((t, cs), Inl e) \<Rightarrow> (g\<lparr>gd_instruments := t, gd_commits := cs\<rparr>, Inl e)
           | ((t, cs), Inr _) \<Rightarrow>
               (case gold_merge_dim (ge_sha env) DIM_VENUE_TRACKED venue_rows run_ts (gd_venues g, cs) of
                  ((t', cs'), r) \<Rightarrow>
                    (g\<lparr>gd_instruments := t, gd_venues := t', gd_commits := cs'\<rparr>, res_bind r (\<lambda>_. Inr ())))))"

section \<open>Candles\<close>

definition OHLCV :: "(string \<times> int) list" where
  "OHLCV = [(''1m'', 60), (''5m'', 300), (''1h'', 3600), (''1d'', 86400)]"

definition window_start :: "int \<Rightarrow> int \<Rightarrow> int" where
  "window_start seconds ts = ts div 1000000 div seconds * seconds"

type_synonym bucket = "string \<times> string \<times> int"

definition bucket_of :: "int \<Rightarrow> gold_trade \<Rightarrow> bucket" where
  "bucket_of seconds g = (g_exchange g, g_canonical g, window_start seconds (g_ts g))"

definition bucket_of_minute :: "int \<Rightarrow> minute \<Rightarrow> bucket" where
  "bucket_of_minute seconds m = (case m of (ex, sy, ts) \<Rightarrow> (ex, sy, window_start seconds ts))"

text \<open>
  The two decimals are unscaled at scale 10. \<open>sum(qty) / 1e8\<close> is exact there; \<open>sum(price * qty) / 1e16\<close> is a
  DECIMAL(38,6) quotient in Spark's type rules, rounded half up at the sixth place, before the outer cast.
\<close>

definition candle_of :: "int \<Rightarrow> int \<Rightarrow> bucket \<Rightarrow> gold_trade list \<Rightarrow> candle" where
  "candle_of src run_ts b rows =
     (case b of (ex, sy, w) \<Rightarrow>
      \<lparr>c_exchange = ex, c_canonical = sy, c_window = w, c_open = g_price (min_by order_key rows), c_high = max_of g_price rows,
       c_low = min_of g_price rows, c_close = g_price (max_by order_key rows), c_volume = sum_list (map g_qty rows) * 100,
       c_quote_volume = round_half_up_div (sum_list (map notional rows)) (10 ^ 10) * 10 ^ 4, c_count = int (length rows),
       c_open_time = min_of g_ts rows, c_close_time = max_of g_ts rows, c_src = src, c_computed_at = run_ts\<rparr>)"

definition candles :: "gold_trade list \<Rightarrow> int \<Rightarrow> bucket list \<Rightarrow> int \<Rightarrow> int \<Rightarrow> candle list" where
  "candles trades seconds keys src run_ts =
     (let t = concat (map (\<lambda>g. map (\<lambda>_. g) (filter (\<lambda>k. k = bucket_of seconds g) keys)) trades)
      in map (\<lambda>b. candle_of src run_ts b (filter (\<lambda>g. bucket_of seconds g = b) t)) (remdups (map (bucket_of seconds) t)))"

definition candle_key :: "candle \<Rightarrow> bucket" where
  "candle_key c = (c_exchange c, c_canonical c, c_window c)"

definition merge_candles :: "candle list \<Rightarrow> candle list \<Rightarrow> candle list" where
  "merge_candles tbl fresh =
     map (\<lambda>c. case List.find (\<lambda>f. candle_key f = candle_key c) fresh of None \<Rightarrow> c | Some f \<Rightarrow> f) tbl @
     filter (\<lambda>f. candle_key f \<notin> set (map candle_key tbl)) fresh"

fun stage_frames :: "(string \<times> int) list \<Rightarrow> minute list \<Rightarrow> int \<Rightarrow> gold \<Rightarrow> gold \<times> int res" where
  "stage_frames [] minutes run_ts g = (g, Inr 0)"
| "stage_frames ((tf, seconds) # fs) minutes run_ts g =
     (case (current_snapshot_id (gd_trades g), gd_commits g) of
        (None, _) \<Rightarrow> (g, Inl ValueError)
      | (_, []) \<Rightarrow> (g, Inl OSError)
      | (Some src, c # cs) \<Rightarrow>
          (let keys = remdups (map (bucket_of_minute seconds) minutes);
               fresh = candles (table_rows (gd_trades g)) seconds keys src run_ts;
               g' = g\<lparr>gd_ohlcv := (gd_ohlcv g)(tf := merge_candles (gd_ohlcv g tf) fresh), gd_commits := cs\<rparr>
           in (case stage_frames fs minutes run_ts g' of (g'', Inl e) \<Rightarrow> (g'', Inl e) | (g'', Inr n) \<Rightarrow> (g'', Inr (int (length keys) + n)))))"

definition stage_ohlcv :: "minute list \<Rightarrow> int \<Rightarrow> gold \<Rightarrow> gold \<times> int res" where
  "stage_ohlcv minutes run_ts g = stage_frames OHLCV minutes run_ts g"

section \<open>Bars\<close>

definition thresholds_view :: "gold_env \<Rightarrow> threshold list res" where
  "thresholds_view env =
     res_bind (load_instruments (ge_instruments env))
       (\<lambda>reg. load_bars (ge_rnd env) (ge_bars env) (Some (remdups (concat (map (\<lambda>(_, natives). map snd natives) reg)))))"

definition gold_bars :: "gold_env \<Rightarrow> bar_group list option \<Rightarrow> gold_trade list \<Rightarrow> int \<Rightarrow> int \<Rightarrow> stored_bar list res" where
  "gold_bars env days trades src run_ts =
     res_bind (thresholds_view env) (\<lambda>th.
       (let rows = (case days of None \<Rightarrow> trades
                    | Some ds \<Rightarrow> concat (map (\<lambda>g. map (\<lambda>_. g) (filter (\<lambda>d. d = group_of g) ds)) trades))
        in Inr (map (\<lambda>b. \<lparr>sb_bar = b, sb_src = src, sb_computed_at = run_ts\<rparr>) (bars_sql (ge_rnd env) rows th))))"

definition group_of_minute :: "minute \<Rightarrow> bar_group" where
  "group_of_minute m = (case m of (ex, sy, ts) \<Rightarrow> (ex, sy, day_of ts))"

definition bar_group_of :: "bar \<Rightarrow> bar_group" where
  "bar_group_of b = (bar_exchange b, bar_symbol b, bar_day b)"

definition stage_bars :: "gold_env \<Rightarrow> minute list \<Rightarrow> int \<Rightarrow> gold \<Rightarrow> gold \<times> int res" where
  "stage_bars env minutes run_ts g =
     (let days = remdups (map group_of_minute minutes) in
      if days = [] then (g, Inr 0)
      else (case current_snapshot_id (gd_trades g) of None \<Rightarrow> (g, Inl ValueError)
      | Some src \<Rightarrow>
          (case gold_bars env (Some days) (table_rows (gd_trades g)) src run_ts of Inl e \<Rightarrow> (g, Inl e)
           | Inr fresh \<Rightarrow>
               (case gd_commits g of [] \<Rightarrow> (g, Inl OSError)
                | c # cs \<Rightarrow>
                    (let kept = filter (\<lambda>s. bar_group_of (sb_bar s) \<notin> set days) (gd_bars g) in
                     (case cs of [] \<Rightarrow> (g\<lparr>gd_bars := kept, gd_commits := []\<rparr>, Inl OSError)
                      | c' # cs' \<Rightarrow> (g\<lparr>gd_bars := kept @ fresh, gd_commits := cs'\<rparr>, Inr (int (length fresh)))))))))"

section \<open>The stage and the rebuild\<close>

definition gold_stage :: "gold_env \<Rightarrow> int \<Rightarrow> gold \<Rightarrow> gold \<times> int res" where
  "gold_stage env run_ts g =
     (case gold_trades env run_ts TRADES g of (g1, Inl e) \<Rightarrow> (g1, Inl e)
      | (g1, Inr (n, minutes)) \<Rightarrow>
          (case load_dims env run_ts g1 of (g2, Inl e) \<Rightarrow> (g2, Inl e)
           | (g2, Inr _) \<Rightarrow>
               (case minutes of None \<Rightarrow> (g2, Inr n)
                | Some ms \<Rightarrow>
                    (case stage_ohlcv ms run_ts g2 of (g3, Inl e) \<Rightarrow> (g3, Inl e)
                     | (g3, Inr _) \<Rightarrow>
                         (case stage_bars env ms run_ts g3 of (g4, Inl e) \<Rightarrow> (g4, Inl e) | (g4, Inr _) \<Rightarrow> (g4, Inr n))))))"

definition rebuild_bars :: "gold_env \<Rightarrow> int \<Rightarrow> gold \<Rightarrow> gold \<times> int res" where
  "rebuild_bars env run_ts g =
     (case current_snapshot_id (gd_trades g) of None \<Rightarrow> (g, Inl ValueError)
      | Some src \<Rightarrow>
          (case gold_bars env None (table_rows (gd_trades g)) src run_ts of Inl e \<Rightarrow> (g, Inl e)
           | Inr fresh \<Rightarrow>
               (case gd_commits g of [] \<Rightarrow> (g, Inl OSError)
                | c # cs \<Rightarrow> (g\<lparr>gd_bars := gd_bars g @ fresh, gd_commits := cs\<rparr>, Inr (int (length fresh))))))"

fun rebuild_frames :: "(string \<times> int) list \<Rightarrow> int \<Rightarrow> gold \<Rightarrow> gold \<times> (string \<times> int) list res" where
  "rebuild_frames [] run_ts g = (g, Inr [])"
| "rebuild_frames ((tf, seconds) # fs) run_ts g =
     (case (current_snapshot_id (gd_trades g), gd_commits g) of
        (None, _) \<Rightarrow> (g, Inl ValueError)
      | (_, []) \<Rightarrow> (g, Inl OSError)
      | (Some src, c # cs) \<Rightarrow>
          (let rows = table_rows (gd_trades g);
               fresh = candles rows seconds (remdups (map (bucket_of seconds) rows)) src run_ts;
               g' = g\<lparr>gd_ohlcv := (gd_ohlcv g)(tf := gd_ohlcv g tf @ fresh), gd_commits := cs\<rparr>
           in (case rebuild_frames fs run_ts g' of (g'', Inl e) \<Rightarrow> (g'', Inl e) | (g'', Inr ns) \<Rightarrow> (g'', Inr ((tf, int (length fresh)) # ns)))))"

definition gold_rebuild :: "gold_env \<Rightarrow> int \<Rightarrow> gold \<Rightarrow> gold \<times> int res" where
  "gold_rebuild env run_ts g =
     (case gold_trades env run_ts TRADES g of (g1, Inl e) \<Rightarrow> (g1, Inl e)
      | (g1, Inr (n, _)) \<Rightarrow>
          (case load_dims env run_ts g1 of (g2, Inl e) \<Rightarrow> (g2, Inl e)
           | (g2, Inr _) \<Rightarrow>
               (case rebuild_frames OHLCV run_ts g2 of (g3, Inl e) \<Rightarrow> (g3, Inl e)
                | (g3, Inr _) \<Rightarrow>
                    (case rebuild_bars env run_ts g3 of (g4, Inl e) \<Rightarrow> (g4, Inl e) | (g4, Inr _) \<Rightarrow> (g4, Inr n)))))"

section \<open>The trades stay in step with every venue\<close>

definition gold_view :: "venue \<Rightarrow> gold_trade \<Rightarrow> gold_trade list" where
  "gold_view v g = (if g_exchange g = exchange_name v then [g\<lparr>g_ingest_ts := 0\<rparr>] else [])"

definition gold_typed :: "venue \<Rightarrow> silver_row list \<Rightarrow> gold_trade list" where
  "gold_typed v rows = concat (map (\<lambda>r. case gold_row v 0 r of Inl _ \<Rightarrow> [] | Inr x \<Rightarrow> [x]) (filter (\<lambda>r. \<not> s_replay r) rows))"

lemma position_key_facts:
  "position_key v \<noteq> ''added-records''" "position_key v \<noteq> JOB" "position_key u = position_key v \<longleftrightarrow> u = v"
  "take (length (SRC_SNAPSHOT_ID @ ''.'')) (position_key v) = SRC_SNAPSHOT_ID @ ''.''"
  by (cases u; cases v; simp add: position_key_def SRC_SNAPSHOT_ID_def JOB_def exchange_name_def)+

interpretation gold_layer: incremental_layer "gold_typed v" "gold_view v" "position_key v" for v
  by unfold_locales (simp_all add: gold_typed_def position_key_facts)

lemma exchange_name_inj: "exchange_name u = exchange_name v \<longleftrightarrow> u = v"
  by (cases u; cases v) (simp_all add: exchange_name_def)

lemma gold_row_clock:
  "gold_row v run_ts r = Inr x \<Longrightarrow> g_exchange x = exchange_name v \<and> gold_row v 0 r = Inr (x\<lparr>g_ingest_ts := 0\<rparr>)"
  by (auto simp: gold_row_def split: option.splits)

lemma project_gold_typed:
  assumes "project_silver v run_ts rows = Inr batch"
  shows "concat (map (gold_view v) batch) = gold_typed v rows" and "u \<noteq> v \<Longrightarrow> concat (map (gold_view u) batch) = []"
proof -
  have "res_map (gold_row v run_ts) rs = Inr xs \<Longrightarrow>
      concat (map (gold_view v) xs) = concat (map (\<lambda>r. case gold_row v 0 r of Inl _ \<Rightarrow> [] | Inr x \<Rightarrow> [x]) rs)" for rs xs
    by (induction rs arbitrary: xs) (auto simp: res_bind_Inr gold_view_def dest: gold_row_clock)
  with assms show "concat (map (gold_view v) batch) = gold_typed v rows"
    by (simp add: project_silver_def gold_typed_def)
  assume "u \<noteq> v"
  have "g_exchange x = exchange_name v" if "x \<in> set batch" for x
    using res_map_image [OF assms [unfolded project_silver_def] that] gold_row_clock by blast
  then show "concat (map (gold_view u) batch) = []" using \<open>u \<noteq> v\<close> by (auto simp: gold_view_def exchange_name_inj)
qed

lemma positions_lookup: "map_of (positions t) (position_key v) = src_position t (position_key v)"
proof -
  have "map_of (filter (\<lambda>(k, _). P k) m) k = (if P k then map_of m k else None)" for P :: "string \<Rightarrow> bool" and m :: summary and k
    by (induction m) auto
  then show ?thesis
    using position_key_facts(4) [of v] by (simp add: positions_def src_position_def split: option.splits)
qed

definition gold_ok :: "gold_env \<Rightarrow> gold \<Rightarrow> bool" where
  "gold_ok env g = (clock_ok (gd_commits g) (gd_trades g) \<and>
     (\<forall>v. in_step (gold_typed v) (gold_view v) (position_key v) (ge_silver env v) (gd_trades g)))"

text \<open>What a venue's turn does to the state, whatever it returns.\<close>

lemma gold_venue_cases:
  assumes "gold_venue env run_ts v g = (g', r)"
  obtains (same) "g' = g" "r \<in> range Inl \<or> r = Inr (0, None)"
      "r \<in> range Inl \<or> (\<forall>e. main_ref (ge_silver env v) = Some e \<longrightarrow> level_with (src_position (gd_trades g) (position_key v)) e)"
  | (commit) i time rest e rows batch where "main_ref (ge_silver env v) = Some e"
      "incremental_read (ge_silver env v) (src_position (gd_trades g) (position_key v)) e = Inr rows"
      "project_silver v run_ts rows = Inr batch" "gd_commits g = (i, time) # rest"
      "g' = g\<lparr>gd_trades := table_append (gd_trades g) i time
          ((JOB, JOB_DECODE) # AList.update (position_key v) (show_int e) (positions (gd_trades g))) batch, gd_commits := rest\<rparr>"
      "r = res_bind (added_records (gd_trades g')) (\<lambda>n. Inr (n, Some (remdups (map minute_of batch))))"
proof (cases "main_ref (ge_silver env v)")
  case None
  then show ?thesis using assms by (intro same) (simp_all add: gold_venue_def current_snapshot_id_def)
next
  case (Some e)
  show ?thesis
  proof (cases "level_with (src_position (gd_trades g) (position_key v)) e")
    case True
    then show ?thesis using assms Some by (intro same) (simp_all add: gold_venue_def current_snapshot_id_def)
  next
    case False
    note s = assms [unfolded gold_venue_def current_snapshot_id_def Let_def Some option.case if_not_P [OF False]]
    show ?thesis
    proof (cases "res_bind (incremental_read (ge_silver env v) (src_position (gd_trades g) (position_key v)) e) (project_silver v run_ts)")
      case (Inl x)
      then show ?thesis using s by (intro same) auto
    next
      case (Inr batch)
      then obtain rows where rows: "incremental_read (ge_silver env v) (src_position (gd_trades g) (position_key v)) e = Inr rows"
          "project_silver v run_ts rows = Inr batch" by (auto simp: res_bind_Inr)
      show ?thesis
      proof (cases "gd_commits g")
        case Nil
        then show ?thesis using s Inr by (intro same) auto
      next
        case (Cons c rest)
        obtain i time where "c = (i, time)" by force
        then show ?thesis using s Inr Cons by (intro commit [OF Some rows]) auto
      qed
    qed
  qed
qed

lemma gold_venue_ok:
  assumes ok: "gold_ok env g" and ids: "distinct (map snap_id (snaps (ge_silver env v)))"
      "\<forall>i. main_ref (ge_silver env v) = Some i \<longrightarrow> i \<in> set (map snap_id (snaps (ge_silver env v)))"
    and s: "gold_venue env run_ts v g = (g', r)"
  shows "gold_ok env g'"
  using s
proof (cases rule: gold_venue_cases)
  case (commit i time rest e rows batch)
  let ?props = "(JOB, JOB_DECODE) # AList.update (position_key v) (show_int e) (positions (gd_trades g))"
  have clk: "clock_ok ((i, time) # rest) (gd_trades g)" using ok commit(4) by (simp add: gold_ok_def)
  then have fresh: "\<forall>s \<in> set (snaps (gd_trades g)). committed_at s < time" by (auto simp: clock_ok_def)
  have props: "map_of ?props JOB = Some JOB_DECODE" "map_of ?props (position_key v) = Some (show_int e)"
      "u \<noteq> v \<Longrightarrow> map_of ?props (position_key u) = src_position (gd_trades g) (position_key u)" for u
    using position_key_facts(2,3) by (auto simp: update_conv positions_lookup eq_commute [of JOB])
  have sync: "in_step (gold_typed u) (gold_view u) (position_key u) (ge_silver env u) (gd_trades g)" for u
    using ok by (simp add: gold_ok_def)
  have "in_step (gold_typed u) (gold_view u) (position_key u) (ge_silver env u) (table_append (gd_trades g) i time ?props batch)" for u
  proof (cases "u = v")
    case True
    show ?thesis unfolding True
      by (rule gold_layer.step_keeps [OF sync ids(1) _ commit(2)])
        (use commit(1) ids(2) project_gold_typed(1) [OF commit(3)] fresh props in auto)
  next
    case False
    show ?thesis
      by (rule gold_layer.other_commit [OF sync project_gold_typed(2) [OF commit(3) False] fresh props(1) props(3) [OF False]])
  qed
  then show ?thesis using clock_ok_append [OF clk] by (simp add: gold_ok_def commit(5))
qed (use ok in simp)

lemma gold_trades_ok:
  assumes "gold_ok env g"
    and "\<forall>v. distinct (map snap_id (snaps (ge_silver env v))) \<and>
      (\<forall>i. main_ref (ge_silver env v) = Some i \<longrightarrow> i \<in> set (map snap_id (snaps (ge_silver env v))))"
  shows "gold_ok env (fst (gold_trades env run_ts vs g))"
  using assms
proof (induction vs arbitrary: g)
  case (Cons v vs)
  obtain g' r where s: "gold_venue env run_ts v g = (g', r)" by force
  have "gold_ok env g'" using gold_venue_ok [OF Cons.prems(1) _ _ s] Cons.prems(2) by blast
  from Cons.IH [OF this Cons.prems(2)] \<open>gold_ok env g'\<close> show ?case
    by (cases r; cases "gold_trades env run_ts vs g'") (auto simp: s split: sum.splits)
qed simp

section \<open>Candles: recomputing the touched buckets is recomputing all\<close>

definition candle_core :: "candle \<Rightarrow> candle" where
  "candle_core c = c\<lparr>c_src := 0, c_computed_at := 0\<rparr>"

definition candles_ok :: "gold_trade list \<Rightarrow> int \<Rightarrow> candle list \<Rightarrow> bool" where
  "candles_ok trades seconds cs =
     (distinct (map candle_key cs) \<and> set (map candle_key cs) = set (map (bucket_of seconds) trades) \<and>
      list_all (\<lambda>c. candle_core c = candle_of 0 0 (candle_key c) (filter (\<lambda>g. bucket_of seconds g = candle_key c) trades)) cs)"

lemma candle_of_simps [simp]:
  "candle_key (candle_of src ts b rows) = b" "candle_core (candle_of src ts b rows) = candle_of 0 0 b rows"
  "candle_key (candle_core c) = candle_key c"
  by (cases b; simp add: candle_of_def candle_key_def candle_core_def)+

lemma candles_distinct:
  assumes "distinct keys"
  shows "candles trades seconds keys src run_ts =
    map (\<lambda>b. candle_of src run_ts b (filter (\<lambda>g. bucket_of seconds g = b) trades))
      (remdups (map (bucket_of seconds) (filter (\<lambda>g. bucket_of seconds g \<in> set keys) trades)))"
proof -
  have one: "filter (\<lambda>k. k = b) keys = (if b \<in> set keys then [b] else [])" for b
    using assms by (induction keys) (auto simp: filter_empty_conv)
  have t: "concat (map (\<lambda>g. map (\<lambda>_. g) (filter (\<lambda>k. k = bucket_of seconds g) keys)) trades) =
      filter (\<lambda>g. bucket_of seconds g \<in> set keys) trades"
    by (induction trades) (simp_all add: one)
  have "filter (\<lambda>g. bucket_of seconds g = b) (filter (\<lambda>g. bucket_of seconds g \<in> set keys) trades) =
      filter (\<lambda>g. bucket_of seconds g = b) trades" if "b \<in> set keys" for b
    using that by (auto intro!: filter_cong)
  then show ?thesis by (auto simp: candles_def t Let_def intro!: map_cong)
qed

lemma find_key: "List.find (\<lambda>f. candle_key f = k) fs = Some f \<Longrightarrow> f \<in> set fs \<and> candle_key f = k"
  by (auto simp: find_Some_iff)

lemma merge_ok:
  assumes ok: "candles_ok old seconds cs" and keys: "distinct keys"
    and touched: "\<And>g. g \<in> set new \<Longrightarrow> bucket_of seconds g \<in> set keys"
  shows "candles_ok (old @ new) seconds (merge_candles cs (candles (old @ new) seconds keys src run_ts))"
proof -
  let ?rows = "\<lambda>b. filter (\<lambda>g. bucket_of seconds g = b) (old @ new)"
  define fresh where "fresh = candles (old @ new) seconds keys src run_ts"
  define merged where "merged = merge_candles cs fresh"
  have fk: "map candle_key fresh = remdups (map (bucket_of seconds) (filter (\<lambda>g. bucket_of seconds g \<in> set keys) (old @ new)))"
    unfolding fresh_def candles_distinct [OF keys] by (simp add: comp_def)
  have fcore: "candle_core f = candle_of 0 0 (candle_key f) (?rows (candle_key f))" if "f \<in> set fresh" for f
    using that unfolding fresh_def candles_distinct [OF keys] by auto
  have mk: "map candle_key merged = map candle_key cs @ filter (\<lambda>k. k \<notin> set (map candle_key cs)) (map candle_key fresh)"
  proof -
    have "candle_key (case List.find (\<lambda>f. candle_key f = candle_key c) fresh of None \<Rightarrow> c | Some f \<Rightarrow> f) = candle_key c" for c
      by (auto split: option.splits dest: find_key)
    then show ?thesis by (simp add: merged_def merge_candles_def filter_map comp_def)
  qed
  have "distinct (map candle_key merged)" using ok unfolding mk fk by (auto simp: candles_ok_def)
  moreover have "set (map candle_key merged) = set (map (bucket_of seconds) (old @ new))"
    using ok touched unfolding mk fk by (auto simp: candles_ok_def)
  moreover have "candle_core c = candle_of 0 0 (candle_key c) (?rows (candle_key c))" if c: "c \<in> set merged" for c
  proof (cases "c \<in> set fresh")
    case False
    then obtain nf: "List.find (\<lambda>f. candle_key f = candle_key c) fresh = None" and "c \<in> set cs"
      using c by (auto simp: merged_def merge_candles_def split: option.splits dest: find_key)
    then have core: "candle_core c = candle_of 0 0 (candle_key c) (filter (\<lambda>g. bucket_of seconds g = candle_key c) old)"
      and bucket: "candle_key c \<in> set (map (bucket_of seconds) old)"
      using ok by (auto simp: candles_ok_def list_all_iff)
    have "candle_key c \<notin> set (map candle_key fresh)" using nf by (auto simp: find_None_iff)
    then have "candle_key c \<notin> set keys" using bucket unfolding fk by auto
    then have "filter (\<lambda>g. bucket_of seconds g = candle_key c) new = []"
      unfolding filter_empty_conv using touched by metis
    then show ?thesis using core by simp
  qed (rule fcore)
  ultimately show ?thesis unfolding candles_ok_def fresh_def [symmetric] merged_def [symmetric] by (simp add: list_all_iff)
qed

lemma bucket_minute:
  assumes "seconds = 60 * k" and "0 < k"
  shows "bucket_of_minute seconds (minute_of g) = bucket_of seconds g"
proof -
  have "t div 60000000 * 60000000 div 1000000 div (60 * k) = t div 1000000 div (60 * k)" for t :: int
  proof -
    have "t div 1000000 div (60 * k) = t div 60000000 div k"
      using assms(2) by (simp add: div_mult2_eq' zdiv_zmult2_eq [symmetric] mult.assoc [symmetric])
    moreover have "t div 60000000 * 60000000 div 1000000 div (60 * k) = t div 60000000 div k"
    proof -
      have "t div 60000000 * 60000000 div 1000000 = t div 60000000 * 60" by simp
      then show ?thesis using assms(2) by simp
    qed
    ultimately show ?thesis by simp
  qed
  then show ?thesis by (simp add: bucket_of_minute_def minute_of_def bucket_of_def window_start_def assms(1))
qed

section \<open>Bars: a day recomputes alone\<close>

lemma counted_filter:
  "counted (filter (\<lambda>g. group_of g \<in> D) trades) = filter (\<lambda>(e, g). group_of g \<in> D) (counted trades)"
proof -
  have part: "partition_rows (filter (\<lambda>g. group_of g \<in> D) trades) grp = partition_rows trades grp" if "grp \<in> D" for grp
    using that by (auto simp: partition_rows_def intro!: arg_cong [of _ _ "sort_key order_key"] filter_cong)
  have win: "filter (\<lambda>(e, g). group_of g \<in> D) (windowed (partition_rows trades grp)) =
      (if grp \<in> D then windowed (partition_rows trades grp) else [])" for grp
    using windowed_mem [of _ _ "partition_rows trades grp"] partition_rows_group [of _ trades grp]
    by (cases "grp \<in> D") (fastforce intro!: filter_True filter_False)+
  have groups: "remdups (map group_of (filter (\<lambda>g. group_of g \<in> D) trades)) = filter (\<lambda>grp. grp \<in> D) (remdups (map group_of trades))"
    by (simp add: remdups_filter [symmetric] filter_map comp_def)
  have "concat (map (\<lambda>grp. windowed (partition_rows (filter (\<lambda>g. group_of g \<in> D) trades) grp)) (filter (\<lambda>grp. grp \<in> D) gs)) =
      filter (\<lambda>(e, g). group_of g \<in> D) (concat (map (\<lambda>grp. windowed (partition_rows trades grp)) gs))" for gs
    by (induction gs) (simp_all add: part win)
  then show ?thesis by (simp add: counted_def groups)
qed

lemma keyed_filter:
  "keyed rnd (filter (\<lambda>g. group_of g \<in> D) trades) th = filter (\<lambda>((k, t, grp, q), g). grp \<in> D) (keyed rnd trades th)"
proof -
  have "concat (map f (filter (\<lambda>(e, g). group_of g \<in> D) xs)) = filter (\<lambda>((k, t, grp, q), g). grp \<in> D) (concat (map f xs))"
    if "\<And>e g y. y \<in> set (f (e, g)) \<Longrightarrow> fst (snd (snd (fst y))) = group_of g"
    for f :: "gold_trade list \<times> gold_trade \<Rightarrow> ((bar_kind \<times> rat \<times> bar_group \<times> int) \<times> gold_trade) list" and xs
  proof (induction xs)
    case (Cons x xs)
    obtain e g where x: "x = (e, g)" by force
    have "filter (\<lambda>((k, t, grp, q), g). grp \<in> D) (f (e, g)) = (if group_of g \<in> D then f (e, g) else [])"
      using that [of _ e g] by (cases "group_of g \<in> D") (fastforce intro!: filter_True filter_False)+
    then show ?case using Cons by (simp add: x)
  qed simp
  then show ?thesis unfolding keyed_def counted_filter by (rule) auto
qed

lemma bar_group_of_bar_of [simp]: "bar_group_of (bar_of k t grp q rows) = grp"
  by (cases grp) (simp add: bar_of_def bar_group_of_def)

lemma bars_sql_filter:
  "bars_sql rnd (filter (\<lambda>g. group_of g \<in> D) trades) th = filter (\<lambda>b. bar_group_of b \<in> D) (bars_sql rnd trades th)"
proof -
  define rows where "rows = keyed rnd trades th"
  have rw: "group_rows (filter (\<lambda>((k, t, grp, q), g). grp \<in> D) rows) key = group_rows rows key" if "fst (snd (snd key)) \<in> D" for key
    using that by (auto simp: group_rows_def intro!: arg_cong [of _ _ "map snd"] filter_cong)
  have keys: "remdups (map fst (filter (\<lambda>((k, t, grp, q), g). grp \<in> D) rows)) =
      filter (\<lambda>(k, t, grp, q). grp \<in> D) (remdups (map fst rows))"
    by (simp add: remdups_filter [symmetric] filter_map comp_def case_prod_unfold)
  let ?bar = "\<lambda>rs key. case key of (k, t, grp, s) \<Rightarrow> bar_of k t grp s (group_rows rs key)"
  have "map (?bar (filter (\<lambda>((k, t, grp, q), g). grp \<in> D) rows)) (filter (\<lambda>(k, t, grp, q). grp \<in> D) ks) =
      filter (\<lambda>b. bar_group_of b \<in> D) (map (?bar rows) ks)" for ks
  proof (induction ks)
    case (Cons key ks)
    obtain k t grp q where "key = (k, t, grp, q)" by (cases key) auto
    then show ?case using Cons rw [of key] by simp
  qed simp
  then show ?thesis by (simp only: bars_sql_def Let_def keyed_filter rows_def [symmetric] keys)
qed

definition bars_ok :: "(rat \<Rightarrow> rat) \<Rightarrow> threshold list \<Rightarrow> gold_trade list \<Rightarrow> stored_bar list \<Rightarrow> bool" where
  "bars_ok rnd th trades bs = (mset (map sb_bar bs) = mset (bars_sql rnd trades th))"

lemma days_filter:
  "distinct ds \<Longrightarrow> concat (map (\<lambda>g. map (\<lambda>_. g) (filter (\<lambda>d. d = group_of g) ds)) trades) = filter (\<lambda>g. group_of g \<in> set ds) trades"
proof (induction trades)
  case (Cons g trades)
  have "filter (\<lambda>d. d = group_of g) ds = (if group_of g \<in> set ds then [group_of g] else [])"
    using Cons.prems by (induction ds) (auto simp: filter_empty_conv)
  then show ?case using Cons by simp
qed simp

lemma bars_recompute:
  assumes "bars_ok rnd th old bs" and "\<And>g. g \<in> set new \<Longrightarrow> group_of g \<in> D"
    and "mset (map sb_bar fresh) = mset (bars_sql rnd (filter (\<lambda>g. group_of g \<in> D) (old @ new)) th)"
  shows "bars_ok rnd th (old @ new) (filter (\<lambda>s. bar_group_of (sb_bar s) \<notin> D) bs @ fresh)"
proof -
  have new: "filter (\<lambda>g. group_of g \<in> - D) new = []" using assms(2) by (auto simp: filter_empty_conv)
  have "mset (map sb_bar (filter (\<lambda>s. bar_group_of (sb_bar s) \<notin> D) bs)) =
      filter_mset (\<lambda>b. bar_group_of b \<in> - D) (mset (map sb_bar bs))"
    unfolding mset_filter [symmetric] by (simp add: filter_map comp_def)
  also have "\<dots> = mset (bars_sql rnd (filter (\<lambda>g. group_of g \<in> - D) old) th)"
    using assms(1) by (simp only: bars_ok_def bars_sql_filter mset_filter)
  also have "filter (\<lambda>g. group_of g \<in> - D) old = filter (\<lambda>g. group_of g \<in> - D) (old @ new)" using new by simp
  finally have "mset (map sb_bar (filter (\<lambda>s. bar_group_of (sb_bar s) \<notin> D) bs @ fresh)) =
      filter_mset (\<lambda>b. bar_group_of b \<in> - D) (mset (bars_sql rnd (old @ new) th)) +
      filter_mset (\<lambda>b. bar_group_of b \<in> D) (mset (bars_sql rnd (old @ new) th))"
    using assms(3) by (simp only: map_append mset_append bars_sql_filter mset_filter)
  then show ?thesis by (simp add: bars_ok_def add.commute multiset_partition [symmetric])
qed

section \<open>The whole stage\<close>

lemma gold_trades_Cons:
  assumes "gold_trades env run_ts (v # vs) g = (g', Inr (n, touched))"
  shows "\<exists>g1 n1 t1 n2 t2. gold_venue env run_ts v g = (g1, Inr (n1, t1)) \<and> gold_trades env run_ts vs g1 = (g', Inr (n2, t2)) \<and>
       touched = (case (t1, t2) of (None, x) \<Rightarrow> x | (x, None) \<Rightarrow> x | (Some a, Some b) \<Rightarrow> Some (a @ b))"
proof -
  obtain g1 r1 where v: "gold_venue env run_ts v g = (g1, r1)" by force
  obtain g2 r2 where vs: "gold_trades env run_ts vs g1 = (g2, r2)" by force
  show ?thesis
  proof (cases r1)
    case (Inr x)
    then show ?thesis using assms v vs by (cases x; cases r2) auto
  qed (use assms v in simp)
qed

lemma gold_trades_adds:
  assumes "gold_trades env run_ts vs g = (g', Inr (n, touched))"
  shows "\<exists>new. table_rows (gd_trades g') = table_rows (gd_trades g) @ new \<and>
    set (map minute_of new) = set (case touched of None \<Rightarrow> [] | Some ms \<Rightarrow> ms) \<and>
    gd_ohlcv g' = gd_ohlcv g \<and> gd_bars g' = gd_bars g \<and> (touched \<noteq> None \<longrightarrow> main_ref (gd_trades g') \<noteq> None)"
  using assms
proof (induction vs arbitrary: g n touched)
  case (Cons v vs)
  obtain g1 n1 t1 n2 t2 where v: "gold_venue env run_ts v g = (g1, Inr (n1, t1))"
    and r: "gold_trades env run_ts vs g1 = (g', Inr (n2, t2))"
       "touched = (case (t1, t2) of (None, x) \<Rightarrow> x | (x, None) \<Rightarrow> x | (Some a, Some b) \<Rightarrow> Some (a @ b))"
    by (rule exE [OF gold_trades_Cons [OF Cons.prems]]) (elim exE conjE, rule that)
  from Cons.IH [OF r(1)] obtain new2 where "table_rows (gd_trades g') = table_rows (gd_trades g1) @ new2 \<and>
    set (map minute_of new2) = set (case t2 of None \<Rightarrow> [] | Some ms \<Rightarrow> ms) \<and>
    gd_ohlcv g' = gd_ohlcv g1 \<and> gd_bars g' = gd_bars g1 \<and> (t2 \<noteq> None \<longrightarrow> main_ref (gd_trades g') \<noteq> None)" ..
  then have new2: "table_rows (gd_trades g') = table_rows (gd_trades g1) @ new2"
      "set (map minute_of new2) = set (case t2 of None \<Rightarrow> [] | Some ms \<Rightarrow> ms)" "gd_ohlcv g' = gd_ohlcv g1" "gd_bars g' = gd_bars g1"
      "t2 \<noteq> None \<longrightarrow> main_ref (gd_trades g') \<noteq> None" by simp_all
  from v show ?case
  proof (cases rule: gold_venue_cases)
    case same
    then show ?thesis using new2 r(2) by (auto split: option.splits)
  next
    case (commit i time cs e rows batch)
    have "gold_trades env run_ts vs g1 = (g', Inr (n2, t2)) \<Longrightarrow> main_ref (gd_trades g1) \<noteq> None \<Longrightarrow> main_ref (gd_trades g') \<noteq> None" for g1 n2 t2
    proof (induction vs arbitrary: g1 n2 t2)
      case (Cons u us)
      obtain g2 x n3 t3 where u: "gold_venue env run_ts u g1 = (g2, Inr x)" and us: "gold_trades env run_ts us g2 = (g', Inr (n3, t3))"
        by (rule exE [OF gold_trades_Cons [OF Cons.prems(1)]]) (elim exE conjE, metis surj_pair that)
      have "main_ref (gd_trades g2) \<noteq> None" using u Cons.prems(2) by (cases rule: gold_venue_cases) auto
      then show ?case using us Cons.IH by blast
    qed auto
    from this [OF r(1)] have "main_ref (gd_trades g') \<noteq> None" using commit(5) by simp
    moreover have "t1 = Some (remdups (map minute_of batch))" using commit(6) by (auto simp: res_bind_def split: sum.splits)
    ultimately show ?thesis using new2 r(2) commit(5) by (auto split: option.splits)
  qed
qed auto

lemma load_dims_keeps:
  "load_dims env run_ts g = (g', r) \<Longrightarrow> gd_trades g' = gd_trades g \<and> gd_ohlcv g' = gd_ohlcv g \<and> gd_bars g' = gd_bars g"
  by (auto simp: load_dims_def split: sum.splits prod.splits)

lemma stage_frames_ok:
  assumes "stage_frames fs minutes run_ts g = (g', Inr n)" and "table_rows (gd_trades g) = old @ new"
    and "\<forall>m \<in> set (map minute_of new). m \<in> set minutes" and "distinct (map fst fs)"
    and "\<forall>(tf, seconds) \<in> set fs. \<exists>k > 0. seconds = 60 * k"
    and "\<forall>(tf, seconds) \<in> set fs. candles_ok old seconds (gd_ohlcv g tf)"
  shows "(\<forall>(tf, seconds) \<in> set fs. candles_ok (old @ new) seconds (gd_ohlcv g' tf)) \<and>
    gd_trades g' = gd_trades g \<and> gd_bars g' = gd_bars g \<and> (\<forall>tf. tf \<notin> fst ` set fs \<longrightarrow> gd_ohlcv g' tf = gd_ohlcv g tf)"
  using assms
proof (induction fs arbitrary: g n)
  case (Cons f fs)
  obtain tf seconds where f: "f = (tf, seconds)" by force
  obtain src where src: "main_ref (gd_trades g) = Some src" using Cons.prems(1) by (auto simp: f current_snapshot_id_def split: option.splits)
  obtain c cs where commits: "gd_commits g = c # cs" using Cons.prems(1) src by (auto simp: f current_snapshot_id_def split: list.splits)
  define keys where "keys = remdups (map (bucket_of_minute seconds) minutes)"
  define g1 where "g1 = g\<lparr>gd_ohlcv := (gd_ohlcv g)(tf := merge_candles (gd_ohlcv g tf) (candles (old @ new) seconds keys src run_ts)), gd_commits := cs\<rparr>"
  obtain m where rest: "stage_frames fs minutes run_ts g1 = (g', Inr m)"
    using Cons.prems(1,2) src commits by (auto simp: f current_snapshot_id_def Let_def keys_def g1_def split: prod.splits sum.splits)
  obtain k where k: "0 < k" "seconds = 60 * k" using Cons.prems(5) f by auto
  have "bucket_of seconds x \<in> set keys" if "x \<in> set new" for x
    using that Cons.prems(3) bucket_minute [OF k(2,1), of x] by (force simp: keys_def)
  then have here: "candles_ok (old @ new) seconds (gd_ohlcv g1 tf)"
    using merge_ok [of old seconds "gd_ohlcv g tf" keys new src run_ts] Cons.prems(6) by (simp add: f g1_def keys_def)
  have "tf \<notin> fst ` set fs" using Cons.prems(4) f by simp
  moreover have "\<forall>(tf', seconds) \<in> set fs. candles_ok old seconds (gd_ohlcv g1 tf')"
  proof clarify
    fix tf' s assume "(tf', s) \<in> set fs"
    moreover from this have "tf' \<noteq> tf" using \<open>tf \<notin> fst ` set fs\<close> by force
    ultimately show "candles_ok old s (gd_ohlcv g1 tf')" using Cons.prems(6) by (auto simp: g1_def)
  qed
  ultimately show ?case
    using Cons.IH [OF rest] Cons.prems here by (auto simp: f g1_def)
qed auto

lemma stage_bars_ok:
  assumes "stage_bars env minutes run_ts g = (g', Inr n)" and "table_rows (gd_trades g) = old @ new"
    and "set (map minute_of new) \<subseteq> set minutes" and "thresholds_view env = Inr th"
    and "bars_ok (ge_rnd env) th old (gd_bars g)"
  shows "bars_ok (ge_rnd env) th (old @ new) (gd_bars g') \<and> gd_trades g' = gd_trades g \<and> gd_ohlcv g' = gd_ohlcv g"
proof -
  let ?days = "remdups (map group_of_minute minutes)"
  have day: "group_of x = group_of_minute (minute_of x)" for x
  proof -
    have "t div 60000000 * 60000000 div 86400000000 = t div 86400000000" for t :: int
    proof -
      have "t div 86400000000 = t div 60000000 div 1440" by (simp add: zdiv_zmult2_eq [symmetric])
      moreover have "t div 60000000 * 60000000 div 86400000000 = t div 60000000 div 1440" by (simp add: div_mult_mult2)
      ultimately show ?thesis by simp
    qed
    then show ?thesis by (simp add: group_of_def group_of_minute_def minute_of_def day_of_def MICROS_PER_DAY_def)
  qed
  then have touched: "group_of x \<in> set ?days" if "x \<in> set new" for x using assms(3) that by auto
  show ?thesis
  proof (cases "?days = []")
    case True
    then have "new = []" using touched by (cases new) auto
    then show ?thesis using assms(1,5) True by (simp add: stage_bars_def)
  next
    case False
    obtain src where src: "main_ref (gd_trades g) = Some src"
      using assms(1) False by (cases "main_ref (gd_trades g)") (simp_all add: stage_bars_def current_snapshot_id_def Let_def)
    define fresh where "fresh = map (\<lambda>b. \<lparr>sb_bar = b, sb_src = src, sb_computed_at = run_ts\<rparr>)
        (bars_sql (ge_rnd env) (filter (\<lambda>x. group_of x \<in> set ?days) (old @ new)) th)"
    have gb: "gold_bars env (Some ?days) (table_rows (gd_trades g)) src run_ts = Inr fresh"
      by (simp only: gold_bars_def assms(2,4) option.case res_bind_simps Let_def days_filter [OF distinct_remdups] fresh_def)
    obtain c c' cs where commits: "gd_commits g = c # c' # cs"
      using assms(1) False src gb
      by (cases "gd_commits g"; cases "tl (gd_commits g)") (simp_all add: stage_bars_def current_snapshot_id_def Let_def)
    have "mset (map sb_bar fresh) = mset (bars_sql (ge_rnd env) (filter (\<lambda>x. group_of x \<in> set ?days) (old @ new)) th)"
      by (simp add: fresh_def comp_def)
    note ok = bars_recompute [OF assms(5) touched this]
    show ?thesis using assms(1) False src gb commits ok
      by (auto simp: stage_bars_def current_snapshot_id_def Let_def)
  qed
qed

lemma OHLCV_facts: "distinct (map fst OHLCV)" "\<forall>(tf, seconds) \<in> set OHLCV. \<exists>k > 0. seconds = 60 * k"
proof -
  show "distinct (map fst OHLCV)" by (simp add: OHLCV_def)
  have "\<exists>k > 0. 60 = 60 * (k::int)" "\<exists>k > 0. 300 = 60 * (k::int)" "\<exists>k > 0. 3600 = 60 * (k::int)" "\<exists>k > 0. 86400 = 60 * (k::int)"
    by presburger+
  then show "\<forall>(tf, seconds) \<in> set OHLCV. \<exists>k > 0. seconds = 60 * k" by (simp add: OHLCV_def)
qed

definition gold_current :: "gold_env \<Rightarrow> threshold list \<Rightarrow> gold \<Rightarrow> bool" where
  "gold_current env th g =
     (list_all (\<lambda>(tf, seconds). candles_ok (table_rows (gd_trades g)) seconds (gd_ohlcv g tf)) OHLCV \<and>
      bars_ok (ge_rnd env) th (table_rows (gd_trades g)) (gd_bars g))"

lemma gold_stage_current:
  assumes s: "gold_stage env run_ts g = (g', Inr n)" and cur: "gold_current env th g" and th: "thresholds_view env = Inr th"
  shows "gold_current env th g'"
proof -
  let ?old = "table_rows (gd_trades g)"
  obtain g1 r1 where t: "gold_trades env run_ts TRADES g = (g1, r1)" by force
  obtain g2 r2 where d: "load_dims env run_ts g1 = (g2, r2)" by force
  obtain m touched where r1: "r1 = Inr (m, touched)" using s t by (cases r1) (auto simp: gold_stage_def)
  from gold_trades_adds [OF t [unfolded r1]] obtain new where n: "table_rows (gd_trades g1) = ?old @ new \<and>
    set (map minute_of new) = set (case touched of None \<Rightarrow> [] | Some ms \<Rightarrow> ms) \<and>
    gd_ohlcv g1 = gd_ohlcv g \<and> gd_bars g1 = gd_bars g \<and> (touched \<noteq> None \<longrightarrow> main_ref (gd_trades g1) \<noteq> None)" ..
  have k: "table_rows (gd_trades g2) = ?old @ new" "gd_ohlcv g2 = gd_ohlcv g" "gd_bars g2 = gd_bars g"
    using load_dims_keeps [OF d] n by auto
  have r2: "r2 = Inr ()" using s t d r1 by (cases r2) (auto simp: gold_stage_def)
  show ?thesis
  proof (cases touched)
    case None
    then have "new = []" using n by simp
    then show ?thesis using s t d r1 r2 None k cur by (simp add: gold_stage_def gold_current_def)
  next
    case (Some ms)
    obtain g3 r3 where o: "stage_frames OHLCV ms run_ts g2 = (g3, r3)" by force
    obtain i where r3: "r3 = Inr i" using s t d r1 r2 Some o by (cases r3) (auto simp: gold_stage_def stage_ohlcv_def)
    obtain g4 r4 where b: "stage_bars env ms run_ts g3 = (g4, r4)" by force
    have r4: "\<exists>j. r4 = Inr j" "g4 = g'" using s t d r1 r2 Some o r3 b by (auto simp: gold_stage_def stage_ohlcv_def split: sum.splits)
    have f: "(\<forall>(tf, seconds) \<in> set OHLCV. candles_ok (?old @ new) seconds (gd_ohlcv g3 tf)) \<and>
        gd_trades g3 = gd_trades g2 \<and> gd_bars g3 = gd_bars g2 \<and> (\<forall>tf. tf \<notin> fst ` set OHLCV \<longrightarrow> gd_ohlcv g3 tf = gd_ohlcv g2 tf)"
      by (rule stage_frames_ok [OF o [unfolded r3] k(1) _ OHLCV_facts])
        (use n Some cur k(2) in \<open>auto simp: gold_current_def list_all_iff\<close>)
    obtain j where j: "r4 = Inr j" using r4 by blast
    have "bars_ok (ge_rnd env) th (?old @ new) (gd_bars g4) \<and> gd_trades g4 = gd_trades g3 \<and> gd_ohlcv g4 = gd_ohlcv g3"
      by (rule stage_bars_ok [OF b [unfolded j] _ _ th]) (use n Some cur k f in \<open>auto simp: gold_current_def\<close>)
    then show ?thesis using f k r4(2) by (auto simp: gold_current_def list_all_iff)
  qed
qed

section \<open>After a crash between the trades and the candles\<close>

lemma candles_stale:
  assumes "candles_ok old seconds cs" and "new \<noteq> []"
  shows "\<not> candles_ok (old @ new) seconds cs"
proof
  assume ok': "candles_ok (old @ new) seconds cs"
  let ?b = "bucket_of seconds (hd new)"
  have "?b \<in> set (map candle_key cs)" using ok' assms(2) by (simp add: candles_ok_def)
  then obtain c where c: "c \<in> set cs" "candle_key c = ?b" by auto
  then have "candle_of 0 0 ?b (filter (\<lambda>g. bucket_of seconds g = ?b) old) = candle_of 0 0 ?b (filter (\<lambda>g. bucket_of seconds g = ?b) (old @ new))"
    using assms(1) ok' by (auto simp: candles_ok_def list_all_iff simp del: filter_append)
  then have "c_count (candle_of 0 0 ?b (filter (\<lambda>g. bucket_of seconds g = ?b) old)) =
      c_count (candle_of 0 0 ?b (filter (\<lambda>g. bucket_of seconds g = ?b) (old @ new)))" by simp
  then have "filter (\<lambda>g. bucket_of seconds g = ?b) new = []" by (simp add: candle_of_def split: prod.splits)
  then show False using assms(2) by (cases new) auto
qed

lemma level_stops:
  assumes "\<forall>v \<in> set vs. \<forall>e. main_ref (ge_silver env v) = Some e \<longrightarrow> level_with (src_position (gd_trades g) (position_key v)) e"
  shows "gold_trades env run_ts vs g = (g, Inr (0, None))"
  using assms
proof (induction vs)
  case (Cons v vs)
  then have "gold_venue env run_ts v g = (g, Inr (0, None))"
    by (auto simp: gold_venue_def current_snapshot_id_def split: option.splits)
  then show ?case using Cons by simp
qed simp

lemma venue_levels:
  assumes "gold_venue env run_ts v g = (g', Inr x)" and "clock_ok (gd_commits g) (gd_trades g)"
  shows "clock_ok (gd_commits g') (gd_trades g') \<and>
    (\<forall>e. main_ref (ge_silver env v) = Some e \<longrightarrow> level_with (src_position (gd_trades g') (position_key v)) e) \<and>
    (\<forall>u. u \<noteq> v \<longrightarrow> src_position (gd_trades g') (position_key u) = src_position (gd_trades g) (position_key u))"
  using assms(1)
proof (cases rule: gold_venue_cases)
  case same
  then show ?thesis using assms by auto
next
  case (commit i time rest e rows batch)
  let ?props = "(JOB, JOB_DECODE) # AList.update (position_key v) (show_int e) (positions (gd_trades g))"
  have clk: "clock_ok ((i, time) # rest) (gd_trades g)" using assms(2) commit(4) by simp
  then have fresh: "\<forall>s \<in> set (snaps (gd_trades g)). committed_at s < time" by (auto simp: clock_ok_def)
  have "src_position (gd_trades g') (position_key u) = map_of ?props (position_key u)" for u
    unfolding commit(5) using src_position_append [OF fresh _ position_key_facts(1), of ?props] by simp
  then show ?thesis using commit(1,5) clock_ok_append [OF clk] position_key_facts(2,3)
    by (auto simp: update_conv positions_lookup level_with_def has_position_def eq_commute [of JOB])
qed

lemma trades_level:
  assumes "gold_trades env run_ts vs g = (g', Inr x)" and "clock_ok (gd_commits g) (gd_trades g)" and "distinct vs"
  shows "(\<forall>v \<in> set vs. \<forall>e. main_ref (ge_silver env v) = Some e \<longrightarrow> level_with (src_position (gd_trades g') (position_key v)) e) \<and>
    (\<forall>u. u \<notin> set vs \<longrightarrow> src_position (gd_trades g') (position_key u) = src_position (gd_trades g) (position_key u))"
  using assms
proof (induction vs arbitrary: g x)
  case (Cons v vs)
  obtain n touched where x: "x = (n, touched)" by force
  obtain g1 n1 t1 n2 t2 where v: "gold_venue env run_ts v g = (g1, Inr (n1, t1))" and vs: "gold_trades env run_ts vs g1 = (g', Inr (n2, t2))"
    by (rule exE [OF gold_trades_Cons [OF Cons.prems(1) [unfolded x]]]) (elim exE conjE, rule that)
  note lv = venue_levels [OF v Cons.prems(2)]
  then have "clock_ok (gd_commits g1) (gd_trades g1)" by blast
  note IH = Cons.IH [OF vs this] 
  show ?case using lv IH Cons.prems(3) by auto
qed simp

section \<open>A small gold layer for the witnesses\<close>

definition demo_gold_env :: gold_env where
  "demo_gold_env = \<lparr>ge_silver = (\<lambda>v. if v = Kraken then table_append empty_table 5 5 [] [(demo_typed 7 10 0 False None)\<lparr>s_price := Some 500, s_qty := Some 3000000000\<rparr>] else empty_table),
     ge_instruments = \<lparr>doc_version = Some 2, doc_instruments = []\<rparr>, ge_pairs = [], ge_bars = \<lparr>bd_version = Some 1, bd_thresholds = []\<rparr>,
     ge_rnd = id, ge_sha = id\<rparr>"

definition demo_gold_state :: "(int \<times> int) list \<Rightarrow> gold" where
  "demo_gold_state commits = \<lparr>gd_trades = empty_table, gd_instruments = [], gd_venues = [], gd_ohlcv = (\<lambda>_. []), gd_bars = [], gd_commits = commits\<rparr>"

lemma demo_empty: "table_rows empty_table = []" "snaps empty_table = []" "main_ref empty_table = None"
  by (simp_all add: empty_table_def table_rows_def)

lemma demo_gold_trades:
  "gold_trades demo_gold_env 9 TRADES (demo_gold_state (c # cs)) =
   (let g = \<lparr>g_exchange = ''kraken'', g_canonical = ''BTC'', g_symbol = ''B'', g_trade_id = show_int 7, g_seq = 7, g_price = 5, g_qty = 30000000,
        g_side = ''buy'', g_ts = 7, g_recv = 10000, g_conn_id = ''c'', g_conn_msg_seq = 0, g_seq_gap = None, g_missing = None,
        g_topic = ''k'', g_part = 0, g_off = 0, g_idx = 0, g_ingest_ts = 9\<rparr>
    in ((demo_gold_state cs)\<lparr>gd_trades := table_append empty_table (fst c) (snd c) [(JOB, JOB_DECODE), (position_key Kraken, show_int 5)] [g]\<rparr>,
        Inr (1, Some [minute_of g])))"
proof -
  have none: "src_position (empty_table :: gold_trade table) k = None" "positions empty_table = []" for k
    by (simp_all add: src_position_def positions_def snapshot_history_def demo_empty latest_summary_def)
  have batch: "project_silver Kraken 9 [(demo_typed 7 10 0 False None)\<lparr>s_price := Some 500, s_qty := Some 3000000000\<rparr>] =
      Inr [\<lparr>g_exchange = ''kraken'', g_canonical = ''BTC'', g_symbol = ''B'', g_trade_id = show_int 7, g_seq = 7, g_price = 5, g_qty = 30000000,
        g_side = ''buy'', g_ts = 7, g_recv = 10000, g_conn_id = ''c'', g_conn_msg_seq = 0, g_seq_gap = None, g_missing = None,
        g_topic = ''k'', g_part = 0, g_off = 0, g_idx = 0, g_ingest_ts = 9\<rparr>]"
    by (simp add: project_silver_def demo_typed_def gold_row_def exchange_name_def trunc_div_def)
  have add: "added_records (table_append empty_table i ts [(JOB, JOB_DECODE), (position_key Kraken, show_int 5)] [g]) = Inr 1" for i ts and g :: gold_trade
    using added_records_append [of i empty_table "[(JOB, JOB_DECODE), (position_key Kraken, show_int 5)]" ts "[g]"]
    by (simp add: demo_empty JOB_def position_key_facts eq_commute [of "''added-records''"])
  show ?thesis
    by (cases c) (simp add: TRADES_def gold_venue_def demo_gold_env_def current_snapshot_id_def demo_empty demo_gold_state_def none
        level_with_def has_position_def incremental_read_def rows_at_def batch add Let_def)
qed

section \<open>Properties\<close>

text \<open>
  C10. gold.trades is every venue's silver table without the replays, one row per trade: if that holds up to
  the snapshot each venue's position names, it holds after the trades step of a run however it ends. One
  commit carries the positions of all venues, so a venue's commit never loses another's place.
\<close>
theorem gold_trades_in_step:
  assumes "clock_ok (gd_commits g) (gd_trades g)"
    and "\<forall>v. in_step (gold_typed v) (gold_view v) (position_key v) (ge_silver env v) (gd_trades g)"
    and "\<forall>v. distinct (map snap_id (snaps (ge_silver env v)))"
    and "\<forall>v i. main_ref (ge_silver env v) = Some i \<longrightarrow> i \<in> set (map snap_id (snaps (ge_silver env v)))"
  shows "in_step (gold_typed v) (gold_view v) (position_key v) (ge_silver env v) (gd_trades (fst (gold_trades env run_ts TRADES g)))"
  using gold_trades_ok [of env g run_ts TRADES] assms by (simp add: gold_ok_def)

theorem gold_trades_in_step_witness:
  "in_step (gold_typed Kraken) (gold_view Kraken) (position_key Kraken) (ge_silver demo_gold_env Kraken)
     (gd_trades (fst (gold_trades demo_gold_env 9 TRADES (demo_gold_state [(1, 1)]))))"
  by (rule gold_trades_in_step)
    (auto simp: demo_gold_state_def clock_ok_def demo_empty in_step_def src_position_def snapshot_history_def latest_summary_def
      demo_gold_env_def)


lemma demo_stage_runs: "\<exists>g' n. gold_stage demo_gold_env 9 (demo_gold_state [(1, 1), (2, 2), (3, 3), (4, 4), (5, 5), (6, 6), (7, 7)]) = (g', Inr n)"
proof -
  have dims: "load_dims demo_gold_env 9 g = (g\<lparr>gd_instruments := gd_instruments g, gd_venues := gd_venues g, gd_commits := gd_commits g\<rparr>, Inr ())"
    if "gd_instruments g = []" "gd_venues g = []" for g
    using that by (simp add: load_dims_def demo_gold_env_def load_instruments_def dim_rows_def gold_merge_dim_def plan_def open_versions_def
        merge_dim_def)
  have th: "thresholds_view demo_gold_env = Inr []"
    by (simp add: thresholds_view_def demo_gold_env_def load_instruments_def load_bars_def)
  show ?thesis
    unfolding gold_stage_def demo_gold_trades Let_def
    by (simp add: dims demo_gold_state_def stage_ohlcv_def OHLCV_def stage_bars_def current_snapshot_id_def gold_bars_def th)
qed


text \<open>
  A run killed after the trades commit and before the candles leaves them stale: the next run finds every
  venue level, recomputes nothing, and no candle table is the candles of gold.trades any more.
\<close>
theorem gold_crash_stale:
  assumes "gold_trades env run_ts TRADES g = (g1, Inr (n, touched))" and "clock_ok (gd_commits g) (gd_trades g)"
    and "list_all (\<lambda>(tf, seconds). candles_ok (table_rows (gd_trades g)) seconds (gd_ohlcv g tf)) OHLCV"
    and "table_rows (gd_trades g1) \<noteq> table_rows (gd_trades g)"
  shows "let g2 = fst (gold_stage env run_ts' (g1\<lparr>gd_commits := commits\<rparr>))
    in gd_trades g2 = gd_trades g1 \<and> list_all (\<lambda>(tf, seconds). \<not> candles_ok (table_rows (gd_trades g2)) seconds (gd_ohlcv g2 tf)) OHLCV"
proof -
  let ?g = "g1\<lparr>gd_commits := commits\<rparr>"
  from gold_trades_adds [OF assms(1)] obtain new where n: "table_rows (gd_trades g1) = table_rows (gd_trades g) @ new \<and>
    set (map minute_of new) = set (case touched of None \<Rightarrow> [] | Some ms \<Rightarrow> ms) \<and>
    gd_ohlcv g1 = gd_ohlcv g \<and> gd_bars g1 = gd_bars g \<and> (touched \<noteq> None \<longrightarrow> main_ref (gd_trades g1) \<noteq> None)" ..
  have "distinct TRADES" by (simp add: TRADES_def)
  then have "gold_trades env run_ts' TRADES ?g = (?g, Inr (0, None))"
    using trades_level [OF assms(1,2)] by (intro level_stops) auto
  then have "gold_stage env run_ts' ?g = (case load_dims env run_ts' ?g of (g2, Inl e) \<Rightarrow> (g2, Inl e) | (g2, Inr _) \<Rightarrow> (g2, Inr 0))"
    by (simp add: gold_stage_def)
  then obtain g2 r where g2: "fst (gold_stage env run_ts' ?g) = g2" "load_dims env run_ts' ?g = (g2, r)"
    by (cases "load_dims env run_ts' ?g") (auto split: sum.splits)
  have "gd_trades g2 = gd_trades g1" "gd_ohlcv g2 = gd_ohlcv g" using load_dims_keeps [OF g2(2)] n by auto
  moreover have "new \<noteq> []" using n assms(4) by auto
  ultimately show ?thesis using n assms(3) candles_stale g2(1) by (auto simp: list_all_iff)
qed

theorem gold_crash_stale_witness:
  "let g1 = fst (gold_trades demo_gold_env 9 TRADES (demo_gold_state [(1, 1)]));
       g2 = fst (gold_stage demo_gold_env 10 (g1\<lparr>gd_commits := [(2, 2), (3, 3)]\<rparr>))
   in gd_trades g2 = gd_trades g1 \<and> list_all (\<lambda>(tf, seconds). \<not> candles_ok (table_rows (gd_trades g2)) seconds (gd_ohlcv g2 tf)) OHLCV"
proof -
  obtain g1 n touched where g1: "gold_trades demo_gold_env 9 TRADES (demo_gold_state [(1, 1)]) = (g1, Inr (n, touched))"
      "table_rows (gd_trades g1) \<noteq> []"
    unfolding demo_gold_trades by (auto simp: Let_def)
  have "clock_ok (gd_commits (demo_gold_state [(1, 1)])) (gd_trades (demo_gold_state [(1, 1)]))"
    by (simp add: demo_gold_state_def clock_ok_def demo_empty)
  from gold_crash_stale [OF g1(1) this] g1 show ?thesis
    by (simp add: demo_gold_state_def demo_empty candles_ok_def list_all_iff case_prod_unfold)
qed

end
