(* ===== verification/Replay.thy ===== *)
theory Replay
  imports Book
begin

text \<open>
  \<open>books.replay_partition\<close>: one partition of a venue's typed book frames, sorted by (symbol, connection,
  sequence), walked into checksum verdicts, one book per second, and the state to resume from. The
  generator's \<open>yield\<close>s are the list it produces; an exception anywhere fails the job, so the result is an
  error or the whole list. Prices are unscaled decimals at scale 10, times nanoseconds.
\<close>

section \<open>Frames, rows and state\<close>

definition TOP :: nat where "TOP = 20"
definition KRAKEN_DEPTH :: nat where "KRAKEN_DEPTH = 25"
definition NS :: int where "NS = 1000000000"

type_synonym dec_levels = "(int option \<times> int option) list"

record rframe =
  f_symbol :: string
  f_canonical :: string
  f_conn :: string
  f_kind :: string
  f_bids :: "dec_levels option"
  f_asks :: "dec_levels option"
  f_checksum :: "int option"
  f_updates :: "(string \<times> int option \<times> int option) list option"
  f_sequence :: "int option"
  f_recv :: int
  f_msg :: int
  f_topic :: string
  f_part :: int
  f_off :: int
  f_idx :: int

record srow =
  sr_exchange :: string
  sr_symbol :: string
  sr_conn :: string
  sr_bid_px :: "int list"
  sr_bid_qty :: "int list"
  sr_ask_px :: "int list"
  sr_ask_qty :: "int list"
  sr_seq :: int
  sr_ok :: "bool option"
  sr_msg :: int
  sr_recv :: int
  sr_second :: int
  sr_part :: int
  sr_off :: int
  sr_idx :: int
  sr_updated :: int

record brow =
  br_exchange :: string
  br_canonical :: string
  br_symbol :: string
  br_second :: int
  br_depth :: int
  br_seq :: int
  br_ok :: "bool option"
  br_bid_px :: "int list"
  br_bid_qty :: "int list"
  br_ask_px :: "int list"
  br_ask_qty :: "int list"
  br_recv :: int
  br_conn :: string
  br_msg :: int
  br_topic :: string
  br_part :: int
  br_off :: int
  br_idx :: int
  br_ingest_ts :: int

record rstate =
  rs_symbol :: string
  rs_canonical :: string
  rs_conn :: string
  rs_live :: bool
  rs_seq :: int
  rs_ok :: "bool option"
  rs_recv :: int
  rs_msg :: int
  rs_topic :: string
  rs_part :: int
  rs_off :: int
  rs_idx :: int
  rs_last :: "int option"
  rs_first :: "int option"

datatype rout = Verdict "int \<times> int \<times> int" "bool option" | BookRow brow | StateRow srow

type_synonym rkey = "string \<times> string"

record renv =
  re_exchange :: string
  re_precisions :: "(string \<times> (nat \<times> nat)) list"
  re_states :: "(rkey \<times> srow) list"
  re_run_ts :: int

section \<open>The parts of a step\<close>

text \<open>\<open>int(p["px"] * SCALE)\<close> truncates; a \<open>NULL\<close> raises.\<close>

definition dec_e8 :: "int option \<Rightarrow> int res" where
  "dec_e8 u = (case u of None \<Rightarrow> Inl TypeError | Some x \<Rightarrow> Inr (trunc_div x 100))"

definition dec_pair :: "int option \<times> int option \<Rightarrow> (int \<times> int) res" where
  "dec_pair pq = res_bind (dec_e8 (fst pq)) (\<lambda>p. res_bind (dec_e8 (snd pq)) (\<lambda>q. Inr (p, q)))"

definition levels_e8 :: "dec_levels option \<Rightarrow> levels res" where
  "levels_e8 ls = (case ls of None \<Rightarrow> Inl TypeError | Some xs \<Rightarrow> res_map dec_pair xs)"

definition state_from_row :: "srow \<Rightarrow> book" where
  "state_from_row r =
     \<lparr>bids = dict_update [] (zip (sr_bid_px r) (sr_bid_qty r)), asks = dict_update [] (zip (sr_ask_px r) (sr_ask_qty r))\<rparr>"

definition snapshot_row :: "renv \<Rightarrow> book \<Rightarrow> rstate \<Rightarrow> int \<Rightarrow> brow" where
  "snapshot_row env book st second_ns =
     (let (bs, as) = book_top TOP book in
      \<lparr>br_exchange = re_exchange env, br_canonical = rs_canonical st, br_symbol = rs_symbol st, br_second = second_ns div NS,
       br_depth = int (max (length bs) (length as)), br_seq = rs_seq st, br_ok = rs_ok st,
       br_bid_px = map fst bs, br_bid_qty = map snd bs, br_ask_px = map fst as, br_ask_qty = map snd as,
       br_recv = rs_recv st, br_conn = rs_conn st, br_msg = rs_msg st, br_topic = rs_topic st, br_part = rs_part st,
       br_off = rs_off st, br_idx = rs_idx st, br_ingest_ts = re_run_ts env\<rparr>)"

definition state_row :: "renv \<Rightarrow> book \<Rightarrow> rstate \<Rightarrow> srow res" where
  "state_row env book st =
     (case rs_last st of None \<Rightarrow> Inl TypeError
      | Some last_ns \<Rightarrow>
          (let (bs, as) = book_top (10 ^ 6) book in
           Inr \<lparr>sr_exchange = re_exchange env, sr_symbol = rs_symbol st, sr_conn = rs_conn st,
             sr_bid_px = map fst bs, sr_bid_qty = map snd bs, sr_ask_px = map fst as, sr_ask_qty = map snd as,
             sr_seq = rs_seq st, sr_ok = rs_ok st, sr_msg = rs_msg st, sr_recv = rs_recv st, sr_second = last_ns div NS,
             sr_part = rs_part st, sr_off = rs_off st, sr_idx = rs_idx st, sr_updated = re_run_ts env\<rparr>))"

text \<open>The whole seconds the \<open>while\<close> loop of \<open>flush_seconds\<close> visits.\<close>

function seconds_between :: "int \<Rightarrow> int \<Rightarrow> int list" where
  "seconds_between sec boundary = (if sec < boundary then sec # seconds_between (sec + NS) boundary else [])"
  by auto
termination
  by (relation "measure (\<lambda>(sec, boundary). nat (boundary - sec))") (auto simp: NS_def)

declare seconds_between.simps [simp del]

definition flush_seconds :: "renv \<Rightarrow> int \<Rightarrow> book \<Rightarrow> rstate \<Rightarrow> (rout list \<times> rstate) res" where
  "flush_seconds env upto_ns book st =
     (if \<not> rs_live st then Inr ([], st)
      else (case (case rs_last st of Some l \<Rightarrow> Some (l + NS) | None \<Rightarrow> map_option (\<lambda>f. f div NS * NS) (rs_first st)) of
              None \<Rightarrow> Inl TypeError
            | Some sec \<Rightarrow>
                (let secs = seconds_between sec (upto_ns div NS * NS);
                     end_sec = sec + NS * int (length secs)
                 in Inr (map (\<lambda>s. BookRow (snapshot_row env book st s)) secs,
                      st\<lparr>rs_last := if end_sec - NS \<ge> 0
                           then Some (max (case rs_last st of None \<Rightarrow> 0 | Some l \<Rightarrow> l) (end_sec - NS)) else rs_last st\<rparr>))))"

definition start_key :: "renv \<Rightarrow> rframe \<Rightarrow> book \<times> rstate" where
  "start_key env r =
     (case map_of (re_states env) (f_symbol r, f_conn r) of
        Some prev \<Rightarrow>
          (state_from_row prev,
           \<lparr>rs_symbol = f_symbol r, rs_canonical = f_canonical r, rs_conn = f_conn r, rs_live = True, rs_seq = sr_seq prev,
            rs_ok = sr_ok prev, rs_recv = sr_recv prev, rs_msg = sr_msg prev, rs_topic = f_topic r, rs_part = sr_part prev,
            rs_off = sr_off prev, rs_idx = sr_idx prev, rs_last = Some (sr_second prev * NS), rs_first = None\<rparr>)
      | None \<Rightarrow>
          (empty_book,
           \<lparr>rs_symbol = f_symbol r, rs_canonical = f_canonical r, rs_conn = f_conn r, rs_live = False, rs_seq = 0, rs_ok = None,
            rs_recv = 0, rs_msg = 0, rs_topic = f_topic r, rs_part = 0, rs_off = 0, rs_idx = 0, rs_last = None, rs_first = None\<rparr>))"

definition mark_live :: "rframe \<Rightarrow> rstate \<Rightarrow> rstate" where
  "mark_live r st =
     (let st1 = (if rs_live st then st else st\<lparr>rs_live := True, rs_first := Some (f_recv r)\<rparr>)
      in st1\<lparr>rs_recv := f_recv r, rs_msg := f_msg r, rs_part := f_part r, rs_off := f_off r, rs_idx := f_idx r\<rparr>)"

definition frame_key :: "rframe \<Rightarrow> int \<times> int \<times> int" where
  "frame_key r = (f_part r, f_off r, f_idx r)"

definition checksum_verdict :: "renv \<Rightarrow> rframe \<Rightarrow> book \<Rightarrow> bool option res" where
  "checksum_verdict env r book =
     (case map_of (re_precisions env) (f_symbol r) of None \<Rightarrow> Inr None
      | Some (pp, qp) \<Rightarrow>
          (let (bs, as) = book_top CHECKSUM_LEVELS book in
           (case (kraken_checksum as bs pp qp, f_checksum r) of
              (None, _) \<Rightarrow> Inl ValueError
            | (Some _, None) \<Rightarrow> Inl TypeError
            | (Some c, Some sent) \<Rightarrow> Inr (Some (c = sent)))))"

definition coinbase_update :: "book \<Rightarrow> string \<times> int option \<times> int option \<Rightarrow> book res" where
  "coinbase_update b u =
     (case u of (side, px, qty) \<Rightarrow> res_bind (dec_e8 px) (\<lambda>p. res_bind (dec_e8 qty) (\<lambda>q. Inr (book_apply side p q b))))"

fun coinbase_fold :: "(string \<times> int option \<times> int option) list \<Rightarrow> book \<Rightarrow> book res" where
  "coinbase_fold [] b = Inr b"
| "coinbase_fold (u # us) b = res_bind (coinbase_update b u) (coinbase_fold us)"

text \<open>One frame applied to a book and its state, the seconds before it already flushed.\<close>

definition apply_frame :: "renv \<Rightarrow> rframe \<Rightarrow> book \<Rightarrow> rstate \<Rightarrow> (rout list \<times> book \<times> rstate) res" where
  "apply_frame env r book st =
     (if re_exchange env = ''kraken'' then
        (if \<not> rs_live st \<and> f_kind r \<noteq> ''snapshot'' then Inr ([Verdict (frame_key r) None], book, st)
         else res_bind (levels_e8 (f_bids r)) (\<lambda>bs. res_bind (levels_e8 (f_asks r)) (\<lambda>as.
                (let b = kraken_apply (f_kind r) bs as KRAKEN_DEPTH book in
                 res_bind (checksum_verdict env r b) (\<lambda>ok.
                   Inr ([Verdict (frame_key r) ok], b, mark_live r (st\<lparr>rs_ok := ok\<rparr>)))))))
      else
        (if \<not> rs_live st \<and> f_kind r \<noteq> ''snapshot'' then Inr ([], book, st)
         else (case f_updates r of None \<Rightarrow> Inl TypeError
               | Some us \<Rightarrow>
                   res_bind (coinbase_fold us (if f_kind r = ''snapshot'' then book_clear book else book)) (\<lambda>b.
                     (case f_sequence r of None \<Rightarrow> Inl TypeError
                      | Some n \<Rightarrow> Inr ([], b, mark_live r (st\<lparr>rs_seq := n\<rparr>)))))))"

definition same_key :: "rframe \<Rightarrow> book \<times> rstate \<Rightarrow> bool" where
  "same_key r c = (rs_symbol (snd c) = f_symbol r \<and> rs_conn (snd c) = f_conn r)"

definition leave_key :: "renv \<Rightarrow> (book \<times> rstate) option \<Rightarrow> rout list res" where
  "leave_key env ctx =
     (case ctx of None \<Rightarrow> Inr []
      | Some (b, st) \<Rightarrow> if rs_live st then res_bind (state_row env b st) (\<lambda>s. Inr [StateRow s]) else Inr [])"

definition enter_key :: "renv \<Rightarrow> rframe \<Rightarrow> (book \<times> rstate) option \<Rightarrow> (rout list \<times> book \<times> rstate) res" where
  "enter_key env r ctx =
     (case ctx of Some c \<Rightarrow> (if same_key r c then Inr ([], c) else res_bind (leave_key env ctx) (\<lambda>outs. Inr (outs, start_key env r)))
      | None \<Rightarrow> Inr ([], start_key env r))"

definition walk_frame :: "renv \<Rightarrow> rframe \<Rightarrow> book \<times> rstate \<Rightarrow> (rout list \<times> book \<times> rstate) res" where
  "walk_frame env r c =
     res_bind (flush_seconds env (f_recv r) (fst c) (snd c)) (\<lambda>(secs, st).
       res_bind (apply_frame env r (fst c) st) (\<lambda>(outs, c'). Inr (secs @ outs, c')))"

definition finish_key :: "renv \<Rightarrow> (book \<times> rstate) option \<Rightarrow> rout list res" where
  "finish_key env ctx =
     (case ctx of None \<Rightarrow> Inr []
      | Some (b, st) \<Rightarrow>
          if rs_live st then res_bind (flush_seconds env (rs_recv st) b st) (\<lambda>(secs, st').
            res_bind (state_row env b st') (\<lambda>s. Inr (secs @ [StateRow s])))
          else Inr [])"

fun replay_from :: "renv \<Rightarrow> (book \<times> rstate) option \<Rightarrow> rframe list \<Rightarrow> rout list res" where
  "replay_from env ctx [] = finish_key env ctx"
| "replay_from env ctx (r # rs) =
     res_bind (enter_key env r ctx) (\<lambda>(outs, c).
       res_bind (walk_frame env r c) (\<lambda>(outs', c').
         res_bind (replay_from env (Some c') rs) (\<lambda>rest. Inr (outs @ outs' @ rest))))"

definition replay_partition :: "renv \<Rightarrow> rframe list \<Rightarrow> rout list res" where
  "replay_partition env rows = replay_from env None rows"

section \<open>The seconds\<close>

lemma seconds_between_Nil [simp]: "b \<le> s \<Longrightarrow> seconds_between s b = []"
  by (simp add: seconds_between.simps)

lemma seconds_between_step: "s < b \<Longrightarrow> seconds_between s b = s # seconds_between (s + NS) b"
  by (simp add: seconds_between.simps [of s b])

lemma seconds_between_end: "b \<le> s + NS * int (length (seconds_between s b))"
  by (induction s b rule: seconds_between.induct)
    (subst seconds_between.simps, simp add: algebra_simps)

lemma seconds_between_nth: "i < length (seconds_between s b) \<Longrightarrow> seconds_between s b ! i = s + NS * int i"
proof (induction s b arbitrary: i rule: seconds_between.induct)
  case (1 s b)
  show ?case
  proof (cases "s < b")
    case True
    then show ?thesis using 1 by (cases i) (simp_all add: seconds_between_step algebra_simps)
  qed (use "1.prems" in simp)
qed

definition next_sec :: "rstate \<Rightarrow> int option" where
  "next_sec st = (case rs_last st of Some l \<Rightarrow> Some (l + NS) | None \<Rightarrow> map_option (\<lambda>f. f div NS * NS) (rs_first st))"

lemma flush_live:
  assumes "rs_live st" and "next_sec st = Some s" and "NS \<le> s"
  shows "flush_seconds env u_ns b st =
    Inr (map (\<lambda>x. BookRow (snapshot_row env b st x)) (seconds_between s (u_ns div NS * NS)),
      st\<lparr>rs_last := Some (s + NS * int (length (seconds_between s (u_ns div NS * NS))) - NS)\<rparr>)"
proof -
  let ?n = "length (seconds_between s (u_ns div NS * NS))"
  have nonneg: "0 \<le> NS * int ?n" by (simp add: NS_def)
  have sec: "(case rs_last st of Some l \<Rightarrow> Some (l + NS) | None \<Rightarrow> map_option (\<lambda>f. f div NS * NS) (rs_first st)) = Some s"
    using assms(2) unfolding next_sec_def by simp
  have seen: "max (case rs_last st of None \<Rightarrow> 0 | Some l \<Rightarrow> l) (s + NS * int ?n - NS) = s + NS * int ?n - NS"
    using assms(2,3) nonneg by (cases "rs_last st") (simp_all add: next_sec_def)
  have pos: "0 \<le> s + NS * int ?n - NS" using assms(3) nonneg by simp
  show ?thesis unfolding flush_seconds_def sec using assms(1) seen pos by (simp add: Let_def)
qed

section \<open>Books that are the same market replay alike\<close>

lemma book_apply_same_market:
  assumes "book_ok b" and "book_ok c" and "same_market b c"
  shows "same_market (book_apply sd p q b) (book_apply sd p q c)" "book_ok (book_apply sd p q b)" "book_ok (book_apply sd p q c)"
  using assms by (auto simp: book_apply_def same_market_def book_ok_def map_of_set_level levels_ok_set_level)

lemma coinbase_fold_same:
  assumes "book_ok b" and "book_ok c" and "same_market b c"
  shows "(\<exists>e. coinbase_fold us b = Inl e \<and> coinbase_fold us c = Inl e) \<or>
    (\<exists>b' c'. coinbase_fold us b = Inr b' \<and> coinbase_fold us c = Inr c' \<and> book_ok b' \<and> book_ok c' \<and> same_market b' c')"
  using assms
proof (induction us arbitrary: b c)
  case (Cons u us)
  obtain sd px qty where u: "u = (sd, px, qty)" by (cases u) auto
  show ?case
  proof (cases "dec_e8 px"; cases "dec_e8 qty")
    fix p q assume pq: "dec_e8 px = Inr p" "dec_e8 qty = Inr q"
    note ok = book_apply_same_market [OF Cons.prems, of sd p q]
    from Cons.IH [OF ok(2,3,1)] show ?thesis by (simp add: u coinbase_update_def pq)
  qed (simp_all add: u coinbase_update_def)
qed simp

definition rs_core where
  "rs_core st = (rs_symbol st, rs_canonical st, rs_conn st, rs_live st, rs_seq st, rs_ok st, rs_recv st, rs_msg st, rs_topic st,
     rs_part st, rs_off st, rs_idx st)"

definition alike :: "book \<times> rstate \<Rightarrow> book \<times> rstate \<Rightarrow> bool" where
  "alike c c' = (same_market (fst c) (fst c') \<and> book_ok (fst c) \<and> book_ok (fst c') \<and> rs_live (snd c) \<and>
     rs_core (snd c) = rs_core (snd c') \<and>
     next_sec (snd c) = next_sec (snd c') \<and> (\<exists>s. next_sec (snd c) = Some s \<and> NS \<le> s))"

lemma alike_fields:
  assumes "rs_core st = rs_core st'"
  shows "rs_symbol st = rs_symbol st'" "rs_canonical st = rs_canonical st'" "rs_conn st = rs_conn st'" "rs_live st = rs_live st'"
    "rs_seq st = rs_seq st'" "rs_ok st = rs_ok st'" "rs_recv st = rs_recv st'" "rs_msg st = rs_msg st'" "rs_topic st = rs_topic st'"
    "rs_part st = rs_part st'" "rs_off st = rs_off st'" "rs_idx st = rs_idx st'"
  using assms by (simp_all add: rs_core_def)

lemma alike_next:
  assumes "alike (b, st) (b', st')"
  obtains s where "next_sec st = Some s" and "next_sec st' = Some s" and "NS \<le> s"
proof -
  from assms have eq: "next_sec st = next_sec st'" unfolding alike_def fst_conv snd_conv by (elim conjE)
  from assms have ex: "\<exists>s. next_sec st = Some s \<and> NS \<le> s" unfolding alike_def fst_conv snd_conv by (elim conjE)
  from ex obtain s where "next_sec st = Some s \<and> NS \<le> s" ..
  with eq show ?thesis by (intro that [of s]) simp_all
qed

lemma alike_topE: "alike c c' \<Longrightarrow> book_top n (fst c) = book_top n (fst c')"
  by (auto simp: alike_def intro: same_market_top)

lemma alike_flush:
  assumes "alike (b, st) (b', st')"
  shows "\<exists>outs st1 st1'. flush_seconds env u_ns b st = Inr (outs, st1) \<and> flush_seconds env u_ns b' st' = Inr (outs, st1') \<and>
    alike (b, st1) (b', st1') \<and> rs_last st1 = rs_last st1' \<and> rs_last st1 \<noteq> None"
proof -
  have eq: "rs_core st = rs_core st'" using assms by (simp add: alike_def)
  obtain s where s: "next_sec st = Some s" "next_sec st' = Some s" "NS \<le> s"
    by (rule alike_next [OF assms])
  have live: "rs_live st" "rs_live st'" using assms alike_fields(4) [OF eq] by (auto simp: alike_def)
  have rows: "snapshot_row env b st x = snapshot_row env b' st' x" for x
    using alike_topE [OF assms, of TOP] alike_fields [OF eq] by (simp add: snapshot_row_def)
  let ?e = "s + NS * int (length (seconds_between s (u_ns div NS * NS)))"
  have ge: "NS \<le> ?e" using s(3) by (simp add: NS_def)
  have "alike (b, st\<lparr>rs_last := Some (?e - NS)\<rparr>) (b', st'\<lparr>rs_last := Some (?e - NS)\<rparr>)"
    using assms ge live eq by (auto simp: alike_def next_sec_def rs_core_def)
  then show ?thesis
    unfolding flush_live [OF live(1) s(1,3)] flush_live [OF live(2) s(2,3)] rows by simp
qed

lemma mark_live_live: "rs_live st \<Longrightarrow> mark_live r st = st\<lparr>rs_recv := f_recv r, rs_msg := f_msg r, rs_part := f_part r, rs_off := f_off r, rs_idx := f_idx r\<rparr>"
  by (simp add: mark_live_def)

lemma next_sec_upd [simp]:
  "next_sec (st\<lparr>rs_recv := f_recv r, rs_msg := f_msg r, rs_part := f_part r, rs_off := f_off r, rs_idx := f_idx r\<rparr>) = next_sec st"
  "next_sec (st\<lparr>rs_ok := x\<rparr>) = next_sec st" "next_sec (st\<lparr>rs_seq := n\<rparr>) = next_sec st"
  by (simp_all add: next_sec_def cong: option.case_cong)

lemma alike_mark_live:
  assumes "alike (b, st) (b', st')" and "same_market c c'" and "book_ok c" and "book_ok c'"
  shows "alike (c, mark_live r (st\<lparr>rs_ok := x\<rparr>)) (c', mark_live r (st'\<lparr>rs_ok := x\<rparr>))"
    and "alike (c, mark_live r (st\<lparr>rs_seq := n\<rparr>)) (c', mark_live r (st'\<lparr>rs_seq := n\<rparr>))"
proof -
  have eq: "rs_core st = rs_core st'" using assms(1) by (simp add: alike_def)
  have live: "rs_live st" "rs_live st'" using assms(1) alike_fields(4) [OF eq] by (simp_all add: alike_def)
  obtain s where nx: "next_sec st = Some s" "next_sec st' = Some s" "NS \<le> s" by (rule alike_next [OF assms(1)])
  show "alike (c, mark_live r (st\<lparr>rs_ok := x\<rparr>)) (c', mark_live r (st'\<lparr>rs_ok := x\<rparr>))"
    "alike (c, mark_live r (st\<lparr>rs_seq := n\<rparr>)) (c', mark_live r (st'\<lparr>rs_seq := n\<rparr>))"
    using assms(2-4) live nx eq by (simp_all add: alike_def mark_live_live rs_core_def)
qed

lemma alike_apply:
  assumes "alike (b, st) (b', st')"
  shows "(\<exists>e. apply_frame env r b st = Inl e \<and> apply_frame env r b' st' = Inl e) \<or>
    (\<exists>outs c1 c1'. apply_frame env r b st = Inr (outs, c1) \<and> apply_frame env r b' st' = Inr (outs, c1') \<and> alike c1 c1' \<and>
       rs_symbol (snd c1) = rs_symbol st \<and> rs_conn (snd c1) = rs_conn st)"
proof -
  have eq: "rs_core st = rs_core st'" using assms by (simp add: alike_def)
  have live: "rs_live st" "rs_live st'" using assms alike_fields(4) [OF eq] by (auto simp: alike_def)
  have bk: "book_ok b" "book_ok b'" "same_market b b'" using assms by (auto simp: alike_def)
  have names: "rs_symbol (mark_live r t) = rs_symbol t" "rs_conn (mark_live r t) = rs_conn t" for t
    by (simp_all add: mark_live_def Let_def)
  show ?thesis
  proof (cases "re_exchange env = ''kraken''")
    case True
    show ?thesis
    proof (cases "levels_e8 (f_bids r)"; cases "levels_e8 (f_asks r)")
      fix bs as assume lv: "levels_e8 (f_bids r) = Inr bs" "levels_e8 (f_asks r) = Inr as"
      let ?b = "kraken_apply (f_kind r) bs as KRAKEN_DEPTH b" and ?b' = "kraken_apply (f_kind r) bs as KRAKEN_DEPTH b'"
      have ok: "book_ok ?b" "book_ok ?b'" "same_market ?b ?b'"
        using bk by (auto intro: kraken_apply_ok kraken_apply_same_market)
      have same: "checksum_verdict env r ?b = checksum_verdict env r ?b'"
        unfolding checksum_verdict_def same_market_top [OF ok] ..
      show ?thesis
      proof (cases "checksum_verdict env r ?b'")
        case (Inl e)
        then show ?thesis using True lv live same by (simp add: apply_frame_def Let_def)
      next
        case (Inr v)
        then show ?thesis
          using True lv live same alike_mark_live(1) [OF assms ok(3,1,2)] names by (simp add: apply_frame_def Let_def)
      qed
    qed (use True live in \<open>simp_all add: apply_frame_def\<close>)
  next
    case False
    show ?thesis
    proof (cases "f_updates r")
      case (Some us)
      let ?b = "if f_kind r = ''snapshot'' then book_clear b else b" and ?b' = "if f_kind r = ''snapshot'' then book_clear b' else b'"
      have "book_ok ?b" "book_ok ?b'" "same_market ?b ?b'"
        using bk by (auto simp: book_clear_def book_ok_def levels_ok_def same_market_def)
      from coinbase_fold_same [OF this, of us] show ?thesis
      proof (elim disjE exE conjE)
        fix e assume "coinbase_fold us ?b = Inl e" "coinbase_fold us ?b' = Inl e"
        then show ?thesis using False Some live by (simp add: apply_frame_def)
      next
        fix d d' assume d: "coinbase_fold us ?b = Inr d" "coinbase_fold us ?b' = Inr d'" "book_ok d" "book_ok d'" "same_market d d'"
        show ?thesis
        proof (cases "f_sequence r")
          case None
          then show ?thesis using False Some live d(1,2) by (simp add: apply_frame_def)
        next
          case seq: (Some n)
          show ?thesis using False Some live d(1,2) seq alike_mark_live(2) [OF assms d(5,3,4)] names by (simp add: apply_frame_def)
        qed
      qed
    qed (use False live in \<open>simp add: apply_frame_def\<close>)
  qed
qed


section \<open>One key walked\<close>

text \<open>The next second to emit is a whole positive second, whenever the key is live.\<close>

definition key_ok :: "book \<times> rstate \<Rightarrow> bool" where
  "key_ok c = (book_ok (fst c) \<and> (rs_live (snd c) \<longrightarrow> (\<exists>m. next_sec (snd c) = Some (NS * m) \<and> 1 \<le> m)))"

definition names_of :: "rstate \<Rightarrow> string \<times> string \<times> string \<times> string" where
  "names_of st = (rs_symbol st, rs_canonical st, rs_conn st, rs_topic st)"

definition book_seconds :: "rout list \<Rightarrow> int list" where
  "book_seconds outs = concat (map (\<lambda>x. case x of BookRow b \<Rightarrow> [br_second b] | _ \<Rightarrow> []) outs)"

lemma book_seconds_simps [simp]:
  "book_seconds [] = []" "book_seconds (xs @ ys) = book_seconds xs @ book_seconds ys"
  "book_seconds [Verdict k v] = []" "book_seconds [StateRow s] = []"
  by (simp_all add: book_seconds_def)

definition from_sec :: "int \<Rightarrow> nat \<Rightarrow> int list" where
  "from_sec m n = map (\<lambda>i. m + int i) [0..<n]"

lemma from_sec_0 [simp]: "from_sec m 0 = []"
  by (simp add: from_sec_def)

lemma from_sec_append: "from_sec m n @ from_sec (m + int n) k = from_sec m (n + k)"
  by (rule nth_equalityI) (auto simp: from_sec_def nth_append)

lemma NS_pos [simp]: "0 < NS" "NS \<noteq> 0"
  by (simp_all add: NS_def)

lemma snapshot_row_second [simp]: "br_second (snapshot_row env b st x) = x div NS"
  by (simp add: snapshot_row_def case_prod_unfold Let_def)

lemma flush_ok:
  assumes "key_ok (b, st)" and "rs_live st" and "next_sec st = Some (NS * m)" and "1 \<le> m"
  obtains n st1 where "flush_seconds env u_ns b st =
      Inr (map (\<lambda>x. BookRow (snapshot_row env b st x)) (seconds_between (NS * m) (u_ns div NS * NS)), st1)"
    and "rs_core st1 = rs_core st" and "next_sec st1 = Some (NS * (m + int n))" and "rs_last st1 = Some (NS * (m + int n - 1))"
    and "u_ns div NS \<le> m + int n"
    and "book_seconds (map (\<lambda>x. BookRow (snapshot_row env b st x)) (seconds_between (NS * m) (u_ns div NS * NS))) = from_sec m n"
proof -
  let ?secs = "seconds_between (NS * m) (u_ns div NS * NS)"
  have le: "NS \<le> NS * m" using assms(4) by (simp add: NS_def)
  have "map (\<lambda>x. x div NS) ?secs = from_sec m (length ?secs)"
    by (rule nth_equalityI) (simp_all add: from_sec_def seconds_between_nth distrib_left [symmetric])
  moreover have "book_seconds (map (\<lambda>x. BookRow (snapshot_row env b st x)) xs) = map (\<lambda>x. x div NS) xs" for xs
    by (induction xs) (simp_all add: book_seconds_def)
  ultimately have secs: "book_seconds (map (\<lambda>x. BookRow (snapshot_row env b st x)) ?secs) = from_sec m (length ?secs)" by simp
  have "u_ns div NS * NS \<le> (m + int (length ?secs)) * NS"
    using seconds_between_end [of "u_ns div NS * NS" "NS * m"] by (simp add: algebra_simps)
  then have upper: "u_ns div NS \<le> m + int (length ?secs)" by simp
  show ?thesis
    by (rule that [OF flush_live [OF assms(2,3) le] _ _ _ upper secs])
      (simp_all add: rs_core_def next_sec_def algebra_simps)
qed

lemma coinbase_fold_ok: "coinbase_fold us b = Inr b' \<Longrightarrow> book_ok b \<Longrightarrow> book_ok b'"
  using coinbase_fold_same [of b b us] by (auto simp: same_market_def)

lemma mark_live_new:
  "\<not> rs_live st \<Longrightarrow> rs_last st = None \<Longrightarrow> next_sec (mark_live r st) = Some (f_recv r div NS * NS)"
  "rs_live (mark_live r st)" "names_of (mark_live r st) = names_of st" "rs_recv (mark_live r st) = f_recv r"
  by (simp_all add: mark_live_def next_sec_def names_of_def Let_def)

lemma apply_frame_cases:
  assumes "apply_frame env r b st = Inr (outs, c)" and "book_ok b"
  shows "book_seconds outs = [] \<and> (\<not> rs_live st \<and> c = (b, st) \<or>
    book_ok (fst c) \<and> (\<exists>ok n. snd c = mark_live r (st\<lparr>rs_ok := ok\<rparr>) \<or> snd c = mark_live r (st\<lparr>rs_seq := n\<rparr>)))"
proof (cases "re_exchange env = ''kraken''")
  case True
  then show ?thesis
    using assms by (auto simp: apply_frame_def Let_def kraken_apply_ok res_bind_Inr split: if_splits)
next
  case False
  have "book_ok (if f_kind r = ''snapshot'' then book_clear b else b)"
    using assms(2) by (simp add: book_clear_def book_ok_def levels_ok_def dict_ok_def)
  from coinbase_fold_ok [OF _ this] show ?thesis
    using assms False by (auto simp: apply_frame_def res_bind_Inr split: if_splits option.splits) blast+
qed

lemma apply_frame_key:
  assumes "apply_frame env r b st = Inr (outs, c)" and "key_ok (b, st)" and "NS \<le> f_recv r"
    and "rs_live st \<Longrightarrow> \<exists>m. next_sec st = Some (NS * m) \<and> f_recv r div NS \<le> m" and "\<not> rs_live st \<Longrightarrow> rs_last st = None"
  shows "key_ok c" and "book_seconds outs = []" and "names_of (snd c) = names_of st"
    and "rs_live st \<Longrightarrow> rs_live (snd c) \<and> next_sec (snd c) = next_sec st"
    and "rs_live (snd c) \<Longrightarrow> \<exists>m. next_sec (snd c) = Some (NS * m) \<and> rs_recv (snd c) div NS \<le> m"
    and "\<not> rs_live (snd c) \<Longrightarrow> c = (b, st)"
proof -
  have bk: "book_ok b" using assms(2) by (simp add: key_ok_def)
  note cs = apply_frame_cases [OF assms(1) bk]
  show "book_seconds outs = []" using cs by simp
  have one: "1 \<le> f_recv r div NS" using assms(3) by (simp add: NS_def)
  have live: "rs_live st \<Longrightarrow> next_sec (mark_live r (st\<lparr>rs_ok := x\<rparr>)) = next_sec st \<and> next_sec (mark_live r (st\<lparr>rs_seq := n\<rparr>)) = next_sec st" for x n
    by (simp add: mark_live_live)
  have new: "\<not> rs_live st \<Longrightarrow> next_sec (mark_live r (st\<lparr>rs_ok := x\<rparr>)) = Some (NS * (f_recv r div NS)) \<and>
      next_sec (mark_live r (st\<lparr>rs_seq := n\<rparr>)) = Some (NS * (f_recv r div NS))" for x n
    using assms(5) by (simp add: mark_live_new(1) mult.commute)
  show "names_of (snd c) = names_of st" using cs by (auto simp: mark_live_new) (auto simp: names_of_def)
  show "rs_live st \<Longrightarrow> rs_live (snd c) \<and> next_sec (snd c) = next_sec st" using cs live by (auto simp: mark_live_new)
  show "key_ok c"
    using cs assms(2) live new one by (cases "rs_live st") (auto simp: key_ok_def mark_live_new)
  show "rs_live (snd c) \<Longrightarrow> \<exists>m. next_sec (snd c) = Some (NS * m) \<and> rs_recv (snd c) div NS \<le> m"
    using cs assms(4) live new by (cases "rs_live st") (auto simp: mark_live_new)
  show "\<not> rs_live (snd c) \<Longrightarrow> c = (b, st)" using cs by (auto simp: mark_live_new)
qed

text \<open>What holds of a key between two of its frames.\<close>

definition walked :: "book \<times> rstate \<Rightarrow> bool" where
  "walked c = (key_ok c \<and> (\<not> rs_live (snd c) \<longrightarrow> rs_last (snd c) = None))"

definition settled :: "book \<times> rstate \<Rightarrow> bool" where
  "settled c = (rs_live (snd c) \<longrightarrow> (\<exists>m. next_sec (snd c) = Some (NS * m) \<and> rs_recv (snd c) div NS \<le> m))"

lemma walk_frame_ok:
  assumes "walk_frame env r c = Inr (outs, c')" and "walked c" and "NS \<le> f_recv r"
  shows "walked c'" and "settled c'" and "names_of (snd c') = names_of (snd c)"
    and "rs_live (snd c) \<Longrightarrow> next_sec (snd c) = Some (NS * m) \<Longrightarrow>
      rs_live (snd c') \<and> (\<exists>n. book_seconds outs = from_sec m n \<and> next_sec (snd c') = Some (NS * (m + int n)))"
    and "\<not> rs_live (snd c) \<Longrightarrow> book_seconds outs = []"
proof -
  obtain b st where c: "c = (b, st)" by (cases c)
  obtain secs st1 outs1 where fl: "flush_seconds env (f_recv r) b st = Inr (secs, st1)"
    and ap: "apply_frame env r b st1 = Inr (outs1, c')" and outs: "outs = secs @ outs1"
    using assms(1) by (auto simp: walk_frame_def res_bind_Inr c)
  have "walked c' \<and> settled c' \<and> names_of (snd c') = names_of st \<and>
     (rs_live st \<longrightarrow> next_sec st = Some (NS * m) \<longrightarrow>
        rs_live (snd c') \<and> (\<exists>n. book_seconds outs = from_sec m n \<and> next_sec (snd c') = Some (NS * (m + int n)))) \<and>
     (\<not> rs_live st \<longrightarrow> book_seconds outs = [])" for m
  proof (cases "rs_live st")
    case False
    then have fresh: "st1 = st" "secs = []" using fl by (simp_all add: flush_seconds_def)
    have k: "key_ok (b, st1)" using assms(2) by (simp add: walked_def c fresh)
    have none: "rs_last st1 = None" using assms(2) False by (simp add: walked_def c fresh)
    note ap' = apply_frame_key [OF ap k assms(3)]
    show ?thesis using ap' False none by (auto simp: walked_def settled_def fresh outs)
  next
    case True
    obtain m0 where m0: "next_sec st = Some (NS * m0)" "1 \<le> m0"
      using assms(2) True by (auto simp: walked_def key_ok_def c)
    have k: "key_ok (b, st)" using assms(2) by (simp add: walked_def c)
    obtain n st2 where f: "flush_seconds env (f_recv r) b st =
        Inr (map (\<lambda>x. BookRow (snapshot_row env b st x)) (seconds_between (NS * m0) (f_recv r div NS * NS)), st2)"
      and core: "rs_core st2 = rs_core st" and nx: "next_sec st2 = Some (NS * (m0 + int n))"
      and le: "f_recv r div NS \<le> m0 + int n"
      and bs: "book_seconds (map (\<lambda>x. BookRow (snapshot_row env b st x)) (seconds_between (NS * m0) (f_recv r div NS * NS))) = from_sec m0 n"
      by (rule flush_ok [OF k True m0])
    have st2: "st2 = st1" "book_seconds secs = from_sec m0 n" using f fl bs by simp_all
    have live1: "rs_live st1" and names: "names_of st1 = names_of st"
      using core True st2 by (simp_all add: rs_core_def names_of_def)
    have k1: "key_ok (b, st1)" using k nx m0(2) st2 by (auto simp: key_ok_def)
    note ap' = apply_frame_key [OF ap k1 assms(3)]
    show ?thesis using True ap' live1 names nx le st2 m0 by (auto simp: walked_def settled_def outs)
  qed
  then show "walked c'" "settled c'" "names_of (snd c') = names_of (snd c)"
    "rs_live (snd c) \<Longrightarrow> next_sec (snd c) = Some (NS * m) \<Longrightarrow>
      rs_live (snd c') \<and> (\<exists>n. book_seconds outs = from_sec m n \<and> next_sec (snd c') = Some (NS * (m + int n)))"
    "\<not> rs_live (snd c) \<Longrightarrow> book_seconds outs = []"
    by (simp_all add: c)
qed


fun walk_rows :: "renv \<Rightarrow> book \<times> rstate \<Rightarrow> rframe list \<Rightarrow> (rout list \<times> book \<times> rstate) res" where
  "walk_rows env c [] = Inr ([], c)"
| "walk_rows env c (r # rs) =
     res_bind (walk_frame env r c) (\<lambda>(outs, c'). res_bind (walk_rows env c' rs) (\<lambda>(rest, c''). Inr (outs @ rest, c'')))"

definition of_key :: "string \<times> string \<times> string \<times> string \<Rightarrow> rframe \<Rightarrow> bool" where
  "of_key k r = ((f_symbol r, f_canonical r, f_conn r, f_topic r) = k \<and> NS \<le> f_recv r)"

lemma same_key_names: "of_key (names_of (snd c)) r \<Longrightarrow> same_key r c"
  by (simp add: of_key_def names_of_def same_key_def)

lemma walk_rows_ok:
  assumes "walk_rows env c rows = Inr (outs, c')" and "walked c" and "\<forall>r \<in> set rows. NS \<le> f_recv r"
  shows "walked c' \<and> names_of (snd c') = names_of (snd c) \<and> (settled c \<or> rows \<noteq> [] \<longrightarrow> settled c') \<and>
    (rs_live (snd c) \<longrightarrow> (\<forall>m. next_sec (snd c) = Some (NS * m) \<longrightarrow>
       rs_live (snd c') \<and> (\<exists>n. book_seconds outs = from_sec m n \<and> next_sec (snd c') = Some (NS * (m + int n))))) \<and>
    (\<not> rs_live (snd c) \<longrightarrow> (rs_live (snd c') \<longrightarrow> (\<exists>m n. book_seconds outs = from_sec m n \<and> next_sec (snd c') = Some (NS * (m + int n)))) \<and>
       (\<not> rs_live (snd c') \<longrightarrow> book_seconds outs = []))"
  using assms
proof (induction rows arbitrary: c outs)
  case Nil
  then show ?case by (auto intro!: exI [of _ "0 :: nat"])
next
  case (Cons r rows)
  obtain o1 c1 o2 where w: "walk_frame env r c = Inr (o1, c1)" and ws: "walk_rows env c1 rows = Inr (o2, c')" and outs: "outs = o1 @ o2"
    using Cons.prems(1) by (auto simp: res_bind_Inr)
  have recv: "NS \<le> f_recv r" using Cons.prems(3) by simp
  note one = walk_frame_ok [OF w Cons.prems(2) recv]
  from Cons.IH [OF ws one(1)] Cons.prems(3)
  have ih: "walked c'" "names_of (snd c') = names_of (snd c1)" "settled c'"
    and live: "\<And>m. rs_live (snd c1) \<Longrightarrow> next_sec (snd c1) = Some (NS * m) \<Longrightarrow>
       rs_live (snd c') \<and> (\<exists>n. book_seconds o2 = from_sec m n \<and> next_sec (snd c') = Some (NS * (m + int n)))"
    and new: "\<not> rs_live (snd c1) \<Longrightarrow> (rs_live (snd c') \<longrightarrow> (\<exists>m n. book_seconds o2 = from_sec m n \<and> next_sec (snd c') = Some (NS * (m + int n)))) \<and>
       (\<not> rs_live (snd c') \<longrightarrow> book_seconds o2 = [])"
    using one(2) by auto
  have chain: "rs_live (snd c') \<and> (\<exists>n. book_seconds outs = from_sec m n \<and> next_sec (snd c') = Some (NS * (m + int n)))"
    if live0: "rs_live (snd c)" and sec0: "next_sec (snd c) = Some (NS * m)" for m
  proof -
    obtain n where n: "rs_live (snd c1)" "book_seconds o1 = from_sec m n" "next_sec (snd c1) = Some (NS * (m + int n))"
      using one(4) [OF live0 sec0] by auto
    obtain k where "rs_live (snd c')" "book_seconds o2 = from_sec (m + int n) k" "next_sec (snd c') = Some (NS * (m + int n + int k))"
      using live [OF n(1,3)] by auto
    then show ?thesis using n(2) by (auto simp: outs from_sec_append add.assoc intro!: exI [of _ "n + k"])
  qed
  have start: "(rs_live (snd c') \<longrightarrow> (\<exists>m n. book_seconds outs = from_sec m n \<and> next_sec (snd c') = Some (NS * (m + int n)))) \<and>
       (\<not> rs_live (snd c') \<longrightarrow> book_seconds outs = [])" if "\<not> rs_live (snd c)"
  proof (cases "rs_live (snd c1)")
    case True
    then obtain m where "next_sec (snd c1) = Some (NS * m)" using one(1) by (auto simp: walked_def key_ok_def)
    from live [OF True this] show ?thesis using one(5) [OF that] by (auto simp: outs)
  next
    case False
    then show ?thesis using new one(5) [OF that] by (auto simp: outs)
  qed
  show ?case using ih one(3) chain start by simp
qed

lemma replay_from_append:
  assumes "\<forall>r \<in> set xs. of_key (names_of (snd c)) r" and "walked c"
  shows "replay_from env (Some c) (xs @ ys) =
    res_bind (walk_rows env c xs) (\<lambda>(outs, c'). res_bind (replay_from env (Some c') ys) (\<lambda>rest. Inr (outs @ rest)))"
  using assms
proof (induction xs arbitrary: c)
  case Nil
  show ?case by (cases "replay_from env (Some c) ys") simp_all
next
  case (Cons r rs)
  show ?case
  proof (cases "walk_frame env r c")
    case (Inl e)
    then show ?thesis using same_key_names [of c r] Cons.prems(1) by (simp add: enter_key_def)
  next
    case (Inr oc)
    obtain outs c1 where oc: "oc = (outs, c1)" by (cases oc)
    have recv: "NS \<le> f_recv r" using Cons.prems(1) by (simp add: of_key_def)
    note one = walk_frame_ok [OF Inr [unfolded oc] Cons.prems(2) recv]
    have "\<forall>r \<in> set rs. of_key (names_of (snd c1)) r" using Cons.prems(1) one(3) by simp
    from Cons.IH [OF this one(1)]
    show ?thesis
      using same_key_names [of c r] Cons.prems(1)
      by (auto simp: enter_key_def Inr oc res_bind_def split: sum.splits)
  qed
qed

section \<open>The saved state\<close>

lemma take_all_short: "length (take n xs) < n \<Longrightarrow> take n xs = xs"
  by simp

lemma dict_update_set: "dict_ok e \<Longrightarrow> set (dict_update [] e) = set e"
  using map_of_dict_update [of e "[]"] dict_ok_dict_update [of "[]" e]
  by (simp add: dict_ok_def map_of_inject_set [symmetric])

lemma restored_side:
  assumes "dict_ok ls" and "set ls = set ms" and "levels_ok ms"
  shows "map_of (dict_update [] ls) = map_of ms" and "levels_ok (dict_update [] ls)"
proof -
  show "map_of (dict_update [] ls) = map_of ms"
    using assms map_of_inject_set [of ls ms] by (simp add: map_of_dict_update levels_ok_def dict_ok_def)
  show "levels_ok (dict_update [] ls)"
    using assms dict_update_set [OF assms(1)] by (simp add: levels_ok_def dict_ok_def) (simp add: dict_ok_def [symmetric])
qed

lemma restored_book:
  assumes "book_ok b" and "state_row env b st = Inr s"
    and "length (sr_bid_px s) < 10 ^ 6" and "length (sr_ask_px s) < 10 ^ 6"
  shows "book_ok (state_from_row s)" and "same_market (state_from_row s) b"
proof -
  obtain l where l: "rs_last st = Some l" using assms(2) by (cases "rs_last st") (simp_all add: state_row_def)
  define big :: nat where "big = 10 ^ 6"
  have rows: "sr_bid_px s = map fst (take big (bid_best (bids b)))" "sr_bid_qty s = map snd (take big (bid_best (bids b)))"
      "sr_ask_px s = map fst (take big (ask_best (asks b)))" "sr_ask_qty s = map snd (take big (ask_best (asks b)))"
    using assms(2) by (auto simp: state_row_def l book_top_def Let_def big_def)
  have short: "take big (bid_best (bids b)) = bid_best (bids b)" "take big (ask_best (asks b)) = ask_best (asks b)"
    using assms(3,4) unfolding rows big_def [symmetric] by (auto intro: take_all_short)
  have s: "state_from_row s = \<lparr>bids = dict_update [] (bid_best (bids b)), asks = dict_update [] (ask_best (asks b))\<rparr>"
    by (simp add: state_from_row_def rows short zip_map_fst_snd)
  have lv: "levels_ok (bids b)" "levels_ok (asks b)" and d: "dict_ok (bids b)" "dict_ok (asks b)"
    using assms(1) by (simp_all add: book_ok_def levels_ok_def)
  note rb = restored_side [OF bid_side.best_dict [OF d(1)] bid_side.best_set [OF d(1)] lv(1)]
  note ra = restored_side [OF ask_side.best_dict [OF d(2)] ask_side.best_set [OF d(2)] lv(2)]
  show "book_ok (state_from_row s)" "same_market (state_from_row s) b"
    using ra rb by (simp_all add: s book_ok_def same_market_def)
qed

lemma alike_walk:
  assumes "alike c c'"
  shows "(\<exists>e. walk_frame env r c = Inl e \<and> walk_frame env r c' = Inl e) \<or>
    (\<exists>outs d d'. walk_frame env r c = Inr (outs, d) \<and> walk_frame env r c' = Inr (outs, d') \<and> alike d d' \<and>
       rs_symbol (snd d) = rs_symbol (snd c) \<and> rs_conn (snd d) = rs_conn (snd c))"
proof -
  obtain b st b' st' where c: "c = (b, st)" "c' = (b', st')" by (cases c, cases c')
  have "\<exists>outs st1 st1'. flush_seconds env (f_recv r) b st = Inr (outs, st1) \<and> flush_seconds env (f_recv r) b' st' = Inr (outs, st1') \<and>
    alike (b, st1) (b', st1') \<and> rs_last st1 = rs_last st1' \<and> rs_last st1 \<noteq> None"
    by (rule alike_flush) (use assms in \<open>simp add: c\<close>)
  then obtain secs st1 st1' where f: "flush_seconds env (f_recv r) b st = Inr (secs, st1)"
    "flush_seconds env (f_recv r) b' st' = Inr (secs, st1')" "alike (b, st1) (b', st1')" by blast
  have names: "rs_symbol st1 = rs_symbol st" "rs_conn st1 = rs_conn st"
    using f(1) by (auto simp: flush_seconds_def Let_def split: if_splits option.splits)
  show ?thesis
    using alike_apply [OF f(3), of env r] by (auto simp: walk_frame_def c f(1,2) names)
qed

lemma state_row_alike:
  assumes "alike (b, st) (b', st')" and "rs_last st = rs_last st'"
  shows "state_row env b st = state_row env b' st'"
proof -
  have core: "rs_core st = rs_core st'" using assms(1) by (simp add: alike_def)
  show ?thesis
    unfolding state_row_def alike_topE [OF assms(1), unfolded fst_conv] assms(2) [symmetric]
    using alike_fields [OF core] by (simp add: Let_def case_prod_unfold cong: option.case_cong)
qed

lemma finish_alike:
  assumes "alike c c'"
  shows "finish_key env (Some c) = finish_key env (Some c')"
proof -
  obtain b st b' st' where c: "c = (b, st)" "c' = (b', st')" by (cases c, cases c')
  have live: "rs_live st" "rs_live st'" and recv: "rs_recv st = rs_recv st'"
    using assms alike_fields [of st st'] by (auto simp: alike_def c)
  have "\<exists>outs st1 st1'. flush_seconds env (rs_recv st) b st = Inr (outs, st1) \<and> flush_seconds env (rs_recv st) b' st' = Inr (outs, st1') \<and>
    alike (b, st1) (b', st1') \<and> rs_last st1 = rs_last st1' \<and> rs_last st1 \<noteq> None"
    by (rule alike_flush) (use assms in \<open>simp add: c\<close>)
  then obtain secs st1 st1' where f: "flush_seconds env (rs_recv st) b st = Inr (secs, st1)"
    "flush_seconds env (rs_recv st) b' st' = Inr (secs, st1')" "alike (b, st1) (b', st1')" "rs_last st1 = rs_last st1'" by blast
  then show ?thesis
    using state_row_alike [OF f(3,4), of env] live recv by (simp add: finish_key_def c)
qed

lemma replay_alike:
  assumes "alike c c'" and "\<forall>r \<in> set rows. same_key r c"
  shows "replay_from env (Some c) rows = replay_from env (Some c') rows"
  using assms
proof (induction rows arbitrary: c c')
  case Nil
  then show ?case using finish_alike by simp
next
  case (Cons r rs)
  have k: "same_key r c" "same_key r c'"
    using Cons.prems alike_fields [of "snd c" "snd c'"] by (auto simp: alike_def same_key_def)
  from alike_walk [OF Cons.prems(1), of env r] show ?case
  proof (elim disjE exE conjE)
    fix e assume "walk_frame env r c = Inl e" "walk_frame env r c' = Inl e"
    then show ?thesis using k by (simp add: enter_key_def)
  next
    fix outs d d' assume d: "walk_frame env r c = Inr (outs, d)" "walk_frame env r c' = Inr (outs, d')" "alike d d'"
      "rs_symbol (snd d) = rs_symbol (snd c)" "rs_conn (snd d) = rs_conn (snd c)"
    have "\<forall>q \<in> set rs. same_key q d"
    proof
      fix q assume "q \<in> set rs"
      then have "same_key q c" using Cons.prems(2) by simp
      then show "same_key q d" unfolding same_key_def d(4,5) .
    qed
    from Cons.IH [OF d(3) this] show ?thesis using k d(1,2) by (simp add: enter_key_def)
  qed
qed

lemma env_states [simp]:
  "snapshot_row (env\<lparr>re_states := ss\<rparr>) b st x = snapshot_row env b st x"
  "state_row (env\<lparr>re_states := ss\<rparr>) b st = state_row env b st"
  "flush_seconds (env\<lparr>re_states := ss\<rparr>) u b st = flush_seconds env u b st"
  "apply_frame (env\<lparr>re_states := ss\<rparr>) r b st = apply_frame env r b st"
  "walk_frame (env\<lparr>re_states := ss\<rparr>) r c = walk_frame env r c"
  "finish_key (env\<lparr>re_states := ss\<rparr>) ctx = finish_key env ctx"
proof -
  show s: "snapshot_row (env\<lparr>re_states := ss\<rparr>) b st x = snapshot_row env b st x" for b st x by (simp add: snapshot_row_def)
  show t: "state_row (env\<lparr>re_states := ss\<rparr>) b st = state_row env b st" for b st
    by (simp add: state_row_def Let_def case_prod_unfold cong: option.case_cong)
  show f: "flush_seconds (env\<lparr>re_states := ss\<rparr>) u b st = flush_seconds env u b st" for u b st
    unfolding flush_seconds_def s ..
  show a: "apply_frame (env\<lparr>re_states := ss\<rparr>) r b st = apply_frame env r b st" for r b st by (simp add: apply_frame_def checksum_verdict_def)
  show "walk_frame (env\<lparr>re_states := ss\<rparr>) r c = walk_frame env r c" by (simp add: walk_frame_def f a)
  show "finish_key (env\<lparr>re_states := ss\<rparr>) ctx = finish_key env ctx"
    unfolding finish_key_def f t ..
qed

lemma replay_env_states:
  assumes "\<forall>r \<in> set rows. of_key (names_of (snd c)) r" and "walked c"
  shows "replay_from (env\<lparr>re_states := ss\<rparr>) (Some c) rows = replay_from env (Some c) rows"
proof -
  have w: "walk_rows (env\<lparr>re_states := ss\<rparr>) c rows = walk_rows env c rows" for c by (induction rows arbitrary: c) simp_all
  show ?thesis
    using replay_from_append [OF assms, of "env\<lparr>re_states := ss\<rparr>" "[]"] replay_from_append [OF assms, of env "[]"] by (simp add: w)
qed

definition saved_ok :: "srow \<Rightarrow> bool" where
  "saved_ok s = (distinct (sr_bid_px s) \<and> distinct (sr_ask_px s) \<and> length (sr_bid_px s) = length (sr_bid_qty s) \<and>
     length (sr_ask_px s) = length (sr_ask_qty s) \<and> 0 \<notin> set (sr_bid_qty s) \<and> 0 \<notin> set (sr_ask_qty s) \<and> 0 \<le> sr_second s)"

definition states_ok :: "renv \<Rightarrow> bool" where
  "states_ok env = list_all saved_ok (map snd (re_states env))"

lemma saved_side:
  assumes "distinct px" and "length px = length qty" and "0 \<notin> set qty"
  shows "levels_ok (dict_update [] (zip px qty))"
proof -
  have "dict_ok (zip px qty)" using assms(1,2) by (simp add: dict_ok_def)
  moreover have "levels_ok (zip px qty)" using calculation assms(3) by (auto simp: levels_ok_def dest: set_zip_rightD)
  ultimately show ?thesis using restored_side(2) [of "zip px qty" "zip px qty"] by simp
qed

lemma start_key_ok:
  assumes "states_ok env"
  shows "walked (start_key env r)" and "names_of (snd (start_key env r)) = (f_symbol r, f_canonical r, f_conn r, f_topic r)"
proof -
  show "names_of (snd (start_key env r)) = (f_symbol r, f_canonical r, f_conn r, f_topic r)"
    by (simp add: start_key_def names_of_def split: option.splits)
  show "walked (start_key env r)"
  proof (cases "map_of (re_states env) (f_symbol r, f_conn r)")
    case None
    then show ?thesis by (simp add: start_key_def walked_def key_ok_def book_ok_def empty_book_def levels_ok_def dict_ok_def)
  next
    case (Some prev)
    have "saved_ok prev" using assms map_of_SomeD [OF Some] by (auto simp: states_ok_def list_all_iff)
    then have "book_ok (state_from_row prev)" and "0 \<le> sr_second prev"
      by (simp_all add: saved_ok_def state_from_row_def book_ok_def saved_side)
    then show ?thesis
      by (auto simp: start_key_def Some walked_def key_ok_def next_sec_def algebra_simps intro!: exI [of _ "sr_second prev + 1"])
  qed
qed

lemma replay_start:
  "replay_from env None (r # rs) = replay_from env (Some (start_key env r)) (r # rs)"
proof -
  have "same_key r (start_key env r)" by (simp add: start_key_def same_key_def split: option.splits)
  then show ?thesis by (simp add: enter_key_def)
qed

lemma walk_no_state: "walk_rows env c rows = Inr (outs, c') \<Longrightarrow> StateRow s \<notin> set outs"
proof (induction rows arbitrary: c outs)
  case (Cons r rs)
  have f: "flush_seconds env u b st = Inr (o1, st1) \<Longrightarrow> StateRow s \<notin> set o1" for u b st o1 st1
    by (auto simp: flush_seconds_def Let_def split: if_splits option.splits)
  have a: "apply_frame env r b st = Inr (o1, d) \<Longrightarrow> StateRow s \<notin> set o1" for b st o1 d
    by (auto simp: apply_frame_def Let_def res_bind_Inr split: if_splits option.splits)
  show ?case using Cons by (auto simp: res_bind_Inr walk_frame_def dest: f a)
qed auto

section \<open>Ticks\<close>

lemma finish_settled:
  assumes "walked (b, st)" and "settled (b, st)" and "rs_live st"
  obtains m st1 where "finish_key env (Some (b, st)) = res_bind (state_row env b st1) (\<lambda>s. Inr [StateRow s])"
    and "alike (b, st) (b, st1)" and "rs_core st1 = rs_core st" and "rs_last st1 = Some (NS * (m - 1))"
    and "next_sec st = Some (NS * m)" and "1 \<le> m"
proof -
  obtain m where m: "next_sec st = Some (NS * m)" "1 \<le> m" and recv: "rs_recv st div NS \<le> m"
    using assms by (auto simp: walked_def key_ok_def settled_def)
  have "rs_recv st div NS * NS \<le> NS * m" using recv by (simp add: mult.commute [of NS])
  then have none: "seconds_between (NS * m) (rs_recv st div NS * NS) = []" by simp
  have ge: "NS \<le> NS * m" using m(2) by (simp add: NS_def)
  define st1 where "st1 = st\<lparr>rs_last := Some (NS * (m - 1))\<rparr>"
  have fl: "flush_seconds env (rs_recv st) b st = Inr ([], st1)"
    using flush_live [OF assms(3) m(1) ge, of env "rs_recv st" b] by (simp add: none st1_def right_diff_distrib)
  have core: "rs_core st1 = rs_core st" by (simp add: st1_def rs_core_def)
  have al: "alike (b, st) (b, st1)"
    using assms(1,3) m ge core
    by (auto simp: alike_def walked_def key_ok_def next_sec_def st1_def right_diff_distrib)
  show ?thesis
    by (rule that [OF _ al core _ m]) (simp_all add: finish_key_def assms(3) fl, simp add: st1_def)
qed

lemma resumed_alike:
  assumes "walked (b, st)" and "settled (b, st)" and "rs_live st" and "finish_key env (Some (b, st)) = Inr [StateRow s]"
    and "of_key (names_of st) r" and "length (sr_bid_px s) < 10 ^ 6" and "length (sr_ask_px s) < 10 ^ 6"
  shows "alike (b, st) (start_key (env\<lparr>re_states := [((f_symbol r, f_conn r), s)]\<rparr>) r)"
proof -
  obtain m st1 where fin: "finish_key env (Some (b, st)) = res_bind (state_row env b st1) (\<lambda>s. Inr [StateRow s])"
    and al: "alike (b, st) (b, st1)" and core: "rs_core st1 = rs_core st" and l: "rs_last st1 = Some (NS * (m - 1))"
    and nx: "next_sec st = Some (NS * m)" and m: "1 \<le> m"
    by (rule finish_settled [OF assms(1-3), of env])
  have s: "state_row env b st1 = Inr s" using assms(4) by (auto simp: fin res_bind_Inr)
  have bk: "book_ok b" using assms(1) by (simp add: walked_def key_ok_def)
  note rb = restored_book [OF bk s assms(6,7)]
  have fields: "sr_seq s = rs_seq st" "sr_ok s = rs_ok st" "sr_msg s = rs_msg st" "sr_recv s = rs_recv st" "sr_part s = rs_part st"
    "sr_off s = rs_off st" "sr_idx s = rs_idx st" "sr_second s = m - 1"
    using s alike_fields [OF core] by (auto simp: state_row_def l book_top_def Let_def)
  have names: "f_symbol r = rs_symbol st" "f_canonical r = rs_canonical st" "f_conn r = rs_conn st" "f_topic r = rs_topic st"
    using assms(5) by (simp_all add: of_key_def names_of_def)
  have ge: "NS \<le> NS * m" using m by (simp add: NS_def)
  show ?thesis
    using rb bk assms(3) nx ge
    by (simp add: start_key_def alike_def rs_core_def fields names next_sec_def same_market_def left_diff_distrib mult.commute [of m])
qed

lemma replay_whole:
  assumes "\<forall>r \<in> set rows. of_key (sy, cn, conn, tp) r" and "rows \<noteq> []" and "states_ok env"
  shows "replay_partition env (rows @ zs) = res_bind (walk_rows env (start_key env (hd rows)) rows)
      (\<lambda>(o1, c). res_bind (replay_from env (Some c) zs) (\<lambda>rest. Inr (o1 @ rest)))"
proof -
  obtain x xs where rows: "rows = x # xs" using assms(2) by (cases rows) auto
  have kx: "of_key (sy, cn, conn, tp) x" using assms(1) by (simp add: rows)
  have names: "names_of (snd (start_key env x)) = (sy, cn, conn, tp)" and wk: "walked (start_key env x)"
    using start_key_ok [OF assms(3), of x] kx by (simp_all add: of_key_def)
  have rx: "\<forall>r \<in> set rows. of_key (names_of (snd (start_key env x))) r" using assms(1) by (simp add: names)
  show ?thesis
    using replay_from_append [OF rx wk, of env zs]
    by (simp add: replay_partition_def rows replay_start [of env x] del: replay_from.simps walk_rows.simps)
qed

lemma replay_key:
  assumes "\<forall>r \<in> set rows. of_key (sy, cn, conn, tp) r" and "rows \<noteq> []" and "states_ok env"
    and "replay_partition env rows = Inr (outs @ [StateRow s])"
  obtains b st where "walk_rows env (start_key env (hd rows)) rows = Inr (outs, b, st)" and "walked (b, st)" and "settled (b, st)"
    and "names_of st = (sy, cn, conn, tp)" and "rs_live st" and "finish_key env (Some (b, st)) = Inr [StateRow s]"
proof -
  let ?c = "start_key env (hd rows)"
  have kx: "of_key (sy, cn, conn, tp) (hd rows)" using assms(1,2) by simp
  have names: "names_of (snd ?c) = (sy, cn, conn, tp)" and wk: "walked ?c"
    using start_key_ok [OF assms(3), of "hd rows"] kx by (simp_all add: of_key_def)
  have "res_bind (walk_rows env ?c rows) (\<lambda>(o1, c). res_bind (replay_from env (Some c) []) (\<lambda>rest. Inr (o1 @ rest))) =
      Inr (outs @ [StateRow s])"
    using replay_whole [OF assms(1-3), of "[]"] assms(4) by simp
  then obtain o1 c rest where w: "walk_rows env ?c rows = Inr (o1, c)"
    and fin: "finish_key env (Some c) = Inr rest" and o1: "o1 @ rest = outs @ [StateRow s]"
    by (auto simp: res_bind_Inr)
  obtain b st where c: "c = (b, st)" by (cases c)
  have recv: "\<forall>r \<in> set rows. NS \<le> f_recv r" using assms(1) by (auto simp: of_key_def)
  from walk_rows_ok [OF w wk recv] assms(2) have wc: "walked (b, st)" "names_of st = (sy, cn, conn, tp)" "settled (b, st)"
    by (auto simp: names c)
  have live: "rs_live st"
  proof (rule ccontr)
    assume "\<not> rs_live st"
    then have "rest = []" using fin by (simp add: finish_key_def c)
    then have "StateRow s \<in> set o1" using o1 by simp
    then show False using walk_no_state [OF w] by simp
  qed
  obtain m st1 where fin1: "finish_key env (Some (b, st)) = res_bind (state_row env b st1) (\<lambda>s. Inr [StateRow s])"
    by (rule finish_settled [OF wc(1,3) live, of env])
  obtain s' where "rest = [StateRow s']" using fin fin1 by (auto simp: c res_bind_Inr)
  then have "o1 = outs" "rest = [StateRow s]" using o1 by simp_all
  then show ?thesis using that [of b st] w wc live fin by (simp add: c)
qed

text \<open>
  C12. Ticks compose: replaying a first batch of a connection's frames, saving its book and running state, and
  resuming from them with the next batch emits what one replay of both batches emits. The saved state loses
  nothing, whatever book the first batch left and wherever the batches are cut.
\<close>
theorem replay_split:
  assumes "\<forall>r \<in> set (xs @ ys). of_key (sy, cn, conn, tp) r" and "xs \<noteq> []" and "ys \<noteq> []" and "states_ok env"
    and "replay_partition env xs = Inr (outs @ [StateRow s])"
    and "length (sr_bid_px s) < 10 ^ 6" and "length (sr_ask_px s) < 10 ^ 6"
  shows "replay_partition env (xs @ ys) =
    res_bind (replay_partition (env\<lparr>re_states := [((sy, conn), s)]\<rparr>) ys) (\<lambda>rest. Inr (outs @ rest))"
proof -
  obtain y ys' where ys: "ys = y # ys'" using assms(3) by (cases ys) auto
  let ?env = "env\<lparr>re_states := [((sy, conn), s)]\<rparr>"
  have rx: "\<forall>r \<in> set xs. of_key (sy, cn, conn, tp) r" and ry: "\<forall>r \<in> set ys. of_key (sy, cn, conn, tp) r"
    and ky: "of_key (sy, cn, conn, tp) y"
    using assms(1) by (simp_all add: ys)
  obtain b st where w: "walk_rows env (start_key env (hd xs)) xs = Inr (outs, b, st)" and wc: "walked (b, st)" "settled (b, st)"
    and names: "names_of st = (sy, cn, conn, tp)" and live: "rs_live st" and fin: "finish_key env (Some (b, st)) = Inr [StateRow s]"
    by (rule replay_key [OF rx assms(2,4,5)])
  have "alike (b, st) (start_key ?env y)"
    using resumed_alike [OF wc live fin _ assms(6,7), of y] ky by (simp add: names of_key_def)
  moreover have "\<forall>r \<in> set ys. same_key r (b, st)" using ry names by (auto simp: same_key_def of_key_def names_of_def)
  ultimately have "replay_from env (Some (b, st)) ys = replay_from env (Some (start_key ?env y)) ys" by (rule replay_alike)
  moreover have "replay_partition ?env ys = replay_from env (Some (start_key ?env y)) ys"
  proof -
    have n: "names_of (snd (start_key ?env y)) = (sy, cn, conn, tp)"
      using ky by (simp add: start_key_def names_of_def of_key_def split: option.splits)
    have k: "walked (start_key ?env y)"
      using \<open>alike (b, st) (start_key ?env y)\<close> wc(1) live
      by (auto simp: walked_def key_ok_def alike_def start_key_def split: option.splits)
    have "\<forall>r \<in> set ys. of_key (names_of (snd (start_key ?env y))) r" using ry by (simp add: n)
    from replay_env_states [OF this k, of "[((sy, conn), s)]" env] show ?thesis
      by (simp add: replay_partition_def ys replay_start [of ?env y] del: replay_from.simps)
  qed
  ultimately show ?thesis using replay_whole [OF rx assms(2,4), of ys] by (simp add: w)
qed

text \<open>
  C13. No second is skipped or repeated: the seconds a connection's book rows carry are consecutive, the first
  follows the second its saved state ended with, and the state it saves names the last of them.
\<close>
theorem replay_seconds_gap_free:
  assumes "\<forall>r \<in> set rows. of_key (sy, cn, conn, tp) r" and "rows \<noteq> []" and "states_ok env"
    and "replay_partition env rows = Inr (outs @ [StateRow s])"
  shows "\<exists>m n. book_seconds outs = from_sec m n \<and> sr_second s = m + int n - 1 \<and>
    (\<forall>prev. map_of (re_states env) (sy, conn) = Some prev \<longrightarrow> m = sr_second prev + 1)"
proof -
  let ?c = "start_key env (hd rows)"
  have kx: "of_key (sy, cn, conn, tp) (hd rows)" using assms(1,2) by simp
  have wk: "walked ?c" using start_key_ok [OF assms(3)] by simp
  obtain b st where w: "walk_rows env ?c rows = Inr (outs, b, st)" and wc: "walked (b, st)" "settled (b, st)"
    and live: "rs_live st" and fin: "finish_key env (Some (b, st)) = Inr [StateRow s]"
    by (rule replay_key [OF assms])
  have recv: "\<forall>r \<in> set rows. NS \<le> f_recv r" using assms(1) by (auto simp: of_key_def)
  note ok = walk_rows_ok [OF w wk recv]
  obtain k st1 where fin1: "finish_key env (Some (b, st)) = res_bind (state_row env b st1) (\<lambda>s. Inr [StateRow s])"
    and l: "rs_last st1 = Some (NS * (k - 1))" and nx: "next_sec st = Some (NS * k)"
    by (rule finish_settled [OF wc live, of env])
  have "state_row env b st1 = Inr s" using fin fin1 by (auto simp: res_bind_Inr)
  then have sec: "sr_second s = k - 1" by (auto simp: state_row_def l Let_def case_prod_unfold)
  show ?thesis
  proof (cases "map_of (re_states env) (sy, conn)")
    case None
    then have fresh: "\<not> rs_live (snd ?c)" using kx by (simp add: start_key_def of_key_def)
    then obtain m n where "book_seconds outs = from_sec m n" "next_sec st = Some (NS * (m + int n))" using ok live by auto
    then show ?thesis using nx sec None by (intro exI [of _ m] exI [of _ n]) simp
  next
    case (Some prev)
    then have "rs_live (snd ?c)" "next_sec (snd ?c) = Some (NS * (sr_second prev + 1))"
      using kx by (simp_all add: start_key_def of_key_def next_sec_def algebra_simps)
    then obtain n where "book_seconds outs = from_sec (sr_second prev + 1) n" "next_sec st = Some (NS * (sr_second prev + 1 + int n))"
      using ok by auto
    then show ?thesis using nx sec Some by (intro exI [of _ "sr_second prev + 1"] exI [of _ n]) simp
  qed
qed

text \<open>
  The flush loop ends on every boundary, after exactly as many rows as there are whole seconds before
  the one the frame lies in.
\<close>
theorem flush_seconds_count:
  assumes "key_ok (b, st)" and "rs_live st" and "next_sec st = Some (NS * m)"
  shows "\<exists>outs st1. flush_seconds env u_ns b st = Inr (outs, st1) \<and> length outs = nat (u_ns div NS - m) \<and>
    book_seconds outs = from_sec m (length outs)"
proof -
  have m: "1 \<le> m" using assms by (auto simp: key_ok_def)
  have count: "length (seconds_between (NS * i) (NS * j)) = nat (j - i)" for i j
  proof (induction "nat (j - i)" arbitrary: i)
    case 0
    then show ?case by simp
  next
    case (Suc k)
    then have "seconds_between (NS * i) (NS * j) = NS * i # seconds_between (NS * (i + 1)) (NS * j)"
      by (subst seconds_between_step) (simp_all add: algebra_simps)
    then show ?case using Suc(1) [of "i + 1"] Suc(2) by simp
  qed
  obtain n st1 where f: "flush_seconds env u_ns b st =
      Inr (map (\<lambda>x. BookRow (snapshot_row env b st x)) (seconds_between (NS * m) (u_ns div NS * NS)), st1)"
    and s: "book_seconds (map (\<lambda>x. BookRow (snapshot_row env b st x)) (seconds_between (NS * m) (u_ns div NS * NS))) = from_sec m n"
    by (rule flush_ok [OF assms m])
  have "book_seconds (map (\<lambda>x. BookRow (snapshot_row env b st x)) xs) = map (\<lambda>x. x div NS) xs" for xs
    by (induction xs) (simp_all add: book_seconds_def)
  then have "n = length (seconds_between (NS * m) (u_ns div NS * NS))"
    using s by (metis (no_types, lifting) from_sec_def length_map map_nth length_upt diff_zero)
  then show ?thesis using f s count [of m "u_ns div NS"] by (simp add: mult.commute [of NS])
qed

text \<open>
  A connection with a single live frame followed by another in the same partition fails the replay: the
  state row needs the last second emitted, and none was.
\<close>
theorem lone_snapshot_type_error:
  assumes "map_of (re_states env) (f_symbol r, f_conn r) = None"
    and "apply_frame env r (fst (start_key env r)) (snd (start_key env r)) = Inr (outs, c)" and "rs_live (snd c)"
    and "(f_symbol q, f_conn q) \<noteq> (f_symbol r, f_conn r)"
  shows "replay_partition env (r # q # rest) = Inl TypeError"
proof -
  let ?st = "snd (start_key env r)"
  have fresh: "\<not> rs_live ?st" "rs_last ?st = None" "rs_symbol ?st = f_symbol r" "rs_conn ?st = f_conn r"
    using assms(1) by (simp_all add: start_key_def)
  have "walk_frame env r (start_key env r) = Inr (outs, c)"
    using assms(2) fresh by (simp add: walk_frame_def flush_seconds_def)
  moreover have "book_ok (fst (start_key env r))"
    using assms(1) by (simp add: start_key_def empty_book_def book_ok_def levels_ok_def dict_ok_def)
  from apply_frame_cases [OF assms(2) this] fresh assms(3)
  have "rs_last (snd c) = None" "rs_symbol (snd c) = f_symbol r" "rs_conn (snd c) = f_conn r"
    by (auto simp: mark_live_def Let_def)
  then have "leave_key env (Some c) = Inl TypeError" "\<not> same_key q c"
    using assms(3,4) by (auto simp: leave_key_def state_row_def same_key_def split: prod.splits)
  ultimately show ?thesis by (simp add: replay_partition_def enter_key_def)
qed

section \<open>The properties at concrete inputs\<close>

definition demo_frame :: "string \<Rightarrow> string \<Rightarrow> int \<Rightarrow> int \<Rightarrow> rframe" where
  "demo_frame conn kind recv off =
     \<lparr>f_symbol = ''BTC/USD'', f_canonical = ''BTC/USD'', f_conn = conn, f_kind = kind, f_bids = Some [(Some 1000, Some 500)],
      f_asks = Some [(Some 1100, Some 700)], f_checksum = Some 7, f_updates = None, f_sequence = None, f_recv = recv, f_msg = off,
      f_topic = ''book'', f_part = 0, f_off = off, f_idx = 0\<rparr>"

definition demo_renv :: renv where
  "demo_renv = \<lparr>re_exchange = ''kraken'', re_precisions = [], re_states = [], re_run_ts = 99\<rparr>"

definition demo_saved :: srow where
  "demo_saved = \<lparr>sr_exchange = ''kraken'', sr_symbol = ''BTC/USD'', sr_conn = ''c1'', sr_bid_px = [10], sr_bid_qty = [5],
     sr_ask_px = [11], sr_ask_qty = [7], sr_seq = 0, sr_ok = None, sr_msg = 1, sr_recv = 5500000000, sr_second = 4, sr_part = 0,
     sr_off = 1, sr_idx = 0, sr_updated = 99\<rparr>"

lemma demo_first: "replay_partition demo_renv [demo_frame ''c1'' ''snapshot'' 5500000000 1] = Inr ([Verdict (0, 1, 0) None] @ [StateRow demo_saved])"
proof -
  let ?r = "demo_frame ''c1'' ''snapshot'' 5500000000 1"
  define st where "st = mark_live ?r (snd (start_key demo_renv ?r))"
  define b :: book where "b = \<lparr>bids = [(10, 5)], asks = [(11, 7)]\<rparr>"
  have "kraken_apply ''snapshot'' [(10, 5)] [(11, 7)] KRAKEN_DEPTH empty_book = b" unfolding b_def by code_simp
  then have walk: "walk_frame demo_renv ?r (start_key demo_renv ?r) = Inr ([Verdict (0, 1, 0) None], b, st)"
    by (simp add: walk_frame_def flush_seconds_def apply_frame_def start_key_def demo_renv_def demo_frame_def levels_e8_def
        dec_pair_def dec_e8_def trunc_div_def checksum_verdict_def frame_key_def st_def)
  have live: "rs_live st" "next_sec st = Some (NS * 5)" "NS \<le> NS * 5"
    by (simp_all add: st_def next_sec_def start_key_def demo_renv_def demo_frame_def mark_live_def NS_def)
  have "state_row demo_renv b (st\<lparr>rs_last := Some 4000000000\<rparr>) = Inr demo_saved"
    by (simp add: state_row_def book_top_def b_def st_def bid_best_def ask_best_def mark_live_def start_key_def demo_renv_def
        demo_frame_def demo_saved_def NS_def)
  then have "finish_key demo_renv (Some (b, st)) = Inr [StateRow demo_saved]"
    using flush_live [OF live, of demo_renv 5500000000 b] live(1)
    by (simp add: finish_key_def) (simp add: st_def mark_live_def demo_frame_def NS_def)
  then show ?thesis using walk by (simp add: replay_partition_def enter_key_def)
qed

lemma demo_of_key: "NS \<le> recv \<Longrightarrow> of_key (''BTC/USD'', ''BTC/USD'', ''c1'', ''book'') (demo_frame ''c1'' kind recv off)"
  by (simp add: of_key_def demo_frame_def)

lemma demo_states: "states_ok demo_renv"
  by (simp add: states_ok_def demo_renv_def)

theorem replay_split_witness:
  "replay_partition demo_renv ([demo_frame ''c1'' ''snapshot'' 5500000000 1] @ [demo_frame ''c1'' ''update'' 8500000000 2]) =
     res_bind (replay_partition (demo_renv\<lparr>re_states := [((''BTC/USD'', ''c1''), demo_saved)]\<rparr>)
       [demo_frame ''c1'' ''update'' 8500000000 2]) (\<lambda>rest. Inr ([Verdict (0, 1, 0) None] @ rest))"
  by (rule replay_split [OF _ _ _ demo_states demo_first]) (auto intro!: demo_of_key simp: NS_def demo_saved_def)

theorem replay_seconds_gap_free_witness:
  "\<exists>m n. book_seconds [Verdict (0, 1, 0) None] = from_sec m n \<and> sr_second demo_saved = m + int n - 1"
proof -
  have "\<forall>r \<in> set [demo_frame ''c1'' ''snapshot'' 5500000000 1]. of_key (''BTC/USD'', ''BTC/USD'', ''c1'', ''book'') r"
    by (simp add: demo_of_key NS_def)
  from replay_seconds_gap_free [OF this _ demo_states demo_first] show ?thesis by simp blast
qed

theorem flush_seconds_count_witness:
  "\<exists>outs st1. flush_seconds demo_renv 9200000000 empty_book
      (snd (start_key (demo_renv\<lparr>re_states := [((''BTC/USD'', ''c1''), demo_saved)]\<rparr>) (demo_frame ''c1'' ''update'' 9200000000 2))) =
      Inr (outs, st1) \<and> length outs = 4 \<and> book_seconds outs = from_sec 5 (length outs)"
proof -
  let ?st = "snd (start_key (demo_renv\<lparr>re_states := [((''BTC/USD'', ''c1''), demo_saved)]\<rparr>) (demo_frame ''c1'' ''update'' 9200000000 2))"
  have st: "rs_live ?st" "next_sec ?st = Some (NS * 5)"
    by (simp_all add: start_key_def demo_frame_def demo_renv_def demo_saved_def next_sec_def NS_def)
  moreover have "key_ok (empty_book, ?st)"
    using st by (auto simp: key_ok_def empty_book_def book_ok_def levels_ok_def dict_ok_def)
  ultimately show ?thesis using flush_seconds_count [of empty_book ?st 5 demo_renv 9200000000] by (simp add: NS_def)
qed

theorem lone_snapshot_type_error_witness:
  "replay_partition demo_renv (demo_frame ''c1'' ''snapshot'' 5500000000 1 # demo_frame ''c2'' ''snapshot'' 6500000000 2 # []) = Inl TypeError"
proof -
  let ?r = "demo_frame ''c1'' ''snapshot'' 5500000000 1"
  have "\<exists>outs c. apply_frame demo_renv ?r (fst (start_key demo_renv ?r)) (snd (start_key demo_renv ?r)) = Inr (outs, c) \<and> rs_live (snd c)"
    by (simp add: apply_frame_def demo_renv_def demo_frame_def start_key_def levels_e8_def dec_pair_def dec_e8_def checksum_verdict_def
        mark_live_def Let_def)
  then obtain outs c where "apply_frame demo_renv ?r (fst (start_key demo_renv ?r)) (snd (start_key demo_renv ?r)) = Inr (outs, c)"
    "rs_live (snd c)" by blast
  then show ?thesis by (intro lone_snapshot_type_error) (simp_all add: demo_renv_def demo_frame_def)
qed

end
