(* ===== verification/Books.thy ===== *)
theory Books
  imports Gold Replay "HOL-Library.Sublist"
begin

text \<open>
  The rest of \<open>docker/lake/books.py\<close>: typing one venue's book frames, Binance's one-frame-one-book sampling,
  the best bid and offer, the stage and the rebuild, around the replay of \<open>Replay.thy\<close>. Spark spreads the
  frames over executors by (symbol, connection): the hash and the number of partitions are parameters. The
  image's Spark is 3.5 with ANSI mode off: \<open>BIGINT\<close> arithmetic wraps and a division by zero is \<open>NULL\<close>. Doubles are
  rationals rounded after each operation by a parameter.
\<close>

section \<open>Frames and typed rows\<close>

type_synonym text_levels = "(string option \<times> string option) list option"

record depth_data =
  dd_last_id :: "int option"
  dd_bids :: text_levels
  dd_asks :: text_levels

record kbook_elem =
  kb_symbol :: "string option"
  kb_bids :: "dec_levels option"
  kb_asks :: "dec_levels option"
  kb_checksum :: "int option"
  kb_timestamp :: "string option"

record l2_update =
  lu_side :: "string option"
  lu_price :: "string option"
  lu_qty :: "string option"
  lu_time :: "string option"

record l2_event =
  le_product :: "string option"
  le_type :: "string option"
  le_updates :: "l2_update list option"

datatype book_cols =
    BinanceDepth "depth_data option"
  | KrakenBook "string option" "kbook_elem list option"
  | CoinbaseL2 "string option" "int option" "l2_event list option"

record level_update =
  vu_side :: string
  vu_native :: "string option"
  vu_px :: "int option"
  vu_qty :: "int option"
  vu_time :: "int option"

datatype book_extra =
    BinanceBook "int option" "dec_levels option" "dec_levels option" int "bool option"
  | KrakenFrame "string option" "dec_levels option" "dec_levels option" "int option" "int option" "bool option"
  | CoinbaseEvent "string option" "level_update list option" "int option" "int option"

record book_row =
  k_symbol :: "string option"
  k_canonical :: string
  k_extra :: book_extra
  k_recv_ns :: int
  k_recv :: int
  k_conn :: string
  k_msg :: int
  k_topic :: string
  k_part :: int
  k_off :: int
  k_idx :: int
  k_ingest :: int

definition book_row_of :: "book_cols bronze_row \<Rightarrow> int \<Rightarrow> int \<Rightarrow> string option \<Rightarrow> book_extra \<Rightarrow> book_row" where
  "book_row_of b run_ts idx symbol extra =
     \<lparr>k_symbol = symbol, k_canonical = [], k_extra = extra, k_recv_ns = b_recv_ts_ns b,
      k_recv = trunc_div (b_recv_ts_ns b) 1000, k_conn = b_conn_id b, k_msg = b_conn_msg_seq b, k_topic = b_topic b,
      k_part = b_part b, k_off = b_off b, k_idx = idx, k_ingest = run_ts\<rparr>"

definition cast_levels :: "casts \<Rightarrow> text_levels \<Rightarrow> dec_levels option" where
  "cast_levels cs ls = map_option (map (\<lambda>(p, q). (Option.bind p (cast_dec cs), Option.bind q (cast_dec cs)))) ls"

definition l2_side :: "string option \<Rightarrow> string" where
  "l2_side s = (if s = Some ''bid'' then ''bid'' else ''ask'')"

definition l2_update_of :: "casts \<Rightarrow> l2_update \<Rightarrow> level_update" where
  "l2_update_of cs u =
     \<lparr>vu_side = l2_side (lu_side u), vu_native = lu_side u, vu_px = Option.bind (lu_price u) (cast_dec cs),
      vu_qty = Option.bind (lu_qty u) (cast_dec cs), vu_time = Option.bind (lu_time u) (cast_ts cs)\<rparr>"

text \<open>A frame whose JSON did not parse has \<open>NULL\<close> columns: one row for Binance, none where an array is exploded.\<close>

definition explode_book :: "casts \<Rightarrow> int \<Rightarrow> venue \<Rightarrow> book_cols bronze_row \<Rightarrow> book_row list" where
  "explode_book cs run_ts v b =
     (case v of
        Binance \<Rightarrow>
          (let data = (case b_cols b of Some (BinanceDepth d) \<Rightarrow> d | _ \<Rightarrow> None);
               bs = Option.bind data dd_bids; as = Option.bind data dd_asks
           in [book_row_of b run_ts 0 (b_symbol b)
                 (BinanceBook (Option.bind data dd_last_id) (cast_levels cs bs) (cast_levels cs as) (max (sql_size bs) (sql_size as)) None)])
      | Kraken \<Rightarrow>
          (case b_cols b of
             Some (KrakenBook typ data) \<Rightarrow>
               map (\<lambda>(i, d). book_row_of b run_ts i (kb_symbol d)
                  (KrakenFrame typ (kb_bids d) (kb_asks d) (kb_checksum d) (Option.bind (kb_timestamp d) (cast_ts cs)) None)) (posexplode data)
           | _ \<Rightarrow> [])
      | Coinbase \<Rightarrow>
          (case b_cols b of
             Some (CoinbaseL2 ts sq events) \<Rightarrow>
               map (\<lambda>(i, ev). book_row_of b run_ts i (le_product ev)
                  (CoinbaseEvent (le_type ev) (map_option (map (l2_update_of cs)) (le_updates ev)) sq (Option.bind ts (cast_ts cs))))
                 (posexplode events)
           | _ \<Rightarrow> []))"

definition name_book :: "registry \<Rightarrow> venue \<Rightarrow> book_row \<Rightarrow> book_row res" where
  "name_book registry v r = res_bind (canonical registry (exchange_name v) (k_symbol r)) (\<lambda>c. Inr (r\<lparr>k_canonical := c\<rparr>))"

definition books_project :: "casts \<Rightarrow> registry \<Rightarrow> int \<Rightarrow> venue \<Rightarrow> book_cols bronze_row list \<Rightarrow> book_row list res" where
  "books_project cs registry run_ts v frames = res_map (name_book registry v) (concat (map (explode_book cs run_ts v) frames))"

section \<open>The replay over the executors\<close>

text \<open>The last precisions received per pair; \<open>int(NULL)\<close> raises.\<close>

definition kraken_precisions :: "(int \<times> kraken_pair) list \<Rightarrow> (string \<times> (nat \<times> nat)) list res" where
  "kraken_precisions ps =
     res_bind (res_map (\<lambda>sy. (let newest = snd (max_by fst (filter (\<lambda>(_, p). kp_symbol p = sy) ps)) in
         (case (kp_price_precision newest, kp_qty_precision newest) of
            (Some pp, Some qp) \<Rightarrow> Inr (sy, (nat pp, nat qp)) | _ \<Rightarrow> Inl TypeError)))
       (remdups (map (\<lambda>(_, p). kp_symbol p) ps)))
     (\<lambda>rows. Inr (concat (map (\<lambda>(sy, pq). case sy of None \<Rightarrow> [] | Some s \<Rightarrow> [(s, pq)]) rows)))"

definition or_empty :: "string option \<Rightarrow> string" where
  "or_empty s = (case s of None \<Rightarrow> [] | Some x \<Rightarrow> x)"

definition frame_of :: "book_row \<Rightarrow> rframe" where
  "frame_of r =
     (case k_extra r of
        BinanceBook i bs as d g \<Rightarrow>
          \<lparr>f_symbol = or_empty (k_symbol r), f_canonical = k_canonical r, f_conn = k_conn r, f_kind = [], f_bids = bs, f_asks = as,
           f_checksum = None, f_updates = None, f_sequence = i, f_recv = k_recv_ns r, f_msg = k_msg r, f_topic = k_topic r,
           f_part = k_part r, f_off = k_off r, f_idx = k_idx r\<rparr>
      | KrakenFrame typ bs as c ts ok \<Rightarrow>
          \<lparr>f_symbol = or_empty (k_symbol r), f_canonical = k_canonical r, f_conn = k_conn r, f_kind = or_empty typ, f_bids = bs,
           f_asks = as, f_checksum = c, f_updates = None, f_sequence = None, f_recv = k_recv_ns r, f_msg = k_msg r, f_topic = k_topic r,
           f_part = k_part r, f_off = k_off r, f_idx = k_idx r\<rparr>
      | CoinbaseEvent typ us sq ts \<Rightarrow>
          \<lparr>f_symbol = or_empty (k_symbol r), f_canonical = k_canonical r, f_conn = k_conn r, f_kind = or_empty typ, f_bids = None,
           f_asks = None, f_checksum = None, f_updates = map_option (map (\<lambda>u. (vu_side u, vu_px u, vu_qty u))) us,
           f_sequence = sq, f_recv = k_recv_ns r, f_msg = k_msg r, f_topic = k_topic r,
           f_part = k_part r, f_off = k_off r, f_idx = k_idx r\<rparr>)"

record spread =
  sp_parts :: nat
  sp_hash :: "rkey \<Rightarrow> nat"

definition frame_order :: "rframe \<Rightarrow> string \<times> string \<times> int \<times> int" where
  "frame_order r = (f_symbol r, f_conn r, f_msg r, f_idx r)"

definition spread_frames :: "spread \<Rightarrow> rframe list \<Rightarrow> rframe list list" where
  "spread_frames sp rows =
     map (\<lambda>p. sort_key frame_order (filter (\<lambda>r. sp_hash sp (f_symbol r, f_conn r) = p) rows)) [0..<sp_parts sp]"

definition states_of :: "string \<Rightarrow> srow list \<Rightarrow> (rkey \<times> srow) list" where
  "states_of exchange rows =
     dict_update [] (map (\<lambda>s. ((sr_symbol s, sr_conn s), s)) (filter (\<lambda>s. sr_exchange s = exchange) rows))"

definition verdicts_of :: "rout list \<Rightarrow> ((int \<times> int \<times> int) \<times> bool option) list" where
  "verdicts_of outs = concat (map (\<lambda>x. case x of Verdict k ok \<Rightarrow> [(k, ok)] | _ \<Rightarrow> []) outs)"

definition books_of :: "rout list \<Rightarrow> brow list" where
  "books_of outs = concat (map (\<lambda>x. case x of BookRow b \<Rightarrow> [b] | _ \<Rightarrow> []) outs)"

definition states_in :: "rout list \<Rightarrow> srow list" where
  "states_in outs = concat (map (\<lambda>x. case x of StateRow s \<Rightarrow> [s] | _ \<Rightarrow> []) outs)"

definition replay_venue ::
  "spread \<Rightarrow> string \<Rightarrow> (string \<times> (nat \<times> nat)) list \<Rightarrow> srow list \<Rightarrow> int \<Rightarrow> book_row list \<Rightarrow>
   (((int \<times> int \<times> int) \<times> bool option) list \<times> brow list \<times> srow list) res" where
  "replay_venue sp exchange precs states run_ts typed =
     (let env = \<lparr>re_exchange = exchange, re_precisions = precs, re_states = states_of exchange states, re_run_ts = run_ts\<rparr> in
      res_bind (res_map (replay_partition env) (spread_frames sp (map frame_of typed))) (\<lambda>outs.
        Inr (verdicts_of (concat outs), books_of (concat outs), states_in (concat outs))))"

text \<open>The left join of the typed rows with the verdicts on the row's place in the topic.\<close>

definition set_verdict :: "bool option \<Rightarrow> book_row \<Rightarrow> book_row" where
  "set_verdict ok r = (case k_extra r of KrakenFrame typ bs as c ts _ \<Rightarrow> r\<lparr>k_extra := KrakenFrame typ bs as c ts ok\<rparr> | _ \<Rightarrow> r)"

definition join_verdicts :: "((int \<times> int \<times> int) \<times> bool option) list \<Rightarrow> book_row list \<Rightarrow> book_row list" where
  "join_verdicts vs typed =
     concat (map (\<lambda>r. case filter (\<lambda>(k, _). k = (k_part r, k_off r, k_idx r)) vs of
        [] \<Rightarrow> [set_verdict None r] | ms \<Rightarrow> map (\<lambda>(_, ok). set_verdict ok r) ms) typed)"

section \<open>Binance: a frame is the book\<close>

record grow =
  gr_exchange :: string
  gr_canonical :: string
  gr_symbol :: string
  gr_second :: int
  gr_depth :: int
  gr_seq :: int
  gr_ok :: "bool option"
  gr_bid_px :: "int option list"
  gr_bid_qty :: "int option list"
  gr_ask_px :: "int option list"
  gr_ask_qty :: "int option list"
  gr_recv :: int
  gr_conn :: string
  gr_msg :: int
  gr_topic :: string
  gr_part :: int
  gr_off :: int
  gr_idx :: int
  gr_ingest :: int

definition grow_of :: "brow \<Rightarrow> grow" where
  "grow_of b =
     \<lparr>gr_exchange = br_exchange b, gr_canonical = br_canonical b, gr_symbol = br_symbol b, gr_second = br_second b, gr_depth = br_depth b,
      gr_seq = br_seq b, gr_ok = br_ok b, gr_bid_px = map Some (br_bid_px b), gr_bid_qty = map Some (br_bid_qty b),
      gr_ask_px = map Some (br_ask_px b), gr_ask_qty = map Some (br_ask_qty b), gr_recv = br_recv b, gr_conn = br_conn b,
      gr_msg = br_msg b, gr_topic = br_topic b, gr_part = br_part b, gr_off = br_off b, gr_idx = br_idx b, gr_ingest = br_ingest_ts b\<rparr>"

text \<open>\<open>BIGINT\<close> arithmetic outside ANSI mode keeps the low 64 bits.\<close>

definition wrap64 :: "int \<Rightarrow> int" where
  "wrap64 x = sint (word_of_int x :: 64 word)"

definition cast_e8 :: "int option \<Rightarrow> int option" where
  "cast_e8 u = map_option (\<lambda>x. wrap64 (trunc_div x 100)) u"

definition second_of :: "book_row \<Rightarrow> int" where
  "second_of r = k_recv r div 1000000"

definition second_key :: "book_row \<Rightarrow> string option \<times> int" where
  "second_key r = (k_symbol r, second_of r)"

definition binance_row :: "int \<Rightarrow> book_row \<Rightarrow> grow res" where
  "binance_row run_ts r =
     (case (k_symbol r, k_extra r) of
        (Some sy, BinanceBook (Some i) (Some bs) (Some as) d gap) \<Rightarrow>
          Inr \<lparr>gr_exchange = ''binance'', gr_canonical = k_canonical r, gr_symbol = sy, gr_second = second_of r,
            gr_depth = min (int TOP) d, gr_seq = i, gr_ok = None,
            gr_bid_px = take TOP (map (cast_e8 \<circ> fst) bs), gr_bid_qty = take TOP (map (cast_e8 \<circ> snd) bs),
            gr_ask_px = take TOP (map (cast_e8 \<circ> fst) as), gr_ask_qty = take TOP (map (cast_e8 \<circ> snd) as),
            gr_recv = k_recv_ns r, gr_conn = k_conn r, gr_msg = k_msg r, gr_topic = k_topic r, gr_part = k_part r,
            gr_off = k_off r, gr_idx = k_idx r, gr_ingest = run_ts\<rparr>
      | _ \<Rightarrow> Inl NotNullViolation)"

definition binance_books :: "int \<Rightarrow> book_row list \<Rightarrow> grow list res" where
  "binance_books run_ts typed =
     res_map (\<lambda>key. binance_row run_ts (max_by (\<lambda>r. (k_recv_ns r, k_msg r)) (filter (\<lambda>r. second_key r = key) typed)))
       (remdups (map second_key typed))"

text \<open>\<open>seq_gap\<close>: \<open>lag(last_update_id)\<close> over the connection in message order, inside the batch.\<close>

definition last_update_id :: "book_row \<Rightarrow> int option" where
  "last_update_id r = (case k_extra r of BinanceBook i _ _ _ _ \<Rightarrow> i | _ \<Rightarrow> None)"

definition set_gap :: "bool option \<Rightarrow> book_row \<Rightarrow> book_row" where
  "set_gap gap r = (case k_extra r of BinanceBook i bs as d _ \<Rightarrow> r\<lparr>k_extra := BinanceBook i bs as d gap\<rparr> | _ \<Rightarrow> r)"

definition gap_after :: "book_row option \<Rightarrow> book_row \<Rightarrow> bool option" where
  "gap_after prev r =
     (case Option.bind prev last_update_id of None \<Rightarrow> None
      | Some p \<Rightarrow> (case last_update_id r of None \<Rightarrow> None | Some i \<Rightarrow> Some (i \<le> p)))"

fun lag_gaps :: "book_row option \<Rightarrow> book_row list \<Rightarrow> book_row list" where
  "lag_gaps prev [] = []"
| "lag_gaps prev (r # rs) = set_gap (gap_after prev r) r # lag_gaps (Some r) rs"

definition conn_of :: "book_row \<Rightarrow> string option \<times> string" where
  "conn_of r = (k_symbol r, k_conn r)"

definition seq_gaps :: "book_row list \<Rightarrow> book_row list" where
  "seq_gaps typed =
     concat (map (\<lambda>c. lag_gaps None (sort_key k_msg (filter (\<lambda>r. conn_of r = c) typed))) (remdups (map conn_of typed)))"

section \<open>Best bid and offer\<close>

record bbo =
  bb_exchange :: string
  bb_canonical :: string
  bb_second :: int
  bb_bid :: int
  bb_bid_qty :: int
  bb_ask :: int
  bb_ask_qty :: int
  bb_mid :: rat
  bb_spread_bps :: rat
  bb_imbalance :: rat
  bb_microprice :: rat
  bb_ok :: "bool option"
  bb_src :: int

definition dbl_div :: "(rat \<Rightarrow> rat) \<Rightarrow> rat \<Rightarrow> rat \<Rightarrow> rat option" where
  "dbl_div rnd x y = (if y = 0 then None else Some (rnd (x / y)))"

definition big :: "(rat \<Rightarrow> rat) \<Rightarrow> int \<Rightarrow> rat" where
  "big rnd x = rnd (of_int x)"

definition mid_of :: "(rat \<Rightarrow> rat) \<Rightarrow> int \<Rightarrow> int \<Rightarrow> rat option" where
  "mid_of rnd b a = dbl_div rnd (big rnd (wrap64 (b + a))) 200000000"

definition spread_of :: "(rat \<Rightarrow> rat) \<Rightarrow> int \<Rightarrow> int \<Rightarrow> rat option" where
  "spread_of rnd b a =
     Option.bind (dbl_div rnd (big rnd (wrap64 (b + a))) 2) (\<lambda>h.
       Option.bind (dbl_div rnd (big rnd (wrap64 (a - b))) h) (\<lambda>s. Some (rnd (s * 10000))))"

definition imbalance_of :: "(rat \<Rightarrow> rat) \<Rightarrow> int \<Rightarrow> int \<Rightarrow> rat option" where
  "imbalance_of rnd bq aq = dbl_div rnd (big rnd bq) (big rnd (wrap64 (bq + aq)))"

definition microprice_of :: "(rat \<Rightarrow> rat) \<Rightarrow> int \<Rightarrow> int \<Rightarrow> int \<Rightarrow> int \<Rightarrow> rat option" where
  "microprice_of rnd b bq a aq =
     Option.bind (dbl_div rnd (big rnd (wrap64 (wrap64 (b * aq) + wrap64 (a * bq)))) (big rnd (wrap64 (bq + aq))))
       (\<lambda>x. dbl_div rnd x 100000000)"

definition bbo_row :: "(rat \<Rightarrow> rat) \<Rightarrow> int \<Rightarrow> grow \<Rightarrow> bbo res" where
  "bbo_row rnd src g =
     (case (hd (gr_bid_px g), hd (gr_bid_qty g), hd (gr_ask_px g), hd (gr_ask_qty g)) of
        (Some b, Some bq, Some a, Some aq) \<Rightarrow>
          (case (mid_of rnd b a, spread_of rnd b a, imbalance_of rnd bq aq, microprice_of rnd b bq a aq) of
             (Some m, Some s, Some im, Some mp) \<Rightarrow>
               Inr \<lparr>bb_exchange = gr_exchange g, bb_canonical = gr_canonical g, bb_second = gr_second g, bb_bid = b, bb_bid_qty = bq,
                 bb_ask = a, bb_ask_qty = aq, bb_mid = m, bb_spread_bps = s, bb_imbalance = im, bb_microprice = mp,
                 bb_ok = gr_ok g, bb_src = src\<rparr>
           | _ \<Rightarrow> Inl NotNullViolation)
      | _ \<Rightarrow> Inl NotNullViolation)"

definition bbo_rows :: "(rat \<Rightarrow> rat) \<Rightarrow> int \<Rightarrow> grow list \<Rightarrow> bbo list res" where
  "bbo_rows rnd src gs = res_map (bbo_row rnd src) (filter (\<lambda>g. gr_bid_px g \<noteq> [] \<and> gr_ask_px g \<noteq> []) gs)"

section \<open>The stage and the rebuild\<close>

record books =
  bk_silver :: "venue \<Rightarrow> book_row table"
  bk_gold :: "grow table"
  bk_bbo :: "bbo list"
  bk_state :: "srow list"
  bk_commits :: "(int \<times> int) list"

record books_env =
  be_bronze :: "venue \<Rightarrow> book_cols bronze_row table"
  be_casts :: casts
  be_instruments :: instruments_doc
  be_pairs :: "(int \<times> kraken_pair) list"
  be_spread :: spread
  be_rnd :: "rat \<Rightarrow> rat"

definition book_storable :: "book_row \<Rightarrow> bool" where
  "book_storable r = (k_symbol r \<noteq> None \<and>
     (case k_extra r of
        BinanceBook i bs as d g \<Rightarrow> i \<noteq> None \<and> bs \<noteq> None \<and> as \<noteq> None
      | KrakenFrame typ bs as c ts ok \<Rightarrow> typ \<noteq> None \<and> bs \<noteq> None \<and> as \<noteq> None \<and> c \<noteq> None
      | CoinbaseEvent typ us sq ts \<Rightarrow> typ \<noteq> None \<and> us \<noteq> None \<and> sq \<noteq> None \<and> ts \<noteq> None))"

text \<open>\<open>MERGE\<close> on (exchange, symbol, connection): the matched rows are replaced, the others inserted.\<close>

definition state_key :: "srow \<Rightarrow> string \<times> string \<times> string" where
  "state_key s = (sr_exchange s, sr_symbol s, sr_conn s)"

definition write_state :: "srow list \<Rightarrow> srow list \<Rightarrow> srow list" where
  "write_state tbl fresh =
     map (\<lambda>t. case filter (\<lambda>s. state_key s = state_key t) fresh of [] \<Rightarrow> t | s # _ \<Rightarrow> s) tbl @
     filter (\<lambda>s. state_key s \<notin> set (map state_key tbl)) fresh"

definition gold_props :: "venue \<Rightarrow> int \<Rightarrow> summary" where
  "gold_props v src = [(JOB, JOB_DECODE), (position_key v, show_int src)]"

text \<open>The commits after the silver append: the gold rows, their best bids and offers, the state.\<close>

definition process_gold ::
  "books_env \<Rightarrow> venue \<Rightarrow> int \<Rightarrow> grow list res \<Rightarrow> srow list option \<Rightarrow> int \<Rightarrow> books \<Rightarrow> books \<times> int res" where
  "process_gold env v src rows state n db =
     (case (rows, bk_commits db) of
        (Inl e, _) \<Rightarrow> (db, Inl e)
      | (_, []) \<Rightarrow> (db, Inl OSError)
      | (Inr gs, (i, time) # cs) \<Rightarrow>
          (let g = table_append (bk_gold db) i time (gold_props v src) gs;
               db1 = db\<lparr>bk_gold := g, bk_commits := cs\<rparr>
           in (case (bbo_rows (be_rnd env) i gs, cs) of
                 (Inl e, _) \<Rightarrow> (db1, Inl e)
               | (_, []) \<Rightarrow> (db1, Inl OSError)
               | (Inr bs, _ # cs') \<Rightarrow>
                   (let db2 = db1\<lparr>bk_bbo := bk_bbo db1 @ bs, bk_commits := cs'\<rparr>;
                        total = n + int (length gs) + int (length bs)
                    in (case state of None \<Rightarrow> (db2, Inr total)
                        | Some ss \<Rightarrow>
                            (case cs' of [] \<Rightarrow> (db2, Inl OSError)
                             | _ # cs'' \<Rightarrow> (db2\<lparr>bk_state := write_state (bk_state db2) ss, bk_commits := cs''\<rparr>, Inr total)))))))"

definition process_silver :: "venue \<Rightarrow> book_row list \<Rightarrow> int \<Rightarrow> books \<Rightarrow> books \<times> unit res" where
  "process_silver v typed src db =
     (if \<not> list_all book_storable typed then (db, Inl NotNullViolation)
      else (case bk_commits db of [] \<Rightarrow> (db, Inl OSError)
            | (i, time) # cs \<Rightarrow>
                (db\<lparr>bk_silver := (bk_silver db)(v := table_append (bk_silver db v) i time (decode_props SRC_SNAPSHOT_ID src) typed),
                  bk_commits := cs\<rparr>, Inr ())))"

text \<open>
  Spark is lazy: Kraken's replay runs when the verdicts are joined into the silver append, Coinbase's only
  when its gold rows are appended, after the silver commit.
\<close>

definition process :: "books_env \<Rightarrow> registry \<Rightarrow> (string \<times> (nat \<times> nat)) list \<Rightarrow> venue \<Rightarrow> book_cols bronze_row list \<Rightarrow> int \<Rightarrow> int \<Rightarrow> books \<Rightarrow> books \<times> int res" where
  "process env registry precs v frames src run_ts db =
     (case books_project (be_casts env) registry run_ts v frames of Inl e \<Rightarrow> (db, Inl e)
      | Inr typed \<Rightarrow>
          (case v of
             Binance \<Rightarrow>
               (case process_silver v (seq_gaps typed) src db of (db1, Inl e) \<Rightarrow> (db1, Inl e)
                | (db1, Inr _) \<Rightarrow> process_gold env v src (binance_books run_ts typed) None (int (length typed)) db1)
           | Kraken \<Rightarrow>
               (case replay_venue (be_spread env) ''kraken'' precs (bk_state db) run_ts typed of Inl e \<Rightarrow> (db, Inl e)
                | Inr (verdicts, bs, ss) \<Rightarrow>
                    (let rows = join_verdicts verdicts typed in
                     (case process_silver v rows src db of (db1, Inl e) \<Rightarrow> (db1, Inl e)
                      | (db1, Inr _) \<Rightarrow> process_gold env v src (Inr (map grow_of bs)) (Some ss) (int (length rows)) db1)))
           | Coinbase \<Rightarrow>
               (case process_silver v typed src db of (db1, Inl e) \<Rightarrow> (db1, Inl e)
                | (db1, Inr _) \<Rightarrow>
                    (case replay_venue (be_spread env) ''coinbase'' [] (bk_state db) run_ts typed of
                       Inl e \<Rightarrow> process_gold env v src (Inl e) None 0 db1
                     | Inr (_, bs, ss) \<Rightarrow> process_gold env v src (Inr (map grow_of bs)) (Some ss) (int (length typed)) db1))))"

definition books_venue :: "books_env \<Rightarrow> registry \<Rightarrow> (string \<times> (nat \<times> nat)) list \<Rightarrow> int \<Rightarrow> venue \<Rightarrow> books \<Rightarrow> books \<times> int res" where
  "books_venue env registry precs run_ts v db =
     (case current_snapshot_id (be_bronze env v) of None \<Rightarrow> (db, Inr 0)
      | Some end_id \<Rightarrow>
          (let start = src_position (bk_silver db v) SRC_SNAPSHOT_ID in
           if level_with start end_id then (db, Inr 0)
           else (case incremental_read (be_bronze env v) start end_id of Inl e \<Rightarrow> (db, Inl e)
                 | Inr frames \<Rightarrow> process env registry precs v frames end_id run_ts db)))"

fun books_venues :: "books_env \<Rightarrow> registry \<Rightarrow> (string \<times> (nat \<times> nat)) list \<Rightarrow> int \<Rightarrow> venue list \<Rightarrow> books \<Rightarrow> books \<times> int res" where
  "books_venues env registry precs run_ts [] db = (db, Inr 0)"
| "books_venues env registry precs run_ts (v # vs) db =
     (case books_venue env registry precs run_ts v db of (db', Inl e) \<Rightarrow> (db', Inl e)
      | (db', Inr n) \<Rightarrow>
          (case books_venues env registry precs run_ts vs db' of (db'', Inl e) \<Rightarrow> (db'', Inl e) | (db'', Inr m) \<Rightarrow> (db'', Inr (n + m))))"

definition BOOKS :: "venue list" where "BOOKS = [Binance, Kraken, Coinbase]"

definition books_setup :: "books_env \<Rightarrow> (registry \<times> (string \<times> (nat \<times> nat)) list) res" where
  "books_setup env =
     res_bind (load_instruments (be_instruments env)) (\<lambda>registry.
       res_bind (kraken_precisions (be_pairs env)) (\<lambda>precs. Inr (registry, precs)))"

definition books_stage :: "books_env \<Rightarrow> int \<Rightarrow> books \<Rightarrow> books \<times> int res" where
  "books_stage env run_ts db =
     (case books_setup env of Inl e \<Rightarrow> (db, Inl e)
      | Inr (registry, precs) \<Rightarrow> books_venues env registry precs run_ts BOOKS db)"

fun books_days ::
  "books_env \<Rightarrow> registry \<Rightarrow> (string \<times> (nat \<times> nat)) list \<Rightarrow> venue \<Rightarrow> book_cols bronze_row list \<Rightarrow> int \<Rightarrow> int \<Rightarrow> int list \<Rightarrow> books \<Rightarrow> books \<times> int res" where
  "books_days env registry precs v rows end_id run_ts [] db = (db, Inr 0)"
| "books_days env registry precs v rows end_id run_ts (d # ds) db =
     (case process env registry precs v (filter (\<lambda>b. b_recv_ts b div US_PER_DAY = d) rows) end_id run_ts db of (db', Inl e) \<Rightarrow> (db', Inl e)
      | (db', Inr n) \<Rightarrow>
          (case books_days env registry precs v rows end_id run_ts ds db' of (db'', Inl e) \<Rightarrow> (db'', Inl e) | (db'', Inr m) \<Rightarrow> (db'', Inr (n + m))))"

fun books_rebuild_venues ::
  "books_env \<Rightarrow> registry \<Rightarrow> (string \<times> (nat \<times> nat)) list \<Rightarrow> int \<Rightarrow> venue list \<Rightarrow> books \<Rightarrow> books \<times> int res" where
  "books_rebuild_venues env registry precs run_ts [] db = (db, Inr 0)"
| "books_rebuild_venues env registry precs run_ts (v # vs) db =
     (case current_snapshot_id (be_bronze env v) of None \<Rightarrow> books_rebuild_venues env registry precs run_ts vs db
      | Some end_id \<Rightarrow>
          (let rows = rows_at (be_bronze env v) end_id in
           (case books_days env registry precs v rows end_id run_ts (sort (remdups (map (\<lambda>b. b_recv_ts b div US_PER_DAY) rows))) db of
              (db', Inl e) \<Rightarrow> (db', Inl e)
            | (db', Inr n) \<Rightarrow>
                (case books_rebuild_venues env registry precs run_ts vs db' of (db'', Inl e) \<Rightarrow> (db'', Inl e) | (db'', Inr m) \<Rightarrow> (db'', Inr (n + m))))))"

definition books_rebuild :: "books_env \<Rightarrow> int \<Rightarrow> string list \<Rightarrow> books \<Rightarrow> books \<times> int res" where
  "books_rebuild env run_ts exchanges db =
     (case books_setup env of Inl e \<Rightarrow> (db, Inl e)
      | Inr (registry, precs) \<Rightarrow>
          books_rebuild_venues env registry precs run_ts (filter (\<lambda>v. exchanges = [] \<or> exchange_name v \<in> set exchanges) BOOKS) db)"

section \<open>Every Kraken frame has its verdict\<close>

lemma verdicts_of_simps [simp]:
  "verdicts_of [] = []" "verdicts_of (xs @ ys) = verdicts_of xs @ verdicts_of ys"
  "verdicts_of (Verdict k v # xs) = (k, v) # verdicts_of xs" "verdicts_of (StateRow s # xs) = verdicts_of xs"
  "verdicts_of (map (\<lambda>x. BookRow (f x)) zs) = []"
  by (simp_all add: verdicts_of_def)

lemma flush_no_verdict: "flush_seconds env u b st = Inr (outs, st') \<Longrightarrow> verdicts_of outs = []"
  by (auto simp: flush_seconds_def Let_def split: if_splits option.splits)

lemma apply_verdict:
  "re_exchange env = ''kraken'' \<Longrightarrow> apply_frame env r b st = Inr (outs, c) \<Longrightarrow> map fst (verdicts_of outs) = [frame_key r]"
  by (auto simp: apply_frame_def Let_def res_bind_Inr split: if_splits)

lemma leave_no_verdict: "leave_key env ctx = Inr outs \<Longrightarrow> verdicts_of outs = []"
  by (auto simp: leave_key_def res_bind_Inr split: option.splits if_splits)

lemma finish_no_verdict: "finish_key env ctx = Inr outs \<Longrightarrow> verdicts_of outs = []"
  by (cases ctx) (auto simp: finish_key_def res_bind_Inr split: if_splits, drule flush_no_verdict, simp)

lemma replay_verdicts:
  "re_exchange env = ''kraken'' \<Longrightarrow> replay_from env ctx rows = Inr outs \<Longrightarrow> map fst (verdicts_of outs) = map frame_key rows"
proof (induction rows arbitrary: ctx outs)
  case Nil
  then show ?case using finish_no_verdict by simp
next
  case (Cons r rs)
  from Cons.prems(2) obtain o1 c o2 c' o3 where o: "enter_key env r ctx = Inr (o1, c)" "walk_frame env r c = Inr (o2, c')"
    "replay_from env (Some c') rs = Inr o3" "outs = o1 @ o2 @ o3" by (auto simp: res_bind_Inr)
  have "verdicts_of o1 = []"
    using o(1) by (auto simp: enter_key_def res_bind_Inr dest: leave_no_verdict split: option.splits if_splits)
  moreover have "map fst (verdicts_of o2) = [frame_key r]"
    using o(2) apply_verdict [OF Cons.prems(1)] by (auto simp: walk_frame_def res_bind_Inr dest: flush_no_verdict)
  ultimately show ?case using o(4) Cons.IH [OF Cons.prems(1) o(3)] by simp
qed

definition spread_ok :: "spread \<Rightarrow> bool" where
  "spread_ok sp = (0 < sp_parts sp \<and> (\<forall>k. sp_hash sp k < sp_parts sp))"

lemma filter_classes:
  "(\<And>x. x \<in> set xs \<Longrightarrow> f x < n) \<Longrightarrow> mset (concat (map (\<lambda>p. filter (\<lambda>x. f x = p) xs) [0..<n])) = mset xs"
proof (induction n arbitrary: xs)
  case (Suc n)
  have low: "mset (concat (map (\<lambda>p. filter (\<lambda>x. f x = p) (filter (\<lambda>x. f x < n) xs)) [0..<n])) = mset (filter (\<lambda>x. f x < n) xs)"
    by (rule Suc.IH) simp
  have drop: "map (\<lambda>p. filter (\<lambda>x. f x = p) (filter (\<lambda>x. f x < n) xs)) [0..<n] = map (\<lambda>p. filter (\<lambda>x. f x = p) xs) [0..<n]"
    by (rule map_cong) (auto intro: filter_cong)
  have high: "filter (\<lambda>x. f x = n) xs = filter (\<lambda>x. \<not> f x < n) xs"
    using Suc.prems by (intro filter_cong) (auto simp: less_Suc_eq)
  have "mset xs = mset (filter (\<lambda>x. f x < n) xs) + mset (filter (\<lambda>x. \<not> f x < n) xs)" by (induction xs) simp_all
  then show ?case using low [unfolded drop] high by (simp del: mset_filter)
next
  case 0
  then show ?case by (cases xs) auto
qed

lemma spread_frames_mset: "spread_ok sp \<Longrightarrow> mset (concat (spread_frames sp rows)) = mset rows"
proof -
  assume ok: "spread_ok sp"
  have "mset (concat (map (\<lambda>p. sort_key frame_order (g p)) ps)) = mset (concat (map g ps))" for g ps
    by (induction ps) simp_all
  from this [of "\<lambda>p. filter (\<lambda>r. sp_hash sp (rframe.f_symbol r, f_conn r) = p) rows" "[0..<sp_parts sp]"] show ?thesis
    using ok filter_classes [of rows "\<lambda>r. sp_hash sp (rframe.f_symbol r, f_conn r)" "sp_parts sp"]
    by (simp add: spread_frames_def spread_ok_def)
qed

lemma replay_parts_verdicts:
  assumes "re_exchange env = ''kraken''" and "res_map (replay_partition env) parts = Inr outs"
  shows "map fst (verdicts_of (concat outs)) = map frame_key (concat parts)"
  using assms(2)
proof (induction parts arbitrary: outs)
  case (Cons p ps)
  then show ?case using replay_verdicts [OF assms(1)] by (auto simp: res_bind_Inr replay_partition_def)
qed simp

lemma replay_venue_verdicts:
  assumes "replay_venue sp ''kraken'' precs states run_ts typed = Inr (vs, bs, ss)" and "spread_ok sp"
  shows "mset (map fst vs) = mset (map (frame_key \<circ> frame_of) typed)"
proof -
  let ?env = "\<lparr>re_exchange = ''kraken'', re_precisions = precs, re_states = states_of ''kraken'' states, re_run_ts = run_ts\<rparr>"
  obtain outs where o: "res_map (replay_partition ?env) (spread_frames sp (map frame_of typed)) = Inr outs" "vs = verdicts_of (concat outs)"
    using assms(1) by (auto simp: replay_venue_def res_bind_Inr)
  have "map fst vs = map frame_key (concat (spread_frames sp (map frame_of typed)))"
    using replay_parts_verdicts [OF _ o(1)] o(2) by simp
  then have "mset (map fst vs) = image_mset frame_key (mset (concat (spread_frames sp (map frame_of typed))))" by simp
  then show ?thesis by (simp add: spread_frames_mset [OF assms(2)] image_mset.compositionality)
qed

section \<open>The silver book tables stay in step with bronze\<close>

definition unflagged :: "book_extra \<Rightarrow> book_extra" where
  "unflagged x = (case x of BinanceBook i bs as d _ \<Rightarrow> BinanceBook i bs as d None
     | KrakenFrame typ bs as c ts _ \<Rightarrow> KrakenFrame typ bs as c ts None | CoinbaseEvent typ us sq ts \<Rightarrow> CoinbaseEvent typ us sq ts)"

definition book_view :: "book_row \<Rightarrow> book_row" where
  "book_view r = r\<lparr>k_ingest := 0, k_extra := unflagged (k_extra r)\<rparr>"

definition book_typed :: "casts \<Rightarrow> registry \<Rightarrow> venue \<Rightarrow> book_cols bronze_row list \<Rightarrow> book_row list" where
  "book_typed cs registry v frames =
     concat (map (\<lambda>r. case name_book registry v r of Inl _ \<Rightarrow> [] | Inr x \<Rightarrow> [book_view x]) (concat (map (explode_book cs 0 v) frames)))"

interpretation books_layer: incremental_layer "book_typed cs registry v" "each \<circ> book_view" SRC_SNAPSHOT_ID for cs registry v
  by unfold_locales (simp_all add: book_typed_def SRC_SNAPSHOT_ID_def JOB_def)

lemma book_row_of_clock: "book_row_of b run_ts i s x = (book_row_of b 0 i s x)\<lparr>k_ingest := run_ts\<rparr>"
  by (simp add: book_row_of_def)

lemma explode_book_clock: "explode_book cs run_ts v b = map (k_ingest_update (\<lambda>_. run_ts)) (explode_book cs 0 v b)"
  unfolding explode_book_def book_row_of_clock [of b run_ts]
  by (auto simp: Let_def book_row_of_def split: venue.splits option.splits book_cols.splits prod.splits)

lemma name_book_clock:
  "name_book reg v (r\<lparr>k_ingest := run_ts\<rparr>) = (case name_book reg v r of Inl e \<Rightarrow> Inl e | Inr x \<Rightarrow> Inr (x\<lparr>k_ingest := run_ts\<rparr>))"
  by (simp add: name_book_def res_bind_def split: sum.splits)

lemma books_project_typed:
  assumes "books_project cs registry run_ts v frames = Inr typed"
  shows "map book_view typed = book_typed cs registry v frames"
proof -
  let ?g = "\<lambda>r. case name_book registry v r of Inl _ \<Rightarrow> [] | Inr x \<Rightarrow> [book_view x]"
  have ex: "concat (map (explode_book cs run_ts v) frames) =
      map (k_ingest_update (\<lambda>_. run_ts)) (concat (map (explode_book cs 0 v) frames))"
    by (simp add: map_concat comp_def explode_book_clock [where run_ts = run_ts, symmetric])
  have "res_map (name_book registry v) (map (k_ingest_update (\<lambda>_. run_ts)) rs) = Inr ys \<Longrightarrow> map book_view ys = concat (map ?g rs)" for rs ys
    by (induction rs arbitrary: ys) (auto simp: res_bind_Inr name_book_clock book_view_def split: sum.splits)
  from this [OF assms [unfolded books_project_def ex]] show ?thesis by (simp add: book_typed_def)
qed

definition place :: "book_row \<Rightarrow> int \<times> int \<times> int" where
  "place r = (k_part r, k_off r, k_idx r)"

lemma frame_key_place: "frame_key (frame_of r) = place r"
  by (simp add: frame_key_def frame_of_def place_def split: book_extra.splits)

lemma book_view_flags [simp]: "book_view (set_verdict ok r) = book_view r" "book_view (set_gap g r) = book_view r"
  by (simp_all add: book_view_def set_verdict_def set_gap_def unflagged_def split: book_extra.splits)

lemma filter_key_distinct: "distinct (map fst vs) \<Longrightarrow> length (filter (\<lambda>(k, _). k = key) vs) \<le> 1"
  by (induction vs) (auto simp: filter_empty_conv image_iff)

lemma join_view: "distinct (map fst vs) \<Longrightarrow> map book_view (join_verdicts vs typed) = map book_view typed"
proof (induction typed)
  case (Cons r rs)
  have "length (filter (\<lambda>(k, _). k = (k_part r, k_off r, k_idx r)) vs) \<le> 1" by (rule filter_key_distinct [OF Cons.prems])
  then have "map book_view (join_verdicts vs [r]) = [book_view r]"
    by (auto simp: join_verdicts_def split: list.splits)
  moreover have "join_verdicts vs (r # rs) = join_verdicts vs [r] @ join_verdicts vs rs" by (simp add: join_verdicts_def)
  ultimately show ?case using Cons by simp
qed (simp add: join_verdicts_def)

lemma lag_gaps_view: "map book_view (lag_gaps prev rs) = map book_view rs"
  by (induction rs arbitrary: prev) simp_all

lemma group_mset: "mset (concat (map (\<lambda>k. filter (\<lambda>x. f x = k) xs) (remdups (map f xs)))) = mset xs"
proof -
  have "mset (concat (map (\<lambda>k. filter (\<lambda>x. f x = k) ys) ks)) = mset (filter (\<lambda>x. f x \<in> set ks) ys)" if "distinct ks" for ks ys
    using that
  proof (induction ks)
    case (Cons k ks)
    have "mset (filter (\<lambda>x. f x \<in> set (k # ks)) zs) = mset (filter (\<lambda>x. f x = k) zs) + mset (filter (\<lambda>x. f x \<in> set ks) zs)" for zs
      using Cons.prems by (induction zs) auto
    then show ?case using Cons by (simp del: mset_filter)
  qed simp
  from this [of "remdups (map f xs)" xs] show ?thesis by (simp del: mset_filter)
qed

lemma seq_gaps_view: "mset (map book_view (seq_gaps typed)) = mset (map book_view typed)"
proof -
  let ?g = "\<lambda>c. filter (\<lambda>r. conn_of r = c) typed"
  have "mset (map book_view (concat (map (\<lambda>c. lag_gaps None (sort_key k_msg (?g c))) cs))) = mset (map book_view (concat (map ?g cs)))" for cs
    by (induction cs) (simp_all add: lag_gaps_view)
  then have "mset (map book_view (seq_gaps typed)) = image_mset book_view (mset (concat (map ?g (remdups (map conn_of typed)))))"
    by (simp add: seq_gaps_def)
  then show ?thesis by (simp only: group_mset mset_map)
qed

lemma name_book_place: "name_book reg v r = Inr x \<Longrightarrow> place x = place r"
  by (auto simp: name_book_def res_bind_Inr place_def)

lemma project_places:
  "books_project cs registry run_ts v frames = Inr typed \<Longrightarrow> map place typed = map place (concat (map (explode_book cs run_ts v) frames))"
proof -
  have "res_map (name_book registry v) rs = Inr ys \<Longrightarrow> map place ys = map place rs" for rs ys
    by (induction rs arbitrary: ys) (auto simp: res_bind_Inr dest: name_book_place)
  then show "books_project cs registry run_ts v frames = Inr typed \<Longrightarrow> ?thesis" by (simp add: books_project_def)
qed

lemma explode_places: "map place (explode_book cs run_ts v b) = map (\<lambda>i. (b_part b, b_off b, int i)) [0..<length (explode_book cs run_ts v b)]"
  by (rule nth_equalityI)
    (auto simp: explode_book_def Let_def posexplode_def place_def book_row_of_def split: venue.splits option.splits book_cols.splits)

lemma explode_places_distinct:
  "distinct (map (\<lambda>b. (b_part b, b_off b)) frames) \<Longrightarrow> distinct (map place (concat (map (explode_book cs run_ts v) frames)))"
proof (induction frames)
  case (Cons b frames)
  have ids: "p \<in> set (map place (explode_book cs run_ts v c)) \<Longrightarrow> fst p = b_part c \<and> fst (snd p) = b_off c" for p c
    unfolding explode_places by auto
  have "set (map place (explode_book cs run_ts v b)) \<inter> set (map place (concat (map (explode_book cs run_ts v) frames))) = {}"
  proof (rule ccontr)
    assume "\<not> ?thesis"
    then obtain p c where p: "p \<in> set (map place (explode_book cs run_ts v b))" "c \<in> set frames"
        "p \<in> set (map place (explode_book cs run_ts v c))"
      unfolding set_map set_concat by blast
    then have "(b_part b, b_off b) = (b_part c, b_off c)" using ids [of p b] ids [of p c] by metis
    then show False using Cons.prems p(2) by (force simp: image_iff)
  qed
  moreover have "distinct (map place (explode_book cs run_ts v b))"
    unfolding explode_places by (auto simp: distinct_map inj_on_def)
  ultimately show ?case using Cons by auto
qed simp

lemma rows_at_prefix: "\<exists>rest. table_rows t = rows_at t i @ rest"
proof -
  have "\<exists>rest. ss = upto_snap i ss @ rest" for ss :: "'a snapshot list" by (induction ss) auto
  then obtain rest where "snaps t = upto_snap i (snaps t) @ rest" by blast
  then have "table_rows t = rows_at t i @ concat (map added rest)" unfolding table_rows_def rows_at_def by (metis concat_append map_append)
  then show ?thesis ..
qed

lemma read_is_part:
  assumes "in_step f vw key up down" and "distinct (map snap_id (snaps up))"
    and "incremental_read up (src_position down key) e = Inr rows"
  shows "\<exists>pre post. table_rows up = pre @ rows @ post"
proof (cases "src_position down key")
  case None
  then have "rows = rows_at up e" using assms(3) by (simp add: incremental_read_def has_position_def)
  then show ?thesis using rows_at_prefix [of up e] by (metis append_Nil)
next
  case (Some s)
  then obtain j where j: "s = show_int j" using assms(1) by (auto simp: in_step_def)
  then have "rows_between up j e = Inr rows" using assms(3) Some by (simp add: incremental_read_def has_position_def)
  then have "rows_at up e = rows_at up j @ rows" by (rule rows_between_at [OF assms(2)])
  then show ?thesis using rows_at_prefix [of up e] by (metis append_assoc)
qed

section \<open>Every commit of a books run\<close>

lemma process_gold_silver:
  assumes "process_gold env v src rows st n db = (db', r)"
  shows "bk_silver db' = bk_silver db" and "suffix (bk_commits db') (bk_commits db)"
proof -
  have "bk_silver db' = bk_silver db \<and> suffix (bk_commits db') (bk_commits db)"
  proof (cases rows)
    case (Inr gs)
    show ?thesis
    proof (cases "bk_commits db")
      case (Cons c cs)
      obtain i time where c: "c = (i, time)" by (cases c)
      show ?thesis
      proof (cases "bbo_rows (be_rnd env) i gs")
        case bb: (Inr bs)
        show ?thesis
        proof (cases cs)
          case cs: (Cons d ds)
          show ?thesis
            using assms by (cases st; cases ds) (auto simp: process_gold_def Let_def Inr Cons c bb cs suffix_Cons)
        qed (use assms in \<open>auto simp: process_gold_def Let_def Inr Cons c bb suffix_Cons\<close>)
      qed (use assms in \<open>auto simp: process_gold_def Let_def Inr Cons c suffix_Cons split: list.splits\<close>)
    qed (use assms in \<open>simp add: process_gold_def Inr\<close>)
  qed (use assms in \<open>simp add: process_gold_def\<close>)
  then show "bk_silver db' = bk_silver db" "suffix (bk_commits db') (bk_commits db)" by simp_all
qed

lemma process_silver_cases:
  assumes "process_silver v rows src db = (db', r)"
  obtains (same) e where "db' = db" "r = Inl e"
  | (commit) i time cs where "r = Inr ()" "bk_commits db = (i, time) # cs"
      "db' = db\<lparr>bk_silver := (bk_silver db)(v := table_append (bk_silver db v) i time (decode_props SRC_SNAPSHOT_ID src) rows), bk_commits := cs\<rparr>"
proof (cases "list_all book_storable rows")
  case ok: True
  show thesis
  proof (cases "bk_commits db")
    case Nil
    then show ?thesis using assms ok by (intro same [of OSError]) (simp_all add: process_silver_def)
  next
    case (Cons c cs)
    obtain i time where "c = (i, time)" by (cases c)
    then show ?thesis using assms ok Cons by (intro commit [of i time cs]) (simp_all add: process_silver_def)
  qed
next
  case False
  then show thesis using assms by (intro same [of NotNullViolation]) (simp_all add: process_silver_def)
qed

text \<open>A run of \<open>process\<close> either leaves the silver tables as they were or appends the typed frames, once.\<close>

definition appended :: "books_env \<Rightarrow> registry \<Rightarrow> venue \<Rightarrow> book_cols bronze_row list \<Rightarrow> int \<Rightarrow> books \<Rightarrow> books \<Rightarrow> bool" where
  "appended env registry v frames src db db' =
     (bk_silver db' = bk_silver db \<and> bk_commits db' = bk_commits db \<or>
      (\<exists>rows i time cs. mset (map book_view rows) = mset (book_typed (be_casts env) registry v frames) \<and>
         bk_commits db = (i, time) # cs \<and> suffix (bk_commits db') cs \<and>
         bk_silver db' = (bk_silver db)(v := table_append (bk_silver db v) i time (decode_props SRC_SNAPSHOT_ID src) rows)))"

lemma appended_by:
  assumes "process_silver v rows src db = (db1, q)" and "mset (map book_view rows) = mset (book_typed (be_casts env) registry v frames)"
    and "case q of Inl e \<Rightarrow> db' = db1 | Inr _ \<Rightarrow> (\<exists>gs st n. process_gold env v src gs st n db1 = (db', r))"
  shows "appended env registry v frames src db db'"
  using assms(1)
proof (cases rule: process_silver_cases)
  case (same e)
  then show ?thesis using assms(3) by (simp add: appended_def)
next
  case (commit i time cs)
  then obtain gs st n where "process_gold env v src gs st n db1 = (db', r)" using assms(3) by auto
  from process_gold_silver [OF this] commit assms(2) show ?thesis
    unfolding appended_def by (intro disjI2 exI [of _ rows] exI [of _ i] exI [of _ time] exI [of _ cs]) simp
qed

lemma process_appended:
  assumes "process env registry precs v frames src run_ts db = (db', r)" and "spread_ok (be_spread env)"
    and "v = Kraken \<Longrightarrow> distinct (map (\<lambda>b. (b_part b, b_off b)) frames)"
  shows "appended env registry v frames src db db'"
proof (cases "books_project (be_casts env) registry run_ts v frames")
  case (Inl e)
  then show ?thesis using assms(1) by (simp add: process_def appended_def)
next
  case (Inr typed)
  have view: "map book_view typed = book_typed (be_casts env) registry v frames" by (rule books_project_typed [OF Inr])
  show ?thesis
  proof (cases v)
    case Binance
    obtain db1 q where s: "process_silver v (seq_gaps typed) src db = (db1, q)" by (metis prod.exhaust)
    show ?thesis
      by (rule appended_by [OF s, where r = r]) (use assms(1) s view Inr Binance seq_gaps_view in \<open>auto simp: process_def simp del: mset_map split: sum.splits\<close>)
  next
    case Coinbase
    obtain db1 q where s: "process_silver v typed src db = (db1, q)" by (metis prod.exhaust)
    show ?thesis
      by (rule appended_by [OF s, where r = r]) (use assms(1) s view Inr Coinbase in \<open>auto simp: process_def split: sum.splits prod.splits\<close>)
  next
    case Kraken
    show ?thesis
    proof (cases "replay_venue (be_spread env) ''kraken'' precs (bk_state db) run_ts typed")
      case (Inl e)
      then show ?thesis using assms(1) Inr Kraken by (simp add: process_def appended_def)
    next
      case replay: (Inr out)
      obtain vs bs ss where out: "out = (vs, bs, ss)" by (cases out)
      have "distinct (map place typed)"
        using explode_places_distinct [OF assms(3) [OF Kraken]] project_places [OF Inr] by simp
      moreover have "mset (map fst vs) = mset (map place typed)"
        using replay_venue_verdicts [OF replay [unfolded out] assms(2)] by (simp add: comp_def frame_key_place)
      ultimately have "distinct (map fst vs)" by (metis mset_eq_imp_distinct_iff)
      then have jv: "map book_view (join_verdicts vs typed) = map book_view typed" by (rule join_view)
      obtain db1 q where s: "process_silver v (join_verdicts vs typed) src db = (db1, q)" by (metis prod.exhaust)
      show ?thesis
        by (rule appended_by [OF s, where r = r])
          (use assms(1) s view Inr Kraken replay out jv in \<open>auto simp: process_def Let_def simp del: mset_map split: sum.splits\<close>)
    qed
  qed
qed


definition books_ok :: "books_env \<Rightarrow> registry \<Rightarrow> books \<Rightarrow> bool" where
  "books_ok env registry db =
     (\<forall>v. clock_ok (bk_commits db) (bk_silver db v) \<and>
        in_step (book_typed (be_casts env) registry v) (each \<circ> book_view) SRC_SNAPSHOT_ID (be_bronze env v) (bk_silver db v))"

definition bronze_ids_ok :: "books_env \<Rightarrow> bool" where
  "bronze_ids_ok env =
     ((\<forall>v. distinct (map snap_id (snaps (be_bronze env v)))) \<and>
      (\<forall>v i. main_ref (be_bronze env v) = Some i \<longrightarrow> i \<in> set (map snap_id (snaps (be_bronze env v)))) \<and>
      distinct (map (\<lambda>b. (b_part b, b_off b)) (table_rows (be_bronze env Kraken))))"

lemma clock_ok_suffix: "suffix cs' cs \<Longrightarrow> clock_ok cs t \<Longrightarrow> clock_ok cs' t"
proof -
  have "clock_ok (zs @ cs') t \<Longrightarrow> clock_ok cs' t" for zs by (induction zs) (auto dest: clock_ok_tail)
  then show "suffix cs' cs \<Longrightarrow> clock_ok cs t \<Longrightarrow> clock_ok cs' t" by (auto simp: suffix_def)
qed

lemma books_venue_ok:
  assumes ok: "books_ok env registry db" and ids: "bronze_ids_ok env" and sp: "spread_ok (be_spread env)"
    and run: "books_venue env registry precs run_ts v db = (db', r)"
  shows "books_ok env registry db'"
proof (cases "db' = db")
  case False
  then obtain e rows where e: "main_ref (be_bronze env v) = Some e"
      and rd: "incremental_read (be_bronze env v) (src_position (bk_silver db v) SRC_SNAPSHOT_ID) e = Inr rows"
      and p: "process env registry precs v rows e run_ts db = (db', r)"
    using run by (auto simp: books_venue_def current_snapshot_id_def Let_def split: option.splits if_splits sum.splits)
  have step: "in_step (book_typed (be_casts env) registry u) (each \<circ> book_view) SRC_SNAPSHOT_ID (be_bronze env u) (bk_silver db u)" for u
    using ok by (simp add: books_ok_def)
  have snap: "distinct (map snap_id (snaps (be_bronze env v)))" "e \<in> set (map snap_id (snaps (be_bronze env v)))"
    using ids e by (auto simp: bronze_ids_ok_def)
  have keys: "distinct (map (\<lambda>b. (b_part b, b_off b)) rows)" if "v = Kraken"
  proof -
    obtain pre post where "table_rows (be_bronze env v) = pre @ rows @ post" using read_is_part [OF step snap(1) rd] by blast
    then show ?thesis using ids that by (auto simp: bronze_ids_ok_def)
  qed
  from process_appended [OF p sp keys] have "appended env registry v rows e db db'" .
  then show ?thesis
    unfolding appended_def
  proof (elim disjE exE conjE)
    assume "bk_silver db' = bk_silver db" "bk_commits db' = bk_commits db"
    then show ?thesis using ok by (simp add: books_ok_def)
  next
    fix out i time cs
    assume c: "mset (map book_view out) = mset (book_typed (be_casts env) registry v rows)" "bk_commits db = (i, time) # cs"
      "suffix (bk_commits db') cs"
      "bk_silver db' = (bk_silver db)(v := table_append (bk_silver db v) i time (decode_props SRC_SNAPSHOT_ID e) out)"
    have clk: "clock_ok ((i, time) # cs) (bk_silver db u)" for u using ok c(2) by (simp add: books_ok_def)
    have "in_step (book_typed (be_casts env) registry v) (each \<circ> book_view) SRC_SNAPSHOT_ID (be_bronze env v)
        (table_append (bk_silver db v) i time (decode_props SRC_SNAPSHOT_ID e) out)"
    proof (rule books_layer.step_keeps [OF step snap rd])
      show "\<forall>s \<in> set (snaps (bk_silver db v)). committed_at s < time" using clk by (auto simp: clock_ok_def)
    qed (use c(1) decode_props_lookup in auto)
    then show ?thesis
      using step clock_ok_suffix [OF c(3) clock_ok_tail [OF clk]] clock_ok_suffix [OF c(3) clock_ok_append [OF clk]] c(4)
      by (simp add: books_ok_def)
  qed
qed (use ok in simp)

lemma books_venues_ok:
  "books_ok env registry db \<Longrightarrow> bronze_ids_ok env \<Longrightarrow> spread_ok (be_spread env) \<Longrightarrow>
   books_ok env registry (fst (books_venues env registry precs run_ts vs db))"
proof (induction vs arbitrary: db)
  case (Cons v vs)
  obtain db' r where s: "books_venue env registry precs run_ts v db = (db', r)" by (metis prod.exhaust)
  from Cons.IH [OF books_venue_ok [OF Cons.prems s] Cons.prems(2,3)] books_venue_ok [OF Cons.prems s] show ?case
    by (cases r; cases "books_venues env registry precs run_ts vs db'") (auto simp: s split: sum.splits)
qed simp

text \<open>
  C14. Every book table is its bronze table typed: after any run, however it ends, \<open>silver.book_<venue>\<close> holds
  one row per frame or event of the bronze snapshot its newest commit names, and the Kraken verdicts joined
  in neither drop nor repeat a row.
\<close>
theorem books_silver_in_step:
  assumes "\<forall>v. clock_ok (bk_commits db) (bk_silver db v)"
    and "\<forall>v. in_step (book_typed (be_casts env) registry v) (each \<circ> book_view) SRC_SNAPSHOT_ID (be_bronze env v) (bk_silver db v)"
    and "bronze_ids_ok env" and "spread_ok (be_spread env)" and "load_instruments (be_instruments env) = Inr registry"
  shows "in_step (book_typed (be_casts env) registry v) (each \<circ> book_view) SRC_SNAPSHOT_ID (be_bronze env v)
    (bk_silver (fst (books_stage env run_ts db)) v)"
proof -
  have ok: "books_ok env registry db" using assms(1,2) by (simp add: books_ok_def)
  show ?thesis
  proof (cases "kraken_precisions (be_pairs env)")
    case (Inl e)
    then show ?thesis using assms(2,5) by (simp add: books_stage_def books_setup_def)
  next
    case (Inr precs)
    from books_venues_ok [OF ok assms(3,4), of precs run_ts BOOKS] show ?thesis
      by (simp add: books_stage_def books_setup_def assms(5) Inr books_ok_def)
  qed
qed

text \<open>
  Every typed Kraken frame gets exactly one verdict: the replay over the executors answers for the
  frames it was given, each once, wherever the partitioner sends its connection.
\<close>
theorem kraken_verdict_per_frame:
  assumes "replay_venue sp ''kraken'' precs states run_ts typed = Inr (vs, bs, ss)" and "spread_ok sp"
  shows "mset (map fst vs) = mset (map place typed)"
  using replay_venue_verdicts [OF assms] by (simp add: comp_def frame_key_place)

section \<open>Sampling Binance by batch\<close>

lemma res_map_keys:
  assumes "res_map f xs = Inr ys" and "\<And>x y. x \<in> set xs \<Longrightarrow> f x = Inr y \<Longrightarrow> g y = h x"
  shows "map g ys = map h xs"
  using assms by (induction xs arbitrary: ys) (auto simp: res_bind_Inr)

definition grow_second :: "grow \<Rightarrow> string option \<times> int" where
  "grow_second g = (Some (gr_symbol g), gr_second g)"

lemma binance_row_second: "binance_row run_ts r = Inr g \<Longrightarrow> grow_second g = second_key r"
  by (auto simp: binance_row_def grow_second_def second_key_def split: option.splits book_extra.splits)

lemma max_by_in: "xs \<noteq> [] \<Longrightarrow> max_by key xs \<in> set xs"
proof -
  have "foldl (\<lambda>m y. if key m \<le> key y then y else m) x ys \<in> set (x # ys)" for x ys
    by (induction ys arbitrary: x) auto
  then show "xs \<noteq> [] \<Longrightarrow> ?thesis" by (cases xs) (auto simp: max_by_def)
qed

lemma binance_seconds:
  assumes "binance_books run_ts typed = Inr gs"
  shows "map grow_second gs = remdups (map second_key typed)"
proof -
  have "map grow_second gs = map (\<lambda>k. k) (remdups (map second_key typed))"
  proof (rule res_map_keys [OF assms [unfolded binance_books_def]])
    fix key g assume "key \<in> set (remdups (map second_key typed))"
      and row: "binance_row run_ts (max_by (\<lambda>r. (k_recv_ns r, k_msg r)) (filter (\<lambda>r. second_key r = key) typed)) = Inr g"
    then have "filter (\<lambda>r. second_key r = key) typed \<noteq> []" by (auto simp: filter_empty_conv)
    from max_by_in [OF this, of "\<lambda>r. (k_recv_ns r, k_msg r)"]
    show "grow_second g = key" using binance_row_second [OF row] by simp
  qed
  then show ?thesis by simp
qed

text \<open>
  One Binance batch has one row per second, but two batches that meet inside a second have two: the
  sampler sees one batch at a time and appends, so the cut second is in \<open>gold.book_top20\<close> twice, against the
  table's identifier.
\<close>
theorem binance_cut_second:
  assumes "binance_books t1 xs = Inr gs" and "binance_books t2 ys = Inr hs"
    and "x \<in> set xs" and "y \<in> set ys" and "second_key x = second_key y"
  shows "distinct (map grow_second gs) \<and> distinct (map grow_second hs) \<and> \<not> distinct (map grow_second (gs @ hs))"
proof -
  have "second_key x \<in> set (map grow_second gs)" unfolding binance_seconds [OF assms(1)] using assms(3) by simp
  moreover have "second_key x \<in> set (map grow_second hs)" unfolding assms(5) binance_seconds [OF assms(2)] using assms(4) by simp
  ultimately show ?thesis
    unfolding map_append distinct_append binance_seconds [OF assms(1)] binance_seconds [OF assms(2)] by auto
qed

section \<open>The microprice in 64 bits\<close>

lemma wrap64_eq: "wrap64 x = (x + 2 ^ 63) mod 2 ^ 64 - 2 ^ 63"
  by (simp add: wrap64_def sint_sbintrunc' signed_take_bit_eq_take_bit_shift take_bit_eq_mod)

lemma wrap64_id: "- (2 ^ 63) \<le> x \<Longrightarrow> x < 2 ^ 63 \<Longrightarrow> wrap64 x = x"
  by (simp add: wrap64_eq)

lemma wrap64_add: "wrap64 (wrap64 x + wrap64 y) = wrap64 (x + y)"
proof -
  have "(word_of_int (sint (word_of_int x :: 64 word) + sint (word_of_int y :: 64 word)) :: 64 word) = word_of_int (x + y)"
    by simp
  then show ?thesis by (simp only: wrap64_def)
qed

lemma wrap64_over: "2 ^ 63 \<le> x \<Longrightarrow> x < 2 ^ 64 \<Longrightarrow> wrap64 x = x - 2 ^ 64"
  using minus_mod_self2 [of "x + 2 ^ 63" "2 ^ 64"] mod_pos_pos_trivial [of "x + 2 ^ 63 - 2 ^ 64" "2 ^ 64"]
  by (simp add: wrap64_eq)

text \<open>
  While the two price-quantity products fit in 64 bits together, the microprice (before floating-point
  rounding) lies between the bid and the ask.
\<close>
theorem microprice_between:
  assumes "0 < b" and "b \<le> a" and "0 < bq" and "0 < aq" and "bq + aq < 2 ^ 63" and "b * aq + a * bq < 2 ^ 63"
  shows "\<exists>mp. microprice_of id b bq a aq = Some mp \<and> of_int b \<le> mp * 100000000 \<and> mp * 100000000 \<le> of_int a"
proof -
  have pos: "0 < b * aq + a * bq" using assms by (simp add: add_pos_pos)
  have w: "wrap64 (wrap64 (b * aq) + wrap64 (a * bq)) = b * aq + a * bq" "wrap64 (bq + aq) = bq + aq"
    using assms pos by (simp_all add: wrap64_add wrap64_id)
  have q: "(of_int (bq + aq) :: rat) > 0" using assms(3,4) by simp
  have lo: "b * (bq + aq) \<le> b * aq + a * bq" and hi: "b * aq + a * bq \<le> a * (bq + aq)"
    using assms(1-4) by (simp_all add: algebra_simps mult_right_mono)
  have "(of_int b :: rat) * of_int (bq + aq) \<le> of_int (b * aq + a * bq)" using lo by (simp only: of_int_mult [symmetric] of_int_le_iff)
  moreover have "(of_int (b * aq + a * bq) :: rat) \<le> of_int a * of_int (bq + aq)" using hi by (simp only: of_int_mult [symmetric] of_int_le_iff)
  ultimately have "of_int b \<le> (of_int (b * aq + a * bq) / of_int (bq + aq) :: rat)" "(of_int (b * aq + a * bq) / of_int (bq + aq) :: rat) \<le> of_int a"
    using q by (simp_all add: pos_le_divide_eq pos_divide_le_eq del: of_int_add)
  then show ?thesis using q by (simp add: microprice_of_def dbl_div_def big_def w del: of_int_add)
qed

text \<open>
  Past 64 bits it is not a price: when the two products together reach \<open>2 ^ 63\<close> (a bitcoin near 60,000 with
  0.008 on each side) the \<open>BIGINT\<close> sum wraps and the microprice is negative, whatever the rounding.
\<close>
theorem microprice_negative:
  assumes "0 < bq" and "0 < aq" and "bq + aq < 2 ^ 63" and "2 ^ 63 \<le> b * aq + a * bq" and "b * aq + a * bq < 2 ^ 64"
    and "\<And>x. sgn (rnd x) = sgn x"
  shows "\<exists>mp. microprice_of rnd b bq a aq = Some mp \<and> mp < 0"
proof -
  have w: "wrap64 (wrap64 (b * aq) + wrap64 (a * bq)) = b * aq + a * bq - 2 ^ 64" "wrap64 (bq + aq) = bq + aq"
    using assms by (simp_all add: wrap64_add wrap64_id wrap64_over)
  have neg: "rnd x < 0 \<longleftrightarrow> x < 0" and pos: "0 < rnd x \<longleftrightarrow> 0 < x" for x
    using assms(6) [of x] by (metis sgn_less) (metis sgn_greater assms(6))
  have "big rnd (bq + aq) > 0" using assms(1,2) by (simp add: big_def pos)
  moreover have "big rnd (b * aq + a * bq - 2 ^ 64) < 0"
  proof -
    have "b * aq + a * bq - 2 ^ 64 < 0" using assms(5) by simp
    then have "(of_int (b * aq + a * bq - 2 ^ 64) :: rat) < 0" by (simp only: of_int_less_0_iff)
    then show ?thesis by (simp only: big_def neg)
  qed
  ultimately have "big rnd (b * aq + a * bq - 2 ^ 64) / big rnd (bq + aq) < 0" by (simp only: divide_neg_pos)
  then show ?thesis
    using \<open>big rnd (bq + aq) > 0\<close> by (simp add: microprice_of_def dbl_div_def w neg)
qed

section \<open>A crash between the commits\<close>

text \<open>
  A run that stops between its silver commit and its gold commit is not retried: silver already names the
  bronze snapshot, so every later run on that snapshot finds the venue level, and the seconds and the replay
  state of those frames are never written.
\<close>
theorem books_crash_not_retried:
  assumes "books_venue env registry precs run_ts v db = (db', Inl e)" and "bk_silver db' v \<noteq> bk_silver db v" and "v \<noteq> Kraken"
    and "clock_ok (bk_commits db) (bk_silver db v)" and "spread_ok (be_spread env)"
  shows "books_venue env registry precs' t v db' = (db', Inr 0)"
proof -
  have "db' \<noteq> db" using assms(2) by auto
  then obtain i rows where i: "main_ref (be_bronze env v) = Some i" and p: "process env registry precs v rows i run_ts db = (db', Inl e)"
    using assms(1) by (auto simp: books_venue_def current_snapshot_id_def Let_def split: option.splits if_splits sum.splits)
  have "appended env registry v rows i db db'" by (rule process_appended [OF p assms(5)]) (use assms(3) in simp)
  then obtain out j time cs where c: "bk_commits db = (j, time) # cs"
    "bk_silver db' = (bk_silver db)(v := table_append (bk_silver db v) j time (decode_props SRC_SNAPSHOT_ID i) out)"
    using assms(2) by (auto simp: appended_def)
  have clk: "\<forall>s \<in> set (snaps (bk_silver db v)). committed_at s < time" using assms(4) c(1) by (auto simp: clock_ok_def)
  have "SRC_SNAPSHOT_ID \<noteq> ''added-records''" by (simp add: SRC_SNAPSHOT_ID_def)
  from src_position_append [OF clk decode_props_lookup(1) this, of j i out]
  have "src_position (bk_silver db' v) SRC_SNAPSHOT_ID = Some (show_int i)" by (simp add: c(2) decode_props_lookup)
  then show ?thesis
    by (simp add: books_venue_def current_snapshot_id_def i level_with_def has_position_def)
qed


section \<open>The properties at concrete inputs\<close>

definition demo_depth :: "int \<Rightarrow> int \<Rightarrow> book_cols bronze_row" where
  "demo_depth recv ofs =
     \<lparr>b_cols = Some (BinanceDepth (Some \<lparr>dd_last_id = Some ofs, dd_bids = Some [(Some ''1'', Some ''2'')], dd_asks = Some [(Some ''3'', Some ''4'')]\<rparr>)),
      b_symbol = Some ''B'', b_recv_ts_ns = recv * 1000, b_recv_ts = recv, b_conn_id = ''c'', b_conn_msg_seq = ofs,
      b_topic = ''d'', b_part = 0, b_off = ofs, b_ingest_ts = recv\<rparr>"

definition demo_books_env :: books_env where
  "demo_books_env = \<lparr>be_bronze = (\<lambda>v. if v = Binance then table_append empty_table 5 5 [] [demo_depth 10 1] else empty_table),
     be_casts = \<lparr>cast_dec = (\<lambda>_. Some 500), cast_big = (\<lambda>_. None), cast_ts = (\<lambda>_. None)\<rparr>,
     be_instruments = \<lparr>doc_version = Some 2, doc_instruments = [(''binance'', [(''B'', ''BTC'')])]\<rparr>, be_pairs = [],
     be_spread = \<lparr>sp_parts = 1, sp_hash = (\<lambda>_. 0)\<rparr>, be_rnd = id\<rparr>"

definition demo_books :: "(int \<times> int) list \<Rightarrow> books" where
  "demo_books commits = \<lparr>bk_silver = (\<lambda>_. empty_table), bk_gold = empty_table, bk_bbo = [], bk_state = [], bk_commits = commits\<rparr>"

definition demo_book_row :: "int \<Rightarrow> int \<Rightarrow> book_row" where
  "demo_book_row recv ofs =
     \<lparr>k_symbol = Some ''B'', k_canonical = ''BTC'',
      k_extra = BinanceBook (Some ofs) (Some [(Some 500, Some 500)]) (Some [(Some 500, Some 500)]) 1 None, k_recv_ns = recv * 1000,
      k_recv = recv, k_conn = ''c'', k_msg = ofs, k_topic = ''d'', k_part = 0, k_off = ofs, k_idx = 0, k_ingest = 9\<rparr>"

lemma demo_spread: "spread_ok (be_spread demo_books_env)"
  by (simp add: demo_books_env_def spread_ok_def)

lemma demo_books_empty:
  "clock_ok cs (bk_silver (demo_books cs') v) = (distinct (map fst cs) \<and> sorted_wrt (<) (map snd cs))"
  "src_position (bk_silver (demo_books cs') v) k = None"
  by (simp_all add: demo_books_def clock_ok_def demo_empty src_position_def snapshot_history_def latest_summary_def)

lemma demo_bronze_ids: "bronze_ids_ok demo_books_env"
  by (simp add: bronze_ids_ok_def demo_books_env_def demo_empty)

theorem books_silver_in_step_witness:
  "in_step (book_typed (be_casts demo_books_env) [(''binance'', [(''B'', ''BTC'')])] Binance) (each \<circ> book_view) SRC_SNAPSHOT_ID
     (be_bronze demo_books_env Binance) (bk_silver (fst (books_stage demo_books_env 9 (demo_books [(1, 1), (2, 2), (3, 3)]))) Binance)"
proof (rule books_silver_in_step [OF _ _ demo_bronze_ids demo_spread])
  have rows: "table_rows (bk_silver (demo_books cs) v) = []" for cs v by (simp add: demo_books_def demo_empty)
  have commits: "bk_commits (demo_books cs) = cs" for cs by (simp add: demo_books_def)
  show "\<forall>v. clock_ok (bk_commits (demo_books [(1, 1), (2, 2), (3, 3)])) (bk_silver (demo_books [(1, 1), (2, 2), (3, 3)]) v)"
    by (simp add: demo_books_empty commits)
  show "\<forall>v. in_step (book_typed (be_casts demo_books_env) [(''binance'', [(''B'', ''BTC'')])] v) (each \<circ> book_view) SRC_SNAPSHOT_ID
      (be_bronze demo_books_env v) (bk_silver (demo_books [(1, 1), (2, 2), (3, 3)]) v)"
    by (simp add: in_step_def demo_books_empty rows)
  show "load_instruments (be_instruments demo_books_env) = Inr [(''binance'', [(''B'', ''BTC'')])]"
    by (simp add: demo_books_env_def load_instruments_def)
qed

definition demo_kraken_row :: book_row where
  "demo_kraken_row = (demo_book_row 6000000 1)\<lparr>k_extra := KrakenFrame (Some ''update'') (Some []) (Some []) (Some 1) None None\<rparr>"

theorem kraken_verdict_per_frame_witness:
  "\<exists>vs bs ss. replay_venue \<lparr>sp_parts = 1, sp_hash = (\<lambda>_. 0)\<rparr> ''kraken'' [] [] 9 [demo_kraken_row] = Inr (vs, bs, ss) \<and> mset (map fst vs) = {#(0, 1, 0)#}"
proof -
  have "replay_venue \<lparr>sp_parts = 1, sp_hash = (\<lambda>_. 0)\<rparr> ''kraken'' [] [] 9 [demo_kraken_row] = Inr ([((0, 1, 0), None)], [], [])"
    by (simp add: replay_venue_def spread_frames_def states_of_def demo_kraken_row_def demo_book_row_def frame_of_def replay_partition_def
        enter_key_def start_key_def walk_frame_def flush_seconds_def apply_frame_def frame_key_def finish_key_def books_of_def states_in_def or_empty_def Let_def)
  from kraken_verdict_per_frame [OF this] this show ?thesis by (simp add: spread_ok_def place_def demo_kraken_row_def demo_book_row_def)
qed

theorem binance_cut_second_witness:
  "\<exists>gs hs. binance_books 9 [demo_book_row 1000100 1] = Inr gs \<and> binance_books 10 [demo_book_row 1000900 2] = Inr hs \<and>
     \<not> distinct (map grow_second (gs @ hs))"
proof -
  have "\<exists>g. binance_books t [demo_book_row recv ofs] = Inr [g]" for t recv ofs
    by (simp add: binance_books_def binance_row_def demo_book_row_def max_by_def)
  then obtain g h where g: "binance_books 9 [demo_book_row 1000100 1] = Inr [g]" and h: "binance_books 10 [demo_book_row 1000900 2] = Inr [h]"
    by metis
  have "\<not> distinct (map grow_second ([g] @ [h]))"
    using binance_cut_second [OF g h, of "demo_book_row 1000100 1" "demo_book_row 1000900 2"]
    by (simp add: second_key_def second_of_def demo_book_row_def)
  with g h show ?thesis by blast
qed

theorem microprice_between_witness:
  "\<exists>mp. microprice_of id 10000 3 10100 5 = Some mp \<and> of_int 10000 \<le> mp * 100000000 \<and> mp * 100000000 \<le> of_int 10100"
  using microprice_between [of 10000 10100 3 5] by simp

theorem microprice_negative_witness:
  "\<exists>mp. microprice_of id 6000000000000 800000 6000001000000 800000 = Some mp \<and> mp < 0"
  using microprice_negative [of 800000 800000 6000000000000 6000001000000 id] by simp

theorem books_crash_not_retried_witness:
  "books_venue demo_books_env [(''binance'', [(''B'', ''BTC'')])] [] 10 Binance
     (fst (books_venue demo_books_env [(''binance'', [(''B'', ''BTC'')])] [] 9 Binance (demo_books [(1, 1)]))) =
   (fst (books_venue demo_books_env [(''binance'', [(''B'', ''BTC'')])] [] 9 Binance (demo_books [(1, 1)])), Inr 0)"
proof -
  let ?reg = "[(''binance'', [(''B'', ''BTC'')])]"
  have typed: "books_project (be_casts demo_books_env) ?reg 9 Binance [demo_depth 10 1] = Inr [demo_book_row 10 1]"
    by (simp add: books_project_def explode_book_def demo_depth_def demo_books_env_def book_row_of_def cast_levels_def sql_size_def
        name_book_def canonical_def exchange_name_def demo_book_row_def trunc_div_def)
  have gaps: "seq_gaps [demo_book_row 10 1] = [demo_book_row 10 1]"
    by (simp add: seq_gaps_def demo_book_row_def set_gap_def gap_after_def)
  have store: "book_storable (demo_book_row 10 1)" by (simp add: book_storable_def demo_book_row_def)
  have gold: "\<exists>g. binance_books 9 [demo_book_row 10 1] = Inr [g]"
    by (simp add: binance_books_def binance_row_def demo_book_row_def max_by_def)
  have "process demo_books_env ?reg [] Binance [demo_depth 10 1] 5 9 (demo_books [(1, 1)]) =
      ((demo_books [])\<lparr>bk_silver := (\<lambda>_. empty_table)(Binance := table_append empty_table 1 1 (decode_props SRC_SNAPSHOT_ID 5) [demo_book_row 10 1])\<rparr>, Inl OSError)"
    using gold store by (auto simp: process_def typed gaps process_silver_def demo_books_def process_gold_def)
  moreover have "be_bronze demo_books_env Binance = table_append empty_table 5 5 [] [demo_depth 10 1]" by (simp add: demo_books_env_def)
  ultimately have run: "books_venue demo_books_env ?reg [] 9 Binance (demo_books [(1, 1)]) =
      ((demo_books [])\<lparr>bk_silver := (\<lambda>_. empty_table)(Binance := table_append empty_table 1 1 (decode_props SRC_SNAPSHOT_ID 5) [demo_book_row 10 1])\<rparr>, Inl OSError)"
    by (simp add: books_venue_def current_snapshot_id_def demo_books_empty level_with_def has_position_def incremental_read_def rows_at_def demo_empty)
  show ?thesis
    using books_crash_not_retried [OF run _ _ _ demo_spread, of "[]" 10]
    by (simp add: run demo_books_empty) (simp add: demo_books_def table_append_def empty_table_def)
qed

end
