(* ===== verification/Metrics.thy ===== *)
theory Metrics
  imports Complex_Main Json Offsets
begin

text \<open>
  \<open>docker/lake/metrics.py\<close>: the exporter that turns snapshot summaries into gauges. The catalog's REST answers
  and the disk's \<open>statvfs\<close> are arguments; a call that raises is an \<open>Inl\<close> or \<open>None\<close>. A gauge is a rational (the
  rounding of a double is left out), keyed by its name and label; a gauge never set is absent.
\<close>

section \<open>Metadata and numbers\<close>

record msnap =
  ms_id :: "int option"
  ms_ts :: "int option"
  ms_summary :: summary

record metadata =
  md_current :: "int option"
  md_snaps :: "msnap list"

definition stamp_ms :: "msnap \<Rightarrow> int" where
  "stamp_ms s = (case ms_ts s of None \<Rightarrow> 0 | Some t \<Rightarrow> t)"

text \<open>\<open>float(text)\<close> on decimal text; \<open>inf\<close> and \<open>nan\<close>, which no writer of these summaries produces, count as malformed.\<close>

definition py_digit_run :: "string \<Rightarrow> (nat \<times> nat) option" where
  "py_digit_run s = (if list_all is_digit s then Some (digits_val s, length s) else None)"

definition py_ufloat :: "string \<Rightarrow> rat option" where
  "py_ufloat s =
     (let w = takeWhile (\<lambda>c. c \<noteq> CHR ''.'') s; f = drop (length w + 1) s in
      (case (py_digit_run w, py_digit_run f) of
         (Some (a, n), Some (b, m)) \<Rightarrow> if n + m = 0 then None else Some (of_nat a + of_nat b / 10 ^ m)
       | _ \<Rightarrow> None))"

definition py_exponent :: "string \<Rightarrow> rat option" where
  "py_exponent s =
     (let m = takeWhile (\<lambda>c. c \<noteq> CHR ''e'' \<and> c \<noteq> CHR ''E'') s; e = drop (length m + 1) s in
      if m = s then py_ufloat s
      else (case (py_ufloat m, py_int e) of
              (Some x, Some i) \<Rightarrow> Some (if 0 \<le> i then x * 10 ^ nat i else x / 10 ^ nat (- i))
            | _ \<Rightarrow> None))"

definition py_float :: "string \<Rightarrow> rat option" where
  "py_float s =
     (case py_strip s of [] \<Rightarrow> None
      | c # cs \<Rightarrow>
          if c = CHR ''-'' then map_option uminus (py_exponent cs)
          else if c = CHR ''+'' then py_exponent cs
          else py_exponent (c # cs))"

definition num :: "summary \<Rightarrow> string \<Rightarrow> rat" where
  "num m key = (case map_of m key of None \<Rightarrow> 0 | Some s \<Rightarrow> (case py_float s of None \<Rightarrow> 0 | Some x \<Rightarrow> x))"

section \<open>ISO timestamps\<close>

definition leap :: "int \<Rightarrow> bool" where
  "leap y = (y mod 4 = 0 \<and> (y mod 100 \<noteq> 0 \<or> y mod 400 = 0))"

definition month_days :: "int \<Rightarrow> int list" where
  "month_days y = [31, if leap y then 29 else 28, 31, 30, 31, 30, 31, 31, 30, 31, 30, 31]"

definition epoch_day :: "int \<Rightarrow> int \<Rightarrow> int \<Rightarrow> int option" where
  "epoch_day y m d =
     (if y < 1 \<or> m < 1 \<or> 12 < m \<or> d < 1 \<or> month_days y ! nat (m - 1) < d then None
      else Some (365 * (y - 1) + (y - 1) div 4 - (y - 1) div 100 + (y - 1) div 400 +
                 sum_list (take (nat (m - 1)) (month_days y)) + d - 719163))"

definition read_num :: "nat \<Rightarrow> string \<Rightarrow> (int \<times> string) option" where
  "read_num n s = (if length (take n s) = n \<and> list_all is_digit (take n s) then Some (int (digits_val (take n s)), drop n s) else None)"

definition read_char :: "char \<Rightarrow> string \<Rightarrow> string option" where
  "read_char c s = (case s of [] \<Rightarrow> None | d # r \<Rightarrow> if d = c then Some r else None)"

definition read_clock :: "string \<Rightarrow> (int \<times> string) option" where
  "read_clock s =
     Option.bind (read_num 2 s) (\<lambda>(h, s1). Option.bind (read_char (CHR '':'') s1) (\<lambda>s2. Option.bind (read_num 2 s2) (\<lambda>(mi, s3).
       if h \<le> 23 \<and> mi \<le> 59 then Some (h * 60 + mi, s3) else None)))"

text \<open>An offset, in minutes; no suffix is UTC (\<open>replace(tzinfo=utc)\<close>).\<close>

definition read_zone :: "string \<Rightarrow> int option" where
  "read_zone s =
     (case s of [] \<Rightarrow> Some 0
      | c # r \<Rightarrow>
          (case read_clock r of
             Some (mi, []) \<Rightarrow> if c = CHR ''+'' then Some mi else if c = CHR ''-'' then Some (- mi) else None
           | _ \<Rightarrow> None))"

definition read_fraction :: "string \<Rightarrow> (int \<times> string) option" where
  "read_fraction s =
     (case s of [] \<Rightarrow> Some (0, s)
      | c # r \<Rightarrow>
          if c \<noteq> CHR ''.'' then Some (0, s)
          else let f = takeWhile is_digit r in
            if length f = 3 then Some (int (digits_val f) * 1000, drop 3 r)
            else if length f = 6 then Some (int (digits_val f), drop 6 r) else None)"

text \<open>\<open>_epoch\<close>: microseconds since the epoch; \<open>None\<close> is the \<open>ValueError\<close> of \<open>fromisoformat\<close>.\<close>

definition zulu :: "string \<Rightarrow> string" where
  "zulu s = concat (map (\<lambda>c. if c = CHR ''Z'' then ''+00:00'' else [c]) s)"

definition iso_micros :: "string \<Rightarrow> int option" where
  "iso_micros stamp =
     Option.bind (read_num 4 (zulu stamp)) (\<lambda>(y, s1). Option.bind (read_char (CHR ''-'') s1) (\<lambda>s2.
     Option.bind (read_num 2 s2) (\<lambda>(m, s3). Option.bind (read_char (CHR ''-'') s3) (\<lambda>s4.
     Option.bind (read_num 2 s4) (\<lambda>(d, s5). Option.bind (read_char (CHR ''T'') s5) (\<lambda>s6.
     Option.bind (read_clock s6) (\<lambda>(mins, s7). Option.bind (read_char (CHR '':'') s7) (\<lambda>s8.
     Option.bind (read_num 2 s8) (\<lambda>(sec, s9). Option.bind (read_fraction s9) (\<lambda>(us, s10).
     Option.bind (read_zone s10) (\<lambda>zone. Option.bind (epoch_day y m d) (\<lambda>day.
       if 59 < sec then None else Some (((day * 1440 + mins - zone) * 60 + sec) * 1000000 + us)))))))))))))"

section \<open>Reading the snapshots\<close>

definition current_snapshot :: "metadata \<Rightarrow> msnap option" where
  "current_snapshot md =
     (case md_current md of None \<Rightarrow> None
      | Some i \<Rightarrow> if i = -1 then None else List.find (\<lambda>s. ms_id s = Some i) (md_snaps md))"

definition REWRITE_OPERATIONS :: "string list" where
  "REWRITE_OPERATIONS = [''replace'', ''overwrite'']"

definition is_rewrite :: "msnap \<Rightarrow> bool" where
  "is_rewrite s = (case map_of (ms_summary s) ''operation'' of None \<Rightarrow> False | Some x \<Rightarrow> x \<in> set REWRITE_OPERATIONS)"

definition seconds :: "int \<Rightarrow> rat" where
  "seconds ms = of_int ms / 1000"

definition latest_compaction_ts :: "msnap list \<Rightarrow> rat" where
  "latest_compaction_ts ss =
     (case map stamp_ms (filter is_rewrite ss) of [] \<Rightarrow> 0 | t # ts \<Rightarrow> seconds (foldl max t ts))"

definition INGEST_SUMMARY_MAX_AGE :: rat where "INGEST_SUMMARY_MAX_AGE = 900"

definition by_job :: "string \<Rightarrow> msnap \<Rightarrow> bool" where
  "by_job job s = (map_of (ms_summary s) JOB = Some job)"

definition latest_job_snapshot :: "msnap list \<Rightarrow> string \<Rightarrow> msnap option" where
  "latest_job_snapshot ss job = py_max_by stamp_ms (filter (by_job job) ss)"

definition latest_job_summary :: "msnap list \<Rightarrow> string \<Rightarrow> summary" where
  "latest_job_summary ss job = (case latest_job_snapshot ss job of None \<Rightarrow> [] | Some s \<Rightarrow> ms_summary s)"

definition carries :: "string \<Rightarrow> msnap \<Rightarrow> bool" where
  "carries key s = (by_job JOB_INGEST s \<and> map_of (ms_summary s) key \<noteq> None)"

definition fresh_ingest_value :: "msnap list \<Rightarrow> string \<Rightarrow> rat \<Rightarrow> rat" where
  "fresh_ingest_value ss key now =
     (case py_max_by stamp_ms (filter (carries key) ss) of None \<Rightarrow> 0
      | Some newest \<Rightarrow> if now - seconds (stamp_ms newest) > INGEST_SUMMARY_MAX_AGE then 0 else num (ms_summary newest) key)"

text \<open>\<open>json.loads\<close> of an object of integers; anything else is logged and read as no backlog.\<close>

definition backlog_num :: "json \<Rightarrow> rat option" where
  "backlog_num j = (case j of JInt i \<Rightarrow> Some (of_int i) | JObj _ \<Rightarrow> None)"

definition backlog :: "summary \<Rightarrow> (string \<times> rat) list" where
  "backlog m =
     (case map_of m KAFKA_BACKLOG of None \<Rightarrow> []
      | Some text \<Rightarrow>
          (case json_loads text of
             Some (JObj ms) \<Rightarrow>
               if list_all (\<lambda>(_, j). backlog_num j \<noteq> None) ms then map (\<lambda>(t, j). (t, the (backlog_num j))) ms else []
           | _ \<Rightarrow> []))"

section \<open>The gauges and a refresh\<close>

datatype gauge =
    LastCommit string | MaxKafka | IngestBacklog string | LastCompaction string | LastRefresh
  | RowsTotal string | FilesTotal string | BytesTotal string | AddedRecords string | AvgFileBytes string
  | AuditFailures | UnresolvableIds | OffsetGaps | DiskUsedRatio | DiskFreeBytes | ScrapeErrors

type_synonym gauges = "gauge \<Rightarrow> rat option"

definition put :: "gauge \<Rightarrow> rat \<Rightarrow> gauges \<Rightarrow> gauges" where
  "put k v g = g(k := Some v)"

record catalog =
  ct_prefix :: "string res"
  ct_namespaces :: "string \<Rightarrow> string list list res"
  ct_idents :: "string \<Rightarrow> string \<Rightarrow> string list res"
  ct_load :: "string \<Rightarrow> string \<Rightarrow> string \<Rightarrow> metadata option"
  ct_statvfs :: "(int \<times> int \<times> int) option"

fun join_dot :: "string list \<Rightarrow> string" where
  "join_dot [] = []"
| "join_dot [x] = x"
| "join_dot (x # xs) = x @ CHR ''.'' # join_dot xs"

definition list_tables :: "catalog \<Rightarrow> string \<Rightarrow> (string \<times> string) list res" where
  "list_tables c prefix =
     res_bind (ct_namespaces c prefix) (\<lambda>nss.
       res_bind (res_map (\<lambda>ns. res_bind (ct_idents c prefix (join_dot ns)) (\<lambda>is. Inr (map (\<lambda>i. (join_dot ns, i)) is))) nss)
         (\<lambda>tss. Inr (sort (concat tss))))"

definition table_label :: "string \<times> string \<Rightarrow> string" where
  "table_label t = fst t @ CHR ''.'' # snd t"

definition INGEST_TABLE :: string where "INGEST_TABLE = ''raw.messages''"
definition CHECKS_TABLE :: string where "CHECKS_TABLE = ''audit.checks''"

definition put_ingest :: "msnap list \<Rightarrow> gauges \<Rightarrow> gauges \<times> unit res" where
  "put_ingest ss g =
     (let m = latest_job_summary ss JOB_INGEST;
          put_backlog = (\<lambda>g. foldl (\<lambda>g (t, n). put (IngestBacklog t) n g) g (backlog m))
      in (case map_of m MAX_KAFKA_TS of
            None \<Rightarrow> (put_backlog g, Inr ())
          | Some stamp \<Rightarrow>
              if stamp = [] then (put_backlog g, Inr ())
              else (case iso_micros stamp of None \<Rightarrow> (g, Inl ValueError)
                    | Some us \<Rightarrow> (put_backlog (put MaxKafka (of_int us / 1000000) g), Inr ()))))"

definition put_checks :: "msnap list \<Rightarrow> rat \<Rightarrow> gauges \<Rightarrow> gauges" where
  "put_checks ss now g =
     put OffsetGaps (fresh_ingest_value ss OFFSET_GAPS now)
       (put UnresolvableIds (fresh_ingest_value ss UNRESOLVABLE_IDS now)
         (put AuditFailures (num (latest_job_summary ss JOB_MAINTENANCE) AUDIT_FAILURES) g))"

definition put_table :: "string \<Rightarrow> metadata \<Rightarrow> msnap \<Rightarrow> int \<Rightarrow> gauges \<Rightarrow> gauges" where
  "put_table label md cur ms g =
     (let m = ms_summary cur; files = num m ''total-data-files''; size = num m ''total-files-size'';
          g1 = put (AvgFileBytes label) (if files = 0 then 0 else size / files)
                 (put (AddedRecords label) (num m ''added-records'')
                   (put (BytesTotal label) size (put (FilesTotal label) files
                     (put (RowsTotal label) (num m ''total-records'') (put (LastCommit label) (seconds ms) g)))));
          compacted = latest_compaction_ts (md_snaps md)
      in if compacted = 0 then g1 else put (LastCompaction label) compacted g1)"

definition refresh_table :: "string \<Rightarrow> metadata \<Rightarrow> rat \<Rightarrow> gauges \<Rightarrow> gauges \<times> unit res" where
  "refresh_table label md now g =
     (case current_snapshot md of
        None \<Rightarrow> (put (FilesTotal label) 0 (put (RowsTotal label) 0 g), Inr ())
      | Some cur \<Rightarrow>
          (case ms_ts cur of None \<Rightarrow> (g, Inl KeyError)
           | Some ms \<Rightarrow>
               (let g1 = put_table label md cur ms g in
                if label = INGEST_TABLE then
                  put_ingest (md_snaps md) g1
                else if label = CHECKS_TABLE then (put_checks (md_snaps md) now g1, Inr ())
                else (g1, Inr ()))))"

fun refresh_tables :: "catalog \<Rightarrow> string \<Rightarrow> rat \<Rightarrow> (string \<times> string) list \<Rightarrow> nat \<Rightarrow> gauges \<Rightarrow> gauges \<times> nat res" where
  "refresh_tables c prefix now [] errors g = (g, Inr errors)"
| "refresh_tables c prefix now (t # ts) errors g =
     (case ct_load c prefix (fst t) (snd t) of
        None \<Rightarrow> refresh_tables c prefix now ts (errors + 1) g
      | Some md \<Rightarrow>
          (case refresh_table (table_label t) md now g of
             (g', Inl e) \<Rightarrow> (g', Inl e)
           | (g', Inr _) \<Rightarrow> refresh_tables c prefix now ts errors g'))"

definition refresh_disk :: "catalog \<Rightarrow> gauges \<Rightarrow> gauges" where
  "refresh_disk c g =
     (case ct_statvfs c of None \<Rightarrow> g
      | Some (blocks, avail, frsize) \<Rightarrow>
          (let total = blocks * frsize; free = avail * frsize in
           if total \<le> 0 then g
           else put DiskFreeBytes (of_int free) (put DiskUsedRatio (of_int (total - free) / of_int total) g)))"

definition refresh :: "catalog \<Rightarrow> string \<Rightarrow> rat \<Rightarrow> gauges \<Rightarrow> gauges \<times> nat res" where
  "refresh c prefix now g =
     (case list_tables c prefix of Inl e \<Rightarrow> (g, Inl e)
      | Inr ts \<Rightarrow>
          (case refresh_tables c prefix now ts 0 g of
             (g', Inl e) \<Rightarrow> (g', Inl e)
           | (g', Inr errors) \<Rightarrow> (put LastRefresh now (put ScrapeErrors (of_nat errors) (refresh_disk c g')), Inr errors)))"

text \<open>One turn of the \<open>serve\<close> loop: the prefix is resolved again after any error.\<close>

definition serve_turn :: "catalog \<Rightarrow> rat \<Rightarrow> string option \<times> gauges \<Rightarrow> string option \<times> gauges" where
  "serve_turn c now st =
     (case (case fst st of Some p \<Rightarrow> Inr p | None \<Rightarrow> ct_prefix c) of
        Inl e \<Rightarrow> (None, snd st)
      | Inr p \<Rightarrow>
          (case refresh c p now (snd st) of (g, Inl e) \<Rightarrow> (None, g) | (g, Inr _) \<Rightarrow> (Some p, g)))"


section \<open>What the gauges depend on\<close>

interpretation job_snapshots: job_log stamp_ms "by_job job" "\<lambda>ss. latest_job_snapshot ss job" for job
  by unfold_locales (simp add: latest_job_snapshot_def)

interpretation key_snapshots: job_log stamp_ms "carries key" "\<lambda>ss. py_max_by stamp_ms (filter (carries key) ss)" for key
  by unfold_locales simp

text \<open>The catalog may answer with the snapshots in any order.\<close>

definition reordered :: "metadata \<Rightarrow> metadata \<Rightarrow> bool" where
  "reordered md md' = (md_current md = md_current md' \<and> mset (md_snaps md) = mset (md_snaps md') \<and>
     distinct (map ms_id (md_snaps md)) \<and> distinct (map stamp_ms (md_snaps md)))"

lemma py_max_by_mset:
  assumes "mset xs = mset ys" and "distinct (map f xs)"
  shows "py_max_by f (filter P xs) = py_max_by f (filter P ys)"
proof (cases "py_max_by f (filter P xs)")
  case None
  then have "filter P xs = []" by simp
  then have "filter P ys = []" using mset_eq_setD [OF assms(1)] by (auto simp: filter_empty_conv)
  then show ?thesis using None by simp
next
  case (Some m)
  have m: "m \<in> set (filter P xs)" by (rule py_max_by_mem [OF Some])
  have sets: "set xs = set ys" by (rule mset_eq_setD [OF assms(1)])
  have "f y < f m" if "y \<in> set (filter P ys)" "y \<noteq> m" for y
  proof -
    have y: "y \<in> set (filter P xs)" using that sets by simp
    have "f y \<noteq> f m" using assms(2) y m that(2) by (auto simp: distinct_map inj_on_def)
    with py_max_by_ge [OF Some y] show ?thesis by simp
  qed
  then have "py_max_by f (filter P ys) = Some m" using m sets by (intro py_max_by_unique) auto
  with Some show ?thesis by simp
qed

lemma find_mset:
  assumes "mset xs = mset ys" and "distinct (map f xs)"
  shows "List.find (\<lambda>x. f x = k) xs = List.find (\<lambda>x. f x = k) ys"
proof (cases "List.find (\<lambda>x. f x = k) xs")
  case None
  then have "List.find (\<lambda>x. f x = k) ys = None" using mset_eq_setD [OF assms(1)] by (auto simp: find_None_iff)
  then show ?thesis using None by simp
next
  case (Some x)
  then have x: "x \<in> set xs" "f x = k" by (auto simp: find_Some_iff)
  obtain y where y: "List.find (\<lambda>x. f x = k) ys = Some y"
    using x mset_eq_setD [OF assms(1)] by (cases "List.find (\<lambda>x. f x = k) ys") (auto simp: find_None_iff)
  then have "y \<in> set xs" "f y = k" using mset_eq_setD [OF assms(1)] by (auto simp: find_Some_iff)
  then have "y = x" using x assms(2) by (auto simp: distinct_map inj_on_def)
  then show ?thesis using Some y by simp
qed

lemma foldl_max_Max: "foldl max (x :: int) xs = Max (insert x (set xs))"
  using Max.set_eq_fold [of x xs] by (simp add: foldl_conv_fold fun_eq_iff max.commute) 

lemma compaction_mset: "mset xs = mset ys \<Longrightarrow> latest_compaction_ts xs = latest_compaction_ts ys"
proof -
  assume a: "mset xs = mset ys"
  have "latest_compaction_ts ss = (if \<exists>s \<in> set ss. is_rewrite s then seconds (Max (stamp_ms ` {s \<in> set ss. is_rewrite s})) else 0)" for ss
  proof (cases "filter is_rewrite ss")
    case Nil
    then show ?thesis by (auto simp: latest_compaction_ts_def filter_empty_conv)
  next
    case (Cons t ts)
    have "{s \<in> set ss. is_rewrite s} = insert t (set ts)" using arg_cong [OF Cons, of set] by auto
    moreover have "\<exists>s \<in> set ss. is_rewrite s" using calculation by auto
    ultimately show ?thesis by (simp add: latest_compaction_ts_def Cons foldl_max_Max)
  qed
  then show ?thesis using mset_eq_setD [OF a] by simp
qed

text \<open>
  The order of the metadata array means nothing: a refresh of a table reads the same gauges from any
  reordering of its snapshots.
\<close>
theorem refresh_order_free:
  assumes "reordered md md'"
  shows "refresh_table label md now g = refresh_table label md' now g"
proof -
  have eq: "mset (md_snaps md) = mset (md_snaps md')" and ids: "distinct (map ms_id (md_snaps md))"
    and ts: "distinct (map stamp_ms (md_snaps md))" and cur: "md_current md = md_current md'"
    using assms by (simp_all add: reordered_def)
  have "current_snapshot md = current_snapshot md'"
    using find_mset [OF eq ids] by (simp add: current_snapshot_def cur split: option.split)
  moreover have jobs: "latest_job_summary (md_snaps md) job = latest_job_summary (md_snaps md') job" for job
    by (simp add: latest_job_summary_def latest_job_snapshot_def py_max_by_mset [OF eq ts])
  moreover have fresh: "fresh_ingest_value (md_snaps md) key now = fresh_ingest_value (md_snaps md') key now" for key
    by (simp add: fresh_ingest_value_def py_max_by_mset [OF eq ts])
  moreover have compaction: "latest_compaction_ts (md_snaps md) = latest_compaction_ts (md_snaps md')" by (rule compaction_mset [OF eq])
  moreover have "put_table label md cur ms h = put_table label md' cur ms h" "put_ingest (md_snaps md) h = put_ingest (md_snaps md') h"
      "put_checks (md_snaps md) now h = put_checks (md_snaps md') now h" for cur ms h
    using compaction jobs fresh by (simp_all add: put_table_def put_ingest_def put_checks_def)
  ultimately show ?thesis by (auto simp: refresh_table_def Let_def split: option.split)
qed

section \<open>One writer cannot speak for another\<close>

text \<open>
  No commit of another writer moves a finding's gauge: an ingest commit leaves the audit's count as the
  last audit filed it, a commit that does not carry a finding's count leaves that finding's gauge, and each
  ingest count reads 0 once the newest commit that carries it is older than fifteen minutes.
\<close>
theorem finding_gauges_separate:
  assumes "map_of (ms_summary s) JOB = Some JOB_INGEST"
  shows "num (latest_job_summary (ss @ [s]) JOB_MAINTENANCE) AUDIT_FAILURES = num (latest_job_summary ss JOB_MAINTENANCE) AUDIT_FAILURES \<and>
    (map_of (ms_summary s) key = None \<longrightarrow> fresh_ingest_value (ss @ [s]) key now = fresh_ingest_value ss key now) \<and>
    ((\<forall>q \<in> set ss. carries key q \<longrightarrow> seconds (stamp_ms q) < now - 900) \<longrightarrow> fresh_ingest_value ss key now = 0)"
proof (intro conjI impI)
  have "\<not> by_job JOB_MAINTENANCE s" using assms by (simp add: by_job_def JOB_INGEST_def JOB_MAINTENANCE_def)
  from job_snapshots.newest_foreign [OF this, of ss]
  show "num (latest_job_summary (ss @ [s]) JOB_MAINTENANCE) AUDIT_FAILURES = num (latest_job_summary ss JOB_MAINTENANCE) AUDIT_FAILURES"
    by (simp add: latest_job_summary_def)
next
  assume "map_of (ms_summary s) key = None"
  then have "\<not> carries key s" by (simp add: carries_def)
  from key_snapshots.newest_foreign [OF this, of ss]
  show "fresh_ingest_value (ss @ [s]) key now = fresh_ingest_value ss key now" by (simp add: fresh_ingest_value_def)
next
  assume old: "\<forall>q \<in> set ss. carries key q \<longrightarrow> seconds (stamp_ms q) < now - 900"
  show "fresh_ingest_value ss key now = 0"
  proof (cases "py_max_by stamp_ms (filter (carries key) ss)")
    case (Some q)
    then have "q \<in> set ss" "carries key q" using py_max_by_mem [OF Some] by auto
    then have "seconds (stamp_ms q) < now - 900" using old by blast
    then show ?thesis by (simp add: fresh_ingest_value_def Some INGEST_SUMMARY_MAX_AGE_def)
  qed (simp add: fresh_ingest_value_def)
qed

section \<open>A refresh that ends and one that does not\<close>

lemma put_ingest_last [simp]: "fst (put_ingest ss g) LastRefresh = g LastRefresh"
proof -
  have "foldl (\<lambda>g (t, n). put (IngestBacklog t) n g) h xs LastRefresh = h LastRefresh" for h xs
    by (induction xs arbitrary: h) (auto simp: put_def)
  then show ?thesis by (simp add: put_ingest_def Let_def put_def split: option.split)
qed

lemma put_table_last [simp]: "put_table label md cur ms g LastRefresh = g LastRefresh"
  by (simp add: put_table_def put_def Let_def)

lemma refresh_table_last [simp]: "fst (refresh_table label md now g) LastRefresh = g LastRefresh"
  by (simp add: refresh_table_def Let_def put_checks_def put_def split: option.split)

lemma refresh_tables_last: "refresh_tables c p now ts n g = (g', r) \<Longrightarrow> g' LastRefresh = g LastRefresh"
proof (induction ts arbitrary: n g)
  case (Cons t ts)
  show ?case
  proof (cases "ct_load c p (fst t) (snd t)")
    case None
    then show ?thesis using Cons by simp
  next
    case (Some md)
    obtain g1 q where s: "refresh_table (table_label t) md now g = (g1, q)" by (metis prod.exhaust)
    have "g1 LastRefresh = g LastRefresh" using refresh_table_last [of "table_label t" md now g] by (simp add: s)
    then show ?thesis using Cons Some s by (cases q) auto
  qed
qed simp

lemma refresh_tables_errors:
  "refresh_tables c p now ts n g = (g', Inr m) \<Longrightarrow> m = n + length (filter (\<lambda>t. ct_load c p (fst t) (snd t) = None) ts)"
proof (induction ts arbitrary: n g)
  case (Cons t ts)
  show ?case
  proof (cases "ct_load c p (fst t) (snd t)")
    case None
    then show ?thesis using Cons.prems Cons.IH [of "n + 1" g] by simp
  next
    case (Some md)
    then show ?thesis using Cons.prems Cons.IH [of n] by (auto split: sum.splits prod.splits)
  qed
qed simp

text \<open>
  \<open>k2_lake_last_refresh\<close> moves exactly when a refresh completes: it is then \<open>now\<close>, beside the exact number
  of tables the catalog would not load; a refresh that raises leaves it where it was.
\<close>
theorem last_refresh_honest:
  assumes "refresh c p now g = (g', r)"
  shows "case r of Inl _ \<Rightarrow> g' LastRefresh = g LastRefresh
    | Inr n \<Rightarrow> g' LastRefresh = Some now \<and> g' ScrapeErrors = Some (of_nat n) \<and>
        (\<exists>ts. list_tables c p = Inr ts \<and> n = length (filter (\<lambda>t. ct_load c p (fst t) (snd t) = None) ts))"
proof (cases "list_tables c p")
  case (Inl e)
  then show ?thesis using assms by (auto simp: refresh_def)
next
  case (Inr ts)
  obtain g1 q where s: "refresh_tables c p now ts 0 g = (g1, q)" by (metis prod.exhaust)
  show ?thesis
    using assms Inr s refresh_tables_last [OF s] refresh_tables_errors [of c p now ts 0 g g1]
    by (cases q) (auto simp: refresh_def put_def)
qed

lemma refresh_tables_stop:
  assumes "ct_load c p (fst t) (snd t) = Some md" and "\<And>g. \<exists>e g'. refresh_table (table_label t) md now g = (g', Inl e)"
  shows "\<exists>g' e. refresh_tables c p now (ts @ t # us) n g = (g', Inl e)"
proof (induction ts arbitrary: n g)
  case Nil
  then show ?case using assms(1) assms(2) [of g] by auto
next
  case (Cons u ts)
  show ?case
  proof (cases "ct_load c p (fst u) (snd u)")
    case None
    then show ?thesis using Cons by simp
  next
    case (Some md')
    obtain g1 q where s: "refresh_table (table_label u) md' now g = (g1, q)" by (metis prod.exhaust)
    show ?thesis using Cons Some s by (cases q) auto
  qed
qed

text \<open>
  One bad property darkens the exporter: while the newest ingest summary of \<open>raw.messages\<close> carries a
  timestamp that does not parse, no refresh completes, whatever else the catalog serves.
\<close>
theorem bad_stamp_darkens:
  assumes "list_tables c p = Inr ts" and "(''raw'', ''messages'') \<in> set ts"
    and "ct_load c p ''raw'' ''messages'' = Some md" and "current_snapshot md = Some cur" and "ms_ts cur = Some ms"
    and "map_of (latest_job_summary (md_snaps md) JOB_INGEST) MAX_KAFKA_TS = Some stamp" and "stamp \<noteq> []" and "iso_micros stamp = None"
  shows "\<exists>g' e. refresh c p now g = (g', Inl e) \<and> g' LastRefresh = g LastRefresh"
proof -
  obtain us vs where ts: "ts = us @ (''raw'', ''messages'') # vs" using split_list [OF assms(2)] by blast
  have "refresh_table (table_label (''raw'', ''messages'')) md now h = (put_table INGEST_TABLE md cur ms h, Inl ValueError)" for h
    using assms(4-8) by (simp add: refresh_table_def table_label_def INGEST_TABLE_def put_ingest_def Let_def)
  then have "\<exists>g' e. refresh_tables c p now ts 0 g = (g', Inl e)"
    unfolding ts using assms(3) by (intro refresh_tables_stop [where md = md]) auto
  then obtain g' e where s: "refresh_tables c p now ts 0 g = (g', Inl e)" by blast
  then show ?thesis using refresh_tables_last [OF s] assms(1) by (simp add: refresh_def)
qed

text \<open>
  The loop heals by itself: from any state, a first turn that fails forgets the prefix and the next turn the
  catalog answers completes, whatever was served before.
\<close>
theorem serve_heals:
  assumes "ct_prefix c = Inr p" and "list_tables c p = Inr ts"
    and "\<And>g. \<exists>g' n. refresh_tables c p t1 ts 0 g = (g', Inr n)" and "refresh bad q t0 (snd st) = (h, Inl e)" and "fst st = Some q"
  shows "fst (serve_turn bad t0 st) = None \<and> snd (serve_turn c t1 (serve_turn bad t0 st)) LastRefresh = Some t1"
proof -
  have bad: "serve_turn bad t0 st = (None, h)" using assms(4,5) by (simp add: serve_turn_def)
  obtain g' n where "refresh_tables c p t1 ts 0 h = (g', Inr n)" using assms(3) by blast
  then show ?thesis using assms(1,2) by (simp add: bad) (simp add: serve_turn_def refresh_def put_def)
qed

section \<open>The properties at concrete inputs\<close>

definition demo_snap :: "int \<Rightarrow> int \<Rightarrow> summary \<Rightarrow> msnap" where
  "demo_snap i ms m = \<lparr>ms_id = Some i, ms_ts = Some ms, ms_summary = m\<rparr>"

definition demo_audit :: msnap where
  "demo_audit = demo_snap 1 1000 [(JOB, JOB_MAINTENANCE), (AUDIT_FAILURES, ''2'')]"

definition demo_gap :: msnap where
  "demo_gap = demo_snap 2 2000 [(JOB, JOB_INGEST), (AUDIT_FAILURES, ''0''), (OFFSET_GAPS, ''1'')]"

definition demo_ids :: msnap where
  "demo_ids = demo_snap 3 1500 [(JOB, JOB_INGEST), (UNRESOLVABLE_IDS, ''1'')]"

definition demo_catalog :: "string \<Rightarrow> catalog" where
  "demo_catalog stamp = \<lparr>ct_prefix = Inr ''p'', ct_namespaces = (\<lambda>_. Inr [[''raw'']]), ct_idents = (\<lambda>_ _. Inr [''messages'']),
     ct_load = (\<lambda>_ _ _. Some \<lparr>md_current = Some 7, md_snaps = [demo_snap 7 1000 [(JOB, JOB_INGEST), (MAX_KAFKA_TS, stamp)]]\<rparr>),
     ct_statvfs = None\<rparr>"

theorem refresh_order_free_witness:
  "refresh_table CHECKS_TABLE \<lparr>md_current = Some 2, md_snaps = [demo_audit, demo_gap]\<rparr> 5 (\<lambda>_. None) =
   refresh_table CHECKS_TABLE \<lparr>md_current = Some 2, md_snaps = [demo_gap, demo_audit]\<rparr> 5 (\<lambda>_. None)"
  by (rule refresh_order_free) (simp add: reordered_def demo_audit_def demo_gap_def demo_snap_def stamp_ms_def)

theorem finding_gauges_separate_witness:
  "num (latest_job_summary ([demo_audit, demo_ids] @ [demo_gap]) JOB_MAINTENANCE) AUDIT_FAILURES =
     num (latest_job_summary [demo_audit, demo_ids] JOB_MAINTENANCE) AUDIT_FAILURES \<and>
   fresh_ingest_value ([demo_audit, demo_ids] @ [demo_gap]) UNRESOLVABLE_IDS 3 = fresh_ingest_value [demo_audit, demo_ids] UNRESOLVABLE_IDS 3 \<and>
   fresh_ingest_value [demo_audit, demo_ids] UNRESOLVABLE_IDS 1000 = 0"
proof -
  have job: "map_of (ms_summary demo_gap) JOB = Some JOB_INGEST" by (simp add: demo_gap_def demo_snap_def)
  have key: "map_of (ms_summary demo_gap) UNRESOLVABLE_IDS = None"
    by (simp add: demo_gap_def demo_snap_def JOB_def AUDIT_FAILURES_def OFFSET_GAPS_def UNRESOLVABLE_IDS_def)
  have "\<forall>q \<in> set [demo_audit, demo_ids]. carries UNRESOLVABLE_IDS q \<longrightarrow> seconds (stamp_ms q) < 1000 - 900"
    by (simp add: demo_audit_def demo_ids_def demo_snap_def stamp_ms_def seconds_def)
  with finding_gauges_separate [OF job, of "[demo_audit, demo_ids]" UNRESOLVABLE_IDS] key show ?thesis by blast
qed

lemma demo_tables: "list_tables (demo_catalog stamp) p = Inr [(''raw'', ''messages'')]"
  by (simp add: list_tables_def demo_catalog_def)

lemma demo_current:
  "current_snapshot \<lparr>md_current = Some 7, md_snaps = [demo_snap 7 1000 m]\<rparr> = Some (demo_snap 7 1000 m)"
  "latest_job_summary [demo_snap 7 1000 [(JOB, JOB_INGEST), (MAX_KAFKA_TS, stamp)]] JOB_INGEST = [(JOB, JOB_INGEST), (MAX_KAFKA_TS, stamp)]"
  by (simp_all add: current_snapshot_def demo_snap_def latest_job_summary_def latest_job_snapshot_def by_job_def)

lemma demo_good: "\<exists>g'. refresh_tables (demo_catalog []) p now [(''raw'', ''messages'')] 0 g = (g', Inr 0)"
proof -
  let ?ss = "[demo_snap 7 1000 [(JOB, JOB_INGEST), (MAX_KAFKA_TS, [])]]"
  have ms: "ms_ts (demo_snap 7 1000 m) = Some 1000" for m by (simp add: demo_snap_def)
  have diff: "JOB \<noteq> MAX_KAFKA_TS" and label: "table_label (''raw'', ''messages'') = INGEST_TABLE"
    by (simp_all add: JOB_def MAX_KAFKA_TS_def table_label_def INGEST_TABLE_def)
  have "\<exists>h'. put_ingest ?ss h = (h', Inr ())" for h using diff by (simp add: put_ingest_def demo_current)
  then obtain h' where "put_ingest ?ss (put_table INGEST_TABLE \<lparr>md_current = Some 7, md_snaps = ?ss\<rparr>
      (demo_snap 7 1000 [(JOB, JOB_INGEST), (MAX_KAFKA_TS, [])]) 1000 g) = (h', Inr ())" by blast
  then show ?thesis by (simp add: demo_catalog_def label refresh_table_def demo_current ms)
qed

theorem last_refresh_honest_witness:
  "snd (refresh (demo_catalog []) ''p'' 5 (\<lambda>_. None)) = Inr 0 \<and> fst (refresh (demo_catalog []) ''p'' 5 (\<lambda>_. None)) LastRefresh = Some 5"
proof -
  obtain g' where "refresh (demo_catalog []) ''p'' 5 (\<lambda>_. None) = (g', Inr 0)"
    using demo_good [of "''p''" 5 "\<lambda>_. None"] by (auto simp: refresh_def demo_tables)
  with last_refresh_honest [OF this] show ?thesis by simp
qed

theorem bad_stamp_darkens_witness:
  "\<exists>g' e. refresh (demo_catalog ''soon'') ''p'' 5 (\<lambda>_. None) = (g', Inl e) \<and> g' LastRefresh = None"
proof -
  let ?m = "[(JOB, JOB_INGEST), (MAX_KAFKA_TS, ''soon'')]"
  have "iso_micros ''soon'' = None" by code_simp
  moreover have "ct_load (demo_catalog ''soon'') ''p'' ''raw'' ''messages'' = Some \<lparr>md_current = Some 7, md_snaps = [demo_snap 7 1000 ?m]\<rparr>"
    by (simp add: demo_catalog_def)
  ultimately show ?thesis
    using bad_stamp_darkens [OF demo_tables, of "''soon''" "''p''" "\<lparr>md_current = Some 7, md_snaps = [demo_snap 7 1000 ?m]\<rparr>" "demo_snap 7 1000 ?m" 1000
      "''soon''" 5 "\<lambda>_. None"]
    by (simp add: demo_current) (simp add: demo_snap_def JOB_def MAX_KAFKA_TS_def)
qed

theorem serve_heals_witness:
  "snd (serve_turn (demo_catalog []) 6 (serve_turn ((demo_catalog [])\<lparr>ct_namespaces := (\<lambda>_. Inl OSError)\<rparr>) 5 (Some ''p'', \<lambda>_. None))) LastRefresh = Some 6"
proof -
  let ?bad = "(demo_catalog [])\<lparr>ct_namespaces := (\<lambda>_. Inl OSError)\<rparr>" and ?st = "(Some ''p'', \<lambda>_. None) :: string option \<times> gauges"
  have fail: "refresh ?bad ''p'' 5 (snd ?st) = (\<lambda>_. None, Inl OSError)" by (simp add: refresh_def list_tables_def)
  have pre: "ct_prefix (demo_catalog []) = Inr ''p''" by (simp add: demo_catalog_def)
  have runs: "\<exists>g' n. refresh_tables (demo_catalog []) ''p'' 6 [(''raw'', ''messages'')] 0 g = (g', Inr n)" for g
    using demo_good by blast
  have "fst (serve_turn ?bad 5 ?st) = None \<and> snd (serve_turn (demo_catalog []) 6 (serve_turn ?bad 5 ?st)) LastRefresh = Some 6"
    by (rule serve_heals [OF pre demo_tables runs fail]) simp
  then show ?thesis by blast
qed

end
