(* ===== verification/Audits.thy ===== *)
theory Audits
  imports Ingest Bronze Silver Gold Books
begin

text \<open>
  The audits of \<open>docker/lake/maintenance.py\<close>: every check the nightly run asks of the lake, the list of them,
  and the run that turns a check that raises into a failed row. A check reads the whole lake (\<open>warehouse\<close>,
  the tables the other theories write) and returns result rows, or raises. What Spark, the registry and the
  clock answer is \<open>audit_env\<close>. Instants are microseconds, Kafka's are milliseconds, as in the tables; the
  catalog is the default \<open>lake\<close>.
\<close>

section \<open>The lake as the audits see it\<close>

record result =
  res_check :: string
  res_scope :: string
  res_passed :: bool
  res_observed :: int
  res_detail :: string

definition audit_result :: "string \<Rightarrow> string \<Rightarrow> bool \<Rightarrow> int \<Rightarrow> string \<Rightarrow> result" where
  "audit_result check sc ok n txt = \<lparr>res_check = check, res_scope = sc, res_passed = ok, res_observed = n, res_detail = txt\<rparr>"

record 'j warehouse =
  wh_raw :: "raw_row table"
  wh_checks :: "audit_row table"
  wh_bronze :: "string \<Rightarrow> 'j bronze_row table"
  wh_silver :: "venue \<Rightarrow> silver_row table"
  wh_gold :: gold
  wh_books :: books

text \<open>
  \<open>ae_trade\<close> and \<open>ae_book\<close> read a bronze payload's columns as silver does, \<open>ae_null\<close> is whether the column a
  table declares required is \<open>NULL\<close>. \<open>ae_sample\<close> is \<open>TABLESAMPLE\<close>, \<open>ae_keys\<close> is \<open>json_object_keys\<close> at a path
  (no rows where the path is missing), \<open>ae_cast_ts\<close> Spark's cast of a text to a timestamp, \<open>ae_message\<close> the
  text of an exception.
\<close>

record 'j audit_env =
  ae_bronze :: "'j bronze_env"
  ae_null :: "venue_table \<Rightarrow> 'j \<Rightarrow> bool"
  ae_trade :: "'j \<Rightarrow> trade_cols"
  ae_book :: "'j \<Rightarrow> book_cols"
  ae_casts :: casts
  ae_gold :: gold_env
  ae_sample :: "raw_row list \<Rightarrow> raw_row list"
  ae_keys :: "string \<Rightarrow> bytes \<Rightarrow> string list"
  ae_cast_ts :: "string \<Rightarrow> int option"
  ae_now :: int
  ae_message :: "exn \<Rightarrow> string"

definition lake_table :: "string \<Rightarrow> string" where "lake_table bare = ''lake.'' @ bare"
definition RAW_TABLE :: string where "RAW_TABLE = lake_table ''raw.messages''"
definition AUDIT_TABLE :: string where "AUDIT_TABLE = lake_table ''audit.checks''"
definition GOLD_TRADES :: string where "GOLD_TRADES = lake_table ''gold.trades''"
definition GOLD_BARS :: string where "GOLD_BARS = lake_table ''gold.bars''"
definition GOLD_BOOK :: string where "GOLD_BOOK = lake_table ''gold.book_top20''"
definition GOLD_BBO :: string where "GOLD_BBO = lake_table ''gold.bbo_1s''"
definition bronze_name :: "venue_table \<Rightarrow> string" where "bronze_name t = lake_table (''bronze.'' @ vt_name t)"
definition silver_name :: "venue \<Rightarrow> string" where "silver_name v = lake_table (''silver.trades_'' @ exchange_name v)"
definition book_name :: "venue \<Rightarrow> string" where "book_name v = lake_table (''silver.book_'' @ exchange_name v)"
definition ohlcv_name :: "string \<Rightarrow> string" where "ohlcv_name tf = lake_table (''gold.ohlcv_'' @ tf)"

definition book_source :: "venue \<Rightarrow> string" where
  "book_source v = (case v of Binance \<Rightarrow> ''binance_depth20'' | Kraken \<Rightarrow> ''kraken_book'' | Coinbase \<Rightarrow> ''coinbase_level2'')"

fun join_texts :: "string \<Rightarrow> string list \<Rightarrow> string" where
  "join_texts sep [] = []"
| "join_texts sep [x] = x"
| "join_texts sep (x # xs) = x @ sep @ join_texts sep xs"

text \<open>A table read at a snapshot id that came back out of a summary: an id that is no number or names no
  snapshot (it was expired) raises.\<close>

definition snapshot_rows :: "'r table \<Rightarrow> string \<Rightarrow> 'r list res" where
  "snapshot_rows t src =
     (case py_int src of None \<Rightarrow> Inl ValueError
      | Some i \<Rightarrow> if i \<in> set (map snap_id (snaps t)) then Inr (rows_at t i) else Inl ValueError)"

section \<open>Offset continuity\<close>

definition part_keys :: "raw_row list \<Rightarrow> (string \<times> int) list" where
  "part_keys rows = remdups (map (\<lambda>r. (r_topic r, r_part r)) rows)"

definition part_offsets :: "raw_row list \<Rightarrow> string \<Rightarrow> int \<Rightarrow> int list" where
  "part_offsets rows t p = map r_off (filter (\<lambda>r. r_topic r = t \<and> r_part r = p) rows)"

text \<open>\<open>lag(offset)\<close> over the partition in offset order, the rows where it jumps.\<close>

fun lag_holes :: "int list \<Rightarrow> (int \<times> int) list" where
  "lag_holes (a # b # xs) = (if a + 1 < b then (a + 1, b - 1) # lag_holes (b # xs) else lag_holes (b # xs))"
| "lag_holes xs = []"

definition part_holes :: "raw_row list \<Rightarrow> string \<Rightarrow> int \<Rightarrow> gap list" where
  "part_holes rows t p = map (\<lambda>(a, b). (t, p, a, b)) (lag_holes (sort (part_offsets rows t p)))"

definition hole_ranges :: "gap list \<Rightarrow> string" where
  "hole_ranges holes = join_texts '', '' (map (\<lambda>(_, _, a, b). show_int a @ ''..'' @ show_int b) holes)"

definition net_recorded :: "raw_row list \<Rightarrow> finding \<Rightarrow> gap list \<Rightarrow> result res" where
  "net_recorded rows f gaps =
     (case rpartition_slash (scope f) of (topic, part) \<Rightarrow>
        if observed f \<le> 0 \<or> \<not> py_isdigit part
        then Inr (audit_result ''offset_continuity'' (scope f) False (observed f) (detail f))
        else (case py_int part of None \<Rightarrow> Inl ValueError
        | Some p \<Rightarrow>
            (let holes = part_holes rows topic p;
                 uncovered = uncovered_holes holes gaps;
                 accounted_for = sum_list (map (\<lambda>(_, _, a, b). b - a + 1) holes)
             in if uncovered \<noteq> [] \<or> accounted_for \<noteq> observed f
                then Inr (audit_result ''offset_continuity'' (scope f) False (observed f)
                  (detail f @ ''; '' @ show_int (int (length uncovered)) @ '' of '' @ show_int (int (length holes)) @
                   '' holes are NOT covered by a recorded offset_gap ('' @
                   (if hole_ranges uncovered = [] then ''none'' else hole_ranges uncovered) @ '')''))
                else Inr (audit_result ''offset_continuity'' (scope f) True (observed f)
                  (show_int (int (length holes)) @ '' recorded gaps netted ('' @ hole_ranges holes @ ''); '' @
                   show_int accounted_for @ '' records missing, all acknowledged by an offset_gap row in '' @ AUDIT_TABLE @
                   '' -- nothing else is'')))))"

definition audit_offset_continuity :: "'j warehouse \<Rightarrow> result list res" where
  "audit_offset_continuity w =
     (let rows = table_rows (wh_raw w); parts = part_keys rows in
      if parts = [] then Inr [audit_result ''offset_continuity'' RAW_TABLE True 0 ''table is empty'']
      else (let failures = offset_gaps (map (\<lambda>(t, p). gap_row t p (part_offsets rows t p)) parts) in
        if failures = []
        then Inr [audit_result ''offset_continuity'' RAW_TABLE True 0 (show_int (int (length parts)) @ '' partitions gapless'')]
        else res_bind (gaps_of (wh_checks w)) (\<lambda>gaps. res_map (\<lambda>f. net_recorded rows f gaps) failures)))"

section \<open>Identifiers, unparsed frames, drift\<close>

definition audit_duplicates :: "string \<Rightarrow> string list \<Rightarrow> 'k list \<Rightarrow> result list" where
  "audit_duplicates sc names keys =
     (let counts = map (\<lambda>k. int (length (filter (\<lambda>x. x = k) keys))) (remdups keys);
          dups = filter (\<lambda>n. 1 < n) counts;
          extra = sum_list (map (\<lambda>n. n - 1) dups);
          key_list = join_texts '', '' names
      in [audit_result ''duplicate_identifiers'' sc (extra = 0) extra
            (if extra = 0 then ''('' @ key_list @ '') is unique''
             else show_int (int (length dups)) @ '' duplicated keys, '' @ show_int extra @ '' extra rows on ('' @ key_list @ '')'')])"

definition required_null :: "'j audit_env \<Rightarrow> venue_table \<Rightarrow> 'j bronze_row \<Rightarrow> bool" where
  "required_null env t b = (case b_cols b of None \<Rightarrow> True | Some c \<Rightarrow> ae_null env t c)"

definition audit_unparseable :: "'j audit_env \<Rightarrow> venue_table \<Rightarrow> 'j bronze_row list \<Rightarrow> result list" where
  "audit_unparseable env t rows =
     (let bad = filter (required_null env t) rows;
          places = take 10 (sort (map (\<lambda>b. (b_part b, b_off b)) bad)) in
      if places = [] then [audit_result ''bronze_unparseable'' (bronze_name t) True 0 ''every frame parsed as the declared shape'']
      else [audit_result ''bronze_unparseable'' (bronze_name t) False (int (length bad))
        (show_int (int (length bad)) @ '' frame(s) with '' @ vt_required t @ '' IS NULL; first (partition/offset): '' @
         join_texts '', '' (map (\<lambda>(p, x). show_int p @ ''/'' @ show_int x) places) @
         ''. Read them back from raw.messages by (src_topic, src_partition, src_offset)'')])"

text \<open>The Python list of an \<open>f\<close>-string, for keys without quotes or backslashes.\<close>

definition show_keys :: "string list \<Rightarrow> string" where
  "show_keys ks = ''['' @ join_texts '', '' (map (\<lambda>k. CHR 0x27 # k @ [CHR 0x27]) ks) @ '']''"

definition drift_sample :: "'j audit_env \<Rightarrow> venue_table \<Rightarrow> raw_row list \<Rightarrow> raw_row list" where
  "drift_sample env t rows =
     filter (\<lambda>r. ends_with (r_topic r) (''.raw.'' @ vt_exchange t) \<and> r_schema_id r \<noteq> None \<and> r_kafka_ts r \<ge> ae_now env - MS_PER_DAY)
       (ae_sample env rows)"

definition drift_frames :: "'j audit_env \<Rightarrow> venue_table \<Rightarrow> raw_row list \<Rightarrow> frame list res" where
  "drift_frames env t sample =
     res_bind (res_map (\<lambda>i.
         res_bind (fetch_schema (be_registry (ae_bronze env)) i) (\<lambda>schema.
         decode_part_rows (ae_bronze env) schema (filter (\<lambda>r. r_schema_id r = Some i) sample)))
       (remdups (map (\<lambda>r. the (r_schema_id r)) sample)))
     (\<lambda>parts. Inr (filter (\<lambda>f. f_stream f = vt_stream t) (map snd (concat parts))))"

definition audit_schema_drift :: "'j audit_env \<Rightarrow> venue_table \<Rightarrow> raw_row list \<Rightarrow> result list res" where
  "audit_schema_drift env t rows =
     (let sample = drift_sample env t rows in
      if sample = [] then Inr [audit_result ''bronze_schema_drift'' (bronze_name t) True 0 ''no raw frames in the last day to sample'']
      else res_bind (drift_frames env t sample) (\<lambda>frames.
        (let seen = map (\<lambda>(path, _). (path, concat (map (\<lambda>f. ae_keys env path (f_payload f)) frames))) (vt_keys t);
             extra = drift seen (vt_keys t)
         in if extra = []
            then Inr [audit_result ''bronze_schema_drift'' (bronze_name t) True 0 ''sampled 0.1% of the last day: no undeclared keys'']
            else Inr [audit_result ''bronze_schema_drift'' (bronze_name t) False (sum_list (map (\<lambda>(_, ks). int (length ks)) extra))
              (''undeclared keys the venue sends: '' @ join_texts ''; '' (map (\<lambda>(p, ks). p @ '': '' @ show_keys ks) extra) @
               ''. Add the column (/schema-change), rebuild the table'')])))"

section \<open>Parity of the layers\<close>

definition view_row :: "('j \<Rightarrow> 'a) \<Rightarrow> 'j bronze_row \<Rightarrow> 'a bronze_row" where
  "view_row f b =
     \<lparr>b_cols = map_option f (b_cols b), b_symbol = b_symbol b, b_recv_ts_ns = b_recv_ts_ns b, b_recv_ts = b_recv_ts b,
      b_conn_id = b_conn_id b, b_conn_msg_seq = b_conn_msg_seq b, b_topic = b_topic b, b_part = b_part b, b_off = b_off b,
      b_ingest_ts = b_ingest_ts b\<rparr>"

text \<open>Rows in the table against rows its source carries at the position the table names.\<close>

definition parity_result :: "string \<Rightarrow> string \<Rightarrow> string \<Rightarrow> string \<Rightarrow> int \<Rightarrow> int \<Rightarrow> string \<Rightarrow> result" where
  "parity_result sc source src noun actual expected check =
     audit_result check sc (expected = actual) (actual - expected)
       (if expected = actual
        then show_int actual @ '' rows for '' @ show_int expected @ '' '' @ noun @ '' in '' @ source @ '' @ '' @ src
        else show_int actual @ '' rows but '' @ source @ '' @ '' @ src @ '' carries '' @ show_int expected @ '' '' @ noun)"

definition audit_silver_parity :: "'j audit_env \<Rightarrow> venue \<Rightarrow> 'j warehouse \<Rightarrow> result list res" where
  "audit_silver_parity env v w =
     (case src_position (wh_silver w v) SRC_SNAPSHOT_ID of
        None \<Rightarrow> Inr [audit_result ''silver_parity'' (silver_name v) True 0 ''silver has not read bronze yet'']
      | Some src \<Rightarrow>
          res_bind (snapshot_rows (wh_bronze w (trade_source v)) src) (\<lambda>frames.
            (let expected = int (length (concat (map (explode_frame (ae_casts env) 0 v \<circ> view_row (ae_trade env)) frames)));
                 actual = int (length (table_rows (wh_silver w v)))
             in Inr [parity_result (silver_name v) (lake_table (''bronze.'' @ trade_source v)) src ''trades'' actual expected ''silver_parity''])))"

text \<open>An aggregate over no rows is \<open>NULL\<close>, and \<open>int(None)\<close> raises.\<close>

definition audit_silver_flags :: "venue \<Rightarrow> 'j warehouse \<Rightarrow> result list res" where
  "audit_silver_flags v w =
     (let rows = table_rows (wh_silver w v);
          count = (\<lambda>P. show_int (int (length (filter P rows)))) in
      if rows = [] then Inl TypeError
      else Inr [audit_result ''silver_flags'' (silver_name v) True (int (length (filter (\<lambda>r. s_seq_gap r = Some True) rows)))
        (show_int (int (length rows)) @ '' rows: '' @ count s_replay @ '' venue replays, '' @ count (\<lambda>r. s_seq_gap r = Some True) @
         '' trade-id gaps ('' @ show_int (sum_list (map (\<lambda>r. case s_missing r of None \<Rightarrow> 0 | Some n \<Rightarrow> n) rows)) @
         '' ids never received), '' @ count (\<lambda>r. s_precision_loss r = Some True) @ '' beyond 8 decimals'')])"

definition gold_parity_one :: "'j warehouse \<Rightarrow> venue \<Rightarrow> result res" where
  "gold_parity_one w v =
     (let sc = GOLD_TRADES @ ''/'' @ exchange_name v in
      case src_position (gd_trades (wh_gold w)) (position_key v) of
        None \<Rightarrow> Inr (audit_result ''gold_parity'' sc True 0 ''gold has not read this venue yet'')
      | Some src \<Rightarrow>
          res_bind (snapshot_rows (wh_silver w v) src) (\<lambda>rows.
            (let expected = int (length (filter (\<lambda>r. \<not> s_replay r) rows));
                 actual = int (length (filter (\<lambda>g. g_exchange g = exchange_name v) (table_rows (gd_trades (wh_gold w)))))
             in Inr (audit_result ''gold_parity'' sc (expected = actual) (actual - expected)
               (if expected = actual
                then show_int actual @ '' gold rows for '' @ show_int expected @ '' first deliveries in '' @ silver_name v @ '' @ '' @ src
                else show_int actual @ '' gold rows but '' @ silver_name v @ '' @ '' @ src @ '' has '' @ show_int expected @ '' first deliveries'')))))"

definition audit_gold_trades :: "'j warehouse \<Rightarrow> result list res" where
  "audit_gold_trades w = res_map (gold_parity_one w) TRADES"

definition yesterday :: "'j audit_env \<Rightarrow> int" where
  "yesterday env = ae_now env div MS_PER_DAY - 1"

type_synonym ohlc = "int \<times> int \<times> int \<times> int \<times> int"

definition fresh_candles :: "int \<Rightarrow> gold_trade list \<Rightarrow> (bucket \<times> ohlc) list" where
  "fresh_candles seconds trades =
     map (\<lambda>b. let rows = filter (\<lambda>g. bucket_of seconds g = b) trades in
        (b, (g_price (min_by order_key rows), max_of g_price rows, min_of g_price rows, g_price (max_by order_key rows), int (length rows))))
       (remdups (map (bucket_of seconds) trades))"

definition stored_ohlc :: "candle \<Rightarrow> bucket \<times> ohlc" where
  "stored_ohlc c = (candle_key c, (c_open c, c_high c, c_low c, c_close c, c_count c))"

text \<open>\<open>FULL OUTER JOIN\<close> on the bucket: the matched pairs, and the rows of either side without a match.\<close>

definition ohlcv_mismatches :: "(bucket \<times> ohlc) list \<Rightarrow> (bucket \<times> ohlc) list \<Rightarrow> nat" where
  "ohlcv_mismatches fresh stored =
     sum_list (map (\<lambda>(k, x). case filter (\<lambda>(k', _). k' = k) stored of
        [] \<Rightarrow> 1 | ss \<Rightarrow> length (filter (\<lambda>(_, y). x \<noteq> y) ss)) fresh) +
     length (filter (\<lambda>(k, _). k \<notin> set (map fst fresh)) stored)"

definition audit_ohlcv :: "'j audit_env \<Rightarrow> 'j warehouse \<Rightarrow> result list res" where
  "audit_ohlcv env w =
     (let fresh = fresh_candles 60 (filter (\<lambda>g. day_of (g_ts g) = yesterday env) (table_rows (gd_trades (wh_gold w))));
          stored = map stored_ohlc (filter (\<lambda>c. c_window c div 86400 = yesterday env) (gd_ohlcv (wh_gold w) ''1m''));
          bad = int (ohlcv_mismatches fresh stored) in
      Inr [audit_result ''ohlcv_parity'' (ohlcv_name ''1m'') (bad = 0) bad
        (if bad = 0
         then show_int (int (length stored)) @ '' stored 1m candles == '' @ show_int (int (length fresh)) @ '' recomputed for yesterday''
         else show_int bad @ '' candle(s) differ between stored and recomputed for yesterday ('' @ show_int (int (length stored)) @
           '' stored, '' @ show_int (int (length fresh)) @ '' fresh)'')])"

definition show_bar_key :: "string \<times> string \<times> string \<times> int \<Rightarrow> string" where
  "show_bar_key k = (case k of (e, s, n, i) \<Rightarrow>
     ''('' @ join_texts '', '' (map (\<lambda>x. CHR 0x27 # x @ [CHR 0x27]) [e, s, n]) @ '', '' @ show_int i @ '')'')"

definition audit_bars_parity :: "'j audit_env \<Rightarrow> 'j warehouse \<Rightarrow> result list res" where
  "audit_bars_parity env w =
     res_bind (thresholds_view (ae_gold env)) (\<lambda>th.
       (let fresh = bars_sql (ge_rnd (ae_gold env))
              (filter (\<lambda>g. day_of (g_ts g) = yesterday env) (table_rows (gd_trades (wh_gold w)))) th;
            stored = map sb_bar (filter (\<lambda>s. bar_day (sb_bar s) = yesterday env) (gd_bars (wh_gold w)));
            bad = fst (bars_mismatches fresh stored); keys = snd (bars_mismatches fresh stored)
        in Inr [audit_result ''bars_parity'' GOLD_BARS (bad = 0) (int bad)
          (if bad = 0
           then show_int (int (length stored)) @ '' stored bars == '' @ show_int (int (length fresh)) @ '' recomputed for yesterday''
           else show_int (int bad) @ '' bar(s) differ between stored and recomputed for yesterday ('' @ show_int (int (length stored)) @
             '' stored, '' @ show_int (int (length fresh)) @ '' fresh); first keys (exchange, canonical_symbol, bar_kind, bar_seq): ['' @
             join_texts '', '' (map show_bar_key keys) @ '']'')]))"

definition audit_book_parity :: "'j audit_env \<Rightarrow> venue \<Rightarrow> 'j warehouse \<Rightarrow> result list res" where
  "audit_book_parity env v w =
     (case src_position (bk_silver (wh_books w) v) SRC_SNAPSHOT_ID of
        None \<Rightarrow> Inr [audit_result ''silver_parity'' (book_name v) True 0 ''silver has not read bronze yet'']
      | Some src \<Rightarrow>
          res_bind (snapshot_rows (wh_bronze w (book_source v)) src) (\<lambda>frames.
            (let expected = int (length (concat (map (explode_book (ae_casts env) 0 v \<circ> view_row (ae_book env)) frames)));
                 actual = int (length (table_rows (bk_silver (wh_books w) v)))
             in Inr [parity_result (book_name v) (lake_table (''bronze.'' @ book_source v)) src ''frames'' actual expected ''silver_parity''])))"

section \<open>Kraken's checksum, net of the acknowledged windows\<close>

definition acknowledged_windows :: "audit_row list \<Rightarrow> string \<Rightarrow> (string \<times> string) list" where
  "acknowledged_windows rows sc =
     concat (map (\<lambda>r. case ack_window (Some (a_detail r)) of None \<Rightarrow> [] | Some x \<Rightarrow> [x])
       (filter (\<lambda>r. a_job r = ''operator'' \<and> a_check r = ''checksum_failure_acknowledged'' \<and> a_scope r = sc) rows))"

text \<open>A comparison with a text that is no timestamp is \<open>NULL\<close>, which never counts.\<close>

definition in_ack :: "(string \<Rightarrow> int option) \<Rightarrow> int \<Rightarrow> string \<times> string \<Rightarrow> bool" where
  "in_ack cast recv ab = (case (cast (fst ab), cast (snd ab)) of (Some a, Some b) \<Rightarrow> a \<le> recv \<and> recv < b | _ \<Rightarrow> False)"

definition checksum_of :: "book_row \<Rightarrow> bool option" where
  "checksum_of r = (case k_extra r of KrakenFrame _ _ _ _ _ ok \<Rightarrow> ok | _ \<Rightarrow> None)"

definition show_sum :: "'a list \<Rightarrow> int \<Rightarrow> string" where
  "show_sum rows n = (if rows = [] then ''None'' else show_int n)"

definition audit_kraken_checksum :: "'j audit_env \<Rightarrow> 'j warehouse \<Rightarrow> result list res" where
  "audit_kraken_checksum env w =
     (let sc = book_name Kraken;
          windows = acknowledged_windows (table_rows (wh_checks w)) sc;
          rows = table_rows (bk_silver (wh_books w) Kraken);
          count = (\<lambda>P. int (length (filter P rows)));
          bad = count (\<lambda>r. checksum_of r = Some False);
          acked_n = count (\<lambda>r. checksum_of r = Some False \<and> list_ex (in_ack (ae_cast_ts env) (k_recv r)) windows);
          net = bad - acked_n
      in Inr [audit_result ''kraken_checksum'' sc (net = 0) net
        (show_int (int (length rows)) @ '' frames: '' @ show_sum rows (count (\<lambda>r. checksum_of r = Some True)) @ '' verified, '' @
         show_int bad @ '' failed ('' @ show_int acked_n @ '' inside '' @ show_int (int (length windows)) @
         '' acknowledged window(s), '' @ show_int net @ '' not), '' @ show_sum rows (count (\<lambda>r. checksum_of r = None)) @
         '' unverifiable (no precision or before the connection's snapshot)'')])"

section \<open>The list and the run\<close>

definition INFORMATIONAL :: "string list" where "INFORMATIONAL = [''silver_flags'']"

type_synonym 'j audit = "string \<times> string \<times> ('j audit_env \<Rightarrow> 'j warehouse \<Rightarrow> result list res)"

definition bronze_audits :: "venue_table \<Rightarrow> 'j audit list" where
  "bronze_audits t =
     [(''duplicate_identifiers'', bronze_name t, \<lambda>env w. Inr (audit_duplicates (bronze_name t)
         [''src_topic'', ''src_partition'', ''src_offset'']
         (map (\<lambda>b. (b_topic b, b_part b, b_off b)) (table_rows (wh_bronze w (vt_name t)))))),
      (''bronze_unparseable'', bronze_name t, \<lambda>env w. Inr (audit_unparseable env t (table_rows (wh_bronze w (vt_name t))))),
      (''bronze_schema_drift'', bronze_name t, \<lambda>env w. audit_schema_drift env t (table_rows (wh_raw w)))]"

definition silver_audits :: "venue \<Rightarrow> 'j audit list" where
  "silver_audits v =
     [(''duplicate_identifiers'', silver_name v, \<lambda>env w. Inr (audit_duplicates (silver_name v)
         [''src_topic'', ''src_partition'', ''src_offset'', ''src_index'']
         (map (\<lambda>r. (s_topic r, s_part r, s_off r, s_idx r)) (table_rows (wh_silver w v))))),
      (''silver_parity'', silver_name v, \<lambda>env w. audit_silver_parity env v w),
      (''silver_flags'', silver_name v, \<lambda>env w. audit_silver_flags v w)]"

definition gold_audits :: "'j audit list" where
  "gold_audits =
     [(''duplicate_identifiers'', GOLD_TRADES, \<lambda>env w. Inr (audit_duplicates GOLD_TRADES [''exchange'', ''canonical_symbol'', ''trade_id'']
         (map (\<lambda>g. (g_exchange g, g_canonical g, g_trade_id g)) (table_rows (gd_trades (wh_gold w)))))),
      (''gold_parity'', GOLD_TRADES, \<lambda>env w. audit_gold_trades w),
      (''ohlcv_parity'', ohlcv_name ''1m'', audit_ohlcv),
      (''bars_parity'', GOLD_BARS, audit_bars_parity)]"

definition book_audits :: "venue \<Rightarrow> 'j audit list" where
  "book_audits v =
     [(''duplicate_identifiers'', book_name v, \<lambda>env w. Inr (audit_duplicates (book_name v)
         [''src_topic'', ''src_partition'', ''src_offset'', ''src_index'']
         (map (\<lambda>r. (k_topic r, k_part r, k_off r, k_idx r)) (table_rows (bk_silver (wh_books w) v))))),
      (''silver_parity'', book_name v, \<lambda>env w. audit_book_parity env v w)]"

definition AUDITS :: "'j audit list" where
  "AUDITS =
     (''offset_continuity'', RAW_TABLE, \<lambda>env w. audit_offset_continuity w) #
     concat (map bronze_audits VENUE_TABLES) @ concat (map silver_audits TRADES) @ gold_audits @ concat (map book_audits BOOKS) @
     [(''kraken_checksum'', book_name Kraken, audit_kraken_checksum),
      (''duplicate_identifiers'', GOLD_BOOK, \<lambda>env w. Inr (audit_duplicates GOLD_BOOK [''exchange'', ''canonical_symbol'', ''second'']
         (map (\<lambda>g. (gr_exchange g, gr_canonical g, gr_second g)) (table_rows (bk_gold (wh_books w))))))]"

definition exn_name :: "exn \<Rightarrow> string" where
  "exn_name e = (case e of ValueError \<Rightarrow> ''ValueError'' | KeyError \<Rightarrow> ''KeyError'' | TypeError \<Rightarrow> ''TypeError''
     | RuntimeError \<Rightarrow> ''RuntimeError'' | ZeroDivisionError \<Rightarrow> ''ZeroDivisionError'' | BadFrame \<Rightarrow> ''BadFrame''
     | UnknownInstrument \<Rightarrow> ''UnknownInstrument'' | UnresolvableSchema \<Rightarrow> ''UnresolvableSchema'' | SystemExit \<Rightarrow> ''SystemExit''
     | NotNullViolation \<Rightarrow> ''NotNullViolation'' | OSError \<Rightarrow> ''OSError'' | OverflowError \<Rightarrow> ''OverflowError'')"

definition run_check :: "'j audit_env \<Rightarrow> 'j warehouse \<Rightarrow> 'j audit \<Rightarrow> result list" where
  "run_check env w a = (case a of (name, sc, check) \<Rightarrow>
     (case check env w of Inr rs \<Rightarrow> rs
      | Inl e \<Rightarrow> [audit_result name sc False (- 1) (''check raised '' @ exn_name e @ '': '' @ ae_message env e)]))"

definition audit_results :: "'j audit_env \<Rightarrow> 'j warehouse \<Rightarrow> result list" where
  "audit_results env w = concat (map (run_check env w) AUDITS)"

definition result_row :: "int \<Rightarrow> result \<Rightarrow> audit_row" where
  "result_row run_ts r =
     \<lparr>a_run_ts = run_ts, a_job = JOB_MAINTENANCE, a_check = res_check r, a_scope = res_scope r, a_passed = res_passed r,
      a_observed = res_observed r, a_detail = res_detail r\<rparr>"

definition failed_results :: "result list \<Rightarrow> result list" where
  "failed_results rs = filter (\<lambda>r. \<not> res_passed r) rs"

text \<open>The rows and their failure count are one append; \<open>commit\<close> is its id and time, \<open>None\<close> a write that fails.\<close>

definition run_audits :: "'j audit_env \<Rightarrow> int \<Rightarrow> (int \<times> int) option \<Rightarrow> 'j warehouse \<Rightarrow> 'j warehouse \<times> result list res" where
  "run_audits env run_ts commit w =
     (let results = audit_results env w;
          props = [(JOB, JOB_MAINTENANCE), (AUDIT_FAILURES, show_int (int (length (failed_results results))))] in
      case commit of None \<Rightarrow> (w, Inl OSError)
      | Some (i, time) \<Rightarrow>
          (w\<lparr>wh_checks := table_append (wh_checks w) i time props (map (result_row run_ts) results)\<rparr>, Inr results))"

end
