(* ===== verification/AuditFacts.thy ===== *)
theory AuditFacts
  imports Audits
begin

text \<open>
  What the audits of \<open>Audits\<close> decide: the continuity audit against the offsets missing from an archive and against every
  lake the ingest can reach, and the recomputation audit against candles a crash left stale.
\<close>

section \<open>Holes of a partition\<close>

lemma lag_holes_mem:
  "sorted os \<Longrightarrow> os \<noteq> [] \<Longrightarrow>
   (\<exists>(a, b) \<in> set (lag_holes os). a \<le> x \<and> x \<le> b) \<longleftrightarrow> hd os \<le> x \<and> x \<le> last os \<and> x \<notin> set os"
proof (induction os rule: lag_holes.induct)
  case (1 a b xs)
  then have IH: "(\<exists>(a, b) \<in> set (lag_holes (b # xs)). a \<le> x \<and> x \<le> b) \<longleftrightarrow> b \<le> x \<and> x \<le> last (b # xs) \<and> x \<notin> set (b # xs)"
    by (cases "a + 1 < b") auto
  have le: "a \<le> b" "\<forall>y \<in> set (b # xs). b \<le> y" using 1(3) by auto
  have la: "b \<le> last (b # xs)" by (rule bspec [OF le(2)]) (rule last_in_set, simp)
  have step: "(\<exists>(c, d) \<in> set (lag_holes (a # b # xs)). c \<le> x \<and> x \<le> d) \<longleftrightarrow>
      (a < x \<and> x < b) \<or> (\<exists>(c, d) \<in> set (lag_holes (b # xs)). c \<le> x \<and> x \<le> d)" by auto
  have "x \<in> set (b # xs) \<Longrightarrow> b \<le> x" using le(2) by blast
  then show ?case unfolding step IH using le(1) la by (cases "x = a") auto
qed (auto)

lemma lag_holes_size:
  "sorted os \<Longrightarrow> distinct os \<Longrightarrow> os \<noteq> [] \<Longrightarrow>
   sum_list (map (\<lambda>(a, b). b - a + 1) (lag_holes os)) = last os - hd os + 1 - int (length os)"
proof (induction os rule: lag_holes.induct)
  case (1 a b xs)
  have "a < b" using 1(3,4) by auto
  then show ?case using 1 by (cases "a + 1 < b") auto
qed auto

lemma lag_holes_pos: "(a, b) \<in> set (lag_holes os) \<Longrightarrow> a \<le> b"
  by (induction os rule: lag_holes.induct) (auto split: if_splits)

lemma sorted_ends: 
  assumes "os \<noteq> []"
  shows "hd (sort os) = Min (set os)" and "last (sort os) = Max (set os)"
proof -
  have s: "sort os \<noteq> []" using assms by (metis length_0_conv length_sort)
  show "hd (sort os) = Min (set os)"
  proof (rule Min_eqI [symmetric])
    show "hd (sort os) \<in> set os" using hd_in_set [OF s] by simp
    fix y assume "y \<in> set os"
    then obtain i where "i < length (sort os)" "sort os ! i = y" by (metis in_set_conv_nth set_sort)
    then show "hd (sort os) \<le> y" using sorted_nth_mono [OF sorted_sort [of os], of 0 i] s
      by (simp add: hd_conv_nth)
  qed simp
  show "last (sort os) = Max (set os)"
  proof (rule Max_eqI [symmetric])
    show "last (sort os) \<in> set os" using last_in_set [OF s] by simp
    fix y assume "y \<in> set os"
    then obtain i where "i < length (sort os)" "sort os ! i = y" by (metis in_set_conv_nth set_sort)
    then show "y \<le> last (sort os)" using sorted_nth_mono [OF sorted_sort [of os], of i "length os - 1"] s
      by (simp add: last_conv_nth)
  qed simp
qed

text \<open>The offsets a partition lacks between its first and its last.\<close>

definition missing :: "int list \<Rightarrow> int set" where
  "missing os = {x. Min (set os) \<le> x \<and> x \<le> Max (set os) \<and> x \<notin> set os}"

lemma part_holes_missing:
  assumes "part_offsets rows t p \<noteq> []"
  shows "(\<exists>a b. (t, p, a, b) \<in> set (part_holes rows t p) \<and> a \<le> x \<and> x \<le> b) \<longleftrightarrow> x \<in> missing (part_offsets rows t p)"
proof -
  let ?os = "part_offsets rows t p"
  have ne: "sort ?os \<noteq> []" using assms by (metis length_0_conv length_sort)
  have "(\<exists>a b. (t, p, a, b) \<in> set (part_holes rows t p) \<and> a \<le> x \<and> x \<le> b) \<longleftrightarrow> (\<exists>(a, b) \<in> set (lag_holes (sort ?os)). a \<le> x \<and> x \<le> b)"
    by (force simp: part_holes_def)
  also have "\<dots> \<longleftrightarrow> hd (sort ?os) \<le> x \<and> x \<le> last (sort ?os) \<and> x \<notin> set (sort ?os)"
    by (rule lag_holes_mem [OF sorted_sort ne])
  finally show ?thesis by (simp add: missing_def sorted_ends [OF assms])
qed

lemma part_holes_size:
  assumes "part_offsets rows t p \<noteq> []" and "distinct (part_offsets rows t p)"
  shows "sum_list (map (\<lambda>(_, _, a, b). b - a + 1) (part_holes rows t p)) =
    Max (set (part_offsets rows t p)) - Min (set (part_offsets rows t p)) + 1 - int (length (part_offsets rows t p))"
proof -
  let ?os = "part_offsets rows t p"
  have ne: "sort ?os \<noteq> []" using assms by (metis length_0_conv length_sort)
  have "sum_list (map (\<lambda>(_, _, a, b). b - a + 1) (part_holes rows t p)) = sum_list (map (\<lambda>(a, b). b - a + 1) (lag_holes (sort ?os)))"
    by (simp add: part_holes_def comp_def case_prod_unfold)
  then show ?thesis using lag_holes_size [OF sorted_sort _ ne] assms(2) by (simp add: sorted_ends [OF assms(1)])
qed

lemma part_holes_mem: "(t', p', a, b) \<in> set (part_holes rows t p) \<Longrightarrow> t' = t \<and> p' = p \<and> a \<le> b"
  by (auto simp: part_holes_def dest: lag_holes_pos)

text \<open>A partition without copies is flagged exactly when it lacks an offset, and then passes exactly when every
  one it lacks lies in a recorded gap.\<close>

lemma covered_iff:
  assumes "part_offsets rows t p \<noteq> []"
  shows "uncovered_holes (part_holes rows t p) gaps = [] \<longleftrightarrow>
    (\<forall>x \<in> missing (part_offsets rows t p). \<exists>lo hi. (t, p, lo, hi) \<in> set gaps \<and> lo \<le> x \<and> x \<le> hi)"
proof -
  have same: "\<And>t' p' a b. (t', p', a, b) \<in> set (part_holes rows t p) \<Longrightarrow> t' = t \<and> p' = p" using part_holes_mem by blast
  have "uncovered_holes (part_holes rows t p) gaps = [] \<longleftrightarrow>
      (\<forall>t' p' a b. (t', p', a, b) \<notin> set (uncovered_holes (part_holes rows t p) gaps))"
    by (metis list.set_intros(1) list.exhaust prod_cases4 empty_iff list.set(1))
  also have "\<dots> \<longleftrightarrow> (\<forall>a b. (t, p, a, b) \<in> set (part_holes rows t p) \<longrightarrow>
      (\<forall>x. a \<le> x \<longrightarrow> x \<le> b \<longrightarrow> (\<exists>lo hi. (t, p, lo, hi) \<in> set gaps \<and> lo \<le> x \<and> x \<le> hi)))"
    unfolding uncovered_holes_mem using same by (simp only: mem_Collect_eq prod.case) blast
  also have "\<dots> \<longleftrightarrow> (\<forall>x. (\<exists>a b. (t, p, a, b) \<in> set (part_holes rows t p) \<and> a \<le> x \<and> x \<le> b) \<longrightarrow>
      (\<exists>lo hi. (t, p, lo, hi) \<in> set gaps \<and> lo \<le> x \<and> x \<le> hi))" by blast
  finally show ?thesis by (simp only: part_holes_missing [OF assms] Ball_def)
qed

lemma missing_count:
  assumes "os \<noteq> []" and "distinct os"
  shows "Max (set os) - Min (set os) + 1 - int (length os) = int (card (missing os))" and "finite (missing os)"
proof -
  have e: "missing os = {Min (set os)..Max (set os)} - set os" by (auto simp: missing_def)
  show "finite (missing os)" by (simp add: e)
  have sub: "set os \<subseteq> {Min (set os)..Max (set os)}" by auto
  have "card (missing os) = card {Min (set os)..Max (set os)} - length os"
    unfolding e using card_Diff_subset [OF _ sub] by (simp add: distinct_card [OF assms(2)])
  moreover have "length os \<le> card {Min (set os)..Max (set os)}"
    using card_mono [OF _ sub] by (simp add: distinct_card [OF assms(2)])
  moreover have "Min (set os) \<le> Max (set os)" using assms(1) by (cases os) (auto intro: Min_le_iff [THEN iffD2] simp: Max_ge_iff)
  ultimately show "Max (set os) - Min (set os) + 1 - int (length os) = int (card (missing os))" by auto
qed

lemma flagged_part:
  assumes os: "part_offsets rows t p \<noteq> []" "distinct (part_offsets rows t p)" and p: "0 \<le> p"
  shows "(offset_gap (gap_row t p (part_offsets rows t p)) = [] \<and> missing (part_offsets rows t p) = {}) \<or>
    (\<exists>f r. offset_gap (gap_row t p (part_offsets rows t p)) = [f] \<and> net_recorded rows f gaps = Inr r \<and>
       (res_passed r \<longleftrightarrow> (\<forall>x \<in> missing (part_offsets rows t p). \<exists>lo hi. (t, p, lo, hi) \<in> set gaps \<and> lo \<le> x \<and> x \<le> hi)))"
proof -
  let ?os = "part_offsets rows t p"
  have n: "Max (set ?os) - Min (set ?os) + 1 - int (length ?os) = int (card (missing ?os))" and fin: "finite (missing ?os)"
    using missing_count [OF os] by blast+
  show ?thesis
  proof (cases "missing ?os = {}")
    case True
    then show ?thesis using n by (simp add: offset_gap_def gap_row_def Let_def)
  next
    case False
    then have pos: "0 < int (card (missing ?os))" using fin by (simp add: card_gt_0_iff)
    define f where "f = hd (offset_gap (gap_row t p ?os))"
    have f: "offset_gap (gap_row t p ?os) = [f]" "scope f = scope_of t p" "observed f = int (card (missing ?os))"
      using n pos by (auto simp: f_def offset_gap_def gap_row_def Let_def)
    have d: "py_isdigit (show_int p)" "py_int (show_int p) = Some p"
      using show_int_nonneg_digits [OF p] by (auto simp: py_isdigit_def list_all_iff)
    have "net_recorded rows f gaps =
        (let holes = part_holes rows t p; uncovered = uncovered_holes holes gaps in
         if uncovered \<noteq> [] then Inr (audit_result ''offset_continuity'' (scope f) False (observed f)
             (detail f @ ''; '' @ show_int (int (length uncovered)) @ '' of '' @ show_int (int (length holes)) @
               '' holes are NOT covered by a recorded offset_gap ('' @
               (if hole_ranges uncovered = [] then ''none'' else hole_ranges uncovered) @ '')''))
         else Inr (audit_result ''offset_continuity'' (scope f) True (observed f)
             (show_int (int (length holes)) @ '' recorded gaps netted ('' @ hole_ranges holes @ ''); '' @
               show_int (int (card (missing ?os))) @ '' records missing, all acknowledged by an offset_gap row in '' @ AUDIT_TABLE @
               '' -- nothing else is'')))"
      using pos d part_holes_size [OF os] n unfolding net_recorded_def f(2) rpartition_scope Let_def f(3) by simp
    then have "\<exists>r. net_recorded rows f gaps = Inr r \<and> (res_passed r \<longleftrightarrow> uncovered_holes (part_holes rows t p) gaps = [])"
      by (simp add: Let_def audit_result_def)
    then show ?thesis using f(1) covered_iff [OF os(1)] by auto
  qed
qed


lemma flagged_parts:
  assumes "\<And>k. k \<in> set ks \<Longrightarrow> (g k = [] \<and> P k) \<or> (\<exists>f r. g k = [f] \<and> net f = Inr r \<and> (res_passed r \<longleftrightarrow> P k))"
  shows "\<exists>rs. res_map net (concat (map g ks)) = Inr rs \<and> list_all res_passed rs = list_all P ks"
  using assms
proof (induction ks)
  case (Cons k ks)
  then obtain rs where rs: "res_map net (concat (map g ks)) = Inr rs" "list_all res_passed rs = list_all P ks" by auto
  from Cons.prems [of k] consider "g k = []" "P k" | f r where "g k = [f]" "net f = Inr r" "res_passed r \<longleftrightarrow> P k" by auto
  then show ?case by cases (use rs in \<open>simp_all add: res_map_append\<close>)
qed simp

lemma part_offsets_distinct: "distinct (map row_key rows) \<Longrightarrow> distinct (part_offsets rows t p)"
  by (auto simp: part_offsets_def row_key_def distinct_map inj_on_def)

lemma archived_offsets: "archived tbl t p x \<longleftrightarrow> x \<in> set (part_offsets (table_rows tbl) t p)"
  by (force simp: archived_def part_offsets_def row_key_def image_iff)

lemma part_keys_offsets: "(t, p) \<in> set (part_keys rows) \<longleftrightarrow> part_offsets rows t p \<noteq> []"
  by (force simp: part_keys_def part_offsets_def filter_empty_conv image_iff)

text \<open>Every offset between two archived ones of its partition is archived or inside a recorded gap.\<close>

definition acknowledged :: "raw_row table \<Rightarrow> audit_row table \<Rightarrow> bool" where
  "acknowledged tbl chk =
     (\<forall>t p lo x hi. archived tbl t p lo \<longrightarrow> archived tbl t p hi \<longrightarrow> lo \<le> x \<longrightarrow> x \<le> hi \<longrightarrow> archived tbl t p x \<or> recorded chk t p x)"

lemma acknowledged_parts:
  assumes "gaps_of chk = Inr gs"
  shows "acknowledged tbl chk \<longleftrightarrow> (\<forall>(t, p) \<in> set (part_keys (table_rows tbl)).
    \<forall>x \<in> missing (part_offsets (table_rows tbl) t p). \<exists>lo hi. (t, p, lo, hi) \<in> set gs \<and> lo \<le> x \<and> x \<le> hi)"
proof -
  have rec: "recorded chk t p x \<longleftrightarrow> (\<exists>lo hi. (t, p, lo, hi) \<in> set gs \<and> lo \<le> x \<and> x \<le> hi)" for t p x
    using assms by (simp add: recorded_def)
  have mis: "x \<in> missing os \<longleftrightarrow> x \<notin> set os \<and> (\<exists>lo \<in> set os. \<exists>hi \<in> set os. lo \<le> x \<and> x \<le> hi)" if "os \<noteq> []" for os :: "int list" and x
  proof -
    have "Min (set os) \<in> set os" "Max (set os) \<in> set os" using that by simp_all
    then show ?thesis unfolding missing_def by (auto intro: Min_le_iff [THEN iffD2] simp: Max_ge_iff) (meson List.finite_set Max_ge Min_le order_trans)+
  qed
  show ?thesis
    unfolding acknowledged_def archived_offsets rec
  proof (intro iffI ballI)
    fix k
    assume all: "\<forall>t p lo x hi. lo \<in> set (part_offsets (table_rows tbl) t p) \<longrightarrow> hi \<in> set (part_offsets (table_rows tbl) t p) \<longrightarrow> lo \<le> x \<longrightarrow> x \<le> hi \<longrightarrow>
         x \<in> set (part_offsets (table_rows tbl) t p) \<or> (\<exists>lo hi. (t, p, lo, hi) \<in> set gs \<and> lo \<le> x \<and> x \<le> hi)"
      and "k \<in> set (part_keys (table_rows tbl))"
    moreover obtain t p where k: "k = (t, p)" by force
    ultimately have ne: "part_offsets (table_rows tbl) t p \<noteq> []" by (simp add: part_keys_offsets)
    show "case k of (t, p) \<Rightarrow> \<forall>x \<in> missing (part_offsets (table_rows tbl) t p). \<exists>lo hi. (t, p, lo, hi) \<in> set gs \<and> lo \<le> x \<and> x \<le> hi"
      using all mis [OF ne] unfolding k by blast
  next
    assume all: "\<forall>(t, p) \<in> set (part_keys (table_rows tbl)).
      \<forall>x \<in> missing (part_offsets (table_rows tbl) t p). \<exists>lo hi. (t, p, lo, hi) \<in> set gs \<and> lo \<le> x \<and> x \<le> hi"
    have "x \<in> set os \<or> (\<exists>lo hi. (t, p, lo, hi) \<in> set gs \<and> lo \<le> x \<and> x \<le> hi)"
      if os: "os = part_offsets (table_rows tbl) t p" and m: "lo \<in> set os" "hi \<in> set os" "lo \<le> x" "x \<le> hi" for t p os lo x hi
    proof -
      have ne: "os \<noteq> []" using m(1) by auto
      then have "\<forall>x \<in> missing os. \<exists>lo hi. (t, p, lo, hi) \<in> set gs \<and> lo \<le> x \<and> x \<le> hi"
        using all part_keys_offsets unfolding os by blast
      then show ?thesis using mis [OF ne] m by blast
    qed
    then show "\<forall>t p lo x hi. lo \<in> set (part_offsets (table_rows tbl) t p) \<longrightarrow> hi \<in> set (part_offsets (table_rows tbl) t p) \<longrightarrow> lo \<le> x \<longrightarrow> x \<le> hi \<longrightarrow>
         x \<in> set (part_offsets (table_rows tbl) t p) \<or> (\<exists>lo hi. (t, p, lo, hi) \<in> set gs \<and> lo \<le> x \<and> x \<le> hi)" by blast
  qed
qed

lemma continuity_exact:
  assumes keys: "distinct (map row_key (table_rows (wh_raw w)))"
    and parts: "\<forall>r \<in> set (table_rows (wh_raw w)). 0 \<le> r_part r"
    and gs: "gaps_of (wh_checks w) = Inr gs"
  shows "\<exists>rs. audit_offset_continuity w = Inr rs \<and> list_all res_passed rs = acknowledged (wh_raw w) (wh_checks w)"
proof -
  let ?rows = "table_rows (wh_raw w)"
  let ?ks = "part_keys ?rows"
  define P where "P = (\<lambda>(t, p). \<forall>x \<in> missing (part_offsets ?rows t p). \<exists>lo hi. (t, p, lo, hi) \<in> set gs \<and> lo \<le> x \<and> x \<le> hi)"
  define g where "g = (\<lambda>(t, p). offset_gap (gap_row t p (part_offsets ?rows t p)))"
  have ack: "acknowledged (wh_raw w) (wh_checks w) = list_all P ?ks"
    by (simp only: acknowledged_parts [OF gs] P_def list_all_iff)
  have one: "(g k = [] \<and> P k) \<or> (\<exists>f r. g k = [f] \<and> net_recorded ?rows f gs = Inr r \<and> (res_passed r \<longleftrightarrow> P k))"
    if k: "k \<in> set ?ks" for k
  proof -
    obtain t p where tp: "k = (t, p)" by force
    then have "part_offsets ?rows t p \<noteq> []" using k by (simp add: part_keys_offsets)
    moreover have "0 \<le> p" using k parts by (auto simp: tp part_keys_def)
    ultimately have "(offset_gap (gap_row t p (part_offsets ?rows t p)) = [] \<and> missing (part_offsets ?rows t p) = {}) \<or>
      (\<exists>f r. offset_gap (gap_row t p (part_offsets ?rows t p)) = [f] \<and> net_recorded ?rows f gs = Inr r \<and>
       (res_passed r \<longleftrightarrow> (\<forall>x \<in> missing (part_offsets ?rows t p). \<exists>lo hi. (t, p, lo, hi) \<in> set gs \<and> lo \<le> x \<and> x \<le> hi)))"
      by (intro flagged_part part_offsets_distinct keys)
    then show ?thesis unfolding tp g_def P_def prod.case by blast
  qed
  have fails: "offset_gaps (map (\<lambda>(t, p). gap_row t p (part_offsets ?rows t p)) ?ks) = concat (map g ?ks)"
    by (simp add: offset_gaps_def g_def comp_def case_prod_unfold)
  obtain rs where rs: "res_map (\<lambda>f. net_recorded ?rows f gs) (concat (map g ?ks)) = Inr rs" "list_all res_passed rs = list_all P ?ks"
    using flagged_parts [of ?ks g P "\<lambda>f. net_recorded ?rows f gs", OF one] by blast
  show ?thesis
  proof (cases "concat (map g ?ks) = []")
    case True
    then have "list_all P ?ks" using rs unfolding True by simp
    then show ?thesis by (simp add: audit_offset_continuity_def Let_def fails True ack audit_result_def)
  next
    case False
    then have "?ks \<noteq> []" by auto
    then show ?thesis using rs False by (simp add: audit_offset_continuity_def Let_def fails ack gs del: concat_eq_Nil_conv)
  qed
qed

text \<open>What ingest builds passes: the invariant of the reachable lakes gives the acknowledgement.\<close>

definition gapless :: "produced \<Rightarrow> bool" where
  "gapless l = (\<forall>t p a x b. a \<in> l t p \<longrightarrow> b \<in> l t p \<longrightarrow> a \<le> x \<longrightarrow> x \<le> b \<longrightarrow> x \<in> l t p)"

lemma ingest_acknowledged:
  fixes log :: produced
  assumes "ingest_reach log lk" and gapless: "gapless log"
  shows "distinct (map row_key (table_rows (raw lk)))" and "\<forall>r \<in> set (table_rows (raw lk)). 0 \<le> r_part r"
    and "\<exists>gs. gaps_of (checks lk) = Inr gs" and "acknowledged (raw lk) (checks lk)"
proof -
  obtain c where inv: "archive_inv log c (raw lk) (checks lk)" using ingest_reach_inv [OF assms(1)] by blast
  note D = archive_invD [OF inv]
  show "distinct (map row_key (table_rows (raw lk)))" "\<exists>gs. gaps_of (checks lk) = Inr gs" by (rule D)+
  show "\<forall>r \<in> set (table_rows (raw lk)). 0 \<le> r_part r"
  proof
    fix r assume "r \<in> set (table_rows (raw lk))"
    then have "archived (raw lk) (r_topic r) (r_part r) (r_off r)" by (force simp: archived_def row_key_def)
    then obtain n where "off c (r_topic r) (r_part r) = Some n" using D(5) by blast
    then show "0 \<le> r_part r" using D(3) by blast
  qed
  show "acknowledged (raw lk) (checks lk)"
    unfolding acknowledged_def
  proof (intro allI impI)
    fix t p lo x hi
    assume a: "archived (raw lk) t p lo" "archived (raw lk) t p hi" "lo \<le> x" "x \<le> hi"
    have "x \<in> log t p" using gapless D(5) [OF a(1)] D(5) [OF a(2)] a(3,4) unfolding gapless_def by blast
    moreover obtain n where "off c t p = Some n" "hi < n" using D(5) [OF a(2)] by blast
    ultimately have "accounted (raw lk) (checks lk) t p x" using D(6) a(4) by (meson le_less_trans)
    then show "archived (raw lk) t p x \<or> recorded (checks lk) t p x" using a(1,3) by (force simp: accounted_def)
  qed
qed


section \<open>Candles and bars against a recomputation\<close>

lemma filter_key:
  "distinct (map fst kvs) \<Longrightarrow> filter (\<lambda>(k', _). k' = k) kvs = (case map_of kvs k of None \<Rightarrow> [] | Some y \<Rightarrow> [(k, y)])"
proof (induction kvs)
  case (Cons kv kvs)
  obtain a y where kv: "kv = (a, y)" by force
  have "map_of kvs a = None" using Cons.prems by (simp add: kv map_of_eq_None_iff)
  then show ?case using Cons by (auto simp: kv)
qed simp

lemma ohlcv_mismatches_zero:
  assumes "distinct (map fst fresh)" and "distinct (map fst stored)"
  shows "ohlcv_mismatches fresh stored = 0 \<longleftrightarrow> set fresh = set stored"
proof -
  have zero: "(case filter (\<lambda>(k', _). k' = k) stored of [] \<Rightarrow> 1 | ss \<Rightarrow> length (filter (\<lambda>(_, y). x \<noteq> y) ss)) = 0 \<longleftrightarrow> (k, x) \<in> set stored" for k x
  proof -
    have "filter (\<lambda>(k', _). k' = k) stored = (case map_of stored k of None \<Rightarrow> [] | Some y \<Rightarrow> [(k, y)])"
      by (rule filter_key [OF assms(2)])
    then show ?thesis unfolding map_of_eq_Some_iff [OF assms(2), symmetric] by (auto split: option.splits)
  qed
  have "ohlcv_mismatches fresh stored = 0 \<longleftrightarrow>
      (\<forall>(k, x) \<in> set fresh. (k, x) \<in> set stored) \<and> (\<forall>(k, y) \<in> set stored. k \<in> fst ` set fresh)"
    by (simp only: ohlcv_mismatches_def add_is_0 sum_list_eq_0_iff set_map zero ball_simps split_beta length_0_conv filter_empty_conv not_not)
      (simp add: zero split_beta)
  also have "\<dots> \<longleftrightarrow> set fresh = set stored"
  proof (intro iffI)
    assume s: "(\<forall>(k, x) \<in> set fresh. (k, x) \<in> set stored) \<and> (\<forall>(k, y) \<in> set stored. k \<in> fst ` set fresh)"
    show "set fresh = set stored"
    proof (intro set_eqI iffI)
      fix kx assume m: "kx \<in> set stored"
      obtain k x where kx: "kx = (k, x)" by (rule prod.exhaust)
      then obtain y where y: "(k, y) \<in> set fresh" using s m by auto
      then have "(k, y) \<in> set stored" using s by blast
      then have "y = x" using m assms(2) unfolding kx by (meson eq_key_imp_eq_value)
      then show "kx \<in> set fresh" using y kx by simp
    qed (use s in auto)
  next
    assume e: "set fresh = set stored"
    show "(\<forall>(k, x) \<in> set fresh. (k, x) \<in> set stored) \<and> (\<forall>(k, y) \<in> set stored. k \<in> fst ` set fresh)"
      unfolding e by (auto intro: rev_image_eqI)
  qed
  finally show ?thesis .
qed

lemma day_window: "window_start 60 ts div 86400 = day_of ts"
proof -
  have "ts div 1000000 div 60 * 60 div (60 * 1440) = ts div 1000000 div 60 div 1440" for ts :: int
    by (metis mult.commute div_mult_mult2 zero_neq_numeral)
  then show ?thesis by (simp add: window_start_def day_of_def MICROS_PER_DAY_def zdiv_zmult2_eq [symmetric])
qed

lemma fresh_day:
  "(b, x) \<in> set (fresh_candles 60 (filter (\<lambda>g. day_of (g_ts g) = d) trades)) \<longleftrightarrow>
     b \<in> set (map (bucket_of 60) trades) \<and> snd (snd b) div 86400 = d \<and>
     x = snd (stored_ohlc (candle_of 0 0 b (filter (\<lambda>g. bucket_of 60 g = b) trades)))"
proof -
  have day: "snd (snd (bucket_of 60 g)) div 86400 = day_of (g_ts g)" for g by (simp add: bucket_of_def day_window)
  have rows: "filter (\<lambda>g. bucket_of 60 g = b) (filter (\<lambda>g. day_of (g_ts g) = d) trades) = filter (\<lambda>g. bucket_of 60 g = b) trades"
    if "snd (snd b) div 86400 = d" for b
    unfolding filter_filter by (rule filter_cong) (use that day in auto)
  have core: "snd (stored_ohlc (candle_of 0 0 b rs)) = (g_price (min_by order_key rs), max_of g_price rs, min_of g_price rs, g_price (max_by order_key rs), int (length rs))" for b rs
    by (cases b) (simp add: stored_ohlc_def candle_of_def)
  have "(b, x) \<in> set (fresh_candles 60 (filter (\<lambda>g. day_of (g_ts g) = d) trades)) \<longleftrightarrow>
      b \<in> set (map (bucket_of 60) (filter (\<lambda>g. day_of (g_ts g) = d) trades)) \<and>
      x = snd (stored_ohlc (candle_of 0 0 b (filter (\<lambda>g. bucket_of 60 g = b) (filter (\<lambda>g. day_of (g_ts g) = d) trades))))"
    unfolding core fresh_candles_def Let_def set_map set_remdups by blast
  also have "b \<in> set (map (bucket_of 60) (filter (\<lambda>g. day_of (g_ts g) = d) trades)) \<longleftrightarrow>
      b \<in> set (map (bucket_of 60) trades) \<and> snd (snd b) div 86400 = d"
    using day by auto
  finally have "(b, x) \<in> set (fresh_candles 60 (filter (\<lambda>g. day_of (g_ts g) = d) trades)) \<longleftrightarrow>
      (b \<in> set (map (bucket_of 60) trades) \<and> snd (snd b) div 86400 = d) \<and>
      x = snd (stored_ohlc (candle_of 0 0 b (filter (\<lambda>g. bucket_of 60 g = b) (filter (\<lambda>g. day_of (g_ts g) = d) trades))))" .
  then show ?thesis
    by (cases "snd (snd b) div 86400 = d") (simp_all only: rows simp_thms)
qed

lemma fresh_keys_distinct: "distinct (map fst (fresh_candles seconds trades))"
  by (simp add: fresh_candles_def Let_def comp_def)

lemma ohlcv_result:
  "\<exists>r. audit_ohlcv env w = Inr [r] \<and> res_passed r =
    (ohlcv_mismatches (fresh_candles 60 (filter (\<lambda>g. day_of (g_ts g) = yesterday env) (table_rows (gd_trades (wh_gold w)))))
       (map stored_ohlc (filter (\<lambda>c. c_window c div 86400 = yesterday env) (gd_ohlcv (wh_gold w) ''1m''))) = 0)"
  by (simp add: audit_ohlcv_def audit_result_def Let_def)

lemma stored_keys_distinct:
  "distinct (map candle_key cs) \<Longrightarrow> distinct (map fst (map stored_ohlc (filter P cs)))"
  by (induction cs) (auto simp: stored_ohlc_def)

lemma candle_core_ohlc: "snd (stored_ohlc (candle_core c)) = snd (stored_ohlc c)"
  by (simp add: stored_ohlc_def candle_core_def)

lemma ohlcv_current:
  assumes ok: "candles_ok (table_rows (gd_trades (wh_gold w))) 60 (gd_ohlcv (wh_gold w) ''1m'')"
  shows "\<exists>r. audit_ohlcv env w = Inr [r] \<and> res_passed r"
proof -
  let ?trades = "table_rows (gd_trades (wh_gold w))" and ?cs = "gd_ohlcv (wh_gold w) ''1m''" and ?d = "yesterday env"
  have dist: "distinct (map candle_key ?cs)" and keys: "set (map candle_key ?cs) = set (map (bucket_of 60) ?trades)"
    and core: "\<And>c. c \<in> set ?cs \<Longrightarrow> candle_core c = candle_of 0 0 (candle_key c) (filter (\<lambda>g. bucket_of 60 g = candle_key c) ?trades)"
    using ok by (auto simp: candles_ok_def list_all_iff)
  have val: "snd (stored_ohlc c) = snd (stored_ohlc (candle_of 0 0 (candle_key c) (filter (\<lambda>g. bucket_of 60 g = candle_key c) ?trades)))"
    if "c \<in> set ?cs" for c using candle_core_ohlc [of c] core [OF that] by simp
  have stored: "(b, x) \<in> set (map stored_ohlc (filter (\<lambda>c. c_window c div 86400 = ?d) ?cs)) \<longleftrightarrow>
      (\<exists>c \<in> set ?cs. candle_key c = b \<and> snd (snd b) div 86400 = ?d \<and> x = snd (stored_ohlc c))" for b x
    by (force simp: stored_ohlc_def candle_key_def)
  have "(b, x) \<in> set (fresh_candles 60 (filter (\<lambda>g. day_of (g_ts g) = ?d) ?trades)) \<longleftrightarrow>
      (b, x) \<in> set (map stored_ohlc (filter (\<lambda>c. c_window c div 86400 = ?d) ?cs))" for b x
  proof -
    have "b \<in> set (map (bucket_of 60) ?trades) \<longleftrightarrow> (\<exists>c \<in> set ?cs. candle_key c = b)" unfolding keys [symmetric] by auto
    then show ?thesis unfolding fresh_day stored using val by auto
  qed
  then have "set (fresh_candles 60 (filter (\<lambda>g. day_of (g_ts g) = ?d) ?trades)) = set (map stored_ohlc (filter (\<lambda>c. c_window c div 86400 = ?d) ?cs))"
    by (simp only: set_eq_iff split_paired_All simp_thms)
  then show ?thesis
    using ohlcv_result [of env w] ohlcv_mismatches_zero [OF fresh_keys_distinct stored_keys_distinct [OF dist]] by simp
qed

lemma ohlcv_stale:
  assumes ok: "candles_ok old 60 (gd_ohlcv (wh_gold w) ''1m'')"
    and rows: "table_rows (gd_trades (wh_gold w)) = old @ new" and g: "g \<in> set new" "day_of (g_ts g) = yesterday env"
  shows "\<exists>r. audit_ohlcv env w = Inr [r] \<and> \<not> res_passed r"
proof -
  let ?cs = "gd_ohlcv (wh_gold w) ''1m''" and ?b = "bucket_of 60 g" and ?d = "yesterday env"
  let ?x = "snd (stored_ohlc (candle_of 0 0 ?b (filter (\<lambda>h. bucket_of 60 h = ?b) (old @ new))))"
  have dist: "distinct (map candle_key ?cs)"
    and core: "\<And>c. c \<in> set ?cs \<Longrightarrow> candle_core c = candle_of 0 0 (candle_key c) (filter (\<lambda>g. bucket_of 60 g = candle_key c) old)"
    using ok by (auto simp: candles_ok_def list_all_iff)
  have "(?b, ?x) \<in> set (fresh_candles 60 (filter (\<lambda>g. day_of (g_ts g) = ?d) (old @ new)))"
    unfolding fresh_day using g by (auto simp: bucket_of_def day_window)
  moreover have "(?b, ?x) \<notin> set (map stored_ohlc (filter (\<lambda>c. c_window c div 86400 = ?d) ?cs))"
  proof
    assume "(?b, ?x) \<in> set (map stored_ohlc (filter (\<lambda>c. c_window c div 86400 = ?d) ?cs))"
    then obtain c where c: "c \<in> set ?cs" "candle_key c = ?b" "snd (stored_ohlc c) = ?x" by (force simp: stored_ohlc_def)
    then have "snd (stored_ohlc (candle_of 0 0 ?b (filter (\<lambda>h. bucket_of 60 h = ?b) old))) = ?x"
      using core [OF c(1)] candle_core_ohlc [of c] by simp
    then have "length (filter (\<lambda>h. bucket_of 60 h = ?b) new) = 0" by (simp add: stored_ohlc_def candle_of_def bucket_of_def)
    then show False using g(1) by (auto simp: filter_empty_conv)
  qed
  ultimately show ?thesis
    using ohlcv_result [of env w] ohlcv_mismatches_zero [OF fresh_keys_distinct stored_keys_distinct [OF dist]] rows by auto
qed


lemma bars_keys_distinct:
  assumes th: "distinct (map (\<lambda>(s, k, _). (s, k)) th)" and day: "\<And>g. g \<in> set trades \<Longrightarrow> day_of (g_ts g) = d"
  shows "distinct (map bar_key (bars_sql rnd trades th))"
proof -
  let ?ks = "remdups (map fst (keyed rnd trades th))"
  have part: "set (partition_rows trades x) \<subseteq> set trades" for x by (auto simp: partition_rows_def)
  have cnt: "g \<in> set trades" if c: "(e, g) \<in> set (counted trades)" for e g
  proof -
    obtain grp where w: "(e, g) \<in> set (windowed (partition_rows trades grp))"
      using c unfolding counted_def set_concat set_map by (elim UnionE imageE) (simp only:)
    show ?thesis using windowed_mem [OF w] part [of grp] by auto
  qed
  have mem: "\<exists>g. g \<in> set trades \<and> grp = group_of g \<and> (fst (snd grp), k, t) \<in> set th" if ks: "(k, t, grp, q) \<in> set ?ks" for k t grp q
  proof -
    from ks obtain g where "((k, t, grp, q), g) \<in> set (keyed rnd trades th)" by (auto simp del: split_paired_Ex)
    then obtain e g' sy where "(e, g') \<in> set (counted trades)" "(sy, k, t) \<in> set th" "sy = g_canonical g'" "grp = group_of g'"
      unfolding keyed_def set_concat set_map by auto
    then show ?thesis using cnt by (auto simp: group_of_def)
  qed
  have one: "t = t'" if "(s, k, t) \<in> set th" "(s, k, t') \<in> set th" for s k t t'
    using inj_onD [OF th [unfolded distinct_map, THEN conjunct2], of "(s, k, t)" "(s, k, t')"] that by simp
  have nm: "kind_name k = kind_name k' \<longleftrightarrow> k = k'" for k k' by (cases k; cases k'; simp add: kind_name_def)
  have "inj_on (\<lambda>key. bar_key (case key of (k, t, grp, q) \<Rightarrow> bar_of k t grp q (group_rows (keyed rnd trades th) key))) (set ?ks)"
  proof (rule inj_onI)
    fix x y
    assume xy: "x \<in> set ?ks" "y \<in> set ?ks"
      and eq: "bar_key (case x of (k, t, grp, q) \<Rightarrow> bar_of k t grp q (group_rows (keyed rnd trades th) x)) =
         bar_key (case y of (k, t, grp, q) \<Rightarrow> bar_of k t grp q (group_rows (keyed rnd trades th) y))"
    obtain k t e s dd q where x: "x = (k, t, (e, s, dd), q)" by (cases x) auto
    obtain k' t' e' s' dd' q' where y: "y = (k', t', (e', s', dd'), q')" by (cases y) auto
    have same: "e = e'" "s = s'" "k = k'" "q = q'" using eq by (auto simp: x y bar_key_def bar_of_def nm)
    obtain g g' where "g \<in> set trades" "(e, s, dd) = group_of g" "(s, k, t) \<in> set th"
        "g' \<in> set trades" "(e', s', dd') = group_of g'" "(s', k', t') \<in> set th"
      using mem [OF xy(1) [unfolded x]] mem [OF xy(2) [unfolded y]] by auto
    then have "dd = dd'" "t = t'" using day one same by (auto simp: group_of_def)
    then show "x = y" using x y same by simp
  qed
  then show ?thesis by (simp add: bars_sql_def Let_def distinct_map comp_def)
qed

lemma bars_current:
  assumes ok: "bars_ok (ge_rnd (ae_gold env)) th (table_rows (gd_trades (wh_gold w))) (gd_bars (wh_gold w))"
    and th: "thresholds_view (ae_gold env) = Inr th" and doc: "dict_ok (bd_thresholds (ge_bars (ae_gold env)))"
  shows "\<exists>r. audit_bars_parity env w = Inr [r] \<and> res_passed r"
proof -
  let ?trades = "table_rows (gd_trades (wh_gold w))" and ?d = "yesterday env" and ?rnd = "ge_rnd (ae_gold env)"
  let ?D = "{grp :: bar_group. snd (snd grp) = ?d}"
  define fresh where "fresh = bars_sql ?rnd (filter (\<lambda>g. day_of (g_ts g) = ?d) ?trades) th"
  define stored where "stored = map sb_bar (filter (\<lambda>s. bar_day (sb_bar s) = ?d) (gd_bars (wh_gold w)))"
  have grp: "filter (\<lambda>g. day_of (g_ts g) = ?d) ?trades = filter (\<lambda>g. group_of g \<in> ?D) ?trades" by (simp add: group_of_def)
  have "fresh = filter (\<lambda>b. bar_group_of b \<in> ?D) (bars_sql ?rnd ?trades th)"
    unfolding fresh_def grp by (rule bars_sql_filter)
  then have "mset fresh = filter_mset (\<lambda>b. bar_day b = ?d) (mset (map sb_bar (gd_bars (wh_gold w))))"
    using ok by (simp add: bars_ok_def bar_group_of_def)
  also have "\<dots> = mset stored" by (simp add: stored_def mset_filter [symmetric] filter_map comp_def del: mset_filter mset_map)
  finally have m: "mset fresh = mset stored" .
  have "distinct (map (\<lambda>(s, k, _). (s, k)) th)"
    using th doc by (auto simp: thresholds_view_def res_bind_Inr intro: load_distinct)
  from bars_keys_distinct [OF this, of "filter (\<lambda>g. day_of (g_ts g) = ?d) ?trades" ?d ?rnd]
  have df: "distinct (map bar_key fresh)" by (simp add: fresh_def)
  then have ds: "distinct (map bar_key stored)" using m by (metis mset_map mset_eq_imp_distinct_iff)
  have "set fresh = set stored" using m by (rule mset_eq_setD)
  moreover have "same_bar a b" if "a \<in> set fresh" "b \<in> set fresh" "bar_key a = bar_key b" for a b
    using inj_onD [OF df [unfolded distinct_map, THEN conjunct2]] that by (auto simp: same_bar_def)
  ultimately have "fst (bars_mismatches fresh stored) = 0" using bars_mismatches_iff [OF df ds] by auto
  then show ?thesis by (simp add: audit_bars_parity_def th audit_result_def fresh_def [symmetric] stored_def [symmetric] Let_def)
qed


section \<open>A small lake for the witnesses\<close>

definition demo_audit_env :: "nat audit_env" where
  "demo_audit_env = \<lparr>ae_bronze = demo_bronze_env, ae_null = (\<lambda>_ _. False), ae_trade = (\<lambda>_. KrakenTrade None None None),
     ae_book = (\<lambda>_. KrakenBook None None), ae_casts = se_casts demo_silver_env, ae_gold = demo_gold_env, ae_sample = id, ae_keys = (\<lambda>_ _. []),
     ae_cast_ts = (\<lambda>_. None), ae_now = 2 * MS_PER_DAY, ae_message = (\<lambda>_. [])\<rparr>"

definition demo_warehouse :: "raw_row table \<Rightarrow> audit_row table \<Rightarrow> gold \<Rightarrow> nat warehouse" where
  "demo_warehouse rows chk g = \<lparr>wh_raw = rows, wh_checks = chk, wh_bronze = (\<lambda>_. empty_table), wh_silver = (\<lambda>_. empty_table), wh_gold = g,
     wh_books = demo_books []\<rparr>"

text \<open>A gold layer whose candles are those of one trade, one day after the epoch, while its trades are \<open>gs\<close>.\<close>

definition demo_trade_gold :: gold_trade where
  "demo_trade_gold = (demo_gold 1 1 5 3)\<lparr>g_ts := 86400000000\<rparr>"

definition demo_candled :: "gold_trade list \<Rightarrow> gold" where
  "demo_candled gs = (demo_gold_state [])\<lparr>gd_trades := table_append empty_table 1 1 [] gs,
     gd_ohlcv := (\<lambda>_. [candle_of 7 9 (bucket_of 60 demo_trade_gold) [demo_trade_gold]])\<rparr>"

lemma demo_candled_ok: "candles_ok [demo_trade_gold] 60 (gd_ohlcv (demo_candled gs) ''1m'')"
  by (simp add: candles_ok_def demo_candled_def demo_gold_state_def)

lemma demo_candled_trades: "table_rows (gd_trades (demo_candled gs)) = gs"
  by (simp add: demo_candled_def demo_empty)

lemma demo_thresholds_view: "thresholds_view demo_gold_env = Inr []"
  by (simp add: thresholds_view_def demo_gold_env_def load_instruments_def load_bars_def)

definition whole_content :: "string \<Rightarrow> int \<Rightarrow> int list" where
  "whole_content t p = (if t = ''market.crypto.v3.raw.kraken'' \<and> p = 0 then [3, 4, 5] else [])"

definition whole_run :: lake where
  "whole_run = fst (stage_raw (demo_env whole_content (\<lambda>_ _. 3) (\<lambda>_ _. 6) 1) 0 [] 0 False \<lparr>raw = empty_table, checks = empty_table\<rparr>)"

lemma whole_reach: "ingest_reach (\<lambda>t p. set (whole_content t p)) whole_run"
  unfolding whole_run_def
  by (rule ingest_reach.step [OF ingest_reach.init], rule ingest_step.run, rule demo_broker_ok)
    (simp_all add: whole_content_def newer_def empty_table_def)

section \<open>Properties\<close>

text \<open>
  C19. The continuity check says exactly what it means to: over an archive without copies it passes if and
  only if every offset between two archived ones of its partition is archived or lies in a gap somebody
  recorded. One acknowledged loss never hides another, and coverage by several rows adds up.
\<close>
theorem continuity_audit_exact:
  assumes "distinct (map row_key (table_rows (wh_raw w)))" and "\<forall>r \<in> set (table_rows (wh_raw w)). 0 \<le> r_part r"
    and "gaps_of (wh_checks w) = Inr gs"
  shows "\<exists>rs. audit_offset_continuity w = Inr rs \<and> (list_all res_passed rs \<longleftrightarrow> acknowledged (wh_raw w) (wh_checks w))"
  using continuity_exact [OF assms] by blast

theorem continuity_audit_exact_witness:
  "\<exists>rs. audit_offset_continuity (demo_warehouse (table_append empty_table 1 1 [] [demo_raw_row, demo_raw_row\<lparr>r_off := 8\<rparr>]) empty_table (demo_candled [])) = Inr rs \<and>
     (list_all res_passed rs \<longleftrightarrow> acknowledged (table_append empty_table 1 1 [] [demo_raw_row, demo_raw_row\<lparr>r_off := 8\<rparr>]) empty_table)"
  using continuity_audit_exact [of "demo_warehouse (table_append empty_table 1 1 [] [demo_raw_row, demo_raw_row\<lparr>r_off := 8\<rparr>]) empty_table (demo_candled [])" "[]"]
  by (simp add: demo_warehouse_def row_key_def demo_raw_row_def gaps_of_def recorded_gaps_def demo_empty)

text \<open>
  C20. The nightly check never cries wolf over what ingest itself did: on every lake the ingest can reach,
  through crashes, retries, compaction and acknowledged losses, continuity passes, when the broker's logs
  have no offsets missing inside them.
\<close>
theorem ingest_passes_continuity:
  fixes log :: produced
  assumes "ingest_reach log lk" and "gapless log"
    and "wh_raw w = raw lk" and "wh_checks w = checks lk"
  shows "\<exists>rs. audit_offset_continuity w = Inr rs \<and> list_all res_passed rs"
proof -
  note f = ingest_acknowledged [OF assms(1,2)]
  obtain gs where gs: "gaps_of (wh_checks w) = Inr gs" using f(3) assms(4) by auto
  show ?thesis using continuity_exact [of w gs] f gs assms(3,4) by auto
qed

theorem ingest_passes_continuity_witness:
  "\<exists>rs. audit_offset_continuity (demo_warehouse (raw whole_run) (checks whole_run) (demo_candled [])) = Inr rs \<and> list_all res_passed rs"
  by (rule ingest_passes_continuity [OF whole_reach]) (auto simp: gapless_def whole_content_def demo_warehouse_def split: if_splits)

text \<open>
  When candles and bars are those of all of gold.trades, which every completed gold run establishes, both
  recomputation checks pass, whatever day it is: the tolerance-zero comparison has no false alarm.
\<close>
theorem current_gold_passes:
  assumes "candles_ok (table_rows (gd_trades (wh_gold w))) 60 (gd_ohlcv (wh_gold w) ''1m'')"
    and "bars_ok (ge_rnd (ae_gold env)) th (table_rows (gd_trades (wh_gold w))) (gd_bars (wh_gold w))"
    and "thresholds_view (ae_gold env) = Inr th" and "dict_ok (bd_thresholds (ge_bars (ae_gold env)))"
  shows "\<exists>r s. audit_ohlcv env w = Inr [r] \<and> res_passed r \<and> audit_bars_parity env w = Inr [s] \<and> res_passed s"
  using ohlcv_current [OF assms(1)] bars_current [OF assms(2-4)] by blast

theorem current_gold_passes_witness:
  "\<exists>r s. audit_ohlcv demo_audit_env (demo_warehouse empty_table empty_table (demo_candled [demo_trade_gold])) = Inr [r] \<and> res_passed r \<and>
     audit_bars_parity demo_audit_env (demo_warehouse empty_table empty_table (demo_candled [demo_trade_gold])) = Inr [s] \<and> res_passed s"
proof (rule current_gold_passes)
  show "candles_ok (table_rows (gd_trades (wh_gold (demo_warehouse empty_table empty_table (demo_candled [demo_trade_gold]))))) 60
      (gd_ohlcv (wh_gold (demo_warehouse empty_table empty_table (demo_candled [demo_trade_gold]))) ''1m'')"
    using demo_candled_ok by (simp add: demo_warehouse_def demo_candled_trades)
  show "thresholds_view (ae_gold demo_audit_env) = Inr []" by (simp add: demo_audit_env_def demo_thresholds_view)
  show "bars_ok (ge_rnd (ae_gold demo_audit_env)) []
      (table_rows (gd_trades (wh_gold (demo_warehouse empty_table empty_table (demo_candled [demo_trade_gold])))))
      (gd_bars (wh_gold (demo_warehouse empty_table empty_table (demo_candled [demo_trade_gold]))))"
    by (simp add: demo_warehouse_def demo_candled_def demo_gold_state_def bars_ok_def bars_sql_def keyed_def case_prod_unfold Let_def map_replicate_const)
  show "dict_ok (bd_thresholds (ge_bars (ae_gold demo_audit_env)))" by (simp add: demo_audit_env_def demo_gold_env_def dict_ok_def)
qed

text \<open>
  What a killed gold run leaves behind is found the next night: candles that are those of the trades
  before the crash fail the comparison as soon as one of the trades after it falls on the day checked.
\<close>
theorem stale_candles_caught:
  assumes "candles_ok old 60 (gd_ohlcv (wh_gold w) ''1m'')" and "table_rows (gd_trades (wh_gold w)) = old @ new"
    and "g \<in> set new" and "day_of (g_ts g) = yesterday env"
  shows "\<exists>r. audit_ohlcv env w = Inr [r] \<and> \<not> res_passed r"
  by (rule ohlcv_stale [OF assms])

theorem stale_candles_caught_witness:
  "\<exists>r. audit_ohlcv demo_audit_env (demo_warehouse empty_table empty_table (demo_candled [demo_trade_gold, demo_trade_gold])) = Inr [r] \<and> \<not> res_passed r"
  by (rule stale_candles_caught [where old = "[demo_trade_gold]" and new = "[demo_trade_gold]" and g = demo_trade_gold])
    (simp_all add: demo_warehouse_def demo_candled_ok demo_candled_trades, simp add: demo_trade_gold_def day_of_def yesterday_def demo_audit_env_def
      MICROS_PER_DAY_def MS_PER_DAY_def)

end
