(* ===== verification/Maintenance.thy ===== *)
theory Maintenance
  imports AuditFacts Metrics
begin

text \<open>
  The rest of \<open>docker/lake/maintenance.py\<close>: compaction with its binpack fallback, expiry, orphan removal and
  \<open>main\<close>. Iceberg's procedures are the environment's: \<open>me_proc\<close> says whether a call returns or which message
  it raises (given the calls made before it), \<open>me_after\<close> what it leaves of the lake. A run is the list of calls
  it makes, the lake it leaves and its exit status. Instants are seconds, as the procedures' literals are.
\<close>

section \<open>Procedures\<close>

datatype strategy = Binpack | Sort

datatype procedure =
    RewriteDataFiles string strategy string int int
  | ExpireSnapshots string int int
  | RemoveOrphanFiles string int "(string \<times> int) list"

record 'j maint_env =
  me_audit :: "'j audit_env"
  me_proc :: "procedure list \<Rightarrow> procedure \<Rightarrow> string option"
  me_after :: "procedure \<Rightarrow> 'j warehouse \<Rightarrow> 'j warehouse"
  me_describe :: "string \<Rightarrow> (string \<times> string) list"
  me_credentials :: bool
  me_list :: "string \<Rightarrow> (string \<times> int) list res"
  me_now :: int
  me_commit :: "(int \<times> int) option"

type_synonym 'j upkeep = "procedure list \<times> 'j warehouse"

text \<open>An exception is its message.\<close>

type_synonym 'j step = "'j upkeep \<Rightarrow> 'j upkeep \<times> (string + unit)"

definition call :: "'j maint_env \<Rightarrow> procedure \<Rightarrow> 'j step" where
  "call env p st =
     (case me_proc env (fst st) p of
        None \<Rightarrow> ((fst st @ [p], me_after env p (snd st)), Inr ())
      | Some msg \<Rightarrow> ((fst st @ [p], snd st), Inl msg))"

fun in_turn :: "'j step list \<Rightarrow> 'j step" where
  "in_turn [] st = (st, Inr ())"
| "in_turn (s # ss) st = (case s st of (st', Inl msg) \<Rightarrow> (st', Inl msg) | (st', Inr _) \<Rightarrow> in_turn ss st')"

section \<open>Compaction\<close>

definition UNSORTED :: string where "UNSORTED = ''without a valid sort order''"

fun contains :: "string \<Rightarrow> string \<Rightarrow> bool" where
  "contains sub [] = (sub = [])"
| "contains sub (c # cs) = (strip_prefix sub (c # cs) \<noteq> None \<or> contains sub cs)"

definition rewrite_table :: "'j maint_env \<Rightarrow> int \<Rightarrow> string \<times> string \<Rightarrow> 'j step" where
  "rewrite_table env since tc st =
     (case tc of (tbl, column) \<Rightarrow>
        (case call env (RewriteDataFiles tbl Sort column since 134217728) st of
           (st', Inr _) \<Rightarrow> (st', Inr ())
         | (st', Inl msg) \<Rightarrow>
             if contains UNSORTED msg then call env (RewriteDataFiles tbl Binpack column since 134217728) st' else (st', Inl msg)))"

definition sorted_tables :: "(string \<times> string) list" where
  "sorted_tables =
     map (\<lambda>t. (bronze_name t, ''recv_ts'')) VENUE_TABLES @ map (\<lambda>v. (silver_name v, ''exchange_ts'')) TRADES @
     map (\<lambda>v. (book_name v, ''recv_ts'')) BOOKS @
     [(GOLD_TRADES, ''exchange_ts''), (GOLD_BOOK, ''second''), (GOLD_BBO, ''second'')]"

definition compact :: "'j maint_env \<Rightarrow> int \<Rightarrow> 'j step" where
  "compact env since =
     in_turn (call env (RewriteDataFiles RAW_TABLE Binpack ''kafka_ts'' since 268435456) # map (rewrite_table env since) sorted_tables)"

section \<open>Expiry and orphans\<close>

definition gold_tables :: "string list" where
  "gold_tables = GOLD_TRADES # map lake_table [''gold.dim_instrument'', ''gold.dim_venue''] @ map (ohlcv_name \<circ> fst) OHLCV @ [GOLD_BARS]"

definition book_tables :: "string list" where
  "book_tables = map book_name BOOKS @ [GOLD_BOOK, GOLD_BBO, lake_table ''gold.book_state'']"

definition lake_tables :: "string list" where
  "lake_tables = [RAW_TABLE, AUDIT_TABLE] @ map bronze_name VENUE_TABLES @ map silver_name TRADES @ gold_tables @ book_tables"

definition expire :: "'j maint_env \<Rightarrow> int \<Rightarrow> 'j step" where
  "expire env retain_days = in_turn (map (\<lambda>t. call env (ExpireSnapshots t (me_now env - retain_days * 86400) 10)) lake_tables)"

definition table_location :: "'j maint_env \<Rightarrow> string \<Rightarrow> string res" where
  "table_location env tbl =
     (case List.find (\<lambda>(name, _). name = ''Location'') (me_describe env tbl) of None \<Rightarrow> Inl RuntimeError | Some (_, loc) \<Rightarrow> Inr loc)"

text \<open>The objects under a prefix with their modification times: the client's listing, in milliseconds, as timestamps.\<close>

definition file_list_view :: "'j maint_env \<Rightarrow> string \<Rightarrow> (string \<times> int) list res" where
  "file_list_view env loc =
     (if \<not> me_credentials env then Inl KeyError
      else res_bind (me_list env loc) (\<lambda>files. Inr (map (\<lambda>(path, ms). (path, ms * 1000)) files)))"

definition orphans_of :: "'j maint_env \<Rightarrow> int \<Rightarrow> string \<Rightarrow> 'j step" where
  "orphans_of env older_than tbl st =
     (case res_bind (table_location env tbl) (file_list_view env) of
        Inl e \<Rightarrow> (st, Inl (ae_message (me_audit env) e))
      | Inr files \<Rightarrow> call env (RemoveOrphanFiles tbl older_than files) st)"

definition remove_orphans :: "'j maint_env \<Rightarrow> int \<Rightarrow> 'j step" where
  "remove_orphans env older_than_hours st =
     (if older_than_hours < 24
      then (st, Inl (''--orphan-hours '' @ show_int older_than_hours @ '' is below the 24 h floor; see remove_orphans() for why that floor is a safety property''))
      else in_turn (map (orphans_of env (me_now env - older_than_hours * 3600)) lake_tables) st)"

section \<open>main\<close>

record maint_args =
  ma_days :: int
  ma_retain_days :: int
  ma_orphan_hours :: int
  ma_audit_only :: bool

definition default_args :: maint_args where
  "default_args = \<lparr>ma_days = 2, ma_retain_days = 7, ma_orphan_hours = 24, ma_audit_only = False\<rparr>"

definition upkeep :: "'j maint_env \<Rightarrow> maint_args \<Rightarrow> 'j step" where
  "upkeep env args =
     (if ma_audit_only args then in_turn []
      else in_turn [compact env (me_now env - ma_days args * 86400), expire env (ma_retain_days args), remove_orphans env (ma_orphan_hours args)])"

text \<open>Status 2 is \<open>parser.error\<close>, 1 an exception or a failed audit. The writer lock is held throughout (theory Lock).\<close>

definition maintenance_main :: "'j maint_env \<Rightarrow> maint_args \<Rightarrow> 'j warehouse \<Rightarrow> 'j upkeep \<times> int" where
  "maintenance_main env args w =
     (if ma_retain_days args < 7 \<or> ma_orphan_hours args < 24 then (([], w), 2)
      else (case upkeep env args ([], w) of
        (st, Inl msg) \<Rightarrow> (st, 1)
      | (st, Inr _) \<Rightarrow>
          (case run_audits (me_audit env) (me_now env * 1000000) (me_commit env) (snd st) of
             (w', Inl e) \<Rightarrow> ((fst st, w'), 1)
           | (w', Inr results) \<Rightarrow> ((fst st, w'), if failed_results results = [] then 0 else 1))))"

section \<open>The calls of a run\<close>

definition issued :: "'j maint_env \<Rightarrow> maint_args \<Rightarrow> 'j warehouse \<Rightarrow> procedure list" where
  "issued env args w = fst (fst (maintenance_main env args w))"

text \<open>A step that only adds calls of one shape, whatever its outcome.\<close>

definition only :: "(procedure \<Rightarrow> bool) \<Rightarrow> 'j step \<Rightarrow> bool" where
  "only P s = (\<forall>st. \<exists>ps. fst (fst (s st)) = fst st @ ps \<and> list_all P ps)"

lemma only_call: "P p \<Longrightarrow> only P (call env p)"
  by (auto simp: only_def call_def split: option.splits)

lemma only_in_turn: "(\<And>s. s \<in> set ss \<Longrightarrow> only P s) \<Longrightarrow> only P (in_turn ss)"
proof (induction ss)
  case Nil
  then show ?case by (simp add: only_def)
next
  case (Cons s ss)
  then have IH: "only P (in_turn ss)" and s: "only P s" by auto
  show ?case
    unfolding only_def
  proof
    fix st
    obtain st' r where run: "s st = (st', r)" by (rule prod.exhaust)
    obtain ps where ps: "fst st' = fst st @ ps" "list_all P ps" using s run unfolding only_def by (metis fst_conv)
    obtain qs where qs: "fst (fst (in_turn ss st')) = fst st' @ qs" "list_all P qs" using IH unfolding only_def by blast
    show "\<exists>ps. fst (fst (in_turn (s # ss) st)) = fst st @ ps \<and> list_all P ps"
    proof (cases r)
      case (Inl msg)
      then show ?thesis using run ps by auto
    next
      case (Inr u)
      then show ?thesis using run ps qs by (intro exI [of _ "ps @ qs"]) simp
    qed
  qed
qed

lemma only_rewrite:
  assumes "\<And>strat. P (RewriteDataFiles (fst tc) strat (snd tc) since 134217728)"
  shows "only P (rewrite_table env since tc)"
proof -
  obtain tbl column where tc: "tc = (tbl, column)" by force
  show ?thesis
    using assms by (auto simp: only_def rewrite_table_def call_def tc split: option.splits)
qed

lemma only_orphans: "(\<And>fs. P (RemoveOrphanFiles tbl ot fs)) \<Longrightarrow> only P (orphans_of env ot tbl)"
  by (auto simp: only_def orphans_of_def call_def split: sum.splits option.splits)

lemma only_remove:
  assumes "\<And>tbl fs. 24 \<le> h \<Longrightarrow> P (RemoveOrphanFiles tbl (me_now env - h * 3600) fs)"
  shows "only P (remove_orphans env h)"
proof (cases "h < 24")
  case False
  then have "only P (in_turn (map (orphans_of env (me_now env - h * 3600)) lake_tables))"
    using assms by (intro only_in_turn) (auto intro: only_orphans)
  moreover have "remove_orphans env h = in_turn (map (orphans_of env (me_now env - h * 3600)) lake_tables)"
    using False by (simp add: remove_orphans_def fun_eq_iff)
  ultimately show ?thesis by simp
qed (simp add: only_def remove_orphans_def)

definition admissible :: "'j maint_env \<Rightarrow> maint_args \<Rightarrow> procedure \<Rightarrow> bool" where
  "admissible env args p = (case p of
     RewriteDataFiles tbl strat column since target \<Rightarrow> since = me_now env - ma_days args * 86400
   | ExpireSnapshots tbl older_than keep \<Rightarrow> tbl \<in> set lake_tables \<and> older_than \<le> me_now env - 7 * 86400 \<and> keep = 10
   | RemoveOrphanFiles tbl older_than files \<Rightarrow> older_than \<le> me_now env - 24 * 3600)"

lemma upkeep_admissible:
  assumes "7 \<le> ma_retain_days args" and "24 \<le> ma_orphan_hours args"
  shows "only (admissible env args) (upkeep env args)"
proof -
  have "only (admissible env args) (compact env (me_now env - ma_days args * 86400))"
    unfolding compact_def by (rule only_in_turn) (auto simp: admissible_def intro!: only_call only_rewrite)
  moreover have "only (admissible env args) (expire env (ma_retain_days args))"
    unfolding expire_def by (rule only_in_turn) (use assms in \<open>auto simp: admissible_def intro!: only_call\<close>)
  moreover have "only (admissible env args) (remove_orphans env (ma_orphan_hours args))"
    by (rule only_remove) (use assms in \<open>simp add: admissible_def\<close>)
  ultimately show ?thesis
    unfolding upkeep_def by (auto intro!: only_in_turn)
qed

lemma issued_admissible: "list_all (admissible env args) (issued env args w)"
proof (cases "ma_retain_days args < 7 \<or> ma_orphan_hours args < 24")
  case True
  then show ?thesis by (auto simp: issued_def maintenance_main_def)
next
  case False
  obtain st r where u: "upkeep env args ([], w) = (st, r)" by (rule prod.exhaust)
  have "fst (fst (maintenance_main env args w)) = fst st"
    using False u by (auto simp: maintenance_main_def split: sum.splits prod.splits)
  moreover have "only (admissible env args) (upkeep env args)" by (rule upkeep_admissible) (use False in auto)
  then have "\<exists>ps. fst (fst (upkeep env args ([], w))) = fst ([], w) @ ps \<and> list_all (admissible env args) ps"
    unfolding only_def by (rule spec)
  ultimately show ?thesis using u by (simp add: issued_def)
qed

section \<open>The failure count on its way to the exporter\<close>

lemma py_float_nat: "py_float (show_nat n) = Some (of_nat n)"
proof -
  have d: "list_all is_digit (show_nat n)" by (rule show_nat_digits)
  then have ch: "c \<noteq> CHR ''-'' \<and> c \<noteq> CHR ''+'' \<and> c \<noteq> CHR ''e'' \<and> c \<noteq> CHR ''E'' \<and> c \<noteq> CHR ''.''" if "c \<in> set (show_nat n)" for c
    using that by (auto simp: list_all_iff is_digit_def)
  obtain c cs where cs: "show_nat n = c # cs" using show_nat_nonempty [of n] by (meson list.exhaust)
  have tw: "takeWhile (\<lambda>c. c \<noteq> CHR ''e'' \<and> c \<noteq> CHR ''E'') (show_nat n) = show_nat n" "takeWhile (\<lambda>c. c \<noteq> CHR ''.'') (show_nat n) = show_nat n"
    using ch by (simp_all add: takeWhile_eq_all_conv)
  have "py_digit_run (show_nat n) = Some (n, length (show_nat n))" "py_digit_run [] = Some (0, 0)"
    using d digits_val_show_nat [of n] by (simp_all add: py_digit_run_def digits_val_def [of "[]"])
  then have "py_ufloat (show_nat n) = Some (of_nat n)" by (simp add: py_ufloat_def tw Let_def)
  then have "py_exponent (show_nat n) = Some (of_nat n)" by (simp add: py_exponent_def tw Let_def)
  moreover have "py_float (show_nat n) = py_exponent (show_nat n)"
    unfolding py_float_def py_strip_digits [OF d] using ch [of c] cs by simp
  ultimately show ?thesis by simp
qed

text \<open>A table's snapshots as the catalog serves them to the exporter, in milliseconds.\<close>

definition served :: "'r table \<Rightarrow> msnap list" where
  "served t = map (\<lambda>s. \<lparr>ms_id = Some (snap_id s), ms_ts = Some (committed_at s), ms_summary = (case summ s of None \<Rightarrow> [] | Some m \<Rightarrow> m)\<rparr>) (snaps t)"

lemma served_append:
  "served (table_append t i ts props rows) =
     served t @ [\<lparr>ms_id = Some i, ms_ts = Some ts, ms_summary = commit_summary props rows\<rparr>]"
  by (simp add: served_def table_append_def)

lemma filed_count:
  assumes run: "run_audits env run_ts (Some (i, time)) w = (w', Inr rs)" and new: "newer (wh_checks w) time"
  shows "num (latest_job_summary (served (wh_checks w')) JOB_MAINTENANCE) AUDIT_FAILURES = of_nat (length (failed_results rs))"
proof -
  let ?props = "[(JOB, JOB_MAINTENANCE), (AUDIT_FAILURES, show_int (int (length (failed_results rs))))]"
  have w': "wh_checks w' = table_append (wh_checks w) i time ?props (map (result_row run_ts) rs)"
    using run by (auto simp: run_audits_def Let_def)
  let ?s = "\<lparr>ms_id = Some i, ms_ts = Some time, ms_summary = commit_summary ?props (map (result_row run_ts) rs)\<rparr>"
  have job: "by_job JOB_MAINTENANCE ?s" by (simp add: by_job_def commit_summary_def)
  have "stamp_ms y < stamp_ms ?s" if "y \<in> set (served (wh_checks w))" for y
    using that new by (auto simp: served_def newer_def stamp_ms_def)
  from job_snapshots.newest_append [OF job this] have "latest_job_snapshot (served (wh_checks w')) JOB_MAINTENANCE = Some ?s"
    by (simp add: w' served_append)
  then have "latest_job_summary (served (wh_checks w')) JOB_MAINTENANCE = commit_summary ?props (map (result_row run_ts) rs)"
    by (simp add: latest_job_summary_def)
  moreover have "map_of (commit_summary ?props rows) AUDIT_FAILURES = Some (show_nat (length (failed_results rs)))" for rows :: "audit_row list"
    by (simp add: commit_summary_def JOB_def AUDIT_FAILURES_def show_int_def)
  ultimately show ?thesis by (simp add: num_def py_float_nat)
qed

section \<open>The exit status\<close>

lemma failed_results_none: "failed_results rs = [] \<longleftrightarrow> list_all res_passed rs"
  by (auto simp: failed_results_def filter_empty_conv list_all_iff)

lemma run_check_passed:
  "list_all res_passed (run_check env w a) \<longleftrightarrow>
     (case a of (name, sc, check) \<Rightarrow> (case check env w of Inl e \<Rightarrow> False | Inr rs \<Rightarrow> list_all res_passed rs))"
  by (auto simp: run_check_def audit_result_def split: prod.splits sum.splits)

lemma audit_results_passed:
  "list_all res_passed (audit_results env w) \<longleftrightarrow>
     list_all (\<lambda>(name, sc, check). case check env w of Inl e \<Rightarrow> False | Inr rs \<Rightarrow> list_all res_passed rs) AUDITS"
proof -
  have "list_all res_passed (concat (map (run_check env w) as)) \<longleftrightarrow>
     list_all (\<lambda>(name, sc, check). case check env w of Inl e \<Rightarrow> False | Inr rs \<Rightarrow> list_all res_passed rs) as" for as
    by (induction as) (simp_all add: run_check_passed)
  then show ?thesis by (simp only: audit_results_def)
qed

lemma mid_mem: "y \<in> set b \<Longrightarrow> y \<in> set (x # a @ b @ c)"
  by simp

lemma empty_flags:
  assumes "table_rows (wh_silver w v) = []"
  shows "audit_result ''silver_flags'' (silver_name v) False (- 1) (''check raised TypeError: '' @ ae_message env TypeError) \<in> set (audit_results env w)"
proof -
  have "(''silver_flags'', silver_name v, \<lambda>env w. audit_silver_flags v w) \<in> set (silver_audits v)"
    by (simp add: silver_audits_def)
  then have "(''silver_flags'', silver_name v, \<lambda>env w. audit_silver_flags v w) \<in> set (concat (map silver_audits TRADES))"
    by (cases v) (auto simp: TRADES_def)
  then have m: "(''silver_flags'', silver_name v, \<lambda>env w. audit_silver_flags v w) \<in> set AUDITS" unfolding AUDITS_def by (rule mid_mem)
  have "audit_result ''silver_flags'' (silver_name v) False (- 1) (''check raised TypeError: '' @ ae_message env TypeError)
      \<in> set (run_check env w (''silver_flags'', silver_name v, \<lambda>env w. audit_silver_flags v w))"
    using assms by (simp add: run_check_def audit_silver_flags_def exn_name_def)
  then show ?thesis using m unfolding audit_results_def set_concat set_map by blast
qed

lemma contains_mid: "contains sub (pre @ sub @ post)"
proof (induction pre)
  case Nil
  have "strip_prefix sub (sub @ post) = Some post" by simp
  then show ?case by (cases "sub @ post") auto
qed simp

text \<open>The calls of a sorted rewrite when only the tables in \<open>U\<close> are refused, and for want of a sort order.\<close>

definition rewrites_of :: "string set \<Rightarrow> int \<Rightarrow> string \<times> string \<Rightarrow> procedure list" where
  "rewrites_of U since tc =
     RewriteDataFiles (fst tc) Sort (snd tc) since 134217728 # (if fst tc \<in> U then [RewriteDataFiles (fst tc) Binpack (snd tc) since 134217728] else [])"

lemma rewrites_in_turn:
  assumes "\<And>tr p. me_proc env tr p = (case p of RewriteDataFiles tbl Sort c s n \<Rightarrow> if tbl \<in> U then Some (pre @ UNSORTED @ post) else None | _ \<Rightarrow> None)"
  shows "\<exists>w'. in_turn (map (rewrite_table env since) tcs) (tr, w) = ((tr @ concat (map (rewrites_of U since) tcs), w'), Inr ())"
proof (induction tcs arbitrary: tr w)
  case (Cons tc tcs)
  obtain tbl column where tc: "tc = (tbl, column)" by (rule prod.exhaust)
  have "\<exists>w1. rewrite_table env since tc (tr, w) = ((tr @ rewrites_of U since tc, w1), Inr ())"
    by (simp add: tc rewrite_table_def call_def assms rewrites_of_def contains_mid)
  then obtain w1 where "rewrite_table env since tc (tr, w) = ((tr @ rewrites_of U since tc, w1), Inr ())" ..
  with Cons.IH [of "tr @ rewrites_of U since tc" w1] show ?case by simp
qed simp

section \<open>Properties\<close>


text \<open>
  C22. A run never asks Iceberg for more than the floors allow, however it ends: expiry reaches back at least
  seven days, keeps ten snapshots and names only lake tables, and orphan removal never reaches into the last
  24 hours, where a concurrent writer may hold staged files no snapshot names yet.
\<close>
theorem maintenance_floors: "list_all (admissible env args) (issued env args w)"
  by (rule issued_admissible)

text \<open>
  Only the checks are wrapped. When the compaction of raw.messages raises, the run stops there: nothing is
  expired, no check is asked, no row is filed, and the status is all that is left of it.
\<close>
theorem dead_compaction_files_nothing:
  assumes "me_proc env [] (RewriteDataFiles RAW_TABLE Binpack ''kafka_ts'' (me_now env - ma_days args * 86400) 268435456) = Some msg"
    and "\<not> ma_audit_only args" and "7 \<le> ma_retain_days args" and "24 \<le> ma_orphan_hours args"
  shows "maintenance_main env args w =
    (([RewriteDataFiles RAW_TABLE Binpack ''kafka_ts'' (me_now env - ma_days args * 86400) 268435456], w), 1)"
  using assms by (simp add: maintenance_main_def upkeep_def compact_def call_def)

text \<open>
  Tables without a sort order do not stop the night: each refused rewrite is recognised by its message
  and made again as a binpack, every other table is rewritten once, in order, and the compaction returns.
\<close>
theorem unsorted_tables_binpacked:
  assumes "\<And>tr p. me_proc env tr p = (case p of RewriteDataFiles tbl Sort c s n \<Rightarrow> if tbl \<in> U then Some (pre @ UNSORTED @ post) else None | _ \<Rightarrow> None)"
  shows "snd (compact env since (tr, w)) = Inr () \<and>
    fst (fst (compact env since (tr, w))) =
      tr @ RewriteDataFiles RAW_TABLE Binpack ''kafka_ts'' since 268435456 # concat (map (rewrites_of U since) sorted_tables)"
proof -
  let ?raw = "RewriteDataFiles RAW_TABLE Binpack ''kafka_ts'' since 268435456"
  obtain w' where "in_turn (map (rewrite_table env since) sorted_tables) (tr @ [?raw], me_after env ?raw w) =
      (((tr @ [?raw]) @ concat (map (rewrites_of U since) sorted_tables), w'), Inr ())"
    using rewrites_in_turn [OF assms] by blast
  then show ?thesis by (simp add: compact_def call_def assms)
qed

text \<open>
  The alert reads what the run filed: the failure gauge the exporter serves from the summaries is the
  number of failed rows the newest maintenance run wrote, so it is zero exactly when that run passed.
\<close>
theorem failure_gauge:
  assumes "run_audits env run_ts (Some (i, time)) w = (w', Inr rs)" and "newer (wh_checks w) time"
  shows "put_checks (served (wh_checks w')) now g AuditFailures = Some (of_nat (length (failed_results rs))) \<and>
    table_rows (wh_checks w') = table_rows (wh_checks w) @ map (result_row run_ts) rs"
  using filed_count [OF assms] assms(1) by (auto simp: put_checks_def put_def run_audits_def Let_def)

text \<open>
  A venue without trades fails every night: over an empty silver table the flag rates are \<open>NULL\<close>, the check
  that is documented as informational raises on them, and the run exits 1.
\<close>
theorem empty_silver_fails:
  assumes "table_rows (wh_silver w v) = []" and "ma_audit_only args"
  shows "snd (maintenance_main env args w) \<noteq> 0 \<and>
    (\<exists>r \<in> set (audit_results (me_audit env) w). res_check r \<in> set INFORMATIONAL \<and> res_scope r = silver_name v \<and> \<not> res_passed r)"
proof
  let ?r = "audit_result ''silver_flags'' (silver_name v) False (- 1) (''check raised TypeError: '' @ ae_message (me_audit env) TypeError)"
  have r: "?r \<in> set (audit_results (me_audit env) w)" by (rule empty_flags [OF assms(1)])
  then show "\<exists>r \<in> set (audit_results (me_audit env) w). res_check r \<in> set INFORMATIONAL \<and> res_scope r = silver_name v \<and> \<not> res_passed r"
    by (rule bexI [rotated]) (simp add: audit_result_def INFORMATIONAL_def)
  have "\<not> res_passed ?r" by (simp add: audit_result_def)
  with r have "failed_results (audit_results (me_audit env) w) \<noteq> []" unfolding failed_results_none list_all_iff by blast
  then show "snd (maintenance_main env args w) \<noteq> 0"
    using assms(2) by (auto simp: maintenance_main_def upkeep_def run_audits_def Let_def split: option.splits)
qed

section \<open>Witnesses\<close>

definition demo_maint_env :: "(procedure list \<Rightarrow> procedure \<Rightarrow> string option) \<Rightarrow> nat maint_env" where
  "demo_maint_env refuse = \<lparr>me_audit = demo_audit_env, me_proc = refuse, me_after = (\<lambda>_ w. w), me_describe = (\<lambda>_. [(''Location'', ''s3://lake'')]),
     me_credentials = True, me_list = (\<lambda>_. Inr []), me_now = 172800, me_commit = Some (1, 10)\<rparr>"

definition demo_lake :: "nat warehouse" where
  "demo_lake = demo_warehouse empty_table empty_table (demo_candled [])"

theorem dead_compaction_files_nothing_witness:
  "maintenance_main (demo_maint_env (\<lambda>_ _. Some ''OutOfMemoryError'')) default_args demo_lake =
    (([RewriteDataFiles RAW_TABLE Binpack ''kafka_ts'' 0 268435456], demo_lake), 1)"
  using dead_compaction_files_nothing [of "demo_maint_env (\<lambda>_ _. Some ''OutOfMemoryError'')" default_args "''OutOfMemoryError''" demo_lake]
  by (simp add: demo_maint_env_def default_args_def)

theorem unsorted_tables_binpacked_witness:
  "snd (compact (demo_maint_env (\<lambda>_ p. case p of RewriteDataFiles tbl Sort c s n \<Rightarrow> if tbl \<in> {GOLD_BBO} then Some (''Cannot sort data '' @ UNSORTED @ []) else None
       | _ \<Rightarrow> None)) 5 ([], demo_lake)) = Inr ()"
  by (rule unsorted_tables_binpacked [THEN conjunct1]) (auto simp: demo_maint_env_def split: procedure.splits strategy.splits)

theorem failure_gauge_witness:
  "\<exists>w' rs. run_audits demo_audit_env 9 (Some (1, 10)) demo_lake = (w', Inr rs) \<and>
     put_checks (served (wh_checks w')) 12 (\<lambda>_. None) AuditFailures = Some (of_nat (length (failed_results rs)))"
proof -
  obtain w' rs where r: "run_audits demo_audit_env 9 (Some (1, 10)) demo_lake = (w', Inr rs)" by (simp add: run_audits_def Let_def)
  have "newer (wh_checks demo_lake) 10" by (simp add: demo_lake_def demo_warehouse_def newer_def empty_table_def)
  from failure_gauge [OF r this, of 12 "\<lambda>_. None"] r show ?thesis by blast
qed

theorem empty_silver_fails_witness:
  "snd (maintenance_main (demo_maint_env (\<lambda>_ _. None)) (default_args\<lparr>ma_audit_only := True\<rparr>) demo_lake) \<noteq> 0"
  by (rule empty_silver_fails [where v = Kraken, THEN conjunct1]) (simp_all add: demo_lake_def demo_warehouse_def demo_empty default_args_def)

end
