(* ===== verification/Slices.thy ===== *)
theory Slices
  imports Silver
begin

text \<open>
  What the rebuilds of bronze and silver (\<open>bronze.rebuild\<close>, \<open>silver.rebuild\<close>) leave: the emptied tables are derived
  again from the parent day by day, every commit naming the parent's snapshot pinned at the start.
\<close>

section \<open>Slices of the archive\<close>

lemma mset_slices:
  assumes "distinct ds"
  shows "mset (concat (map (\<lambda>d. filter (\<lambda>x. f x = d) xs) ds)) = mset (filter (\<lambda>x. f x \<in> set ds) xs)"
  using assms
proof (induction ds)
  case (Cons d ds)
  have "mset (filter (\<lambda>x. f x \<in> set (d # ds)) xs) = mset (filter (\<lambda>x. f x = d) xs) + mset (filter (\<lambda>x. f x \<in> set ds) xs)"
    using Cons.prems by (induction xs) auto
  then show ?case using Cons by simp
qed simp

section \<open>Bronze\<close>

text \<open>\<open>past ex\<close> are the rows of the slices of venue \<open>ex\<close> already decoded; the rebuild is of the venues \<open>exs\<close>.\<close>

definition bronze_sliced :: "'j bronze_env \<Rightarrow> string set \<Rightarrow> int \<Rightarrow> (string \<Rightarrow> raw_row list) \<Rightarrow> 'j bronze \<Rightarrow> bool" where
  "bronze_sliced env exs raw_id past st =
     ((\<forall>nm. clock_ok (b_commits st) (b_tables st nm)) \<and>
      (\<forall>t \<in> set VENUE_TABLES. vt_exchange t \<in> exs \<longrightarrow>
         sliced (bronze_view env t) each SRC_SNAPSHOT_ID raw_id (past (vt_exchange t)) (b_tables st (vt_name t))))"

lemma write_tables_one:
  assumes "write_tables env fs raw_id (t # ts) st = (st', Inr w)" and "\<forall>nm. clock_ok (b_commits st) (b_tables st nm)"
  obtains i time rest w' where "b_commits st = (i, time) # rest"
    and "write_tables env fs raw_id ts
      (st\<lparr>b_tables := (b_tables st)(vt_name t := table_append (b_tables st (vt_name t)) i time (decode_props SRC_SNAPSHOT_ID raw_id) (bronze_project env fs t)),
         b_commits := rest\<rparr>) = (st', Inr w')"
    and "\<forall>s \<in> set (snaps (b_tables st (vt_name t))). committed_at s < time"
  using assms by (fastforce simp: Let_def clock_ok_def split: list.splits sum.splits prod.splits)

lemma write_tables_sliced:
  assumes "write_tables env fs raw_id ts st = (st', Inr w)" and "distinct (map vt_name ts)"
    and "\<forall>nm. clock_ok (b_commits st) (b_tables st nm)"
    and "\<forall>t \<in> set ts. sliced (bronze_view env t) each SRC_SNAPSHOT_ID raw_id xs (b_tables st (vt_name t)) \<and>
           mset (bronze_project env fs t) = mset (bronze_view env t ys)"
  shows "(\<forall>nm. clock_ok (b_commits st') (b_tables st' nm)) \<and>
    (\<forall>t \<in> set ts. sliced (bronze_view env t) each SRC_SNAPSHOT_ID raw_id (xs @ ys) (b_tables st' (vt_name t))) \<and>
    (\<forall>nm. nm \<notin> set (map vt_name ts) \<longrightarrow> b_tables st' nm = b_tables st nm)"
  using assms
proof (induction ts arbitrary: st w)
  case (Cons t ts)
  obtain i time rest w' where c: "b_commits st = (i, time) # rest"
    and run: "write_tables env fs raw_id ts
      (st\<lparr>b_tables := (b_tables st)(vt_name t := table_append (b_tables st (vt_name t)) i time (decode_props SRC_SNAPSHOT_ID raw_id) (bronze_project env fs t)),
         b_commits := rest\<rparr>) = (st', Inr w')"
    and late: "\<forall>s \<in> set (snaps (b_tables st (vt_name t))). committed_at s < time"
    using write_tables_one [OF Cons.prems(1,3)] .
  let ?tbl = "table_append (b_tables st (vt_name t)) i time (decode_props SRC_SNAPSHOT_ID raw_id) (bronze_project env fs t)"
  let ?st = "st\<lparr>b_tables := (b_tables st)(vt_name t := ?tbl), b_commits := rest\<rparr>"
  have clk: "clock_ok ((i, time) # rest) (b_tables st nm)" for nm using Cons.prems(3) c by simp
  have "\<forall>nm. clock_ok (b_commits ?st) (b_tables ?st nm)" using clock_ok_append [OF clk] clock_ok_tail [OF clk] by simp
  moreover have other: "vt_name u \<noteq> vt_name t" if "u \<in> set ts" for u using that Cons.prems(2) by (fastforce simp: image_iff)
  moreover have "sliced (bronze_view env t) each SRC_SNAPSHOT_ID raw_id (xs @ ys) ?tbl"
    by (rule bronze_layer.sliced_append [OF _ _ late decode_props_lookup]) (use Cons.prems(4) in auto)
  moreover note Cons.IH [OF run]
  ultimately show ?case using Cons.prems(2,4) by (auto simp: image_iff)
qed simp

lemma bronze_view_source:
  "bronze_view env t (filter (venue_raw (vt_exchange t) day) rows) = bronze_project env (frames_of env (filter (venue_raw (vt_exchange t) day) rows)) t"
proof -
  have "filter (venue_raw (vt_exchange t) None) (filter (venue_raw (vt_exchange t) day) rows) =
      filter (venue_raw (vt_exchange t) day) rows"
    by (rule filter_True) (auto simp: venue_raw_def)
  then show ?thesis by (simp add: bronze_view_def)
qed

lemma venue_name_other:
  "t \<in> set VENUE_TABLES \<Longrightarrow> vt_exchange t \<noteq> ex \<Longrightarrow> vt_name t \<notin> set (map vt_name (venue_tables ex))"
  using venue_name_inj by (fastforce simp: venue_tables_def)

lemma venue_tables_mem: "t \<in> set (venue_tables ex) \<longleftrightarrow> t \<in> set VENUE_TABLES \<and> vt_exchange t = ex"
  by (auto simp: venue_tables_def)

lemma bronze_decode_sliced:
  fixes env :: "'j bronze_env"
  assumes dec: "bronze_decode env (filter (venue_raw ex (Some d)) rows) raw_id run_ts ex st = (st', Inr w)"
    and ok: "bronze_sliced env exs raw_id past st" and ex: "ex \<in> exs"
  shows "bronze_sliced env exs raw_id (past(ex := past ex @ filter (venue_raw ex (Some d)) rows)) st'"
proof -
  let ?src = "filter (venue_raw ex (Some d)) rows"
  obtain fr un where x: "decoded_raw env ?src = Inr (fr, un)"
    using dec by (auto simp: bronze_decode_def split: sum.splits)
  have ns: "\<forall>r \<in> set ?src. r_schema_id r \<noteq> None" by (auto simp: venue_raw_def)
  have view: "bronze_view env t ?src = bronze_project env (frames_of env ?src) t" if "t \<in> set (venue_tables ex)" for t
    using bronze_view_source [of env t "Some d" rows] venue_tables_exchange [OF that] by simp
  note frames = decoded_raw_frames(1) [OF ns x]
  show ?thesis
  proof (cases fr)
    case None
    then have "frames_of env ?src = []" using frames by simp
    then have "bronze_view env t ?src = []" if "t \<in> set (venue_tables ex)" for t
      using view [OF that] by (simp add: bronze_project_def)
    moreover have "b_tables st' = b_tables st" "b_commits st' = b_commits st"
      using dec x None by (auto simp: bronze_decode_def Let_def)
    ultimately show ?thesis using ok by (auto simp: bronze_sliced_def venue_tables_mem bronze_layer.sliced_skip)
  next
    case (Some fs)
    obtain st1 w1 where run: "write_tables env fs raw_id (venue_tables ex) st = (st1, Inr w1)"
      and same: "b_tables st' = b_tables st1" "b_commits st' = b_commits st1"
      using dec x Some by (auto simp: bronze_decode_def Let_def split: sum.splits prod.splits)
    have "mset fs = mset (frames_of env ?src)" using frames Some by simp
    then have "mset (bronze_project env fs t) = mset (bronze_project env (frames_of env ?src) t)" for t
      by (rule mset_bronze_project)
    with view ok ex have "\<forall>t \<in> set (venue_tables ex). sliced (bronze_view env t) each SRC_SNAPSHOT_ID raw_id (past ex) (b_tables st (vt_name t)) \<and>
        mset (bronze_project env fs t) = mset (bronze_view env t ?src)" by (auto simp: bronze_sliced_def venue_tables_mem)
    from write_tables_sliced [OF run venue_tables_names _ this] ok
    have "(\<forall>nm. clock_ok (b_commits st1) (b_tables st1 nm)) \<and>
      (\<forall>t \<in> set (venue_tables ex). sliced (bronze_view env t) each SRC_SNAPSHOT_ID raw_id (past ex @ ?src) (b_tables st1 (vt_name t))) \<and>
      (\<forall>nm. nm \<notin> set (map vt_name (venue_tables ex)) \<longrightarrow> b_tables st1 nm = b_tables st nm)" by (simp add: bronze_sliced_def)
    then have clk: "\<forall>nm. clock_ok (b_commits st') (b_tables st' nm)"
      and here: "\<And>t. t \<in> set VENUE_TABLES \<Longrightarrow> vt_exchange t = ex \<Longrightarrow>
        sliced (bronze_view env t) each SRC_SNAPSHOT_ID raw_id (past ex @ ?src) (b_tables st' (vt_name t))"
      and there: "\<And>nm. nm \<notin> set (map vt_name (venue_tables ex)) \<Longrightarrow> b_tables st' nm = b_tables st nm"
      unfolding same by (auto simp: venue_tables_mem)
    have "sliced (bronze_view env t) each SRC_SNAPSHOT_ID raw_id ((past(ex := past ex @ ?src)) (vt_exchange t)) (b_tables st' (vt_name t))"
      if "t \<in> set VENUE_TABLES" "vt_exchange t \<in> exs" for t
      using here [OF that(1)] there [OF venue_name_other [OF that(1), of ex]] ok that
      by (cases "vt_exchange t = ex") (auto simp: bronze_sliced_def)
    then show ?thesis using clk by (simp add: bronze_sliced_def)
  qed
qed

definition slices_past :: "raw_row list \<Rightarrow> (string \<times> int) list \<Rightarrow> string \<Rightarrow> raw_row list" where
  "slices_past rows slices ex = concat (map (\<lambda>s. if fst s = ex then filter (venue_raw ex (Some (snd s))) rows else []) slices)"

lemma rebuild_days_sliced:
  assumes "rebuild_days env rawt raw_id run_ts slices totals st = (st', Inr totals')"
    and "bronze_sliced env exs raw_id past st" and "fst ` set slices \<subseteq> exs"
  shows "bronze_sliced env exs raw_id (\<lambda>ex. past ex @ slices_past (rows_at rawt raw_id) slices ex) st'"
  using assms
proof (induction slices arbitrary: past totals st)
  case (Cons s slices)
  obtain ex d where s: "s = (ex, d)" by (rule prod.exhaust)
  let ?src = "filter (venue_raw ex (Some d)) (rows_at rawt raw_id)"
  have src: "bronze_source rawt raw_id None ex (Some d) = Inr ?src"
    by (simp add: bronze_source_def incremental_read_def has_position_def)
  obtain st1 w totals1 where dec: "bronze_decode env ?src raw_id run_ts ex st = (st1, Inr w)"
    and run: "rebuild_days env rawt raw_id run_ts slices totals1 st1 = (st', Inr totals')"
    using Cons.prems(1) src s by (auto split: sum.splits prod.splits)
  have "bronze_sliced env exs raw_id (past(ex := past ex @ ?src)) st1"
    by (rule bronze_decode_sliced [OF dec Cons.prems(2)]) (use Cons.prems(3) s in auto)
  from Cons.IH [OF run this] Cons.prems(3)
  have "bronze_sliced env exs raw_id (\<lambda>e. (past(ex := past ex @ ?src)) e @ slices_past (rows_at rawt raw_id) slices e) st'" by auto
  also have "(\<lambda>e. (past(ex := past ex @ ?src)) e @ slices_past (rows_at rawt raw_id) slices e) =
      (\<lambda>e. past e @ slices_past (rows_at rawt raw_id) (s # slices) e)"
    by (rule ext) (simp add: slices_past_def s)
  finally show ?case .
qed (simp add: slices_past_def)

lemma slices_of_venue:
  assumes "distinct exs" and "ex \<in> set exs"
  shows "slices_past rows (concat (map (\<lambda>ex. map (Pair ex) days) exs)) ex = concat (map (\<lambda>d. filter (venue_raw ex (Some d)) rows) days)"
proof -
  have one: "slices_past rows (map (Pair e) days) ex = (if e = ex then concat (map (\<lambda>d. filter (venue_raw ex (Some d)) rows) days) else [])" for e
    by (induction days) (simp_all add: slices_past_def)
  have app: "slices_past rows (xs @ ys) ex = slices_past rows xs ex @ slices_past rows ys ex" for xs ys
    by (simp add: slices_past_def)
  have "ex \<notin> set es \<Longrightarrow> slices_past rows (concat (map (\<lambda>ex. map (Pair ex) days) es)) ex = []" for es
    by (induction es) (auto simp: app one, simp add: slices_past_def)
  then show ?thesis using assms by (induction exs) (auto simp: app one)
qed

lemma bronze_rebuild_sliced:
  assumes run: "bronze_rebuild env rawt raw_id run_ts days exs st = (st', Inr totals)"
    and exs: "exs \<noteq> []" "distinct exs" and clk: "\<forall>nm. clock_ok (b_commits st) (b_tables st nm)"
    and empty: "\<forall>t \<in> set VENUE_TABLES. vt_exchange t \<in> set exs \<longrightarrow> b_tables st (vt_name t) = empty_table"
    and t: "t \<in> set VENUE_TABLES" "vt_exchange t \<in> set exs"
  shows "sliced (bronze_view env t) each SRC_SNAPSHOT_ID raw_id
    (concat (map (\<lambda>d. filter (venue_raw (vt_exchange t) (Some d)) (rows_at rawt raw_id)) days)) (b_tables st' (vt_name t))"
proof -
  have "bronze_sliced env (set exs) raw_id (\<lambda>_. []) st"
    using clk empty by (simp add: bronze_sliced_def bronze_layer.sliced_start)
  moreover have "rebuild_days env rawt raw_id run_ts (concat (map (\<lambda>ex. map (Pair ex) days) (sort exs))) [] st = (st', Inr totals)"
    using run exs(1) by (simp add: bronze_rebuild_def)
  ultimately have "bronze_sliced env (set exs) raw_id
      (\<lambda>ex. [] @ slices_past (rows_at rawt raw_id) (concat (map (\<lambda>ex. map (Pair ex) days) (sort exs))) ex) st'"
    by (intro rebuild_days_sliced) auto
  then show ?thesis using t slices_of_venue [of "sort exs" "vt_exchange t" "rows_at rawt raw_id" days] exs(2)
    by (auto simp: bronze_sliced_def)
qed

lemma venue_raw_days:
  "distinct days \<Longrightarrow> mset (concat (map (\<lambda>d. filter (venue_raw ex (Some d)) rows) days)) =
     mset (filter (\<lambda>r. r_kafka_ts r div MS_PER_DAY \<in> set days) (filter (venue_raw ex None) rows))"
proof -
  assume d: "distinct days"
  have day: "filter (venue_raw ex (Some d)) rows = filter (\<lambda>r. r_kafka_ts r div MS_PER_DAY = d) (filter (venue_raw ex None) rows)" for d
    unfolding filter_filter by (rule filter_cong) (auto simp: venue_raw_def)
  show ?thesis unfolding day by (rule mset_slices [OF d])
qed

lemma bronze_view_filter: "bronze_view env t (filter (venue_raw (vt_exchange t) None) rows) = bronze_view env t rows"
  by (simp add: bronze_view_def)

definition archive_days :: "raw_row list \<Rightarrow> string list \<Rightarrow> int list" where
  "archive_days rows exs =
     sort (remdups (map (\<lambda>r. r_kafka_ts r div MS_PER_DAY) (filter (\<lambda>r. list_ex (\<lambda>ex. ends_with (r_topic r) (''.raw.'' @ ex)) exs) rows)))"

lemma archive_days_cover:
  assumes "ex \<in> set exs"
  shows "filter (\<lambda>r. r_kafka_ts r div MS_PER_DAY \<in> set (archive_days rows exs)) (filter (venue_raw ex None) rows) = filter (venue_raw ex None) rows"
  by (rule filter_True) (use assms in \<open>auto simp: archive_days_def venue_raw_def list_ex_iff\<close>)

text \<open>
  C23. A completed rebuild of bronze is the incremental decode of the whole archive: starting from emptied
  tables, every table of the rebuilt venues holds the decode of the archive as of the pinned snapshot, each
  frame once, and is in step with it, so the next tick resumes right after the pin.
\<close>
theorem bronze_rebuild_in_step:
  assumes "bronze_rebuild env rawt raw_id run_ts (archive_days (rows_at rawt raw_id) exs) exs st = (st', Inr totals)"
    and "exs \<noteq> []" and "distinct exs" and "\<forall>nm. clock_ok (b_commits st) (b_tables st nm)"
    and "\<forall>t \<in> set VENUE_TABLES. vt_exchange t \<in> set exs \<longrightarrow> b_tables st (vt_name t) = empty_table"
    and "t \<in> set VENUE_TABLES" and "vt_exchange t \<in> set exs" and "raw_id \<in> set (map snap_id (snaps rawt))"
  shows "mset (table_rows (b_tables st' (vt_name t))) = mset (bronze_view env t (rows_at rawt raw_id)) \<and>
    in_step (bronze_view env t) each SRC_SNAPSHOT_ID rawt (b_tables st' (vt_name t))"
proof -
  let ?rows = "rows_at rawt raw_id" and ?ex = "vt_exchange t"
  let ?xs = "concat (map (\<lambda>d. filter (venue_raw ?ex (Some d)) ?rows) (archive_days ?rows exs))"
  have sl: "sliced (bronze_view env t) each SRC_SNAPSHOT_ID raw_id ?xs (b_tables st' (vt_name t))"
    by (rule bronze_rebuild_sliced [OF assms(1-7)])
  have "distinct (archive_days ?rows exs)" by (simp add: archive_days_def)
  from venue_raw_days [OF this, of ?ex ?rows]
  have "mset ?xs = mset (filter (venue_raw ?ex None) ?rows)" unfolding archive_days_cover [OF assms(7)] .
  then have "mset (bronze_view env t ?xs) = mset (bronze_view env t (filter (venue_raw ?ex None) ?rows))"
    by (rule bronze_layer.trans_perm)
  then have xs: "mset (bronze_view env t ?xs) = mset (bronze_view env t ?rows)" unfolding bronze_view_filter .
  show ?thesis
    using bronze_layer.sliced_in_step [OF sl assms(8) xs] sl xs by (simp add: sliced_def)
qed

text \<open>The first slice of a rebuild already names the pinned snapshot, whatever slices are still to come.\<close>

lemma sliced_position:
  "sliced f view key i xs down \<Longrightarrow> down \<noteq> empty_table \<Longrightarrow> src_position down key = Some (show_int i)"
  by (simp add: sliced_def)

lemma level_venue_skipped:
  assumes "\<forall>t \<in> set (venue_tables ex). src_position (b_tables st (vt_name t)) SRC_SNAPSHOT_ID = Some (show_int raw_id)"
    and "venue_tables ex \<noteq> []"
  shows "stage_venues env rawt raw_id run_ts (ex # exs) st = stage_venues env rawt raw_id run_ts exs st"
proof -
  have "set (venue_starts ex st) = {Some (show_int raw_id)}" using assms by (cases "venue_tables ex") (auto simp: venue_starts_def)
  moreover have "venue_starts ex st \<noteq> []" using assms(2) by (simp add: venue_starts_def)
  ultimately have "length (remdups (venue_starts ex st)) = 1" "hd (venue_starts ex st) = Some (show_int raw_id)"
    using hd_in_set [of "venue_starts ex st"] by (simp_all add: length_remdups_card_conv)
  then show ?thesis by (simp add: level_with_def has_position_def)
qed

text \<open>
  C24. A rebuild that dies between two days loses the days it had not reached: as soon as one slice has
  committed, the next tick takes the venue for level with the archive and passes over it, its tables hold only
  the days done, and every later incremental read starts after the pinned snapshot.
\<close>
theorem interrupted_rebuild_loses_days:
  assumes run: "bronze_rebuild env rawt raw_id run_ts days_done exs st = (st', Inr totals)"
    and exs: "exs \<noteq> []" "distinct exs" and clk: "\<forall>nm. clock_ok (b_commits st) (b_tables st nm)"
    and empty: "\<forall>t \<in> set VENUE_TABLES. vt_exchange t \<in> set exs \<longrightarrow> b_tables st (vt_name t) = empty_table"
    and t: "t \<in> set (venue_tables ex)" "ex \<in> set exs"
    and begun: "\<forall>t \<in> set (venue_tables ex). b_tables st' (vt_name t) \<noteq> empty_table"
    and days: "distinct days_done" and lost: "r \<in> set (rows_at rawt raw_id)" "r_kafka_ts r div MS_PER_DAY \<notin> set days_done"
      "bronze_view env t [r] \<noteq> []"
  shows "stage_venues env rawt raw_id run_ts' (ex # others) st' = stage_venues env rawt raw_id run_ts' others st' \<and>
    mset (table_rows (b_tables st' (vt_name t))) =
      mset (bronze_view env t (filter (\<lambda>r. r_kafka_ts r div MS_PER_DAY \<in> set days_done) (rows_at rawt raw_id))) \<and>
    \<not> in_step (bronze_view env t) each SRC_SNAPSHOT_ID rawt (b_tables st' (vt_name t)) \<and>
    (\<forall>rawt' j rows. distinct (map snap_id (snaps rawt')) \<longrightarrow> rows_at rawt' raw_id = rows_at rawt raw_id \<longrightarrow>
       incremental_read rawt' (src_position (b_tables st' (vt_name t)) SRC_SNAPSHOT_ID) j = Inr rows \<longrightarrow>
       rows_at rawt' j = rows_at rawt raw_id @ rows)"
proof -
  let ?rows = "rows_at rawt raw_id" and ?in = "\<lambda>r. r_kafka_ts r div MS_PER_DAY \<in> set days_done"
  have mem: "u \<in> set VENUE_TABLES" "vt_exchange u = ex" if "u \<in> set (venue_tables ex)" for u
    using that by (simp_all add: venue_tables_mem)
  have sl: "sliced (bronze_view env u) each SRC_SNAPSHOT_ID raw_id
      (concat (map (\<lambda>d. filter (venue_raw ex (Some d)) ?rows) days_done)) (b_tables st' (vt_name u))" if "u \<in> set (venue_tables ex)" for u
    using bronze_rebuild_sliced [OF run exs clk empty mem(1) [OF that]] mem(2) [OF that] t(2) by simp
  have pos: "src_position (b_tables st' (vt_name u)) SRC_SNAPSHOT_ID = Some (show_int raw_id)" if "u \<in> set (venue_tables ex)" for u
    using sliced_position [OF sl [OF that]] begun that by simp
  have "mset (bronze_view env t (concat (map (\<lambda>d. filter (venue_raw ex (Some d)) ?rows) days_done))) =
      mset (bronze_view env t (filter ?in (filter (venue_raw ex None) ?rows)))"
    by (rule bronze_layer.trans_perm) (rule venue_raw_days [OF days])
  moreover have "bronze_view env t (filter ?in (filter (venue_raw ex None) ?rows)) = bronze_view env t (filter ?in ?rows)"
    using mem(2) [OF t(1)] by (simp add: bronze_view_def conj_ac)
  ultimately have held: "mset (table_rows (b_tables st' (vt_name t))) = mset (bronze_view env t (filter ?in ?rows))"
    using sl [OF t(1)] by (simp add: sliced_def)
  have "\<not> in_step (bronze_view env t) each SRC_SNAPSHOT_ID rawt (b_tables st' (vt_name t))"
  proof
    assume "in_step (bronze_view env t) each SRC_SNAPSHOT_ID rawt (b_tables st' (vt_name t))"
    then have all: "mset (bronze_view env t (filter ?in ?rows)) = mset (bronze_view env t ?rows)"
      using held pos [OF t(1)] by (auto simp: in_step_def show_int_inj)
    have "mset (bronze_view env t ?rows) = mset (bronze_view env t (filter ?in ?rows @ filter (\<lambda>r. \<not> ?in r) ?rows))"
      by (rule bronze_layer.trans_perm) simp
    then have "bronze_view env t (filter (\<lambda>r. \<not> ?in r) ?rows) = []" using all by (simp add: bronze_layer.trans_append)
    moreover obtain as bs where "filter (\<lambda>r. \<not> ?in r) ?rows = as @ r # bs"
      using split_list [of r "filter (\<lambda>r. \<not> ?in r) ?rows"] lost(1,2) by auto
    ultimately have "mset (bronze_view env t (as @ [r] @ bs)) = {#}" by simp
    then show False using lost(3) by (simp only: bronze_layer.trans_append) simp
  qed
  moreover have "rows_at rawt' j = ?rows @ rows"
    if "distinct (map snap_id (snaps rawt'))" "rows_at rawt' raw_id = ?rows"
      "incremental_read rawt' (src_position (b_tables st' (vt_name t)) SRC_SNAPSHOT_ID) j = Inr rows" for rawt' j rows
    using rows_between_at [OF that(1), of raw_id j rows] that(2,3) pos [OF t(1)]
    by (simp add: incremental_read_def has_position_def)
  moreover have "venue_tables ex \<noteq> []" using t(1) by auto
  ultimately show ?thesis using held level_venue_skipped [of ex st' raw_id] pos by blast
qed

definition demo_archive :: "raw_row table" where
  "demo_archive = table_append empty_table 10 10 [] [demo_raw_row, demo_raw_row\<lparr>r_off := 6, r_kafka_ts := MS_PER_DAY\<rparr>]"

definition demo_emptied :: "nat bronze" where
  "demo_emptied = demo_bronze\<lparr>b_commits := map (\<lambda>i. (i, i)) [1..6]\<rparr>"

lemma kraken_tables: "map vt_name (venue_tables ''kraken'') = [''kraken_trade'', ''kraken_book'', ''kraken_instrument'']"
    "map vt_stream (venue_tables ''kraken'') = [''trade'', ''book'', ''instrument'']"
proof -
  have "map (\<lambda>t. (vt_name t, vt_exchange t, vt_stream t)) (venue_tables ''kraken'') =
     filter (\<lambda>x. fst (snd x) = ''kraken'') (map (\<lambda>t. (vt_name t, vt_exchange t, vt_stream t)) VENUE_TABLES)"
    by (simp add: venue_tables_def filter_map comp_def)
  then have "map (\<lambda>t. (vt_name t, vt_exchange t, vt_stream t)) (venue_tables ''kraken'') =
      [(''kraken_trade'', ''kraken'', ''trade''), (''kraken_book'', ''kraken'', ''book''), (''kraken_instrument'', ''kraken'', ''instrument'')]"
    unfolding venue_facts by simp
  then have "map fst (map (\<lambda>t. (vt_name t, vt_exchange t, vt_stream t)) (venue_tables ''kraken'')) = [''kraken_trade'', ''kraken_book'', ''kraken_instrument'']"
      "map (snd \<circ> snd) (map (\<lambda>t. (vt_name t, vt_exchange t, vt_stream t)) (venue_tables ''kraken'')) = [''trade'', ''book'', ''instrument'']"
    by simp_all
  then show "map vt_name (venue_tables ''kraken'') = [''kraken_trade'', ''kraken_book'', ''kraken_instrument'']"
    "map vt_stream (venue_tables ''kraken'') = [''trade'', ''book'', ''instrument'']" by (simp_all add: comp_def)
qed

lemma kraken_three:
  obtains t1 t2 t3 where "venue_tables ''kraken'' = [t1, t2, t3]"
    and "vt_name t1 = ''kraken_trade''" "vt_name t2 = ''kraken_book''" "vt_name t3 = ''kraken_instrument''"
    and "vt_stream t1 = ''trade''" "vt_stream t2 = ''book''" "vt_stream t3 = ''instrument''"
  using kraken_tables by (auto simp: map_eq_Cons_conv)

lemma demo_decoded_day:
  "decoded_raw demo_bronze_env [demo_raw_row\<lparr>r_off := x, r_kafka_ts := k\<rparr>] =
    Inr (Some [(demo_raw_row\<lparr>r_off := x, r_kafka_ts := k\<rparr>, \<lparr>f_stream = ''trade'', f_symbol = None, f_recv_ts_ns = 0, f_conn_id = ''c'',
      f_conn_msg_seq = 0, f_payload = [123, 125]\<rparr>)], [])"
  by (simp add: decoded_raw_def schema_ids_def demo_raw_row_def demo_bronze_env_def fetch_schema_def decode_part_rows_def
      body_sql_def HEADER_BYTES_def)

lemma demo_day: "bronze_source demo_archive 10 None ''kraken'' (Some 0) = Inr [demo_raw_row]"
    "bronze_source demo_archive 10 None ''kraken'' (Some 1) = Inr [demo_raw_row\<lparr>r_off := 6, r_kafka_ts := MS_PER_DAY\<rparr>]"
  by (simp_all add: bronze_source_def incremental_read_def has_position_def demo_archive_def rows_at_def table_append_def
      empty_table_def venue_raw_def demo_raw_row_def ends_with_def MS_PER_DAY_def)

lemmas demo_run_simps = demo_emptied_def demo_bronze_def bronze_project_def bronze_row_of_def added_records_def table_append_def
  empty_table_def current_snapshot_id_def commit_summary_def decode_props_def Let_def file_findings_def routed_streams_def
  JOB_def SRC_SNAPSHOT_ID_def bronze_rebuild_def bronze_decode_def

lemma six: "[1..6] = [1, 2, 3, 4, 5, 6::int]" by (simp add: upto.simps)

lemma demo_first_day:
  "\<exists>st' totals. bronze_rebuild demo_bronze_env demo_archive 10 0 [0] [''kraken''] demo_emptied = (st', Inr totals) \<and>
     (\<forall>t \<in> set (venue_tables ''kraken''). b_tables st' (vt_name t) \<noteq> empty_table)"
proof -
  obtain t1 t2 t3 where k: "venue_tables ''kraken'' = [t1, t2, t3]"
    "vt_name t1 = ''kraken_trade''" "vt_name t2 = ''kraken_book''" "vt_name t3 = ''kraken_instrument''"
    "vt_stream t1 = ''trade''" "vt_stream t2 = ''book''" "vt_stream t3 = ''instrument''" by (rule kraken_three)
  show ?thesis by (simp add: demo_day demo_decoded k six demo_run_simps)
qed

lemma demo_archive_days: "archive_days (rows_at demo_archive 10) [''kraken''] = [0, 1]"
  by (simp add: archive_days_def demo_archive_def rows_at_def table_append_def empty_table_def demo_raw_row_def ends_with_def MS_PER_DAY_def)

lemma demo_both_days:
  "\<exists>st' totals. bronze_rebuild demo_bronze_env demo_archive 10 0 [0, 1] [''kraken''] demo_emptied = (st', Inr totals)"
proof -
  obtain t1 t2 t3 where k: "venue_tables ''kraken'' = [t1, t2, t3]"
    "vt_name t1 = ''kraken_trade''" "vt_name t2 = ''kraken_book''" "vt_name t3 = ''kraken_instrument''"
    "vt_stream t1 = ''trade''" "vt_stream t2 = ''book''" "vt_stream t3 = ''instrument''" by (rule kraken_three)
  show ?thesis by (simp add: demo_day demo_decoded demo_decoded_day k six demo_run_simps)
qed

lemma demo_clock: "\<forall>nm. clock_ok (b_commits demo_emptied) (b_tables demo_emptied nm)"
  by (simp add: demo_emptied_def demo_bronze_def clock_ok_def empty_table_def six)

lemma demo_kraken: obtains t where "t \<in> set (venue_tables ''kraken'')" "vt_name t = ''kraken_trade''" "vt_stream t = ''trade''"
  by (rule kraken_three) auto

theorem bronze_rebuild_in_step_witness:
  "\<exists>st' totals t. bronze_rebuild demo_bronze_env demo_archive 10 0 (archive_days (rows_at demo_archive 10) [''kraken'']) [''kraken''] demo_emptied =
      (st', Inr totals) \<and> t \<in> set (venue_tables ''kraken'') \<and>
    mset (table_rows (b_tables st' (vt_name t))) = mset (bronze_view demo_bronze_env t (rows_at demo_archive 10)) \<and>
    in_step (bronze_view demo_bronze_env t) each SRC_SNAPSHOT_ID demo_archive (b_tables st' (vt_name t))"
proof -
  obtain st' totals where run: "bronze_rebuild demo_bronze_env demo_archive 10 0 (archive_days (rows_at demo_archive 10) [''kraken'']) [''kraken''] demo_emptied =
      (st', Inr totals)" using demo_both_days unfolding demo_archive_days by blast
  obtain t where t: "t \<in> set (venue_tables ''kraken'')" by (rule demo_kraken)
  have "mset (table_rows (b_tables st' (vt_name t))) = mset (bronze_view demo_bronze_env t (rows_at demo_archive 10)) \<and>
    in_step (bronze_view demo_bronze_env t) each SRC_SNAPSHOT_ID demo_archive (b_tables st' (vt_name t))"
    by (rule bronze_rebuild_in_step [OF run _ _ demo_clock])
      (use t in \<open>simp_all add: venue_tables_mem demo_emptied_def demo_bronze_def demo_archive_def table_append_def empty_table_def\<close>)
  then show ?thesis using run t by blast
qed

theorem interrupted_rebuild_loses_days_witness:
  "\<exists>st' totals t. bronze_rebuild demo_bronze_env demo_archive 10 0 [0] [''kraken''] demo_emptied = (st', Inr totals) \<and>
     stage_venues demo_bronze_env demo_archive 10 9 [''kraken''] st' = (st', Inr 0) \<and>
     \<not> in_step (bronze_view demo_bronze_env t) each SRC_SNAPSHOT_ID demo_archive (b_tables st' (vt_name t))"
proof -
  obtain st' totals where run: "bronze_rebuild demo_bronze_env demo_archive 10 0 [0] [''kraken''] demo_emptied = (st', Inr totals)"
    and begun: "\<forall>t \<in> set (venue_tables ''kraken''). b_tables st' (vt_name t) \<noteq> empty_table" using demo_first_day by blast
  obtain t where t: "t \<in> set (venue_tables ''kraken'')" "vt_name t = ''kraken_trade''" "vt_stream t = ''trade''" by (rule demo_kraken)
  let ?r = "demo_raw_row\<lparr>r_off := 6, r_kafka_ts := MS_PER_DAY\<rparr>"
  have "frames_of demo_bronze_env [?r] \<noteq> []"
    by (simp add: frames_of_def row_frame_def demo_raw_row_def demo_bronze_env_def fetch_schema_def)
  then have "bronze_view demo_bronze_env t [?r] \<noteq> []"
    using t(3) venue_tables_exchange [OF t(1)]
    by (simp add: bronze_view_def venue_raw_def bronze_project_def demo_raw_row_def ends_with_def frames_of_def row_frame_def
        demo_bronze_env_def fetch_schema_def)
  from interrupted_rebuild_loses_days [OF run _ _ demo_clock _ t(1) _ begun _ _ _ this, of 9 "[]"]
  have "stage_venues demo_bronze_env demo_archive 10 9 [''kraken''] st' = stage_venues demo_bronze_env demo_archive 10 9 [] st' \<and>
     \<not> in_step (bronze_view demo_bronze_env t) each SRC_SNAPSHOT_ID demo_archive (b_tables st' (vt_name t))"
    by (simp add: demo_emptied_def demo_bronze_def demo_archive_def rows_at_def table_append_def empty_table_def MS_PER_DAY_def)
  then show ?thesis using run by auto
qed

section \<open>Silver\<close>

lemma silver_write_sliced:
  assumes run: "silver_write env v frames end_id run_ts (cs, t) = ((cs', t'), Inr n)"
    and ok: "sliced (silver_typed env v) (each \<circ> silver_view) SRC_SNAPSHOT_ID end_id xs t" and clk: "\<forall>u. clock_ok cs (f u)" "f v = t"
  shows "sliced (silver_typed env v) (each \<circ> silver_view) SRC_SNAPSHOT_ID end_id (xs @ frames) t' \<and> (\<forall>u. clock_ok cs' ((f(v := t')) u))"
  using run
proof (cases rule: silver_write_cases)
  case same
  then have "silver_project (se_casts env) (se_registry env) run_ts v frames = Inr []"
    using run by (auto simp: silver_write_def Let_def split: sum.splits if_splits list.splits)
  then have "silver_typed env v frames = []" using project_typed by fastforce
  then show ?thesis using ok clk same by (auto simp: silver_layer.sliced_skip fun_upd_idem)
next
  case (commit batch i time)
  have c: "clock_ok ((i, time) # cs') (f u)" for u using clk(1) commit(4) by simp
  have late: "\<forall>s \<in> set (snaps t). committed_at s < time" using c [of v] clk(2) by (auto simp: clock_ok_def)
  have "sliced (silver_typed env v) (each \<circ> silver_view) SRC_SNAPSHOT_ID end_id (xs @ frames) t'"
    unfolding commit(5)
    by (rule silver_layer.sliced_append [OF ok _ late decode_props_lookup]) (use project_typed [OF commit(1)] in simp)
  moreover have "clock_ok cs' ((f(v := t')) u)" for u
    using clock_ok_tail [OF c] clock_ok_append [OF c [of v]] clk(2) by (simp add: commit(5))
  ultimately show ?thesis by simp
qed

lemma silver_days_sliced:
  assumes "silver_days env v rows end_id run_ts days (cs, t) = ((cs', t'), Inr n)"
    and "sliced (silver_typed env v) (each \<circ> silver_view) SRC_SNAPSHOT_ID end_id xs t" and "\<forall>u. clock_ok cs (f u)" "f v = t"
  shows "sliced (silver_typed env v) (each \<circ> silver_view) SRC_SNAPSHOT_ID end_id
      (xs @ concat (map (\<lambda>d. filter (\<lambda>b. b_recv_ts b div US_PER_DAY = d) rows) days)) t' \<and> (\<forall>u. clock_ok cs' ((f(v := t')) u))"
  using assms
proof (induction days arbitrary: xs cs t f n)
  case (Cons d days)
  let ?day = "filter (\<lambda>b. b_recv_ts b div US_PER_DAY = d) rows"
  obtain cs1 t1 n1 n2 where one: "silver_write env v ?day end_id run_ts (cs, t) = ((cs1, t1), Inr n1)"
    and rest: "silver_days env v rows end_id run_ts days (cs1, t1) = ((cs', t'), Inr n2)"
    using Cons.prems(1) by (auto split: sum.splits prod.splits)
  note w = silver_write_sliced [OF one Cons.prems(2,3,4)]
  from Cons.IH [OF rest conjunct1 [OF w] conjunct2 [OF w] fun_upd_same] show ?case by (simp del: fun_upd_apply)
qed (simp add: fun_upd_idem)

definition silver_current :: "silver_env \<Rightarrow> venue \<Rightarrow> trade_cols bronze_row table \<Rightarrow> silver_row table \<Rightarrow> bool" where
  "silver_current env v src t =
     (case current_snapshot_id src of None \<Rightarrow> t = empty_table
      | Some end_id \<Rightarrow> mset (map silver_view (table_rows t)) = mset (silver_typed env v (rows_at src end_id)) \<and>
          (src_position t SRC_SNAPSHOT_ID = Some (show_int end_id) \<or> t = empty_table))"

lemma silver_rebuild_venue_current:
  assumes run: "silver_rebuild_venue env v src run_ts (cs, empty_table) = ((cs', t'), Inr n)"
    and clk: "\<forall>u. clock_ok cs (f u)" "f v = empty_table"
  shows "silver_current env v src t' \<and> (\<forall>u. clock_ok cs' ((f(v := t')) u))"
proof (cases "current_snapshot_id src")
  case None
  then show ?thesis using run clk by (auto simp: silver_rebuild_venue_def silver_current_def fun_upd_idem)
next
  case (Some end_id)
  let ?rows = "rows_at src end_id"
  let ?days = "sort (remdups (map (\<lambda>b. b_recv_ts b div US_PER_DAY) ?rows))"
  have "silver_days env v ?rows end_id run_ts ?days (cs, empty_table) = ((cs', t'), Inr n)"
    using run Some by (simp add: silver_rebuild_venue_def Let_def)
  from silver_days_sliced [OF this silver_layer.sliced_start clk]
  have sl: "sliced (silver_typed env v) (each \<circ> silver_view) SRC_SNAPSHOT_ID end_id
      (concat (map (\<lambda>d. filter (\<lambda>b. b_recv_ts b div US_PER_DAY = d) ?rows) ?days)) t'" and c: "\<forall>u. clock_ok cs' ((f(v := t')) u)" by auto
  have "distinct ?days" by simp
  from mset_slices [OF this, of "\<lambda>b. b_recv_ts b div US_PER_DAY" ?rows]
  have "mset (concat (map (\<lambda>d. filter (\<lambda>b. b_recv_ts b div US_PER_DAY = d) ?rows) ?days)) = mset ?rows" by simp
  from silver_layer.trans_perm [OF this, of env v] sl c show ?thesis
    by (simp add: silver_current_def Some sliced_def)
qed

lemma silver_rebuild_current:
  assumes "silver_rebuild env src run_ts exs vs (cs, f) = ((cs', f'), Inr n)" and "distinct vs"
    and "\<forall>u. clock_ok cs (f u)"
    and "\<forall>v \<in> set vs. exs = [] \<or> exchange_name v \<in> set exs \<longrightarrow> f v = empty_table"
  shows "(\<forall>v \<in> set vs. exs = [] \<or> exchange_name v \<in> set exs \<longrightarrow> silver_current env v (src v) (f' v)) \<and>
    (\<forall>v. v \<notin> set vs \<or> \<not> (exs = [] \<or> exchange_name v \<in> set exs) \<longrightarrow> f' v = f v)"
  using assms
proof (induction vs arbitrary: cs f n)
  case (Cons v vs)
  show ?case
  proof (cases "exs \<noteq> [] \<and> exchange_name v \<notin> set exs")
    case True
    then have "silver_rebuild env src run_ts exs vs (cs, f) = ((cs', f'), Inr n)" using Cons.prems(1) by simp
    from Cons.IH [OF this] Cons.prems(2-4) True show ?thesis by auto
  next
    case False
    obtain cs1 t1 n1 n2 where one: "silver_rebuild_venue env v (src v) run_ts (cs, f v) = ((cs1, t1), Inr n1)"
      and rest: "silver_rebuild env src run_ts exs vs (cs1, f(v := t1)) = ((cs', f'), Inr n2)"
      using Cons.prems(1) False by (auto split: sum.splits prod.splits if_splits)
    have "f v = empty_table" using Cons.prems(4) False by auto
    with one have "silver_current env v (src v) t1 \<and> (\<forall>u. clock_ok cs1 ((f(v := t1)) u))"
      using silver_rebuild_venue_current [of env v "src v" run_ts cs cs1 t1 n1 f] Cons.prems(3) by simp
    moreover from this Cons.IH [OF rest] Cons.prems(2,4)
    have "(\<forall>v \<in> set vs. exs = [] \<or> exchange_name v \<in> set exs \<longrightarrow> silver_current env v (src v) (f' v)) \<and>
      (\<forall>u. u \<notin> set vs \<or> \<not> (exs = [] \<or> exchange_name u \<in> set exs) \<longrightarrow> f' u = (f(v := t1)) u)" by auto
    ultimately show ?thesis using Cons.prems(2) False by auto
  qed
qed simp


definition demo_feed :: "venue \<Rightarrow> trade_cols bronze_row table" where
  "demo_feed v = (if v = Kraken then table_append empty_table 10 10 [] [demo_trade 5 20 1, demo_trade 6 US_PER_DAY 2] else empty_table)"

definition demo_rows :: "silver_row list" where
  "demo_rows = [demo_typed 5 20 1 False None, demo_typed 6 US_PER_DAY 2 False None]"

lemma demo_feed_simps: "current_snapshot_id (demo_feed Kraken) = Some 10" "rows_at (demo_feed Kraken) 10 = [demo_trade 5 20 1, demo_trade 6 US_PER_DAY 2]"
    "snaps (demo_feed Kraken) = [\<lparr>snap_id = 10, committed_at = 10, summ = Some (commit_summary [] [demo_trade 5 20 1, demo_trade 6 US_PER_DAY 2]), added = [demo_trade 5 20 1, demo_trade 6 US_PER_DAY 2]\<rparr>]"
    "v \<noteq> Kraken \<Longrightarrow> current_snapshot_id (demo_feed v) = None"
  by (simp_all add: demo_feed_def table_append_def empty_table_def current_snapshot_id_def rows_at_def)

lemma demo_feed_typed: "silver_typed demo_silver_env Kraken [demo_trade 5 20 1, demo_trade 6 US_PER_DAY 2] = map silver_view demo_rows"
  using project_typed [OF demo_project [of 5 20 1 6 US_PER_DAY 2]] by (simp add: demo_rows_def demo_precision)

lemma demo_one: "silver_project (se_casts demo_silver_env) (se_registry demo_silver_env) 9 Kraken [demo_trade a x i] = Inr [demo_typed a x i False None]"
  using demo_precision [of a x i False None]
  by (simp add: silver_project_def demo_trade_def demo_silver_env_def explode_frame_def posexplode_def kraken_trade_row_def
      typed_row_def name_row_def canonical_def exchange_name_def demo_typed_def)

lemma demo_days_run:
  "\<exists>t n. silver_rebuild demo_silver_env demo_feed 9 [] TRADES ([(1, 1), (2, 2)], \<lambda>_. empty_table) = (([], (\<lambda>_. empty_table)(Kraken := t)), Inr n)"
proof -
  have day: "b_recv_ts (demo_trade 5 20 1) div US_PER_DAY = 0" "b_recv_ts (demo_trade 6 US_PER_DAY 2) div US_PER_DAY = 1"
    by (simp_all add: demo_trade_def US_PER_DAY_def)
  have st: "storable (demo_typed a x i r m)" for a x i r m by (simp add: storable_def demo_typed_def)
  have counted: "\<exists>n. added_records (table_append t i ts (decode_props SRC_SNAPSHOT_ID 10) rows) = Inr n" if "i \<notin> set (map snap_id (snaps t))"
    for t :: "silver_row table" and i ts rows
    using added_records_append [OF that, of "decode_props SRC_SNAPSHOT_ID 10"] by (auto simp: decode_props_def JOB_def SRC_SNAPSHOT_ID_def)
  have idle: "silver_rebuild_venue demo_silver_env v (demo_feed v) 9 st = (st, Inr 0)" if "v \<noteq> Kraken" for v st
    using that by (simp add: silver_rebuild_venue_def demo_feed_simps)
  obtain t1 n1 where one: "silver_write demo_silver_env Kraken [demo_trade 5 20 1] 10 9 ([(1, 1), (2, 2)], empty_table) = (([(2, 2)], t1), Inr n1)"
      and s1: "snap_id ` set (snaps t1) = {1}"
    using counted [of 1 empty_table] by (fastforce simp: silver_write_def demo_one st Let_def table_append_def empty_table_def)
  obtain t2 n2 where two: "silver_write demo_silver_env Kraken [demo_trade 6 US_PER_DAY 2] 10 9 ([(2, 2)], t1) = (([], t2), Inr n2)"
    using counted [of 2 t1] s1 by (fastforce simp: silver_write_def demo_one st Let_def)
  have "silver_rebuild_venue demo_silver_env Kraken (demo_feed Kraken) 9 ([(1, 1), (2, 2)], empty_table) = (([], t2), Inr (n1 + n2))"
    by (simp add: silver_rebuild_venue_def demo_feed_simps day one two)
  then have "silver_rebuild demo_silver_env demo_feed 9 [] TRADES ([(1, 1), (2, 2)], \<lambda>_. empty_table) =
      (([], (\<lambda>_. empty_table)(Kraken := t2)), Inr (n1 + n2))"
    by (simp add: TRADES_def idle fun_upd_idem)
  then show ?thesis by blast
qed


end
