(* ===== verification/Ddl.thy ===== *)
theory Ddl
  imports Ingest
begin

text \<open>
  \<open>docker/lake/apply_ddl.py\<close>: the statements of \<open>ddl/lake.sql\<close>, split, remapped to other namespaces and run in
  order. The regular expressions are written out as matchers. Spark is the argument \<open>sql\<close>, which says what a
  statement does to the catalog's state and whether it raises. Texts are ASCII: any other character is neither
  white space nor a word character here.
\<close>

section \<open>Splitting\<close>

text \<open>\<open>str.splitlines\<close>: a carriage return and line feed end one line together, and no empty line follows the last end.\<close>

definition line_end :: "char \<Rightarrow> bool" where
  "line_end c = ((of_char c :: nat) \<in> set [10, 11, 12, 13, 28, 29, 30])"

fun splitlines :: "string \<Rightarrow> string list" where
  "splitlines [] = []"
| "splitlines [c] = (if line_end c then [[]] else [[c]])"
| "splitlines (c # d # cs) =
     (if c = CHR 0x0D \<and> d = CHR 0x0A then [] # splitlines cs
      else if line_end c then [] # splitlines (d # cs)
      else (case splitlines (d # cs) of [] \<Rightarrow> [[c]] | l # ls \<Rightarrow> (c # l) # ls))"

fun join_lines :: "string list \<Rightarrow> string" where
  "join_lines [] = []"
| "join_lines [l] = l"
| "join_lines (l # m # ls) = l @ CHR 0x0A # join_lines (m # ls)"

definition comment_line :: "string \<Rightarrow> bool" where
  "comment_line l = (take 2 (py_strip l) = ''--'')"

definition stripped :: "string \<Rightarrow> string" where
  "stripped sql = join_lines (filter (\<lambda>l. \<not> comment_line l) (splitlines sql))"

definition QUOTE :: char where "QUOTE = CHR 0x27"

definition statement_of :: "string \<Rightarrow> string list" where
  "statement_of buf = (if py_strip buf = [] then [] else [py_strip buf])"

text \<open>The loop over the characters; \<open>''\<close> inside a literal is consumed as one escaped quote.\<close>

fun split_from :: "string \<Rightarrow> bool \<Rightarrow> string \<Rightarrow> string list" where
  "split_from buf in_string [] = statement_of buf"
| "split_from buf in_string [c] =
     (if \<not> in_string \<and> c = CHR '';'' then statement_of buf @ split_from [] False []
      else split_from (buf @ [c]) (if c = QUOTE then \<not> in_string else in_string) [])"
| "split_from buf in_string (c # d # cs) =
     (if in_string then
        (if c = QUOTE then
           (if d = QUOTE then split_from (buf @ [QUOTE, QUOTE]) True cs else split_from (buf @ [c]) False (d # cs))
         else split_from (buf @ [c]) True (d # cs))
      else if c = QUOTE then split_from (buf @ [c]) True (d # cs)
      else if c = CHR '';'' then statement_of buf @ split_from [] False (d # cs)
      else split_from (buf @ [c]) False (d # cs))"

definition statements :: "string \<Rightarrow> string list" where
  "statements sql = split_from [] False (stripped sql)"

section \<open>References to tables\<close>

definition CATALOG :: string where "CATALOG = ''lake''"

text \<open>\<open>\w\<close> on ASCII, and \<open>\b\<close> before a word given the character before it.\<close>

definition word_char :: "char \<Rightarrow> bool" where
  "word_char c =
     (let n = (of_char c :: nat) in
      (48 \<le> n \<and> n \<le> 57) \<or> (65 \<le> n \<and> n \<le> 90) \<or> n = 95 \<or> (97 \<le> n \<and> n \<le> 122))"

lemma strip_prefix_length: "strip_prefix p s = Some rest \<Longrightarrow> length s = length p + length rest"
  by (induction p s rule: strip_prefix.induct) (auto split: if_splits)

text \<open>\<open>re.sub\<close> of one mapped namespace; \<open>after_word\<close> is whether the character before is a word character.\<close>

function sub_ref :: "string \<Rightarrow> string \<Rightarrow> bool \<Rightarrow> string \<Rightarrow> string" where
  "sub_ref old new after_word [] = []"
| "sub_ref old new after_word (c # cs) =
     (case (if after_word then None else strip_prefix (CATALOG @ ''.'' @ old @ ''.'') (c # cs)) of
        Some rest \<Rightarrow> CATALOG @ ''.'' @ new @ ''.'' @ sub_ref old new False rest
      | None \<Rightarrow> c # sub_ref old new (word_char c) cs)"
  by pat_completeness auto
termination
  by (relation "measure (\<lambda>(_, _, _, s). length s)") (auto dest: strip_prefix_length split: if_splits)

definition remap :: "string \<Rightarrow> (string \<times> string) list \<Rightarrow> string" where
  "remap sql mapping = foldl (\<lambda>s (old, new). sub_ref old new False s) sql mapping"

text \<open>The word and the rest after a namespace reference at the head of a text.\<close>

definition ref_at :: "string \<Rightarrow> (string \<times> string) option" where
  "ref_at s =
     (case strip_prefix (CATALOG @ ''.'') s of None \<Rightarrow> None
      | Some rest \<Rightarrow>
          (let w = takeWhile word_char rest in
           case dropWhile word_char rest of
             c # tail \<Rightarrow> if w \<noteq> [] \<and> c = CHR ''.'' then Some (w, tail) else None
           | [] \<Rightarrow> None))"

lemma ref_at_length: "ref_at s = Some (w, tail) \<Longrightarrow> length tail < length s"
proof -
  assume a: "ref_at s = Some (w, tail)"
  then obtain rest c where p: "strip_prefix (CATALOG @ ''.'') s = Some rest" and d: "dropWhile word_char rest = c # tail"
    by (auto simp: ref_at_def Let_def split: option.splits list.splits if_splits)
  have "length (c # tail) \<le> length rest" unfolding d [symmetric] by (rule length_dropWhile_le)
  then show ?thesis using strip_prefix_length [OF p] by simp
qed

function refs :: "bool \<Rightarrow> string \<Rightarrow> string list" where
  "refs after_word [] = []"
| "refs after_word (c # cs) =
     (case (if after_word then None else ref_at (c # cs)) of
        Some (w, rest) \<Rightarrow> w # refs False rest
      | None \<Rightarrow> refs (word_char c) cs)"
  by pat_completeness auto
termination
  by (relation "measure (\<lambda>(_, s). length s)") (auto dest: ref_at_length split: if_splits)

definition namespaces :: "string list \<Rightarrow> string list" where
  "namespaces stmts = rev (remdups (rev (refs False (join_lines stmts))))"

definition split_eq :: "string \<Rightarrow> (string \<times> string) option" where
  "split_eq pair = (case dropWhile (\<lambda>c. c \<noteq> CHR ''='') pair of [] \<Rightarrow> None | _ # v \<Rightarrow> Some (takeWhile (\<lambda>c. c \<noteq> CHR ''='') pair, v))"

definition parse_map :: "string \<Rightarrow> (string \<times> string) list res" where
  "parse_map s =
     (if s = [] then Inr []
      else res_bind (res_map (\<lambda>p. case split_eq p of None \<Rightarrow> Inl ValueError | Some kv \<Rightarrow> Inr kv) (split_comma s))
             (\<lambda>kvs. Inr (dict_update [] kvs)))"

text \<open>The search of \<open>table_statements\<close>: the two verbs, white space, a qualified name ending in the table's.\<close>

definition names_table :: "string \<Rightarrow> string \<Rightarrow> bool" where
  "names_table name rest =
     (rest \<noteq> [] \<and> py_space (hd rest) \<and>
      (case ref_at (dropWhile py_space rest) of None \<Rightarrow> False
       | Some (_, tail) \<Rightarrow>
           (case strip_prefix name tail of None \<Rightarrow> False
            | Some left \<Rightarrow> (name \<noteq> [] \<and> word_char (List.last name)) \<noteq> (left \<noteq> [] \<and> word_char (hd left)))))"

fun creates_table :: "string \<Rightarrow> string \<Rightarrow> bool" where
  "creates_table name [] = False"
| "creates_table name (c # cs) =
     (list_ex (\<lambda>verb. case strip_prefix verb (c # cs) of None \<Rightarrow> False | Some rest \<Rightarrow> names_table name rest)
        [''CREATE TABLE IF NOT EXISTS'', ''ALTER TABLE''] \<or> creates_table name cs)"

definition table_statements :: "string \<Rightarrow> string \<Rightarrow> string list" where
  "table_statements ddl name = filter (creates_table name) (statements ddl)"

section \<open>Running them\<close>

definition create_namespace :: "string \<Rightarrow> string" where
  "create_namespace ns = ''CREATE NAMESPACE IF NOT EXISTS '' @ CATALOG @ ''.'' @ ns"

fun run_all :: "(string \<Rightarrow> 's \<Rightarrow> 's \<times> unit res) \<Rightarrow> string list \<Rightarrow> 's \<Rightarrow> 's \<times> unit res" where
  "run_all sql [] s = (s, Inr ())"
| "run_all sql (q # qs) s = (case sql q s of (s', Inl e) \<Rightarrow> (s', Inl e) | (s', Inr _) \<Rightarrow> run_all sql qs s')"

definition apply_statements :: "(string \<Rightarrow> 's \<Rightarrow> 's \<times> unit res) \<Rightarrow> string list \<Rightarrow> 's \<Rightarrow> 's \<times> unit res" where
  "apply_statements sql stmts = run_all sql (map create_namespace (namespaces stmts) @ stmts)"

text \<open>\<open>main\<close>: exit status 0, or 1 when an exception escapes.\<close>

definition ddl_main :: "(string \<Rightarrow> 's \<Rightarrow> 's \<times> unit res) \<Rightarrow> string \<Rightarrow> string \<Rightarrow> bool \<Rightarrow> 's \<Rightarrow> 's \<times> int" where
  "ddl_main sql ddl namespace_map dry_run s =
     (case parse_map namespace_map of Inl e \<Rightarrow> (s, 1)
      | Inr mapping \<Rightarrow>
          (let stmts = statements (remap ddl mapping) in
           if dry_run then (s, 0)
           else (case apply_statements sql stmts s of (s', Inl e) \<Rightarrow> (s', 1) | (s', Inr _) \<Rightarrow> (s', 0))))"

section \<open>Splitting gives the statements back\<close>

text \<open>Every semicolon of \<open>s\<close> is inside a literal, and every literal is closed.\<close>

fun closed :: "bool \<Rightarrow> string \<Rightarrow> bool" where
  "closed q [] = (\<not> q)"
| "closed q (c # cs) = (if c = QUOTE then closed (\<not> q) cs else (q \<or> c \<noteq> CHR '';'') \<and> closed q cs)"

lemma split_from_closed:
  "closed q s \<Longrightarrow> split_from buf q (s @ CHR '';'' # rest) = statement_of (buf @ s) @ split_from [] False rest"
proof (induction s arbitrary: buf q rule: length_induct)
  case (1 s)
  show ?case
  proof (cases s)
    case Nil
    then show ?thesis using 1(2) by (cases rest) (simp_all add: QUOTE_def)
  next
    case (Cons c cs)
    show ?thesis
    proof (cases cs)
      case Nil
      then show ?thesis using 1(2) Cons by (cases rest) (auto simp: QUOTE_def split: if_splits)
    next
      case (Cons d ds)
      note s = \<open>s = c # cs\<close> Cons
      have IH: "closed q' (d # ds) \<Longrightarrow> split_from buf' q' (d # ds @ CHR '';'' # rest) = statement_of (buf' @ d # ds) @ split_from [] False rest" for q' buf'
        using 1(1) [THEN spec, of "d # ds"] s by (simp del: closed.simps)
      have IH': "closed q' ds \<Longrightarrow> split_from buf' q' (ds @ CHR '';'' # rest) = statement_of (buf' @ ds) @ split_from [] False rest" for q' buf'
        using 1(1) [THEN spec, of ds] s by simp
      show ?thesis using 1(2) s IH [of q "buf @ [c]"] IH [of "\<not> q" "buf @ [c]"] IH' [of True "buf @ [QUOTE, QUOTE]"]
        by (cases q) (auto split: if_splits)
    qed
  qed
qed

definition statement_ok :: "string \<Rightarrow> bool" where
  "statement_ok s = (s \<noteq> [] \<and> py_strip s = s \<and> closed False s \<and> list_all (\<lambda>c. line_end c \<longrightarrow> c = CHR 0x0A) s)"

lemma strip_newline: "py_strip (CHR 0x0A # s) = py_strip s"
  by (simp add: py_strip_def py_space_def)

lemma split_statements:
  "list_all statement_ok stmts \<Longrightarrow> split_from [] False (join_lines (map (\<lambda>s. s @ '';'') stmts)) = stmts"
proof (induction stmts rule: induct_list012)
  case 1
  then show ?case by (simp add: statement_of_def py_strip_def)
next
  case (2 s)
  then have "closed False s" "py_strip s = s" "s \<noteq> []" by (simp_all add: statement_ok_def)
  then show ?case using split_from_closed [of False s "[]" "[]"] by (simp add: statement_of_def py_strip_def)
next
  case (3 s t stmts)
  let ?tail = "join_lines (map (\<lambda>s. s @ '';'') (t # stmts))"
  have s: "closed False s" "py_strip s = s" "s \<noteq> []" and t: "closed False t" "py_strip t = t" "t \<noteq> []"
    using 3(3) by (simp_all add: statement_ok_def)
  have "closed False (CHR 0x0A # t)" using t(1) by (simp add: QUOTE_def)
  from split_from_closed [OF this, of "[]"] split_from_closed [OF t(1), of "[]"]
  have "split_from [] False (CHR 0x0A # t @ CHR '';'' # rest) = split_from [] False (t @ CHR '';'' # rest)" for rest
    by (simp add: statement_of_def strip_newline)
  moreover have "\<exists>rest. ?tail = t @ CHR '';'' # rest" by (cases stmts) auto
  ultimately have "split_from [] False (CHR 0x0A # ?tail) = split_from [] False ?tail" by auto
  then show ?case
    using split_from_closed [OF s(1), of "[]" "CHR 0x0A # ?tail"] 3 s by (simp add: statement_of_def)
qed

lemma splitlines_line: "list_all (\<lambda>c. \<not> line_end c) l \<Longrightarrow> splitlines (l @ CHR 0x0A # rest) = l # splitlines rest"
proof (induction l)
  case Nil
  then show ?case by (cases rest) (simp_all add: line_end_def)
next
  case (Cons c l)
  have c: "\<not> line_end c" "c \<noteq> CHR 0x0D" using Cons.prems by (auto simp: line_end_def)
  show ?case using Cons c by (cases l) auto
qed

lemma splitlines_lines: "list_all (list_all (\<lambda>c. \<not> line_end c)) ls \<Longrightarrow> splitlines (concat (map (\<lambda>l. l @ [CHR 0x0A]) ls)) = ls"
  by (induction ls) (simp_all add: splitlines_line)

lemma join_splitlines:
  "list_all (\<lambda>c. line_end c \<longrightarrow> c = CHR 0x0A) s \<Longrightarrow> s \<noteq> [] \<Longrightarrow> List.last s \<noteq> CHR 0x0A \<Longrightarrow>
   join_lines (splitlines s) = s \<and> splitlines s \<noteq> []"
proof (induction s rule: splitlines.induct)
  case (3 c d cs)
  have c: "\<not> (c = CHR 0x0D \<and> d = CHR 0x0A)" using 3(4) by (auto simp: line_end_def)
  show ?case
  proof (cases "line_end c")
    case True
    then have "c = CHR 0x0A" using 3(4) by simp
    moreover have "join_lines (splitlines (d # cs)) = d # cs \<and> splitlines (d # cs) \<noteq> []" using 3(2) [OF c True] 3(4-6) by simp
    ultimately show ?thesis using c True by (cases "splitlines (d # cs)") auto
  next
    case False
    have "join_lines (splitlines (d # cs)) = d # cs \<and> splitlines (d # cs) \<noteq> []" using 3(3) [OF c False] 3(4-6) by simp
    then show ?thesis using c False by (cases "splitlines (d # cs)"; cases "tl (splitlines (d # cs))") auto
  qed
qed (auto simp: line_end_def)

lemma join_lines_append: "xs \<noteq> [] \<Longrightarrow> ys \<noteq> [] \<Longrightarrow> join_lines (xs @ ys) = join_lines xs @ CHR 0x0A # join_lines ys"
  by (induction xs rule: join_lines.induct) (auto simp: neq_Nil_conv)

lemma join_concat:
  "\<forall>x \<in> set xs. f x \<noteq> [] \<and> join_lines (f x) = g x \<Longrightarrow> join_lines (concat (map f xs)) = join_lines (map g xs)"
  by (induction xs rule: induct_list012) (auto simp: join_lines_append)

section \<open>Remapping leaves no reference to the old namespace\<close>

lemma strip_prefix_iff: "strip_prefix p s = Some rest \<longleftrightarrow> s = p @ rest"
  by (induction p s rule: strip_prefix.induct) auto

definition name_ok :: "string \<Rightarrow> bool" where "name_ok w = (w \<noteq> [] \<and> list_all word_char w)"

lemma dot_not_word: "\<not> word_char (CHR ''.'')" by (simp add: word_char_def)

lemma word_span: "name_ok w \<Longrightarrow> takeWhile word_char (w @ CHR ''.'' # r) = w \<and> dropWhile word_char (w @ CHR ''.'' # r) = CHR ''.'' # r"
  by (simp add: name_ok_def list_all_iff takeWhile_append2 dropWhile_append2 dot_not_word)

lemma word_dot_inj: "name_ok w \<Longrightarrow> name_ok u \<Longrightarrow> w @ CHR ''.'' # r = u @ CHR ''.'' # r' \<longleftrightarrow> w = u \<and> r = r'"
  using word_span [of w r] word_span [of u r'] by (metis list.inject)

lemma ref_at_iff: "ref_at s = Some (w, r) \<longleftrightarrow> name_ok w \<and> s = CATALOG @ ''.'' @ w @ CHR ''.'' # r"
proof
  assume "ref_at s = Some (w, r)"
  then obtain rest where s: "s = CATALOG @ ''.'' @ rest" and w: "w = takeWhile word_char rest" "w \<noteq> []"
    and d: "dropWhile word_char rest = CHR ''.'' # r"
    by (auto simp: ref_at_def strip_prefix_iff Let_def split: option.splits list.splits if_splits)
  have "rest = w @ CHR ''.'' # r" using takeWhile_dropWhile_id [of word_char rest] w d by simp
  then show "name_ok w \<and> s = CATALOG @ ''.'' @ w @ CHR ''.'' # r"
    using s w by (auto simp: name_ok_def list_all_iff dest: set_takeWhileD)
next
  assume a: "name_ok w \<and> s = CATALOG @ ''.'' @ w @ CHR ''.'' # r"
  then have "strip_prefix (CATALOG @ ''.'') s = Some (w @ CHR ''.'' # r)" by (simp add: strip_prefix_iff)
  then show "ref_at s = Some (w, r)" using a word_span [of w r] by (simp add: ref_at_def name_ok_def)
qed

definition ref_of :: "string \<Rightarrow> string \<Rightarrow> string" where
  "ref_of ns r = CATALOG @ ''.'' @ ns @ CHR ''.'' # r"

lemma sub_ref_hit: "sub_ref old new False (ref_of old r) = ref_of new (sub_ref old new False r)"
proof -
  have "strip_prefix (CATALOG @ ''.'' @ old @ ''.'') (ref_of old r) = Some r" by (simp add: strip_prefix_iff ref_of_def)
  moreover obtain c cs where "ref_of old r = c # cs" by (simp add: ref_of_def CATALOG_def)
  ultimately show ?thesis by (simp add: ref_of_def)
qed

lemma sub_ref_miss: "p \<or> (\<forall>r. c # cs \<noteq> ref_of old r) \<Longrightarrow> sub_ref old new p (c # cs) = c # sub_ref old new (word_char c) cs"
proof -
  assume a: "p \<or> (\<forall>r. c # cs \<noteq> ref_of old r)"
  have "(if p then None else strip_prefix (CATALOG @ ''.'' @ old @ ''.'') (c # cs)) = None"
  proof (cases p)
    case False
    then have "\<nexists>r. strip_prefix (CATALOG @ ''.'' @ old @ ''.'') (c # cs) = Some r" using a by (simp add: strip_prefix_iff ref_of_def)
    then show ?thesis using False by (cases "strip_prefix (CATALOG @ ''.'' @ old @ ''.'') (c # cs)") auto
  qed simp
  then show ?thesis by (simp only: sub_ref.simps option.case)
qed

lemma sub_ref_word:
  "name_ok w \<Longrightarrow> p \<or> (\<forall>r'. w @ CHR ''.'' # r \<noteq> ref_of old r') \<Longrightarrow> sub_ref old new p (w @ CHR ''.'' # r) = w @ CHR ''.'' # sub_ref old new False r"
proof (induction w arbitrary: p)
  case (Cons c w)
  have c: "word_char c" using Cons.prems(1) by (simp add: name_ok_def)
  have dot: "sub_ref old new True (CHR ''.'' # r) = CHR ''.'' # sub_ref old new False r"
    using sub_ref_miss [of True "CHR ''.''" r] by (simp only: dot_not_word simp_thms)
  have "sub_ref old new True (w @ CHR ''.'' # r) = w @ CHR ''.'' # sub_ref old new False r"
    using Cons.IH [of True] Cons.prems(1) dot by (cases "w = []") (simp_all add: name_ok_def)
  then show ?case using sub_ref_miss [of p c "w @ CHR ''.'' # r" old new] Cons.prems(2) c by (simp only: append_Cons simp_thms)
qed (simp add: name_ok_def)

lemma refs_hit: "name_ok w \<Longrightarrow> refs False (ref_of w r) = w # refs False r"
proof -
  assume "name_ok w"
  then have "ref_at (ref_of w r) = Some (w, r)" by (simp add: ref_at_iff ref_of_def)
  moreover obtain c cs where "ref_of w r = c # cs" by (simp add: ref_of_def CATALOG_def)
  ultimately show ?thesis by simp
qed

lemma refs_miss: "p \<or> (\<forall>w r. name_ok w \<longrightarrow> c # cs \<noteq> ref_of w r) \<Longrightarrow> refs p (c # cs) = refs (word_char c) cs"
proof -
  assume a: "p \<or> (\<forall>w r. name_ok w \<longrightarrow> c # cs \<noteq> ref_of w r)"
  have "(if p then None else ref_at (c # cs)) = None"
  proof (cases p)
    case False
    then have "\<nexists>wr. ref_at (c # cs) = Some wr" using a by (auto simp: ref_at_iff ref_of_def)
    then show ?thesis using False by (cases "ref_at (c # cs)") auto
  qed simp
  then show ?thesis by (simp only: refs.simps option.case)
qed

lemma catalog_ok: "name_ok CATALOG" by (simp add: name_ok_def CATALOG_def word_char_def)

lemma refs_word: "name_ok w \<Longrightarrow> p \<or> w \<noteq> CATALOG \<Longrightarrow> refs p (w @ CHR ''.'' # r) = refs False r"
proof (induction w arbitrary: p)
  case (Cons c w)
  have c: "word_char c" using Cons.prems(1) by (simp add: name_ok_def)
  have dot: "refs True (CHR ''.'' # r) = refs False r"
    using refs_miss [of True "CHR ''.''" r] by (simp only: dot_not_word simp_thms)
  have head: "c # w @ CHR ''.'' # r \<noteq> ref_of u r'" if "c # w \<noteq> CATALOG" for u r'
    using that word_dot_inj [OF Cons.prems(1) catalog_ok, of r "u @ CHR ''.'' # r'"] by (auto simp: ref_of_def)
  have "refs True (w @ CHR ''.'' # r) = refs False r"
    using Cons.IH [of True] Cons.prems(1) dot by (cases "w = []") (simp_all add: name_ok_def)
  then show ?case using refs_miss [of p c "w @ CHR ''.'' # r"] Cons.prems(2) head c by (metis append_Cons)
qed (simp add: name_ok_def)

text \<open>The word at the head of a substituted text was there before, unless a reference was replaced at the head.\<close>

lemma sub_ref_head_word:
  assumes "sub_ref old new p s = w @ CHR ''.'' # r" and "name_ok w" and "p \<or> (\<forall>r'. s \<noteq> ref_of old r')"
  shows "\<exists>r0. s = w @ CHR ''.'' # r0 \<and> r = sub_ref old new False r0"
  using assms
proof (induction w arbitrary: p s)
  case (Cons c w)
  obtain cs where s: "s = c # cs" and rest: "sub_ref old new (word_char c) cs = w @ CHR ''.'' # r"
    using Cons.prems(1) sub_ref_miss [of p "hd s" "tl s" old new] Cons.prems(3) by (cases s) auto
  have c: "word_char c" using Cons.prems(2) by (simp add: name_ok_def)
  show ?case
  proof (cases "w = []")
    case True
    obtain d ds where cs: "cs = d # ds" using rest c True by (cases cs) auto
    have "d = CHR ''.''" "r = sub_ref old new False ds"
      using rest c True cs sub_ref_miss [of True d ds old new] dot_not_word by auto
    then show ?thesis using s cs True by simp
  next
    case False
    then have "name_ok w" using Cons.prems(2) by (simp add: name_ok_def)
    from Cons.IH [of True cs] this rest c show ?thesis using s by auto
  qed
qed (simp add: name_ok_def)

lemma refs_sub_ref:
  assumes "name_ok old" and "name_ok new" and "new \<noteq> CATALOG"
  shows "set (refs p (sub_ref old new p s)) \<subseteq> insert new (set (refs p s) - {old})"
proof (induction s arbitrary: p rule: length_induct)
  case (1 s)
  note IH = 1 [rule_format]
  show ?case
  proof (cases "\<exists>w r. \<not> p \<and> name_ok w \<and> s = ref_of w r")
    case True
    then obtain w r where p: "\<not> p" and w: "name_ok w" and s: "s = ref_of w r" by blast
    have shorter: "length r < length s" by (simp add: s ref_of_def)
    show ?thesis
    proof (cases "w = old")
      case True
      then show ?thesis using IH [OF shorter, of False] p s refs_hit [OF assms(2)] refs_hit [OF w]
        by (auto simp: sub_ref_hit)
    next
      case False
      have miss: "s \<noteq> ref_of old r'" for r' using False word_dot_inj [OF w assms(1)] s by (simp add: ref_of_def)
      have pass: "sub_ref old new False s = CATALOG @ CHR ''.'' # sub_ref old new False (w @ CHR ''.'' # r)"
        using sub_ref_word [OF catalog_ok, of False "w @ CHR ''.'' # r" old new] miss s by (simp add: ref_of_def)
      show ?thesis
      proof (cases "\<exists>r'. w @ CHR ''.'' # r = ref_of old r'")
        case True
        then obtain r' where r': "w @ CHR ''.'' # r = CATALOG @ CHR ''.'' # old @ CHR ''.'' # r'" by (auto simp: ref_of_def)
        then have w': "w = CATALOG" "r = old @ CHR ''.'' # r'" using word_dot_inj [OF w catalog_ok] by auto
        have "refs False s = CATALOG # refs False r'"
          using refs_hit [OF w, of r] refs_word [OF assms(1), of False r'] w' False s by simp
        moreover have "refs False (sub_ref old new False s) = CATALOG # refs False (sub_ref old new False r')"
          using pass True r' sub_ref_hit [of old new r'] refs_hit [OF catalog_ok] refs_word [OF assms(2), of False] assms(3)
          by (simp add: ref_of_def)
        moreover have "length r' < length s" using shorter w'(2) by simp
        ultimately show ?thesis using IH [of r' False] p False w'(1) by auto
      next
        case False': False
        then have "sub_ref old new False s = ref_of w (sub_ref old new False r)"
          using pass sub_ref_word [OF w, of False r old new] by (auto simp: ref_of_def)
        then show ?thesis using IH [OF shorter, of False] p s refs_hit [OF w] False by auto
      qed
    qed
  next
    case False
    show ?thesis
    proof (cases s)
      case Nil
      then show ?thesis by simp
    next
      case (Cons c cs)
      have orig: "refs p s = refs (word_char c) cs" using refs_miss [of p c cs] False Cons by auto
      have miss: "p \<or> (\<forall>r. s \<noteq> ref_of old r)" using False assms(1) by auto
      then have sub: "sub_ref old new p s = c # sub_ref old new (word_char c) cs" using sub_ref_miss [of p c cs old new] Cons by simp
      have "sub_ref old new p s \<noteq> ref_of w r" if np: "\<not> p" and w: "name_ok w" for w r
      proof
        assume eq: "sub_ref old new p s = ref_of w r"
        from sub_ref_head_word [OF _ catalog_ok miss, of new "w @ CHR ''.'' # r"] eq
        obtain r0 where r0: "s = CATALOG @ CHR ''.'' # r0" "w @ CHR ''.'' # r = sub_ref old new False r0" by (auto simp: ref_of_def)
        have "\<exists>u r1. name_ok u \<and> r0 = u @ CHR ''.'' # r1"
        proof (cases "\<exists>r'. r0 = ref_of old r'")
          case True
          then show ?thesis using catalog_ok by (auto simp: ref_of_def)
        next
          case False
          then show ?thesis using sub_ref_head_word [OF r0(2) [symmetric] w] w by blast
        qed
        then show False using r0(1) np \<open>\<not> (\<exists>w r. \<not> p \<and> name_ok w \<and> s = ref_of w r)\<close> by (auto simp: ref_of_def)
      qed
      then have "refs p (sub_ref old new p s) = refs (word_char c) (sub_ref old new (word_char c) cs)"
        using sub refs_miss [of p c "sub_ref old new (word_char c) cs"] by metis
      then show ?thesis using IH [of cs "word_char c"] orig Cons by simp
    qed
  qed
qed

lemma remap_refs:
  "list_all (\<lambda>(old, new). name_ok old \<and> name_ok new \<and> new \<noteq> CATALOG) mapping \<Longrightarrow> K \<inter> snd ` set mapping = {} \<Longrightarrow>
   set (refs False (remap sql mapping)) \<inter> K \<subseteq> (set (refs False sql) \<inter> K) - fst ` set mapping"
proof (induction mapping arbitrary: sql)
  case (Cons m mapping)
  obtain old new where m: "m = (old, new)" by (rule prod.exhaust)
  have "set (refs False (sub_ref old new False sql)) \<inter> K \<subseteq> (set (refs False sql) \<inter> K) - {old}"
    using refs_sub_ref [of old new False sql] Cons.prems m by auto
  moreover have "set (refs False (remap (sub_ref old new False sql) mapping)) \<inter> K \<subseteq>
      (set (refs False (sub_ref old new False sql)) \<inter> K) - fst ` set mapping"
    using Cons.IH [of "sub_ref old new False sql"] Cons.prems m by auto
  ultimately show ?case using m by (auto simp: remap_def)
qed (simp add: remap_def)

text \<open>
  C26. The statements of a DDL file are what its author wrote: when the lines that are not comments are, in order,
  the lines of statements that each end in a semicolon, close their literals and have no other semicolon outside
  them, splitting gives exactly these statements, whatever the comments say and however many semicolons,
  doubled quotes and line breaks the literals hold.
\<close>
theorem statements_written:
  assumes "list_all (list_all (\<lambda>c. \<not> line_end c)) ls" and "list_all statement_ok stmts"
    and "filter (\<lambda>l. \<not> comment_line l) ls = concat (map (\<lambda>s. splitlines (s @ '';'')) stmts)"
  shows "statements (concat (map (\<lambda>l. l @ [CHR 0x0A]) ls)) = stmts"
proof -
  have "\<forall>s \<in> set stmts. splitlines (s @ '';'') \<noteq> [] \<and> join_lines (splitlines (s @ '';'')) = s @ '';''"
  proof
    fix s assume "s \<in> set stmts"
    then have "list_all (\<lambda>c. line_end c \<longrightarrow> c = CHR 0x0A) (s @ '';'')"
      using assms(2) by (auto simp: list_all_iff statement_ok_def line_end_def)
    from join_splitlines [OF this] show "splitlines (s @ '';'') \<noteq> [] \<and> join_lines (splitlines (s @ '';'')) = s @ '';''" by simp
  qed
  from join_concat [OF this] have "stripped (concat (map (\<lambda>l. l @ [CHR 0x0A]) ls)) = join_lines (map (\<lambda>s. s @ '';'') stmts)"
    by (simp add: stripped_def splitlines_lines [OF assms(1)] assms(3))
  then show ?thesis using split_statements [OF assms(2)] by (simp add: statements_def)
qed

theorem statements_written_witness:
  "statements (concat (map (\<lambda>l. l @ [CHR 0x0A]) [''-- a; b'', ''X '' @ [QUOTE] @ ''Y;'', ''Z'' @ [QUOTE, QUOTE, QUOTE] @ '';'', ''W;'']))
   = [''X '' @ [QUOTE] @ ''Y;'' @ CHR 0x0A # ''Z'' @ [QUOTE, QUOTE, QUOTE], ''W'']"
  by (rule statements_written)
    (simp_all add: line_end_def QUOTE_def statement_ok_def py_strip_def py_space_def comment_line_def)

text \<open>
  A scratch run does not touch the real tables: after the DDL is remapped to namespaces that are fresh (not
  themselves mapped, and not named as the catalog is), no reference to a mapped namespace is left in it, whatever
  the text around the references.
\<close>
theorem remap_isolates:
  assumes "list_all (\<lambda>(old, new). name_ok old \<and> name_ok new \<and> new \<noteq> CATALOG \<and> new \<notin> fst ` set mapping) mapping"
  shows "set (refs False (remap sql mapping)) \<inter> fst ` set mapping = {}"
proof -
  have "list_all (\<lambda>(old, new). name_ok old \<and> name_ok new \<and> new \<noteq> CATALOG) mapping" "fst ` set mapping \<inter> snd ` set mapping = {}"
    using assms by (fastforce simp: list_all_iff image_iff)+
  from remap_refs [OF this, of sql] show ?thesis by blast
qed

theorem remap_isolates_witness:
  "set (refs False (remap ''CREATE TABLE lake.raw.t LIKE lake.raw.u'' [(''raw'', ''s'')])) \<inter> {''raw''} = {}"
  using remap_isolates [of "[(''raw'', ''s'')]" "''CREATE TABLE lake.raw.t LIKE lake.raw.u''"]
  by (simp add: name_ok_def word_char_def CATALOG_def)

end
