(* ===== verification/Rebuild.thy ===== *)
theory Rebuild
  imports Maintenance Slices Ddl
begin

text \<open>
  \<open>docker/lake/rebuild.py\<close>: drop the tables of a layer, create them again from the DDL and derive them from the
  parent. The catalog is a state: which tables exist, and the warehouse of Audits, whose tables are empty once
  dropped. What a single call of it does (\<open>REFRESH\<close> raises, \<open>DROP\<close> raises with or without having dropped, a DDL
  statement raises) is the environment's, by table or statement and attempt.
\<close>

section \<open>The catalog\<close>

record 'j store =
  rb_exists :: "string \<Rightarrow> bool"
  rb_lake :: "'j warehouse"

datatype drop_answer = DropReturns | DropRaises bool

record 'j rebuild_env =
  re_refresh_raises :: "string \<Rightarrow> nat \<Rightarrow> bool"
  re_drop :: "string \<Rightarrow> nat \<Rightarrow> drop_answer"
  re_ddl :: string
  re_ddl_raises :: "nat \<Rightarrow> string \<Rightarrow> bool"
  re_bronze :: "'j bronze_env"
  re_bronze_commits :: "(int \<times> int) list"
  re_trade :: "'j \<Rightarrow> trade_cols"
  re_book :: "'j \<Rightarrow> book_cols"
  re_silver :: silver_env
  re_silver_commits :: "(int \<times> int) list"
  re_gold :: gold_env
  re_books :: books_env
  re_now :: int

text \<open>A dropped table is empty when it is created again; \<open>gold\<close>'s candles and the book state are kept as lists.\<close>

definition clear_table :: "string \<Rightarrow> 'j warehouse \<Rightarrow> 'j warehouse" where
  "clear_table t w =
     w\<lparr>wh_bronze := (\<lambda>nm. if t = lake_table (''bronze.'' @ nm) then empty_table else wh_bronze w nm),
       wh_silver := (\<lambda>v. if t = silver_name v then empty_table else wh_silver w v),
       wh_gold := (wh_gold w)
         \<lparr>gd_trades := if t = GOLD_TRADES then empty_table else gd_trades (wh_gold w),
          gd_ohlcv := (\<lambda>tf. if t = ohlcv_name tf then [] else gd_ohlcv (wh_gold w) tf),
          gd_bars := if t = GOLD_BARS then [] else gd_bars (wh_gold w)\<rparr>,
       wh_books := (wh_books w)
         \<lparr>bk_silver := (\<lambda>v. if t = book_name v then empty_table else bk_silver (wh_books w) v),
          bk_gold := if t = GOLD_BOOK then empty_table else bk_gold (wh_books w),
          bk_bbo := if t = GOLD_BBO then [] else bk_bbo (wh_books w),
          bk_state := if t = lake_table ''gold.book_state'' then [] else bk_state (wh_books w)\<rparr>\<rparr>"

definition remove_table :: "string \<Rightarrow> 'j store \<Rightarrow> 'j store" where
  "remove_table t st = \<lparr>rb_exists = (rb_exists st)(t := False), rb_lake = clear_table t (rb_lake st)\<rparr>"

section \<open>Drop and recreate\<close>

text \<open>One attempt: whether the calls raised, and the catalog they leave.\<close>

definition drop_attempt :: "'j rebuild_env \<Rightarrow> string \<Rightarrow> nat \<Rightarrow> 'j store \<Rightarrow> 'j store \<times> bool" where
  "drop_attempt env t k st =
     (if rb_exists st t \<and> re_refresh_raises env t k then (st, True)
      else (case re_drop env t k of
              DropReturns \<Rightarrow> (remove_table t st, False)
            | DropRaises removed \<Rightarrow> (if removed then remove_table t st else st, True)))"

fun drop_from :: "'j rebuild_env \<Rightarrow> string \<Rightarrow> nat \<Rightarrow> nat \<Rightarrow> 'j store \<Rightarrow> 'j store \<times> unit res" where
  "drop_from env t attempts 0 st = (st, Inr ())"
| "drop_from env t attempts (Suc n) st =
     (case drop_attempt env t (attempts - n) st of
        (st', False) \<Rightarrow> (st', Inr ())
      | (st', True) \<Rightarrow>
          if \<not> rb_exists st' t then (st', Inr ())
          else if n = 0 then (st', Inl OSError) else drop_from env t attempts n st')"

definition drop_table :: "'j rebuild_env \<Rightarrow> string \<Rightarrow> 'j store \<Rightarrow> 'j store \<times> unit res" where
  "drop_table env t = drop_from env t 10 10"

text \<open>A \<open>CREATE TABLE\<close> that does not raise leaves its table there; the other statements change no table's existence.\<close>

definition created :: "string \<Rightarrow> string option" where
  "created stmt =
     map_option (\<lambda>rest. takeWhile (\<lambda>c. word_char c \<or> c = CHR ''.'') (dropWhile py_space rest))
       (strip_prefix ''CREATE TABLE IF NOT EXISTS'' stmt)"

definition run_ddl :: "'j rebuild_env \<Rightarrow> nat \<Rightarrow> string \<Rightarrow> 'j store \<Rightarrow> 'j store \<times> unit res" where
  "run_ddl env k stmt st =
     (if re_ddl_raises env k stmt then (st, Inl OSError)
      else (case created stmt of None \<Rightarrow> (st, Inr ()) | Some t \<Rightarrow> (st\<lparr>rb_exists := (rb_exists st)(t := True)\<rparr>, Inr ())))"

fun recreate_from :: "'j rebuild_env \<Rightarrow> string \<Rightarrow> nat \<Rightarrow> nat \<Rightarrow> 'j store \<Rightarrow> 'j store \<times> unit res" where
  "recreate_from env name attempts 0 st = (st, Inr ())"
| "recreate_from env name attempts (Suc n) st =
     (case apply_statements (run_ddl env (attempts - n)) (table_statements (re_ddl env) name) st of
        (st', Inr _) \<Rightarrow> (st', Inr ())
      | (st', Inl e) \<Rightarrow> if n = 0 then (st', Inl e) else recreate_from env name attempts n st')"

definition recreate :: "'j rebuild_env \<Rightarrow> string \<Rightarrow> 'j store \<Rightarrow> 'j store \<times> unit res" where
  "recreate env name = recreate_from env name 10 10"

section \<open>main\<close>

datatype layer = LBronze | LSilver | LGold | LBooks | LBars

record rebuild_args =
  ra_layer :: layer
  ra_exchange :: "string option"
  ra_dry_run :: bool

definition rebuild_exchanges :: "rebuild_args \<Rightarrow> string list" where
  "rebuild_exchanges args = (case ra_exchange args of Some ex \<Rightarrow> [ex] | None \<Rightarrow> bronze_exchanges)"

definition rebuild_tables :: "rebuild_args \<Rightarrow> string list" where
  "rebuild_tables args =
     (let exs = set (rebuild_exchanges args) in
      case ra_layer args of
        LBronze \<Rightarrow> map bronze_name (filter (\<lambda>t. vt_exchange t \<in> exs) VENUE_TABLES)
      | LSilver \<Rightarrow> map silver_name (filter (\<lambda>v. exchange_name v \<in> exs) TRADES)
      | LBooks \<Rightarrow> map book_name (filter (\<lambda>v. exchange_name v \<in> exs) BOOKS) @ [GOLD_BOOK, GOLD_BBO, lake_table ''gold.book_state'']
      | LBars \<Rightarrow> [GOLD_BARS]
      | LGold \<Rightarrow> filter (\<lambda>t. t \<notin> set [lake_table ''gold.dim_instrument'', lake_table ''gold.dim_venue'']) gold_tables)"

definition bare_name :: "string \<Rightarrow> string" where
  "bare_name t = rev (takeWhile (\<lambda>c. c \<noteq> CHR ''.'') (rev t))"

fun each_table :: "(string \<Rightarrow> 'j store \<Rightarrow> 'j store \<times> unit res) \<Rightarrow> string list \<Rightarrow> 'j store \<Rightarrow> 'j store \<times> unit res" where
  "each_table f [] st = (st, Inr ())"
| "each_table f (t # ts) st = (case f t st of (st', Inl e) \<Rightarrow> (st', Inl e) | (st', Inr _) \<Rightarrow> each_table f ts st')"

definition replace_tables :: "'j rebuild_env \<Rightarrow> string list \<Rightarrow> 'j store \<Rightarrow> 'j store \<times> unit res" where
  "replace_tables env tables st =
     (case each_table (drop_table env) tables st of (st', Inl e) \<Rightarrow> (st', Inl e)
      | (st', Inr _) \<Rightarrow> each_table (\<lambda>t. recreate env (bare_name t)) tables st')"

definition view_table :: "('j \<Rightarrow> 'c) \<Rightarrow> 'j bronze_row table \<Rightarrow> 'c bronze_row table" where
  "view_table f t = \<lparr>snaps = map (\<lambda>s. \<lparr>snap_id = snap_id s, committed_at = committed_at s, summ = summ s, added = map (view_row f) (added s)\<rparr>) (snaps t),
     main_ref = main_ref t\<rparr>"

text \<open>The derivation of a layer from its parent, once its tables are empty: the lake it leaves, and an exception.\<close>

definition derive_bronze :: "'j rebuild_env \<Rightarrow> int \<Rightarrow> int list \<Rightarrow> string list \<Rightarrow> 'j warehouse \<Rightarrow> 'j warehouse \<times> unit res" where
  "derive_bronze env pinned days exs w =
     (case bronze_rebuild (re_bronze env) (wh_raw w) pinned (re_now env) days exs
             \<lparr>b_tables = wh_bronze w, b_checks = wh_checks w, b_commits = re_bronze_commits env, b_audit_commits = re_bronze_commits env\<rparr> of
        (b, r) \<Rightarrow> (w\<lparr>wh_bronze := b_tables b, wh_checks := b_checks b\<rparr>, res_bind r (\<lambda>_. Inr ())))"

definition derive_silver :: "'j rebuild_env \<Rightarrow> string list \<Rightarrow> 'j warehouse \<Rightarrow> 'j warehouse \<times> unit res" where
  "derive_silver env exs w =
     (case silver_rebuild (re_silver env) (\<lambda>v. view_table (re_trade env) (wh_bronze w (trade_source v))) (re_now env) exs TRADES
             (re_silver_commits env, wh_silver w) of
        (s, r) \<Rightarrow> (w\<lparr>wh_silver := snd s\<rparr>, res_bind r (\<lambda>_. Inr ())))"

definition derive_gold :: "'j rebuild_env \<Rightarrow> 'j warehouse \<Rightarrow> 'j warehouse \<times> unit res" where
  "derive_gold env w =
     (case gold_rebuild ((re_gold env)\<lparr>ge_silver := wh_silver w\<rparr>) (re_now env) (wh_gold w) of
        (g, r) \<Rightarrow> (w\<lparr>wh_gold := g\<rparr>, res_bind r (\<lambda>_. Inr ())))"

definition derive_bars :: "'j rebuild_env \<Rightarrow> 'j warehouse \<Rightarrow> 'j warehouse \<times> unit res" where
  "derive_bars env w =
     (case rebuild_bars (re_gold env) (re_now env) (wh_gold w) of (g, r) \<Rightarrow> (w\<lparr>wh_gold := g\<rparr>, res_bind r (\<lambda>_. Inr ())))"

definition books_over :: "'j rebuild_env \<Rightarrow> 'j warehouse \<Rightarrow> books_env" where
  "books_over env w = (re_books env)\<lparr>be_bronze := \<lambda>v. view_table (re_book env) (wh_bronze w (book_source v))\<rparr>"

definition derive_books :: "'j rebuild_env \<Rightarrow> string list \<Rightarrow> 'j warehouse \<Rightarrow> 'j warehouse \<times> unit res" where
  "derive_books env exs w =
     (case books_rebuild (books_over env w) (re_now env) exs (wh_books w) of
        (b, r) \<Rightarrow> (w\<lparr>wh_books := b\<rparr>, res_bind r (\<lambda>_. Inr ())))"

definition replace_and :: "'j rebuild_env \<Rightarrow> string list \<Rightarrow> ('j warehouse \<Rightarrow> 'j warehouse \<times> unit res) \<Rightarrow> 'j store \<Rightarrow> 'j store \<times> int" where
  "replace_and env tables derive st =
     (case replace_tables env tables st of (st', Inl e) \<Rightarrow> (st', 1)
      | (st', Inr _) \<Rightarrow>
          (case derive (rb_lake st') of (w, r) \<Rightarrow> (st'\<lparr>rb_lake := w\<rparr>, case r of Inl e \<Rightarrow> 1 | Inr _ \<Rightarrow> 0)))"

definition rebuild_main :: "'j rebuild_env \<Rightarrow> rebuild_args \<Rightarrow> 'j store \<Rightarrow> 'j store \<times> int" where
  "rebuild_main env args st =
     (let exs = rebuild_exchanges args; tables = rebuild_tables args in
      if ra_dry_run args then (st, 0)
      else (case ra_layer args of
        LBooks \<Rightarrow> replace_and env tables (derive_books env exs) st
      | LBars \<Rightarrow> replace_and env tables (derive_bars env) st
      | LGold \<Rightarrow> replace_and env tables (derive_gold env) st
      | LSilver \<Rightarrow> replace_and env tables (derive_silver env exs) st
      | LBronze \<Rightarrow>
          (case current_snapshot_id (wh_raw (rb_lake st)) of None \<Rightarrow> (st, 0)
           | Some pinned \<Rightarrow>
               (let days = archive_days (rows_at (wh_raw (rb_lake st)) pinned) exs in
                if days = [] then (st, 0) else replace_and env tables (derive_bronze env pinned days exs) st))))"

section \<open>What drop and recreate come to\<close>

lemma drop_attempt_exists: "drop_attempt env t k st = (st', raised) \<Longrightarrow> \<not> raised \<Longrightarrow> \<not> rb_exists st' t"
  by (auto simp: drop_attempt_def remove_table_def split: if_splits drop_answer.splits)

lemma drop_attempt_frame:
  "drop_attempt env t k st = (st', raised) \<Longrightarrow> st' = st \<or> st' = remove_table t st"
  by (auto simp: drop_attempt_def split: if_splits drop_answer.splits)

text \<open>A drop that returns has removed the table; one that raises has left it as it was.\<close>

lemma drop_from_cases:
  assumes "drop_from env t attempts n st = (st', r)" and "rb_exists st t" and "0 < n"
  shows "(r = Inr () \<and> st' = remove_table t st) \<or> (r = Inl OSError \<and> st' = st)"
  using assms
proof (induction n arbitrary: st)
  case (Suc n)
  obtain s1 raised where a: "drop_attempt env t (attempts - n) st = (s1, raised)" by (rule prod.exhaust)
  have gone: "s1 = remove_table t st" if "\<not> rb_exists s1 t"
    using drop_attempt_frame [OF a] that Suc.prems(2) by auto
  have kept: "s1 = st" if "rb_exists s1 t"
    using drop_attempt_frame [OF a] that by (auto simp: remove_table_def)
  show ?case
    using Suc.prems a gone kept Suc.IH [of st] drop_attempt_exists [OF a]
    by (cases raised; cases "rb_exists s1 t"; cases "n = 0") auto
qed simp

lemma each_drop:
  assumes "each_table (drop_table env) ts st = (st', Inr ())" and "distinct ts" and "\<forall>t \<in> set ts. rb_exists st t"
  shows "rb_lake st' = fold clear_table ts (rb_lake st) \<and> rb_exists st' = (\<lambda>t. rb_exists st t \<and> t \<notin> set ts)"
  using assms
proof (induction ts arbitrary: st)
  case (Cons t ts)
  obtain s1 where one: "drop_table env t st = (s1, Inr ())" and rest: "each_table (drop_table env) ts s1 = (st', Inr ())"
    using Cons.prems(1) by (auto split: prod.splits sum.splits)
  have s1: "s1 = remove_table t st"
    using drop_from_cases [OF one [unfolded drop_table_def]] Cons.prems(3) by auto
  have "rb_lake st' = fold clear_table ts (rb_lake s1) \<and> rb_exists st' = (\<lambda>u. rb_exists s1 u \<and> u \<notin> set ts)"
    by (rule Cons.IH [OF rest]) (use Cons.prems(2,3) s1 in \<open>auto simp: remove_table_def\<close>)
  then show ?case by (auto simp: s1 remove_table_def)
qed simp

lemma run_all_ddl:
  "run_all (run_ddl env k) qs st = (st', r) \<Longrightarrow>
   rb_lake st' = rb_lake st \<and> (\<forall>t. rb_exists st t \<longrightarrow> rb_exists st' t) \<and>
   (r = Inr () \<longrightarrow> (\<forall>q \<in> set qs. \<forall>t. created q = Some t \<longrightarrow> rb_exists st' t))"
proof (induction qs arbitrary: st)
  case (Cons q qs)
  obtain s1 r1 where one: "run_ddl env k q st = (s1, r1)" by (rule prod.exhaust)
  have s1: "rb_lake s1 = rb_lake st" "\<forall>t. rb_exists st t \<longrightarrow> rb_exists s1 t" "r1 = Inr () \<longrightarrow> (\<forall>t. created q = Some t \<longrightarrow> rb_exists s1 t)"
    using one by (auto simp: run_ddl_def split: if_splits option.splits)
  show ?case
  proof (cases r1)
    case (Inl e)
    then show ?thesis using Cons.prems one s1 by auto
  next
    case (Inr u)
    then have "run_all (run_ddl env k) qs s1 = (st', r)" using Cons.prems one by simp
    from Cons.IH [OF this] s1 Inr show ?thesis by auto
  qed
qed simp

lemma recreate_from_ddl:
  "recreate_from env name attempts n st = (st', r) \<Longrightarrow> 0 < n \<Longrightarrow>
   rb_lake st' = rb_lake st \<and> (\<forall>t. rb_exists st t \<longrightarrow> rb_exists st' t) \<and>
   (r = Inr () \<longrightarrow> (\<forall>q \<in> set (table_statements (re_ddl env) name). \<forall>t. created q = Some t \<longrightarrow> rb_exists st' t))"
proof (induction n arbitrary: st)
  case (Suc n)
  obtain s1 r1 where one: "apply_statements (run_ddl env (attempts - n)) (table_statements (re_ddl env) name) st = (s1, r1)"
    by (rule prod.exhaust)
  note ran = run_all_ddl [OF one [unfolded apply_statements_def]]
  show ?case
  proof (cases r1)
    case (Inl e)
    show ?thesis
    proof (cases "n = 0")
      case False
      then have "recreate_from env name attempts n s1 = (st', r)" using Suc.prems(1) one Inl by simp
      from Suc.IH [OF this] False ran show ?thesis by auto
    qed (use Suc.prems(1) one Inl ran in auto)
  next
    case (Inr u)
    then show ?thesis using Suc.prems(1) one ran by auto
  qed
qed simp

lemma each_recreate:
  "each_table (\<lambda>t. recreate env (bare_name t)) ts st = (st', r) \<Longrightarrow>
   rb_lake st' = rb_lake st \<and> (\<forall>t. rb_exists st t \<longrightarrow> rb_exists st' t) \<and>
   (r = Inr () \<longrightarrow> (\<forall>t \<in> set ts. \<forall>q \<in> set (table_statements (re_ddl env) (bare_name t)). \<forall>u. created q = Some u \<longrightarrow> rb_exists st' u))"
proof (induction ts arbitrary: st)
  case (Cons t ts)
  obtain s1 r1 where one: "recreate env (bare_name t) st = (s1, r1)" by (rule prod.exhaust)
  note ran = recreate_from_ddl [OF one [unfolded recreate_def]]
  show ?case
  proof (cases r1)
    case (Inl e)
    then show ?thesis using Cons.prems one ran by auto
  next
    case (Inr u)
    then have "each_table (\<lambda>t. recreate env (bare_name t)) ts s1 = (st', r)" using Cons.prems one by simp
    from Cons.IH [OF this] ran Inr show ?thesis by auto
  qed
qed simp

text \<open>
  Replacing tables is all or nothing for what they hold: when the drops and the DDL of a rebuild go through,
  every table of the layer whose DDL creates it is there again, empty, and nothing else of the lake has changed.
\<close>
theorem replaced_tables:
  assumes "replace_tables env ts st = (st', Inr ())" and "distinct ts" and "\<forall>t \<in> set ts. rb_exists st t"
    and "\<forall>t \<in> set ts. \<exists>q \<in> set (table_statements (re_ddl env) (bare_name t)). created q = Some t"
  shows "rb_lake st' = fold clear_table ts (rb_lake st) \<and> (\<forall>t. rb_exists st t \<longrightarrow> rb_exists st' t)"
proof -
  obtain s1 where drops: "each_table (drop_table env) ts st = (s1, Inr ())"
    and ddl: "each_table (\<lambda>t. recreate env (bare_name t)) ts s1 = (st', Inr ())"
    using assms(1) by (auto simp: replace_tables_def split: prod.splits sum.splits)
  show ?thesis using each_drop [OF drops assms(2,3)] each_recreate [OF ddl] assms(4) by fastforce
qed


section \<open>Books: the gold tables are shared by the venues\<close>

definition only_from :: "string \<Rightarrow> rout list \<Rightarrow> bool" where
  "only_from ex outs = ((\<forall>b. BookRow b \<in> set outs \<longrightarrow> br_exchange b = ex) \<and> (\<forall>s. StateRow s \<in> set outs \<longrightarrow> sr_exchange s = ex))"

lemma only_from_append [simp]: "only_from ex (xs @ ys) \<longleftrightarrow> only_from ex xs \<and> only_from ex ys"
  by (auto simp: only_from_def)

lemma flush_only: "flush_seconds env u b st = Inr (outs, st') \<Longrightarrow> only_from (re_exchange env) outs"
  by (auto simp: flush_seconds_def only_from_def Let_def snapshot_row_def split: if_splits option.splits prod.splits)

lemma apply_only: "apply_frame env r b st = Inr (outs, c) \<Longrightarrow> only_from (re_exchange env) outs"
  by (auto simp: apply_frame_def only_from_def Let_def res_bind_Inr split: if_splits option.splits)

lemma leave_only: "leave_key env ctx = Inr outs \<Longrightarrow> only_from (re_exchange env) outs"
  by (auto simp: leave_key_def only_from_def res_bind_Inr state_row_def Let_def split: option.splits if_splits prod.splits)

lemma finish_only: "finish_key env ctx = Inr outs \<Longrightarrow> only_from (re_exchange env) outs"
proof -
  assume a: "finish_key env ctx = Inr outs"
  show ?thesis
  proof (cases ctx)
    case (Some c)
    obtain b st where c: "c = (b, st)" by (rule prod.exhaust)
    show ?thesis
    proof (cases "rs_live st")
      case True
      then obtain secs st' sr where f: "flush_seconds env (rs_recv st) b st = Inr (secs, st')" and sr: "state_row env b st' = Inr sr"
        and outs: "outs = secs @ [StateRow sr]"
        using a Some c by (auto simp: finish_key_def res_bind_Inr)
      have "sr_exchange sr = re_exchange env" using sr by (auto simp: state_row_def Let_def split: option.splits prod.splits)
      then show ?thesis using flush_only [OF f] outs by (auto simp: only_from_def)
    qed (use a Some c in \<open>simp add: finish_key_def only_from_def\<close>)
  qed (use a in \<open>simp add: finish_key_def only_from_def\<close>)
qed

lemma replay_only: "replay_from env ctx rows = Inr outs \<Longrightarrow> only_from (re_exchange env) outs"
proof (induction rows arbitrary: ctx outs)
  case Nil
  then show ?case using finish_only by simp
next
  case (Cons r rs)
  from Cons.prems obtain o1 c o2 c' o3 where o: "enter_key env r ctx = Inr (o1, c)" "walk_frame env r c = Inr (o2, c')"
    "replay_from env (Some c') rs = Inr o3" "outs = o1 @ o2 @ o3" by (auto simp: res_bind_Inr)
  have "only_from (re_exchange env) o1"
    using o(1) by (auto simp: enter_key_def res_bind_Inr dest: leave_only split: option.splits if_splits) (simp_all add: only_from_def)
  moreover have "only_from (re_exchange env) o2"
    using o(2) by (auto simp: walk_frame_def res_bind_Inr dest: apply_only flush_only)
  ultimately show ?case using o(4) Cons.IH [OF o(3)] by simp
qed

lemma replay_venue_only:
  assumes "replay_venue sp ex precs states run_ts typed = Inr (vs, bs, ss)"
  shows "\<forall>b \<in> set bs. br_exchange b = ex" "\<forall>s \<in> set ss. sr_exchange s = ex"
proof -
  let ?env = "\<lparr>re_exchange = ex, re_precisions = precs, re_states = states_of ex states, re_run_ts = run_ts\<rparr>"
  obtain outs where outs: "res_map (replay_partition ?env) (spread_frames sp (map frame_of typed)) = Inr outs"
    and r: "bs = books_of (concat outs)" "ss = states_in (concat outs)"
    using assms by (auto simp: replay_venue_def Let_def res_bind_Inr)
  have "only_from ex out" if "out \<in> set outs" for out
    using res_map_image [OF outs that] replay_only [of ?env None _ out] by (auto simp: replay_partition_def)
  then have "only_from ex (concat outs)" by (fastforce simp: only_from_def)
  then show "\<forall>b \<in> set bs. br_exchange b = ex" "\<forall>s \<in> set ss. sr_exchange s = ex"
    unfolding r by (auto simp: only_from_def books_of_def states_in_def split: rout.splits)
qed

definition books_only :: "string \<Rightarrow> books \<Rightarrow> bool" where
  "books_only ex db =
     ((\<forall>g \<in> set (table_rows (bk_gold db)). gr_exchange g = ex) \<and> (\<forall>b \<in> set (bk_bbo db). bb_exchange b = ex) \<and>
      (\<forall>s \<in> set (bk_state db). sr_exchange s = ex))"

lemma bbo_only: "bbo_rows rnd i gs = Inr bs \<Longrightarrow> \<forall>g \<in> set gs. gr_exchange g = ex \<Longrightarrow> \<forall>b \<in> set bs. bb_exchange b = ex"
proof
  fix b assume a: "bbo_rows rnd i gs = Inr bs" "\<forall>g \<in> set gs. gr_exchange g = ex" "b \<in> set bs"
  obtain g where "g \<in> set gs" "bbo_row rnd i g = Inr b" using res_map_image [OF a(1) [unfolded bbo_rows_def] a(3)] by auto
  then show "bb_exchange b = ex" using a(2) by (auto simp: bbo_row_def Let_def split: option.splits list.splits)
qed

lemma write_state_only:
  "\<forall>s \<in> set tbl. sr_exchange s = ex \<Longrightarrow> \<forall>s \<in> set fresh. sr_exchange s = ex \<Longrightarrow> \<forall>s \<in> set (write_state tbl fresh). sr_exchange s = ex"
  by (fastforce simp: write_state_def filter_eq_Cons_iff split: list.splits)

lemma process_gold_only:
  assumes "process_gold env v src rows st n db = (db', r)" and "books_only ex db"
    and "\<forall>gs. rows = Inr gs \<longrightarrow> (\<forall>g \<in> set gs. gr_exchange g = ex)" and "\<forall>ss. st = Some ss \<longrightarrow> (\<forall>s \<in> set ss. sr_exchange s = ex)"
  shows "books_only ex db'"
proof (cases rows)
  case (Inr gs)
  have gs: "\<forall>g \<in> set gs. gr_exchange g = ex" using assms(3) Inr by simp
  show ?thesis
  proof (cases "bk_commits db")
    case (Cons c cs)
    obtain i time where c: "c = (i, time)" by (rule prod.exhaust)
    let ?db1 = "db\<lparr>bk_gold := table_append (bk_gold db) i time (gold_props v src) gs, bk_commits := cs\<rparr>"
    have one: "books_only ex ?db1" using assms(2) gs by (auto simp: books_only_def)
    show ?thesis
    proof (cases "bbo_rows (be_rnd env) i gs")
      case (Inl e)
      then show ?thesis using assms(1) one Inr Cons c by (simp add: process_gold_def Let_def)
    next
      case bb: (Inr bs)
      have bs: "\<forall>b \<in> set bs. bb_exchange b = ex" by (rule bbo_only [OF bb gs])
      show ?thesis
      proof (cases cs)
        case Nil
        then show ?thesis using assms(1) one Inr Cons c bb by (simp add: process_gold_def Let_def)
      next
        case cs: (Cons d ds)
        let ?db2 = "?db1\<lparr>bk_bbo := bk_bbo db @ bs, bk_commits := ds\<rparr>"
        have two: "books_only ex ?db2" using one bs by (auto simp: books_only_def)
        show ?thesis
        proof (cases st)
          case None
          then show ?thesis using assms(1) two Inr Cons c bb cs by (simp add: process_gold_def Let_def)
        next
          case (Some ss)
          have "\<forall>s \<in> set (write_state (bk_state db) ss). sr_exchange s = ex"
            by (rule write_state_only) (use assms(2,4) Some in \<open>simp_all add: books_only_def\<close>)
          then show ?thesis using assms(1) two Inr Cons c bb cs Some
            by (cases ds) (auto simp: process_gold_def Let_def books_only_def)
        qed
      qed
    qed
  qed (use assms Inr in \<open>simp add: process_gold_def\<close>)
qed (use assms in \<open>simp add: process_gold_def\<close>)

lemma process_silver_frame:
  "process_silver v rows src db = (db', r) \<Longrightarrow> bk_gold db' = bk_gold db \<and> bk_bbo db' = bk_bbo db \<and> bk_state db' = bk_state db \<and>
   (\<forall>u. u \<noteq> v \<longrightarrow> bk_silver db' u = bk_silver db u)"
  by (auto simp: process_silver_def split: if_splits list.splits prod.splits)

lemma binance_only: "binance_books run_ts typed = Inr gs \<Longrightarrow> \<forall>g \<in> set gs. gr_exchange g = ''binance''"
  by (auto simp: binance_books_def Let_def binance_row_def dest!: res_map_image split: if_splits option.splits book_extra.splits)

lemma process_only:
  assumes "process env registry precs v frames src run_ts db = (db', r)" and "books_only (exchange_name v) db"
  shows "books_only (exchange_name v) db' \<and> (\<forall>u. u \<noteq> v \<longrightarrow> bk_silver db' u = bk_silver db u)"
proof (cases "books_project (be_casts env) registry run_ts v frames")
  case (Inr typed)
  have "\<exists>rows gs st n db1 r1 r2. (process_silver v rows src db = (db1, r1) \<and> (db' = db1 \<or> db' = db \<or>
      process_gold env v src gs st n db1 = (db', r2))) \<and>
    (\<forall>xs. gs = Inr xs \<longrightarrow> (\<forall>g \<in> set xs. gr_exchange g = exchange_name v)) \<and> (\<forall>ss. st = Some ss \<longrightarrow> (\<forall>s \<in> set ss. sr_exchange s = exchange_name v))"
  proof (cases v)
    case Binance
    obtain db1 r1 where one: "process_silver v (seq_gaps typed) src db = (db1, r1)" by (rule prod.exhaust)
    then have "db' = db1 \<or> process_gold env v src (binance_books run_ts typed) None (int (length typed)) db1 = (db', r)"
      using assms(1) Inr Binance by (auto simp: process_def split: sum.splits)
    then show ?thesis using one binance_only Binance by (fastforce simp: exchange_name_def)
  next
    case Kraken
    show ?thesis
    proof (cases "replay_venue (be_spread env) ''kraken'' precs (bk_state db) run_ts typed")
      case (Inl e)
      then have "db' = db" using assms(1) Inr Kraken by (simp add: process_def)
      then show ?thesis by (metis Inl_Inr_False option.distinct(1) prod.exhaust)
    next
      case rp: (Inr x)
      obtain verdicts bs ss where x: "x = (verdicts, bs, ss)" by (rule prod_cases3)
      note only = replay_venue_only [OF rp [unfolded x]]
      obtain db1 r1 where one: "process_silver v (join_verdicts verdicts typed) src db = (db1, r1)" by (rule prod.exhaust)
      then have "db' = db1 \<or> process_gold env v src (Inr (map grow_of bs)) (Some ss) (int (length (join_verdicts verdicts typed))) db1 = (db', r)"
        using assms(1) Inr Kraken rp x by (auto simp: process_def Let_def split: sum.splits)
      then show ?thesis using one only Kraken by (fastforce simp: exchange_name_def grow_of_def)
    qed
  next
    case Coinbase
    obtain db1 r1 where one: "process_silver v typed src db = (db1, r1)" by (rule prod.exhaust)
    show ?thesis
    proof (cases "replay_venue (be_spread env) ''coinbase'' [] (bk_state db1) run_ts typed")
      case (Inl e)
      then have "db' = db1 \<or> process_gold env v src (Inl e) None 0 db1 = (db', r)"
        using assms(1) Inr Coinbase one process_silver_frame [OF one] by (auto simp: process_def split: sum.splits)
      then show ?thesis using one by blast
    next
      case rp: (Inr x)
      obtain verdicts bs ss where x: "x = (verdicts, bs, ss)" by (rule prod_cases3)
      note only = replay_venue_only [OF rp [unfolded x]]
      have "db' = db1 \<or> process_gold env v src (Inr (map grow_of bs)) (Some ss) (int (length typed)) db1 = (db', r)"
        using assms(1) Inr Coinbase rp x one process_silver_frame [OF one] by (auto simp: process_def Let_def split: sum.splits)
      then show ?thesis using one only Coinbase by (fastforce simp: exchange_name_def grow_of_def)
    qed
  qed
  then obtain rows gs st n db1 r1 r2 where one: "process_silver v rows src db = (db1, r1)"
    and two: "db' = db1 \<or> db' = db \<or> process_gold env v src gs st n db1 = (db', r2)"
    and gs: "\<forall>xs. gs = Inr xs \<longrightarrow> (\<forall>g \<in> set xs. gr_exchange g = exchange_name v)"
    and st: "\<forall>ss. st = Some ss \<longrightarrow> (\<forall>s \<in> set ss. sr_exchange s = exchange_name v)" by blast
  have first: "books_only (exchange_name v) db1" using process_silver_frame [OF one] assms(2) by (simp add: books_only_def)
  from two show ?thesis
    using first assms(2) process_gold_only [OF _ first gs st] process_gold_silver(1) process_silver_frame [OF one] by metis
qed (use assms in \<open>simp add: process_def\<close>)

lemma books_days_only:
  assumes "books_days env registry precs v rows end_id run_ts days db = (db', r)" and "books_only (exchange_name v) db"
  shows "books_only (exchange_name v) db' \<and> (\<forall>u. u \<noteq> v \<longrightarrow> bk_silver db' u = bk_silver db u)"
  using assms
proof (induction days arbitrary: db r)
  case (Cons d ds)
  obtain db1 r1 where one: "process env registry precs v (filter (\<lambda>b. b_recv_ts b div US_PER_DAY = d) rows) end_id run_ts db = (db1, r1)"
    by (rule prod.exhaust)
  note p = process_only [OF one Cons.prems(2)]
  show ?case
  proof (cases r1)
    case (Inr n)
    obtain db2 r2 where two: "books_days env registry precs v rows end_id run_ts ds db1 = (db2, r2)" by (rule prod.exhaust)
    then have "db' = db2" using Cons.prems(1) one Inr by (auto split: sum.splits)
    then show ?thesis using Cons.IH [of db1 r2] two p by auto
  qed (use Cons.prems(1) one p in auto)
qed simp

lemma books_rebuild_only:
  assumes "books_rebuild env run_ts [exchange_name v] db = (db', r)" and "books_only (exchange_name v) db"
  shows "books_only (exchange_name v) db' \<and> (\<forall>u. u \<noteq> v \<longrightarrow> bk_silver db' u = bk_silver db u)"
proof (cases "books_setup env")
  case (Inr x)
  obtain registry precs where x: "x = (registry, precs)" by (rule prod.exhaust)
  have vs: "filter (\<lambda>u. exchange_name u \<in> set [exchange_name v]) BOOKS = [v]"
    by (cases v) (simp_all add: BOOKS_def exchange_name_def)
  have run: "books_rebuild_venues env registry precs run_ts [v] db = (db', r)"
    using assms(1) Inr x vs by (simp add: books_rebuild_def)
  show ?thesis
  proof (cases "current_snapshot_id (be_bronze env v)")
    case None
    then show ?thesis using run assms(2) by simp
  next
    case (Some end_id)
    let ?rows = "rows_at (be_bronze env v) end_id"
    obtain db1 r1 where one: "books_days env registry precs v ?rows end_id run_ts
        (sort (remdups (map (\<lambda>b. b_recv_ts b div US_PER_DAY) ?rows))) db = (db1, r1)" by (rule prod.exhaust)
    then have "db' = db1" using run Some by (auto simp: Let_def split: sum.splits)
    then show ?thesis using books_days_only [OF one assms(2)] by simp
  qed
qed (use assms in \<open>simp add: books_rebuild_def\<close>)

lemma book_names: "book_name v \<noteq> GOLD_BOOK" "book_name v \<noteq> GOLD_BBO" "book_name v \<noteq> lake_table ''gold.book_state''"
    "GOLD_BOOK \<noteq> GOLD_BBO" "GOLD_BOOK \<noteq> lake_table ''gold.book_state''" "GOLD_BBO \<noteq> lake_table ''gold.book_state''"
    "book_name u = book_name v \<longleftrightarrow> u = v"
  by (simp_all add: book_name_def GOLD_BOOK_def GOLD_BBO_def lake_table_def) (cases u; cases v; simp add: exchange_name_def)

lemma cleared_books:
  "wh_books (fold clear_table [book_name v, GOLD_BOOK, GOLD_BBO, lake_table ''gold.book_state''] w) =
   (wh_books w)\<lparr>bk_silver := (bk_silver (wh_books w))(v := empty_table), bk_gold := empty_table, bk_bbo := [], bk_state := []\<rparr>"
proof -
  note ne = book_names(1-6) book_names(1-6) [THEN not_sym]
  have only: "(\<lambda>u. if book_name v = book_name u then empty_table else f u) = f(v := empty_table)" for f :: "venue \<Rightarrow> book_row table"
    by (auto simp: book_names(7))
  show ?thesis by (simp add: clear_table_def only ne fun_upd_def)
qed

text \<open>
  Rebuilding the books of one venue throws the others' away: \<open>rebuild.py --layer books --exchange v\<close> drops
  the gold book, best-bid-offer and state tables of all venues but replays only \<open>v\<close>, so after a run that exits
  0 they hold rows of \<open>v\<close> alone. The other venues' silver book tables are as before, so they still name their
  bronze snapshot and every later tick passes over them: their rows never come back.
\<close>
theorem books_rebuild_drops_others:
  assumes "rebuild_main env \<lparr>ra_layer = LBooks, ra_exchange = Some (exchange_name v), ra_dry_run = False\<rparr> st = (st', 0)"
    and "\<forall>t \<in> set [book_name v, GOLD_BOOK, GOLD_BBO, lake_table ''gold.book_state'']. rb_exists st t"
    and "u \<noteq> v" and "current_snapshot_id (wh_bronze (rb_lake st') (book_source u)) = Some end_id"
    and "src_position (bk_silver (wh_books (rb_lake st)) u) SRC_SNAPSHOT_ID = Some (show_int end_id)"
  shows "books_only (exchange_name v) (wh_books (rb_lake st')) \<and>
    bk_silver (wh_books (rb_lake st')) u = bk_silver (wh_books (rb_lake st)) u \<and>
    books_venue (books_over env (rb_lake st')) registry precs run_ts u (wh_books (rb_lake st')) = (wh_books (rb_lake st'), Inr 0)"
proof -
  let ?tables = "[book_name v, GOLD_BOOK, GOLD_BBO, lake_table ''gold.book_state'']"
  have "filter (\<lambda>u. exchange_name u \<in> {exchange_name v}) BOOKS = [v]" by (cases v) (simp_all add: BOOKS_def exchange_name_def)
  then have "replace_and env ?tables (derive_books env [exchange_name v]) st = (st', 0)"
    using assms(1) by (simp add: rebuild_main_def rebuild_tables_def rebuild_exchanges_def)
  then obtain s1 where rep: "replace_tables env ?tables st = (s1, Inr ())"
    and w: "wh_books (rb_lake st') = fst (books_rebuild (books_over env (rb_lake s1)) (re_now env) [exchange_name v] (wh_books (rb_lake s1)))"
    by (auto simp: replace_and_def derive_books_def split: prod.splits sum.splits)
  obtain s0 where drops: "each_table (drop_table env) ?tables st = (s0, Inr ())"
    and ddl: "each_table (\<lambda>t. recreate env (bare_name t)) ?tables s0 = (s1, Inr ())"
    using rep by (auto simp: replace_tables_def split: prod.splits sum.splits)
  have "distinct ?tables" using book_names by auto
  from each_drop [OF drops this assms(2)] each_recreate [OF ddl]
  have lake: "rb_lake s1 = fold clear_table ?tables (rb_lake st)" by simp
  have cleared: "wh_books (rb_lake s1) = (wh_books (rb_lake st))
      \<lparr>bk_silver := (bk_silver (wh_books (rb_lake st)))(v := empty_table), bk_gold := empty_table, bk_bbo := [], bk_state := []\<rparr>"
    unfolding lake by (rule cleared_books)
  then have start: "books_only (exchange_name v) (wh_books (rb_lake s1))"
    by (simp add: books_only_def table_rows_def empty_table_def)
  obtain db r where run: "books_rebuild (books_over env (rb_lake s1)) (re_now env) [exchange_name v] (wh_books (rb_lake s1)) = (db, r)"
    by (rule prod.exhaust)
  note only = books_rebuild_only [OF run start]
  have same: "bk_silver (wh_books (rb_lake st')) u = bk_silver (wh_books (rb_lake st)) u"
    using only assms(3) w run cleared by simp
  moreover have "level_with (src_position (bk_silver (wh_books (rb_lake st')) u) SRC_SNAPSHOT_ID) end_id"
    using same assms(5) by (simp add: level_with_def has_position_def)
  then have "books_venue (books_over env (rb_lake st')) registry precs run_ts u (wh_books (rb_lake st')) = (wh_books (rb_lake st'), Inr 0)"
    using assms(4) by (simp add: books_venue_def books_over_def view_table_def current_snapshot_id_def)
  ultimately show ?thesis using only w run by simp
qed

section \<open>The layer below keeps positions in the dropped table\<close>

lemma rows_between_unknown: "i \<notin> set (map snap_id (snaps t)) \<Longrightarrow> rows_between t i j = Inl ValueError"
  by (auto simp: rows_between_def Let_def)

text \<open>A venue's turn keeps the positions of the others, whether it commits, is level or raises.\<close>

lemma venue_keeps_others:
  assumes "gold_venue env run_ts v g = (g', r)" and "clock_ok (gd_commits g) (gd_trades g)" and "u \<noteq> v"
  shows "clock_ok (gd_commits g') (gd_trades g') \<and> src_position (gd_trades g') (position_key u) = src_position (gd_trades g) (position_key u)"
  using assms(1)
proof (cases rule: gold_venue_cases)
  case same
  then show ?thesis using assms(2) by simp
next
  case (commit i time rest e rows batch)
  have clk: "clock_ok ((i, time) # rest) (gd_trades g)" using assms(2) commit(4) by simp
  then have "i \<notin> set (map snap_id (snaps (gd_trades g)))" by (auto simp: clock_ok_def)
  let ?props = "(JOB, JOB_DECODE) # AList.update (position_key v) (show_int e) (positions (gd_trades g))"
  have fresh: "\<forall>s \<in> set (snaps (gd_trades g)). committed_at s < time" using clk by (auto simp: clock_ok_def)
  have "src_position (gd_trades g') (position_key u) = map_of ?props (position_key u)"
    unfolding commit(5) using src_position_append [OF fresh _ position_key_facts(1), of ?props] by simp
  then show ?thesis using commit(5) clock_ok_append [OF clk] position_key_facts(2,3) assms(3)
    by (auto simp: update_conv positions_lookup eq_commute [of JOB])
qed

lemma stranded_trades:
  assumes "src_position (gd_trades g) (position_key v) = Some (show_int old)" and "old \<notin> set (map snap_id (snaps (ge_silver env v)))"
    and "current_snapshot_id (ge_silver env v) = Some end_id" and "end_id \<noteq> old"
    and "clock_ok (gd_commits g) (gd_trades g)" and "v \<in> set vs"
  shows "\<exists>g' e. gold_trades env run_ts vs g = (g', Inl e) \<and> clock_ok (gd_commits g') (gd_trades g') \<and>
    src_position (gd_trades g') (position_key v) = Some (show_int old)"
  using assms
proof (induction vs arbitrary: g)
  case (Cons u vs)
  show ?case
  proof (cases "u = v")
    case True
    have "gold_venue env run_ts v g = (g, Inl ValueError)"
      using Cons.prems(1-4) rows_between_unknown [OF Cons.prems(2)]
      by (simp add: gold_venue_def level_with_def has_position_def show_int_inj incremental_read_def)
    then show ?thesis using True Cons.prems(1,5) by simp
  next
    case False
    obtain g1 r where one: "gold_venue env run_ts u g = (g1, r)" by (rule prod.exhaust)
    note keep = venue_keeps_others [OF one Cons.prems(5), of v]
    show ?thesis
    proof (cases r)
      case (Inl e)
      then show ?thesis using one keep False Cons.prems(1) by auto
    next
      case (Inr x)
      have "\<exists>g' e. gold_trades env run_ts vs g1 = (g', Inl e) \<and> clock_ok (gd_commits g') (gd_trades g') \<and>
        src_position (gd_trades g') (position_key v) = Some (show_int old)"
        by (rule Cons.IH) (use keep False Cons.prems in auto)
      then show ?thesis using one Inr by (cases x) auto
    qed
  qed
qed simp



section \<open>A small catalog for the witnesses\<close>

definition demo_ddl :: string where
  "demo_ddl = ''CREATE TABLE IF NOT EXISTS lake.gold.bars (x INT);''"

definition demo_rebuild_env :: "nat rebuild_env" where
  "demo_rebuild_env =
     \<lparr>re_refresh_raises = (\<lambda>_ _. False), re_drop = (\<lambda>_ k. DropRaises (1 < k)), re_ddl = demo_ddl, re_ddl_raises = (\<lambda>k _. k < 3),
      re_bronze = demo_bronze_env, re_bronze_commits = [], re_trade = (\<lambda>_. KrakenTrade None None None), re_book = (\<lambda>_. KrakenBook None None),
      re_silver = demo_silver_env, re_silver_commits = [], re_gold = demo_gold_env, re_books = demo_books_env, re_now = 9\<rparr>"

definition demo_store :: "nat store" where
  "demo_store = \<lparr>rb_exists = (\<lambda>_. True),
     rb_lake = (demo_warehouse empty_table empty_table (demo_gold_state []))
       \<lparr>wh_bronze := (\<lambda>nm. if nm = book_source Kraken then table_append empty_table 5 5 [] [] else empty_table),
        wh_books := (demo_books [])\<lparr>bk_silver := (\<lambda>v. table_append empty_table 6 6 (decode_props SRC_SNAPSHOT_ID 5) [])\<rparr>\<rparr>\<rparr>"

lemma demo_table_statements: "table_statements demo_ddl ''bars'' = [''CREATE TABLE IF NOT EXISTS lake.gold.bars (x INT)'']"
  by code_simp

lemma demo_created: "created ''CREATE TABLE IF NOT EXISTS lake.gold.bars (x INT)'' = Some GOLD_BARS"
  by code_simp


lemma demo_drop: "rb_exists st t \<Longrightarrow> drop_table (demo_rebuild_env\<lparr>re_ddl := d\<rparr>) t st = (remove_table t st, Inr ())"
  by (simp add: drop_table_def numeral_eq_Suc drop_attempt_def demo_rebuild_env_def remove_table_def)

lemma demo_exists: "rb_exists demo_store t" "rb_exists (remove_table t st) u \<longleftrightarrow> u \<noteq> t \<and> rb_exists st u"
  by (simp_all add: demo_store_def remove_table_def)

lemma demo_ddl_env: "demo_rebuild_env\<lparr>re_ddl := demo_ddl\<rparr> = demo_rebuild_env"
  by (simp add: demo_rebuild_env_def)

theorem replaced_tables_witness:
  "\<exists>st'. replace_tables demo_rebuild_env [GOLD_BARS] demo_store = (st', Inr ()) \<and>
     rb_lake st' = clear_table GOLD_BARS (rb_lake demo_store) \<and> rb_exists st' GOLD_BARS"
proof -
  have bare: "bare_name GOLD_BARS = ''bars''" by code_simp
  have ns: "namespaces [''CREATE TABLE IF NOT EXISTS lake.gold.bars (x INT)''] = [''gold'']" by code_simp
  have none: "created (create_namespace ''gold'') = None" by code_simp
  have "\<exists>st'. recreate demo_rebuild_env ''bars'' (remove_table GOLD_BARS demo_store) = (st', Inr ())"
    by (simp add: recreate_def numeral_eq_Suc apply_statements_def demo_rebuild_env_def demo_table_statements ns run_ddl_def none demo_created)
  then obtain st' where rc: "recreate demo_rebuild_env ''bars'' (remove_table GOLD_BARS demo_store) = (st', Inr ())" by blast
  have run: "replace_tables demo_rebuild_env [GOLD_BARS] demo_store = (st', Inr ())"
    using demo_drop [of demo_store GOLD_BARS demo_ddl] by (simp add: replace_tables_def demo_ddl_env bare rc demo_exists)
  have "re_ddl demo_rebuild_env = demo_ddl" "\<forall>t. rb_exists demo_store t" by (simp_all add: demo_rebuild_env_def demo_store_def)
  with replaced_tables [OF run] run show ?thesis
    by (simp add: bare demo_table_statements demo_created)
qed

theorem books_rebuild_drops_others_witness:
  "\<exists>st'. rebuild_main (demo_rebuild_env\<lparr>re_ddl := []\<rparr>) \<lparr>ra_layer = LBooks, ra_exchange = Some (exchange_name Binance), ra_dry_run = False\<rparr> demo_store = (st', 0) \<and>
     books_only (exchange_name Binance) (wh_books (rb_lake st')) \<and>
     books_venue (books_over demo_rebuild_env (rb_lake st')) [] [] 9 Kraken (wh_books (rb_lake st')) = (wh_books (rb_lake st'), Inr 0)"
proof -
  let ?env = "demo_rebuild_env\<lparr>re_ddl := []\<rparr>"
  let ?args = "\<lparr>ra_layer = LBooks, ra_exchange = Some (exchange_name Binance), ra_dry_run = False\<rparr>"
  let ?tables = "[book_name Binance, GOLD_BOOK, GOLD_BBO, lake_table ''gold.book_state'']"
  let ?dropped = "fold remove_table ?tables demo_store"
  have tables: "rebuild_tables ?args = ?tables" "rebuild_exchanges ?args = [exchange_name Binance]"
    by (simp_all add: rebuild_tables_def rebuild_exchanges_def BOOKS_def exchange_name_def)
  have no_ddl: "recreate ?env n s = (s, Inr ())" for n s
    by (simp add: recreate_def numeral_eq_Suc apply_statements_def table_statements_def statements_def stripped_def
        statement_of_def py_strip_def namespaces_def)
  have other: "wh_bronze (rb_lake (remove_table t st)) = wh_bronze (rb_lake st)" if "t \<in> set ?tables" for t st
  proof -
    have "t \<noteq> lake_table (''bronze.'' @ nm)" for nm
      using that by (auto simp: book_name_def GOLD_BOOK_def GOLD_BBO_def lake_table_def exchange_name_def)
    then show ?thesis by (simp add: remove_table_def clear_table_def)
  qed
  have bronze: "wh_bronze (rb_lake ?dropped) = wh_bronze (rb_lake demo_store)" by (simp add: other)
  have replaced: "replace_tables ?env ?tables demo_store = (?dropped, Inr ())"
    using book_names(1-6) book_names(1-6) [THEN not_sym]
    by (simp add: replace_tables_def no_ddl demo_drop demo_exists)
  have none: "current_snapshot_id (be_bronze (books_over ?env (rb_lake ?dropped)) Binance) = None"
  proof -
    have "wh_bronze (rb_lake ?dropped) (book_source Binance) = empty_table"
      unfolding bronze by (simp add: demo_store_def book_source_def)
    then show ?thesis by (simp add: books_over_def view_table_def current_snapshot_id_def demo_empty del: fold_simps)
  qed
  have ready: "books_setup (books_over ?env w) = Inr ([(''binance'', [(''B'', ''BTC'')])], [])" for w
    by (simp add: books_setup_def books_over_def demo_rebuild_env_def demo_books_env_def load_instruments_def kraken_precisions_def)
  have one: "filter (\<lambda>v. [exchange_name Binance] = [] \<or> exchange_name v \<in> set [exchange_name Binance]) BOOKS = [Binance]"
    by (simp add: BOOKS_def exchange_name_def)
  have idle: "books_rebuild (books_over ?env (rb_lake ?dropped)) n [exchange_name Binance] db = (db, Inr 0)" for n db
    unfolding books_rebuild_def ready one using none by (simp del: fold_simps)
  have "rebuild_main ?env ?args demo_store = replace_and ?env ?tables (derive_books ?env [exchange_name Binance]) demo_store"
    by (simp add: rebuild_main_def tables Let_def)
  also have "\<dots> = (?dropped\<lparr>rb_lake := (rb_lake ?dropped)\<lparr>wh_books := wh_books (rb_lake ?dropped)\<rparr>\<rparr>, 0)"
    unfolding replace_and_def replaced derive_books_def prod.case sum.case idle by simp
  finally obtain st' where run: "rebuild_main ?env ?args demo_store = (st', 0)"
      and bronze': "wh_bronze (rb_lake st') = wh_bronze (rb_lake ?dropped)" by simp
  have "books_only (exchange_name Binance) (wh_books (rb_lake st')) \<and>
    bk_silver (wh_books (rb_lake st')) Kraken = bk_silver (wh_books (rb_lake demo_store)) Kraken \<and>
    books_venue (books_over ?env (rb_lake st')) [] [] 9 Kraken (wh_books (rb_lake st')) = (wh_books (rb_lake st'), Inr 0)"
  proof (rule books_rebuild_drops_others [OF run])
    show "current_snapshot_id (wh_bronze (rb_lake st') (book_source Kraken)) = Some 5"
      unfolding bronze' bronze by (simp add: demo_store_def current_snapshot_id_def)
    show "src_position (bk_silver (wh_books (rb_lake demo_store)) Kraken) SRC_SNAPSHOT_ID = Some (show_int 5)"
      using src_position_append [of empty_table 6 "decode_props SRC_SNAPSHOT_ID 5" SRC_SNAPSHOT_ID 6 "[]"] decode_props_lookup
      by (simp add: demo_store_def demo_empty SRC_SNAPSHOT_ID_def)
  qed (simp_all add: demo_exists)
  moreover have "books_over ?env w = books_over demo_rebuild_env w" for w by (simp add: books_over_def)
  ultimately show ?thesis using run by auto
qed

end
