(* ===== verification/Pipeline.thy ===== *)
theory Pipeline
  imports Rebuild Lock
begin

text \<open>
  The entry point of the five-minute run: \<open>probe\<close> and \<open>main\<close> of \<open>docker/lake/ingest.py\<close>. The stages of all
  layers run in order on one lake, each reading what the ones before have committed; an exception ends the
  run with status 1 and keeps every commit made so far. \<open>lake_reach\<close> are the lakes that runs, whatever
  becomes of them, lead to.
\<close>

section \<open>probe\<close>

text \<open>A sampled record: its topic and offset, the first bytes of its value (\<open>NULL\<close> for a tombstone), its length.\<close>

record sampled =
  sa_topic :: string
  sa_offset :: int
  sa_head :: "bytes option"
  sa_bytes :: int

datatype framing = Framed int int | NotFramed int

text \<open>\<open>bytes(None)\<close> raises; only \<open>BadFrame\<close> is caught.\<close>

fun probe_rows :: "sampled list \<Rightarrow> (string \<times> framing) list \<Rightarrow> int \<Rightarrow> ((string \<times> framing) list \<times> int) res" where
  "probe_rows [] seen bad = Inr (seen, bad)"
| "probe_rows (r # rs) seen bad =
     (case sa_head r of None \<Rightarrow> Inl TypeError
      | Some head \<Rightarrow>
          (case parse_confluent (take HEADER_BYTES head) of
             Inr (schema_id, _) \<Rightarrow> probe_rows rs (AList.update (sa_topic r) (Framed schema_id (sa_bytes r)) seen) bad
           | Inl BadFrame \<Rightarrow> probe_rows rs (AList.update (sa_topic r) (NotFramed (sa_offset r)) seen) (bad + 1)
           | Inl e \<Rightarrow> Inl e))"

definition probe :: "sampled list \<Rightarrow> int res" where
  "probe sample = res_bind (probe_rows sample [] 0) (\<lambda>(_, bad). Inr (if bad \<noteq> 0 then 1 else 0))"

section \<open>main\<close>

datatype run_stage = StageAll | StageRaw | StageBronze

record run_args =
  ru_stage :: run_stage
  ru_end :: string
  ru_max :: int
  ru_accept :: bool
  ru_probe :: bool

text \<open>
  What a run finds outside the lake: Kafka and the registry (\<open>rn_ingest\<close>, \<open>rn_bronze\<close>), the configuration, and
  the ids and times the catalog will give its commits; \<open>rn_trade\<close> and \<open>rn_book\<close> read a payload's columns.
\<close>

record 'j run_env =
  rn_ingest :: env
  rn_sample :: "sampled list"
  rn_bronze :: "'j bronze_env"
  rn_bronze_commits :: "(int \<times> int) list"
  rn_audit_commits :: "(int \<times> int) list"
  rn_trade :: "'j \<Rightarrow> trade_cols"
  rn_book :: "'j \<Rightarrow> book_cols"
  rn_silver :: silver_env
  rn_silver_commits :: "(int \<times> int) list"
  rn_gold :: gold_env
  rn_gold_commits :: "(int \<times> int) list"
  rn_books :: books_env
  rn_books_commits :: "(int \<times> int) list"
  rn_now :: int
  rn_lock :: "string option"

definition run_raw :: "'j run_env \<Rightarrow> run_args \<Rightarrow> 'j warehouse \<Rightarrow> 'j warehouse \<times> unit res" where
  "run_raw env args w =
     (case stage_raw (rn_ingest env) (rn_now env) (ru_end args) (ru_max args) (ru_accept args) \<lparr>raw = wh_raw w, checks = wh_checks w\<rparr> of
        (lk, r) \<Rightarrow> (w\<lparr>wh_raw := raw lk, wh_checks := checks lk\<rparr>, res_bind r (\<lambda>_. Inr ())))"

definition run_bronze :: "'j run_env \<Rightarrow> 'j warehouse \<Rightarrow> 'j warehouse \<times> unit res" where
  "run_bronze env w =
     (case bronze_stage (rn_bronze env) (wh_raw w) (current_snapshot_id (wh_raw w)) (rn_now env)
             \<lparr>b_tables = wh_bronze w, b_checks = wh_checks w, b_commits = rn_bronze_commits env, b_audit_commits = rn_audit_commits env\<rparr> of
        (b, r) \<Rightarrow> (w\<lparr>wh_bronze := b_tables b, wh_checks := b_checks b\<rparr>, res_bind r (\<lambda>_. Inr ())))"

definition trade_feed :: "('j \<Rightarrow> trade_cols) \<Rightarrow> 'j warehouse \<Rightarrow> venue \<Rightarrow> trade_cols bronze_row table" where
  "trade_feed trade w v = view_table trade (wh_bronze w (trade_source v))"

definition run_silver :: "'j run_env \<Rightarrow> 'j warehouse \<Rightarrow> 'j warehouse \<times> unit res" where
  "run_silver env w =
     (case silver_stage (rn_silver env) (trade_feed (rn_trade env) w) (rn_now env) TRADES (rn_silver_commits env, wh_silver w) of
        (s, r) \<Rightarrow> (w\<lparr>wh_silver := snd s\<rparr>, res_bind r (\<lambda>_. Inr ())))"

definition run_gold :: "'j run_env \<Rightarrow> 'j warehouse \<Rightarrow> 'j warehouse \<times> unit res" where
  "run_gold env w =
     (case gold_stage ((rn_gold env)\<lparr>ge_silver := wh_silver w\<rparr>) (rn_now env) ((wh_gold w)\<lparr>gd_commits := rn_gold_commits env\<rparr>) of
        (g, r) \<Rightarrow> (w\<lparr>wh_gold := g\<rparr>, res_bind r (\<lambda>_. Inr ())))"

definition run_books :: "'j run_env \<Rightarrow> 'j warehouse \<Rightarrow> 'j warehouse \<times> unit res" where
  "run_books env w =
     (case books_stage ((rn_books env)\<lparr>be_bronze := \<lambda>v. view_table (rn_book env) (wh_bronze w (book_source v))\<rparr>) (rn_now env)
             ((wh_books w)\<lparr>bk_commits := rn_books_commits env\<rparr>) of
        (b, r) \<Rightarrow> (w\<lparr>wh_books := b\<rparr>, res_bind r (\<lambda>_. Inr ())))"

definition run_stages :: "'j run_env \<Rightarrow> run_args \<Rightarrow> ('j warehouse \<Rightarrow> 'j warehouse \<times> unit res) list" where
  "run_stages env args =
     (if ru_stage args \<in> {StageAll, StageRaw} then [run_raw env args] else []) @
     (if ru_stage args \<in> {StageAll, StageBronze} then [run_bronze env, run_silver env, run_gold env, run_books env] else [])"

text \<open>The statements of the \<open>try\<close> block, up to the first that raises.\<close>

fun in_order :: "('w \<Rightarrow> 'w \<times> unit res) list \<Rightarrow> 'w \<Rightarrow> 'w \<times> unit res" where
  "in_order [] w = (w, Inr ())"
| "in_order (f # fs) w = (case f w of (w', Inl e) \<Rightarrow> (w', Inl e) | (w', Inr _) \<Rightarrow> in_order fs w')"

text \<open>\<open>K2_LAKE_LOCK\<close> of the environment, or the default.\<close>

definition LOCK_PATH :: "string option \<Rightarrow> string" where
  "LOCK_PATH setting = (case setting of None \<Rightarrow> ''/tmp/k2-lake-ingest.lock'' | Some path \<Rightarrow> path)"

text \<open>The holders of the lock, the lake and the exit status; the lock is closed on every path.\<close>

definition ingest_main ::
  "'j run_env \<Rightarrow> run_args \<Rightarrow> int \<Rightarrow> (string \<rightharpoonup> int) \<times> 'j warehouse \<Rightarrow> ((string \<rightharpoonup> int) \<times> 'j warehouse) \<times> int" where
  "ingest_main env args pid s =
     (if ru_probe args then (s, case probe (rn_sample env) of Inl _ \<Rightarrow> 1 | Inr status \<Rightarrow> status)
      else (case acquire_lock (fst s) (LOCK_PATH (rn_lock env)) pid False of
        (Handle _, holders) \<Rightarrow>
          (case in_order (run_stages env args) (snd s) of
             (w, r) \<Rightarrow> ((release_lock holders (LOCK_PATH (rn_lock env)) pid, w), case r of Inl _ \<Rightarrow> 1 | Inr _ \<Rightarrow> 0))
      | (_, holders) \<Rightarrow> ((holders, snd s), 2)))"

section \<open>Tables that only grow\<close>

text \<open>Every snapshot has its own id, and \<open>main\<close> names the newest.\<close>

definition table_ok :: "'r table \<Rightarrow> bool" where
  "table_ok t = (distinct (map snap_id (snaps t)) \<and> main_ref t = (if snaps t = [] then None else Some (snap_id (last (snaps t)))))"

lemma table_ok_main: "table_ok t \<Longrightarrow> main_ref t = Some i \<Longrightarrow> i \<in> set (map snap_id (snaps t)) \<and> rows_at t i = table_rows t"
proof -
  assume ok: "table_ok t" and i: "main_ref t = Some i"
  then have ne: "snaps t \<noteq> []" "i = snap_id (last (snaps t))" by (auto simp: table_ok_def split: if_splits)
  moreover from ne(1) obtain ss s where s: "snaps t = ss @ [s]" by (cases "snaps t" rule: rev_cases) auto
  ultimately show ?thesis using ok by (simp add: table_ok_def rows_at_def table_rows_def upto_last)
qed

lemma table_ok_view [simp]: "table_ok (view_table f t) = table_ok t"
  by (auto simp: table_ok_def view_table_def comp_def last_map)

lemma view_rows: "table_rows (view_table f t) = map (view_row f) (table_rows t)"
  by (simp add: table_rows_def view_table_def map_concat comp_def)

text \<open>\<open>grown cs t cs' t'\<close>: of the commits \<open>cs\<close>, some were appends to \<open>t\<close>, some went to other tables, \<open>cs'\<close> are left.\<close>

inductive grown :: "(int \<times> int) list \<Rightarrow> 'r table \<Rightarrow> (int \<times> int) list \<Rightarrow> 'r table \<Rightarrow> bool" for cs t where
  still: "grown cs t cs t"
| other: "grown cs t (c # cs') t' \<Longrightarrow> grown cs t cs' t'"
| appended: "grown cs t ((i, ts) # cs') t' \<Longrightarrow> grown cs t cs' (table_append t' i ts props rows)"

lemma grown_trans: "grown cs' t' cs'' t'' \<Longrightarrow> grown cs t cs' t' \<Longrightarrow> grown cs t cs'' t''"
  by (induction rule: grown.induct) (auto intro: grown.intros)

lemma grown_clock: "grown cs t cs' t' \<Longrightarrow> clock_ok cs t \<Longrightarrow> clock_ok cs' t'"
  by (induction rule: grown.induct) (auto dest: clock_ok_tail clock_ok_append)

lemma grown_snaps: "grown cs t cs' t' \<Longrightarrow> \<exists>later. snaps t' = snaps t @ later"
  by (induction rule: grown.induct) auto

lemma table_ok_append:
  assumes "table_ok t" and "clock_ok ((i, ts) # cs) t"
  shows "table_ok (table_append t i ts props rows)"
  using assms by (auto simp: table_ok_def clock_ok_def image_iff)

lemma grown_ok: "grown cs t cs' t' \<Longrightarrow> clock_ok cs t \<Longrightarrow> table_ok t \<Longrightarrow> table_ok t'"
  by (induction rule: grown.induct) (auto intro!: table_ok_append dest: grown_clock)

section \<open>A layer that has caught up\<close>

definition caught :: "('a list \<Rightarrow> 'c list) \<Rightarrow> ('b \<Rightarrow> 'c list) \<Rightarrow> 'a table \<Rightarrow> 'b table \<Rightarrow> bool" where
  "caught f view up down = (mset (concat (map view (table_rows down))) = mset (f (table_rows up)))"

context incremental_layer
begin

lemma caught_none:
  assumes "in_step trans view key up down" and "table_ok up" and "main_ref up = None"
  shows "caught trans view up down"
proof -
  have "snaps up = []" using assms(2,3) by (simp add: table_ok_def split: if_splits)
  then show ?thesis using assms(1) by (auto simp: caught_def in_step_def table_rows_def trans_Nil split: option.splits)
qed

lemma caught_level:
  assumes "in_step trans view key up down" and "table_ok up" and "main_ref up = Some e" and "level_with (src_position down key) e"
  shows "caught trans view up down"
  using assms(1,4) table_ok_main [OF assms(2,3)] by (auto simp: caught_def in_step_def level_with_def show_int_inj)

lemma caught_nothing:
  assumes sync: "in_step trans view key up down" and ok: "table_ok up" and e: "main_ref up = Some e"
    and rd: "incremental_read up (src_position down key) e = Inr rows" and none: "trans rows = []"
  shows "caught trans view up down"
proof (cases "src_position down key")
  case None
  then have "rows = table_rows up"
    using rd table_ok_main [OF ok e] by (simp add: incremental_read_def has_position_def)
  then show ?thesis using sync None none by (simp add: caught_def in_step_def)
next
  case (Some s)
  then obtain j where j: "s = show_int j" "mset (concat (map view (table_rows down))) = mset (trans (rows_at up j))"
    using sync by (auto simp: in_step_def)
  have "rows_between up j e = Inr rows" using rd Some j(1) by (simp add: incremental_read_def has_position_def)
  then have "table_rows up = rows_at up j @ rows"
    using ok table_ok_main [OF ok e] rows_between_at [of up j e rows] by (simp add: table_ok_def)
  then show ?thesis using j(2) none by (simp add: caught_def trans_append)
qed

lemma caught_step:
  assumes "in_step trans view key up (table_append down i ts props out)" and "table_ok up" and "main_ref up = Some e"
    and "\<forall>s \<in> set (snaps down). committed_at s < ts" and "map_of props JOB = Some JOB_DECODE" "map_of props key = Some (show_int e)"
  shows "caught trans view up (table_append down i ts props out)"
  by (rule caught_level [OF assms(1-3)])
    (use src_position_append [OF assms(4,5) key_name(1)] assms(6) in \<open>simp add: level_with_def has_position_def\<close>)

end

section \<open>Bronze\<close>

lemma write_tables_grown:
  "write_tables env fs raw_id ts st = (st', r) \<Longrightarrow> grown (b_commits st) (b_tables st nm) (b_commits st') (b_tables st' nm)"
proof (induction ts arbitrary: st r)
  case (Cons t ts)
  show ?case
  proof (cases "b_commits st")
    case Nil
    then show ?thesis using Cons.prems by (auto intro: grown.still)
  next
    case (Cons c rest)
    obtain i time where c: "c = (i, time)" by force
    let ?tbl = "table_append (b_tables st (vt_name t)) i time (decode_props SRC_SNAPSHOT_ID raw_id) (bronze_project env fs t)"
    let ?st = "st\<lparr>b_tables := (b_tables st)(vt_name t := ?tbl), b_commits := rest\<rparr>"
    have "grown (b_commits st) (b_tables st nm) rest (b_tables ?st nm)"
      unfolding Cons c by (auto intro: grown.intros)
    moreover have "grown rest (b_tables ?st nm) (b_commits st') (b_tables st' nm)"
    proof (cases "added_records ?tbl")
      case (Inl e)
      then show ?thesis using Cons.prems Cons c by (auto intro: grown.still simp: Let_def)
    next
      case (Inr n)
      then obtain r' where "write_tables env fs raw_id ts ?st = (st', r')"
        using Cons.prems Cons c by (cases "write_tables env fs raw_id ts ?st") (auto simp: Let_def split: sum.splits)
      from Cons.IH [OF this] show ?thesis by simp
    qed
    ultimately show ?thesis by (blast intro: grown_trans)
  qed
qed (auto intro: grown.still)

lemma bronze_decode_grown:
  "bronze_decode env source raw_id run_ts ex st = (st', r) \<Longrightarrow> grown (b_commits st) (b_tables st nm) (b_commits st') (b_tables st' nm)"
  using write_tables_grown [of env _ raw_id "venue_tables ex" st]
  by (auto simp: bronze_decode_def Let_def intro: grown.still split: sum.splits prod.splits option.splits)

lemma stage_venues_grown:
  "stage_venues env rawt raw_id run_ts exs st = (st', r) \<Longrightarrow> grown (b_commits st) (b_tables st nm) (b_commits st') (b_tables st' nm)"
proof (induction exs arbitrary: st r)
  case (Cons ex exs)
  show ?case
  proof (cases "1 < length (remdups (venue_starts ex st)) \<or> level_with (hd (venue_starts ex st)) raw_id")
    case True
    then show ?thesis using Cons by (auto simp: Let_def intro: grown.still split: if_splits)
  next
    case False
    show ?thesis
    proof (cases "bronze_source rawt raw_id (hd (venue_starts ex st)) ex None")
      case (Inr source)
      obtain st1 r1 where d: "bronze_decode env source raw_id run_ts ex st = (st1, r1)" by force
      have "st' = st1 \<or> (\<exists>r2. stage_venues env rawt raw_id run_ts exs st1 = (st', r2))"
        using Cons.prems False Inr d by (auto simp: Let_def split: sum.splits prod.splits)
      then show ?thesis using bronze_decode_grown [OF d, of nm] Cons.IH grown_trans by blast
    qed (use Cons.prems False in \<open>auto simp: intro: grown.still\<close>)
  qed
qed (auto intro: grown.still)

lemma write_tables_done:
  assumes "write_tables env fs raw_id ts st = (st', Inr w)" and "\<forall>nm. clock_ok (b_commits st) (b_tables st nm)" and "distinct (map vt_name ts)"
  shows "\<forall>nm. (nm \<in> vt_name ` set ts \<longrightarrow> src_position (b_tables st' nm) SRC_SNAPSHOT_ID = Some (show_int raw_id)) \<and>
    (nm \<notin> vt_name ` set ts \<longrightarrow> b_tables st' nm = b_tables st nm)"
  using assms
proof (induction ts arbitrary: st w)
  case (Cons t ts)
  obtain i time rest where c: "b_commits st = (i, time) # rest" using Cons.prems(1) by (cases "b_commits st") auto
  let ?tbl = "table_append (b_tables st (vt_name t)) i time (decode_props SRC_SNAPSHOT_ID raw_id) (bronze_project env fs t)"
  let ?st = "st\<lparr>b_tables := (b_tables st)(vt_name t := ?tbl), b_commits := rest\<rparr>"
  have clk: "clock_ok ((i, time) # rest) (b_tables st nm)" for nm using Cons.prems(2) c by simp
  obtain w' where rest: "write_tables env fs raw_id ts ?st = (st', Inr w')"
    using Cons.prems(1) c by (auto simp: Let_def split: sum.splits prod.splits)
  have pos: "src_position ?tbl SRC_SNAPSHOT_ID = Some (show_int raw_id)"
    using src_position_append [OF _ decode_props_lookup(1), of "b_tables st (vt_name t)" time SRC_SNAPSHOT_ID] clk [of "vt_name t"]
    by (auto simp: clock_ok_def decode_props_lookup) (simp add: SRC_SNAPSHOT_ID_def)
  have "\<forall>nm. clock_ok (b_commits ?st) (b_tables ?st nm)"
    using clock_ok_append [OF clk] clock_ok_tail [OF clk] by simp
  from Cons.IH [OF rest this] Cons.prems(3) pos show ?case by auto
qed simp

lemma bronze_decode_caught:
  assumes ok: "bronze_ok env rawt st" and rawt: "table_ok rawt" "main_ref rawt = Some raw_id"
    and starts: "\<forall>t \<in> set (venue_tables ex). src_position (b_tables st (vt_name t)) SRC_SNAPSHOT_ID = start"
    and src: "bronze_source rawt raw_id start ex None = Inr source"
    and dec: "bronze_decode env source raw_id run_ts ex st = (st', Inr w)" and t: "t \<in> set (venue_tables ex)"
  shows "caught (bronze_view env t) each rawt (b_tables st' (vt_name t))"
proof -
  have mem: "t \<in> set VENUE_TABLES" using t venue_tables_sub by blast
  obtain rows where rows: "incremental_read rawt start raw_id = Inr rows" "source = filter (venue_raw ex None) rows"
    using src by (auto simp: bronze_source_def res_bind_Inr)
  have ns: "\<forall>r \<in> set source. r_schema_id r \<noteq> None" by (auto simp: rows(2) venue_raw_def)
  obtain fr un where x: "decoded_raw env source = Inr (fr, un)"
    using dec by (auto simp: bronze_decode_def split: sum.splits)
  show ?thesis
  proof (cases fr)
    case None
    then have "b_tables st' = b_tables st" using dec x by (auto simp: bronze_decode_def Let_def)
    moreover have "frames_of env source = []" using decoded_raw_frames(1) [OF ns x] None by simp
    then have "bronze_view env t rows = []"
      using venue_tables_exchange [OF t] by (simp add: bronze_view_def rows(2) bronze_project_def)
    ultimately show ?thesis
      using bronze_layer.caught_nothing [OF _ rawt, of env t "b_tables st (vt_name t)" rows] ok mem starts t rows(1)
      by (simp add: bronze_ok_def)
  next
    case (Some fs)
    obtain st1 where w: "write_tables env fs raw_id (venue_tables ex) st = (st1, Inr w)" "b_tables st' = b_tables st1"
      using dec x Some by (auto simp: bronze_decode_def Let_def split: sum.splits prod.splits)
    have "src_position (b_tables st1 (vt_name t)) SRC_SNAPSHOT_ID = Some (show_int raw_id)"
      using write_tables_done [OF w(1) _ venue_tables_names] ok t by (simp add: bronze_ok_def)
    moreover have "bronze_ok env rawt st'"
      by (rule bronze_decode_ok [OF ok _ _ starts src dec]) (use rawt table_ok_main [OF rawt] in \<open>auto simp: table_ok_def\<close>)
    ultimately show ?thesis
      using bronze_layer.caught_level [OF _ rawt, of env t "b_tables st1 (vt_name t)"] mem w(2)
      by (simp add: bronze_ok_def level_with_def has_position_def)
  qed
qed

lemma bronze_decode_frame:
  assumes "bronze_decode env source raw_id run_ts ex st = (st', Inr w)" and "\<forall>nm. clock_ok (b_commits st) (b_tables st nm)"
    and "t \<in> set VENUE_TABLES" and "vt_exchange t \<noteq> ex"
  shows "b_tables st' (vt_name t) = b_tables st (vt_name t)"
proof -
  have "vt_name t \<notin> vt_name ` set (venue_tables ex)"
    using assms(3,4) venue_name_inj [OF assms(3)] venue_tables_sub venue_tables_exchange by (auto dest!: subsetD)
  then show ?thesis
    using assms(1) write_tables_done [OF _ assms(2) venue_tables_names]
    by (auto simp: bronze_decode_def Let_def split: sum.splits prod.splits option.splits)
qed

lemma stage_venues_caught:
  assumes "stage_venues env rawt raw_id run_ts exs st = (st', Inr n)" and "bronze_ok env rawt st" and "distinct exs"
    and "table_ok rawt" "main_ref rawt = Some raw_id" and "t \<in> set VENUE_TABLES"
  shows "if vt_exchange t \<in> set exs then caught (bronze_view env t) each rawt (b_tables st' (vt_name t))
    else b_tables st' (vt_name t) = b_tables st (vt_name t)"
  using assms(1-3)
proof (induction exs arbitrary: st n)
  case (Cons ex exs)
  have ids: "distinct (map snap_id (snaps rawt))" "raw_id \<in> set (map snap_id (snaps rawt))"
    using assms(4) table_ok_main [OF assms(4,5)] by (auto simp: table_ok_def)
  have starts: "\<forall>u \<in> set (venue_tables ex). src_position (b_tables st (vt_name u)) SRC_SNAPSHOT_ID = hd (venue_starts ex st)"
    if "\<not> 1 < length (remdups (venue_starts ex st))"
    using starts_equal [of "venue_starts ex st"] that by (auto simp: venue_starts_def)
  have one: "\<not> 1 < length (remdups (venue_starts ex st))" using Cons.prems(1) by (auto simp: Let_def)
  have mem: "t \<in> set (venue_tables ex) \<longleftrightarrow> vt_exchange t = ex" using assms(6) by (simp add: venue_tables_def)
  show ?case
  proof (cases "level_with (hd (venue_starts ex st)) raw_id")
    case True
    then have "stage_venues env rawt raw_id run_ts exs st = (st', Inr n)" using Cons.prems(1) one by (simp add: Let_def)
    note IH = Cons.IH [OF this Cons.prems(2)]
    moreover have "caught (bronze_view env t) each rawt (b_tables st (vt_name t))" if "vt_exchange t = ex"
      using bronze_layer.caught_level [OF _ assms(4,5), of env t "b_tables st (vt_name t)"] Cons.prems(2) assms(6) starts [OF one] True mem that
      by (simp add: bronze_ok_def)
    ultimately show ?thesis using Cons.prems(3) by (auto split: if_splits)
  next
    case False
    obtain source st1 w m where s: "bronze_source rawt raw_id (hd (venue_starts ex st)) ex None = Inr source"
      and d: "bronze_decode env source raw_id run_ts ex st = (st1, Inr w)" and rest: "stage_venues env rawt raw_id run_ts exs st1 = (st', Inr m)"
      using Cons.prems(1) False one by (auto simp: Let_def split: sum.splits prod.splits)
    have ok1: "bronze_ok env rawt st1" by (rule bronze_decode_ok [OF Cons.prems(2) ids starts [OF one] s d])
    from Cons.IH [OF rest ok1] Cons.prems(3)
    have "if vt_exchange t \<in> set exs then caught (bronze_view env t) each rawt (b_tables st' (vt_name t))
      else b_tables st' (vt_name t) = b_tables st1 (vt_name t)" by simp
    moreover have "b_tables st1 (vt_name t) = b_tables st (vt_name t)" if "vt_exchange t \<noteq> ex"
      using bronze_decode_frame [OF d _ assms(6) that] Cons.prems(2) by (simp add: bronze_ok_def)
    moreover have "caught (bronze_view env t) each rawt (b_tables st1 (vt_name t))" if "vt_exchange t = ex"
      using bronze_decode_caught [OF Cons.prems(2) assms(4,5) starts [OF one] s d] mem that by blast
    ultimately show ?thesis using Cons.prems(3) by auto
  qed
qed simp

section \<open>Silver\<close>

lemma silver_step_grown:
  assumes "silver_step env v src run_ts (cs, t) = ((cs', t'), r)"
  shows "grown cs t cs' t' \<and> grown cs u cs' u"
proof (cases "t' = t \<and> cs' = cs")
  case False
  then obtain rows e where "silver_write env v rows e run_ts (cs, t) = ((cs', t'), r)"
    using assms by (auto simp: silver_step_def Let_def split: option.splits if_splits sum.splits)
  then show ?thesis
    by (cases rule: silver_write_cases) (use False in \<open>auto intro: grown.intros\<close>)
qed (auto intro: grown.still)

lemma silver_stage_grown:
  "silver_stage env src run_ts vs (cs, f) = ((cs', f'), r) \<Longrightarrow> grown cs (f u) cs' (f' u)"
proof (induction vs arbitrary: cs f r)
  case (Cons v vs)
  obtain cs1 t1 r1 where one: "silver_step env v (src v) run_ts (cs, f v) = ((cs1, t1), r1)" by (metis prod.exhaust)
  have "grown cs (f u) cs1 ((f(v := t1)) u)" using silver_step_grown [OF one, of "f u"] by auto
  moreover have "(cs', f') = (cs1, f(v := t1)) \<or> (\<exists>r2. silver_stage env src run_ts vs (cs1, f(v := t1)) = ((cs', f'), r2))"
    using Cons.prems one by (auto split: sum.splits prod.splits)
  ultimately show ?case using Cons.IH grown_trans by blast
qed (auto intro: grown.still)

lemma silver_step_caught:
  assumes s: "silver_step env v src run_ts (cs, t) = ((cs', t'), Inr n)" and ok: "table_ok src" and clk: "clock_ok cs t"
    and sync: "in_step (silver_typed env v) (each \<circ> silver_view) SRC_SNAPSHOT_ID src t"
    and sync': "in_step (silver_typed env v) (each \<circ> silver_view) SRC_SNAPSHOT_ID src t'"
  shows "caught (silver_typed env v) (each \<circ> silver_view) src t'"
proof (cases "main_ref src")
  case None
  then show ?thesis using s silver_layer.caught_none [OF sync ok] by (simp add: silver_step_def current_snapshot_id_def)
next
  case (Some e)
  show ?thesis
  proof (cases "level_with (src_position t SRC_SNAPSHOT_ID) e")
    case True
    then show ?thesis using s Some silver_layer.caught_level [OF sync ok Some] by (simp add: silver_step_def current_snapshot_id_def)
  next
    case False
    then obtain rows where rd: "incremental_read src (src_position t SRC_SNAPSHOT_ID) e = Inr rows"
      and w: "silver_write env v rows e run_ts (cs, t) = ((cs', t'), Inr n)"
      using s Some by (auto simp: silver_step_def current_snapshot_id_def Let_def split: sum.splits)
    from w show ?thesis
    proof (cases rule: silver_write_cases)
      case same
      then have "silver_project (se_casts env) (se_registry env) run_ts v rows = Inr []"
        using w by (auto simp: silver_write_def Let_def table_append_def split: sum.splits if_splits list.splits)
      from project_typed [OF this] show ?thesis
        using silver_layer.caught_nothing [OF sync ok Some rd] same by simp
    next
      case (commit batch i time)
      have "\<forall>s \<in> set (snaps t). committed_at s < time" using clk commit(4) by (auto simp: clock_ok_def)
      from silver_layer.caught_step [OF sync' [unfolded commit(5)] ok Some this decode_props_lookup]
      show ?thesis by (simp only: commit(5))
    qed
  qed
qed

lemma silver_stage_caught:
  assumes "silver_stage env src run_ts vs (cs, f) = ((cs', f'), Inr n)" and "silver_ok env src (cs, f)" and "distinct vs"
    and "\<forall>v. table_ok (src v)"
  shows "(v \<in> set vs \<longrightarrow> caught (silver_typed env v) (each \<circ> silver_view) (src v) (f' v)) \<and> (v \<notin> set vs \<longrightarrow> f' v = f v)"
  using assms(1-3)
proof (induction vs arbitrary: cs f n)
  case (Cons u us)
  obtain cs1 t1 m n2 where one: "silver_step env u (src u) run_ts (cs, f u) = ((cs1, t1), Inr m)"
    and rest: "silver_stage env src run_ts us (cs1, f(u := t1)) = ((cs', f'), Inr n2)"
    using Cons.prems(1) by (auto split: sum.splits prod.splits)
  have ids: "distinct (map snap_id (snaps (src u)))" "\<forall>i. main_ref (src u) = Some i \<longrightarrow> i \<in> set (map snap_id (snaps (src u)))"
    using assms(4) table_ok_main by (auto simp: table_ok_def)
  have ok1: "silver_ok env src (cs1, f(u := t1))"
    using silver_step_ok [OF Cons.prems(2) ids, of run_ts cs1 t1 "Inr m"] one by simp
  have "caught (silver_typed env u) (each \<circ> silver_view) (src u) t1"
    by (rule silver_step_caught [OF one]) (use assms(4) Cons.prems(2) ok1 in \<open>auto simp: silver_ok_def dest: spec [of _ u]\<close>)
  then show ?case using Cons.IH [OF rest ok1] Cons.prems(3) by (auto simp: comp_def)
qed simp

section \<open>Gold\<close>

lemma stage_frames_trades: "stage_frames fs minutes run_ts g = (g', r) \<Longrightarrow> gd_trades g' = gd_trades g"
proof (induction fs arbitrary: g r)
  case (Cons f fs)
  then show ?case by (cases f) (fastforce simp: Let_def split: prod.splits sum.splits option.splits list.splits if_splits)
qed simp

lemma gold_stage_trades:
  assumes "gold_stage env run_ts g = (g', r)"
  shows "gd_trades g' = gd_trades (fst (gold_trades env run_ts TRADES g)) \<and>
    (\<forall>n. r = Inr n \<longrightarrow> (\<exists>x. snd (gold_trades env run_ts TRADES g) = Inr x))"
proof -
  have bars: "gd_trades (fst (stage_bars env ms run_ts h)) = gd_trades h" for ms h
    by (auto simp: stage_bars_def Let_def split: option.splits sum.splits list.splits)
  have frames: "gd_trades (fst (stage_ohlcv ms run_ts h)) = gd_trades h" for ms h
    using stage_frames_trades [of OHLCV ms run_ts h] by (metis prod.collapse stage_ohlcv_def)
  have dims: "gd_trades (fst (load_dims env run_ts h)) = gd_trades h" for h
    using load_dims_keeps [of env run_ts h] by (metis prod.collapse)
  obtain g1 r1 where t: "gold_trades env run_ts TRADES g = (g1, r1)" by force
  obtain g2 r2 where d: "load_dims env run_ts g1 = (g2, r2)" by force
  show ?thesis
    using assms t d bars [of _ "fst (stage_ohlcv _ run_ts g2)"] frames [of _ g2] dims [of g1]
    by (cases r1; cases r2) (auto simp: gold_stage_def split: option.splits prod.splits sum.splits, (metis fst_conv)+)
qed

lemma gold_trades_caught:
  assumes run: "gold_trades env run_ts TRADES g = (g', Inr x)" and ok: "gold_ok env g" and up: "\<forall>v. table_ok (ge_silver env v)"
  shows "caught (gold_typed v) (gold_view v) (ge_silver env v) (gd_trades g')"
proof -
  have v: "v \<in> set TRADES" "distinct TRADES" by (cases v) (auto simp: TRADES_def)
  have "\<forall>v. distinct (map snap_id (snaps (ge_silver env v))) \<and>
      (\<forall>i. main_ref (ge_silver env v) = Some i \<longrightarrow> i \<in> set (map snap_id (snaps (ge_silver env v))))"
    using up table_ok_main by (auto simp: table_ok_def)
  from gold_trades_ok [OF ok this, of run_ts TRADES] have ok': "gold_ok env g'" using run by simp
  then have sync: "in_step (gold_typed v) (gold_view v) (position_key v) (ge_silver env v) (gd_trades g')" by (simp add: gold_ok_def)
  show ?thesis
  proof (cases "main_ref (ge_silver env v)")
    case None
    then show ?thesis using gold_layer.caught_none [OF sync] up by blast
  next
    case (Some e)
    then have "level_with (src_position (gd_trades g') (position_key v)) e"
      using trades_level [OF run _ v(2)] ok v(1) by (auto simp: gold_ok_def)
    then show ?thesis using gold_layer.caught_level [OF sync _ Some] up by blast
  qed
qed

section \<open>The whole lake\<close>

text \<open>
  Every table of a layer is in step with the table it is derived from, and no table was rolled back; the
  payload parsers and the registry are those of the runs.
\<close>

definition coherent :: "'j bronze_env \<Rightarrow> ('j \<Rightarrow> trade_cols) \<Rightarrow> silver_env \<Rightarrow> 'j warehouse \<Rightarrow> bool" where
  "coherent benv trade senv w =
     (table_ok (wh_raw w) \<and> (\<forall>nm. table_ok (wh_bronze w nm)) \<and> (\<forall>v. table_ok (wh_silver w v)) \<and>
      (\<forall>t \<in> set VENUE_TABLES. in_step (bronze_view benv t) each SRC_SNAPSHOT_ID (wh_raw w) (wh_bronze w (vt_name t))) \<and>
      (\<forall>v. in_step (silver_typed senv v) (each \<circ> silver_view) SRC_SNAPSHOT_ID (trade_feed trade w v) (wh_silver w v)) \<and>
      (\<forall>v. in_step (gold_typed v) (gold_view v) (position_key v) (wh_silver w v) (gd_trades (wh_gold w))))"

definition bronze_complete :: "'j bronze_env \<Rightarrow> 'j warehouse \<Rightarrow> bool" where
  "bronze_complete benv w = (\<forall>t \<in> set VENUE_TABLES. caught (bronze_view benv t) each (wh_raw w) (wh_bronze w (vt_name t)))"

definition silver_complete :: "('j \<Rightarrow> trade_cols) \<Rightarrow> silver_env \<Rightarrow> 'j warehouse \<Rightarrow> bool" where
  "silver_complete trade senv w = (\<forall>v. caught (silver_typed senv v) (each \<circ> silver_view) (trade_feed trade w v) (wh_silver w v))"

definition gold_complete :: "'j warehouse \<Rightarrow> bool" where
  "gold_complete w = (\<forall>v. caught (gold_typed v) (gold_view v) (wh_silver w v) (gd_trades (wh_gold w)))"

text \<open>The catalog gives commits new ids and later times.\<close>

definition commits_fresh :: "'j run_env \<Rightarrow> 'j warehouse \<Rightarrow> bool" where
  "commits_fresh env w =
     (clock_ok [e_commit (rn_ingest env)] (wh_raw w) \<and> (\<forall>nm. clock_ok (rn_bronze_commits env) (wh_bronze w nm)) \<and>
      (\<forall>v. clock_ok (rn_silver_commits env) (wh_silver w v)) \<and> clock_ok (rn_gold_commits env) (gd_trades (wh_gold w)))"

lemma coherent_raw:
  assumes "coherent benv trade senv w" and "table_ok t" and "snaps t = snaps (wh_raw w) @ later"
  shows "coherent benv trade senv (w\<lparr>wh_raw := t, wh_checks := chk\<rparr>)"
  using assms bronze_layer.upstream_grows [of benv _ "wh_raw w" _ t later] by (auto simp: coherent_def trade_feed_def)

lemma commit_range_grown:
  "commit_range env its c window t = (t', r) \<Longrightarrow> grown [e_commit env] t [e_commit env] t' \<or> grown [e_commit env] t [] t'"
  using grown.appended [OF grown.still, of "fst (e_commit env)" "snd (e_commit env)" "[]" t]
  by (auto simp: commit_range_def Let_def intro: grown.still split: prod.splits option.splits if_splits)

lemma stage_raw_grown:
  assumes "stage_raw env its end_ts m accept lk = (lk', r)"
  shows "grown [e_commit env] (raw lk) [e_commit env] (raw lk') \<or> grown [e_commit env] (raw lk) [] (raw lk')"
  using assms commit_range_grown [of env its]
  by (fastforce simp: stage_raw_def Let_def intro: grown.still split: sum.splits prod.splits if_splits)

lemma run_raw_ok:
  assumes "run_raw env args w = (w', r)" and "coherent benv trade senv w" and "commits_fresh env w"
  shows "coherent benv trade senv w' \<and> commits_fresh env w' = clock_ok [e_commit (rn_ingest env)] (wh_raw w') \<and>
    wh_bronze w' = wh_bronze w \<and> wh_silver w' = wh_silver w \<and> wh_gold w' = wh_gold w"
proof -
  obtain lk q where s: "stage_raw (rn_ingest env) (rn_now env) (ru_end args) (ru_max args) (ru_accept args) \<lparr>raw = wh_raw w, checks = wh_checks w\<rparr> = (lk, q)"
    by force
  have w': "w' = w\<lparr>wh_raw := raw lk, wh_checks := checks lk\<rparr>" using assms(1) s by (simp add: run_raw_def)
  have clk: "clock_ok [e_commit (rn_ingest env)] (wh_raw w)" using assms(3) by (simp add: commits_fresh_def)
  obtain cs where g: "grown [e_commit (rn_ingest env)] (wh_raw w) cs (raw lk)" using stage_raw_grown [OF s] by auto
  have "table_ok (raw lk)" by (rule grown_ok [OF g clk]) (use assms(2) in \<open>simp add: coherent_def\<close>)
  then show ?thesis using coherent_raw [OF assms(2)] grown_snaps [OF g] assms(3) by (auto simp: w' commits_fresh_def)
qed

lemma run_bronze_ok:
  assumes "run_bronze env w = (w', r)" and "coherent (rn_bronze env) trade senv w" and "\<forall>nm. clock_ok (rn_bronze_commits env) (wh_bronze w nm)"
  shows "coherent (rn_bronze env) trade senv w' \<and> wh_raw w' = wh_raw w \<and> wh_silver w' = wh_silver w \<and> wh_gold w' = wh_gold w \<and>
    (r = Inr () \<longrightarrow> bronze_complete (rn_bronze env) w')"
proof -
  let ?st = "\<lparr>b_tables = wh_bronze w, b_checks = wh_checks w, b_commits = rn_bronze_commits env, b_audit_commits = rn_audit_commits env\<rparr>"
  obtain b q where s: "bronze_stage (rn_bronze env) (wh_raw w) (current_snapshot_id (wh_raw w)) (rn_now env) ?st = (b, q)" by force
  have w': "w' = w\<lparr>wh_bronze := b_tables b, wh_checks := b_checks b\<rparr>" and r: "r = res_bind q (\<lambda>_. Inr ())"
    using assms(1) s by (auto simp: run_bronze_def)
  note co = assms(2) [unfolded coherent_def]
  have ok: "bronze_ok (rn_bronze env) (wh_raw w) ?st" using co assms(3) by (simp add: bronze_ok_def)
  show ?thesis
  proof (cases "main_ref (wh_raw w)")
    case None
    then have b: "b = ?st" using s by (simp add: bronze_stage_def current_snapshot_id_def)
    moreover have "caught (bronze_view (rn_bronze env) t) each (wh_raw w) (wh_bronze w (vt_name t))" if "t \<in> set VENUE_TABLES" for t
      by (rule bronze_layer.caught_none [OF _ _ None]) (use co that in auto)
    then have "bronze_complete (rn_bronze env) w" by (simp add: bronze_complete_def)
    ultimately show ?thesis using assms(2) by (simp add: w' coherent_def bronze_complete_def trade_feed_def)
  next
    case (Some i)
    then have v: "stage_venues (rn_bronze env) (wh_raw w) i (rn_now env) bronze_exchanges ?st = (b, q)"
      using s by (simp add: bronze_stage_def current_snapshot_id_def)
    have ids: "distinct (map snap_id (snaps (wh_raw w)))" "i \<in> set (map snap_id (snaps (wh_raw w)))"
      using co table_ok_main [of "wh_raw w" i] Some by (auto simp: table_ok_def)
    have ok': "bronze_ok (rn_bronze env) (wh_raw w) b" by (rule stage_venues_ok [OF ok ids v])
    have g: "grown (rn_bronze_commits env) (wh_bronze w nm) (b_commits b) (b_tables b nm)" for nm
      using stage_venues_grown [OF v, of nm] by simp
    have tok: "table_ok (b_tables b nm)" for nm by (rule grown_ok [OF g]) (use assms(3) co in simp_all)
    have "in_step (silver_typed senv v) (each \<circ> silver_view) SRC_SNAPSHOT_ID (trade_feed trade w' v) (wh_silver w v)" for v
    proof -
      obtain later where "snaps (b_tables b (trade_source v)) = snaps (wh_bronze w (trade_source v)) @ later" using grown_snaps [OF g] by blast
      then obtain later' where "snaps (trade_feed trade w' v) = snaps (trade_feed trade w v) @ later'" by (auto simp: trade_feed_def view_table_def w')
      from silver_layer.upstream_grows [OF _ this] co show ?thesis by blast
    qed
    then have "coherent (rn_bronze env) trade senv w'" using co ok' tok by (simp add: coherent_def w' bronze_ok_def)
    moreover have "bronze_complete (rn_bronze env) w'" if "r = Inr ()"
    proof -
      obtain n where "q = Inr n" using r \<open>r = Inr ()\<close> by (cases q) auto
      moreover have "vt_exchange t \<in> set bronze_exchanges" if "t \<in> set VENUE_TABLES" for t using that by (simp add: bronze_exchanges_def)
      moreover have "distinct bronze_exchanges" by (simp add: bronze_exchanges_def)
      ultimately show ?thesis
        using stage_venues_caught [OF v [unfolded \<open>q = Inr n\<close>] ok] co Some by (simp add: bronze_complete_def w')
    qed
    ultimately show ?thesis by (simp add: w')
  qed
qed

lemma run_silver_ok:
  assumes "run_silver env w = (w', r)" and "coherent benv (rn_trade env) (rn_silver env) w"
    and "\<forall>v. clock_ok (rn_silver_commits env) (wh_silver w v)"
  shows "coherent benv (rn_trade env) (rn_silver env) w' \<and> wh_raw w' = wh_raw w \<and> wh_bronze w' = wh_bronze w \<and> wh_gold w' = wh_gold w \<and>
    (r = Inr () \<longrightarrow> silver_complete (rn_trade env) (rn_silver env) w')"
proof -
  let ?src = "trade_feed (rn_trade env) w"
  obtain cs f q where s: "silver_stage (rn_silver env) ?src (rn_now env) TRADES (rn_silver_commits env, wh_silver w) = ((cs, f), q)"
    by (metis prod.exhaust)
  have w': "w' = w\<lparr>wh_silver := f\<rparr>" and r: "r = res_bind q (\<lambda>_. Inr ())" using assms(1) s by (auto simp: run_silver_def)
  note co = assms(2) [unfolded coherent_def]
  have src: "table_ok (?src v)" for v using co by (simp add: trade_feed_def)
  have ok: "silver_ok (rn_silver env) ?src (rn_silver_commits env, wh_silver w)" using co assms(3) by (simp add: silver_ok_def)
  have ok': "silver_ok (rn_silver env) ?src (cs, f)"
    using silver_stage_ok [OF ok, of "rn_now env" TRADES] src table_ok_main [OF src] s by (auto simp: table_ok_def)
  note g = silver_stage_grown [OF s]
  have tok: "table_ok (f v)" for v by (rule grown_ok [OF g]) (use assms(3) co in simp_all)
  have "in_step (gold_typed v) (gold_view v) (position_key v) (f v) (gd_trades (wh_gold w))" for v
    using gold_layer.upstream_grows [of v "wh_silver w v" _ "f v"] grown_snaps [OF g, of v] co by blast
  then have "coherent benv (rn_trade env) (rn_silver env) w'"
    using co ok' tok by (simp add: coherent_def w' silver_ok_def trade_feed_def)
  moreover have "silver_complete (rn_trade env) (rn_silver env) w'" if "r = Inr ()"
  proof -
    obtain n where "q = Inr n" using r \<open>r = Inr ()\<close> by (cases q) auto
    moreover have "v \<in> set TRADES" "distinct TRADES" for v by (cases v) (simp_all add: TRADES_def)
    ultimately have "caught (silver_typed (rn_silver env) v) (each \<circ> silver_view) (?src v) (f v)" for v
      using silver_stage_caught [OF s [unfolded \<open>q = Inr n\<close>] ok, of v] src by blast
    then show ?thesis by (simp add: silver_complete_def w' trade_feed_def)
  qed
  ultimately show ?thesis by (simp add: w')
qed

lemma run_gold_ok:
  assumes "run_gold env w = (w', r)" and "coherent benv trade senv w" and "clock_ok (rn_gold_commits env) (gd_trades (wh_gold w))"
  shows "coherent benv trade senv w' \<and> wh_raw w' = wh_raw w \<and> wh_bronze w' = wh_bronze w \<and> wh_silver w' = wh_silver w \<and>
    (r = Inr () \<longrightarrow> gold_complete w')"
proof -
  let ?env = "(rn_gold env)\<lparr>ge_silver := wh_silver w\<rparr>" and ?g = "(wh_gold w)\<lparr>gd_commits := rn_gold_commits env\<rparr>"
  obtain g q where s: "gold_stage ?env (rn_now env) ?g = (g, q)" by force
  have w': "w' = w\<lparr>wh_gold := g\<rparr>" and r: "r = res_bind q (\<lambda>_. Inr ())" using assms(1) s by (auto simp: run_gold_def)
  note co = assms(2) [unfolded coherent_def]
  obtain g1 q1 where t: "gold_trades ?env (rn_now env) TRADES ?g = (g1, q1)" by force
  note st = gold_stage_trades [OF s, unfolded t fst_conv snd_conv]
  have ok: "gold_ok ?env ?g" using co assms(3) by (simp add: gold_ok_def)
  have up: "\<forall>v. table_ok (ge_silver ?env v)" using co by simp
  then have "\<forall>v. distinct (map snap_id (snaps (ge_silver ?env v))) \<and>
      (\<forall>i. main_ref (ge_silver ?env v) = Some i \<longrightarrow> i \<in> set (map snap_id (snaps (ge_silver ?env v))))"
    using table_ok_main by (auto simp: table_ok_def)
  from gold_trades_ok [OF ok this, of "rn_now env" TRADES] have "gold_ok ?env g1" using t by simp
  then have "coherent benv trade senv w'" using co st by (simp add: coherent_def w' gold_ok_def trade_feed_def)
  moreover have "gold_complete w'" if "r = Inr ()"
  proof -
    obtain n where "q = Inr n" using r \<open>r = Inr ()\<close> by (cases q) auto
    then obtain x where "q1 = Inr x" using st by blast
    from gold_trades_caught [OF t [unfolded this] ok up] st show ?thesis by (simp add: gold_complete_def w')
  qed
  ultimately show ?thesis by (simp add: w')
qed

lemma run_books_keeps:
  "run_books env w = (w', r) \<Longrightarrow> wh_raw w' = wh_raw w \<and> wh_bronze w' = wh_bronze w \<and> wh_silver w' = wh_silver w \<and> wh_gold w' = wh_gold w"
  by (auto simp: run_books_def split: prod.splits)

lemma in_order_Cons:
  assumes "in_order (f # fs) w = (w', r)"
  obtains (raises) e where "f w = (w', Inl e)" "r = Inl e"
  | (goes_on) w1 where "f w = (w1, Inr ())" "in_order fs w1 = (w', r)"
  using assms by (cases "f w"; cases "snd (f w)") auto

text \<open>The stages behind stage 1, from a coherent lake: coherent whatever happens, and complete when nothing raises.\<close>

lemma run_derived_ok:
  assumes run: "in_order [run_bronze env, run_silver env, run_gold env, run_books env] w = (w', r)"
    and co: "coherent (rn_bronze env) (rn_trade env) (rn_silver env) w"
    and fresh: "\<forall>nm. clock_ok (rn_bronze_commits env) (wh_bronze w nm)" "\<forall>v. clock_ok (rn_silver_commits env) (wh_silver w v)"
      "clock_ok (rn_gold_commits env) (gd_trades (wh_gold w))"
  shows "coherent (rn_bronze env) (rn_trade env) (rn_silver env) w' \<and> wh_raw w' = wh_raw w \<and>
    (r = Inr () \<longrightarrow> bronze_complete (rn_bronze env) w' \<and> silver_complete (rn_trade env) (rn_silver env) w' \<and> gold_complete w')"
  using run
proof (cases rule: in_order_Cons)
  case raises
  then show ?thesis using run_bronze_ok [OF raises(1) co fresh(1)] by simp
next
  case (goes_on w1)
  note b = run_bronze_ok [OF goes_on(1) co fresh(1), simplified]
  from goes_on(2) show ?thesis
  proof (cases rule: in_order_Cons)
    case raises
    then show ?thesis using run_silver_ok [OF raises(1), of "rn_bronze env"] b fresh(2) by simp
  next
    case (goes_on w2)
    have s: "coherent (rn_bronze env) (rn_trade env) (rn_silver env) w2 \<and> wh_raw w2 = wh_raw w1 \<and> wh_bronze w2 = wh_bronze w1 \<and>
        wh_gold w2 = wh_gold w1 \<and> silver_complete (rn_trade env) (rn_silver env) w2"
      using run_silver_ok [OF goes_on(1), of "rn_bronze env"] b fresh(2) by simp
    from goes_on(2) show ?thesis
    proof (cases rule: in_order_Cons)
      case raises
      then show ?thesis using run_gold_ok [OF raises(1), of "rn_bronze env" "rn_trade env" "rn_silver env"] s b fresh(3) by simp
    next
      case (goes_on w3)
      have g: "coherent (rn_bronze env) (rn_trade env) (rn_silver env) w3 \<and> wh_raw w3 = wh_raw w2 \<and> wh_bronze w3 = wh_bronze w2 \<and>
          wh_silver w3 = wh_silver w2 \<and> gold_complete w3"
        using run_gold_ok [OF goes_on(1), of "rn_bronze env" "rn_trade env" "rn_silver env"] s b fresh(3) by simp
      obtain r' where "run_books env w3 = (w', r')" using goes_on(2) by (cases rule: in_order_Cons) auto
      from run_books_keeps [OF this] show ?thesis
        using s g b by (auto simp: coherent_def trade_feed_def bronze_complete_def silver_complete_def gold_complete_def)
    qed
  qed
qed

lemma run_stages_ok:
  assumes run: "in_order (run_stages env args) w = (w', r)" and co: "coherent (rn_bronze env) (rn_trade env) (rn_silver env) w"
    and fresh: "commits_fresh env w"
  shows "coherent (rn_bronze env) (rn_trade env) (rn_silver env) w' \<and>
    (r = Inr () \<and> ru_stage args \<noteq> StageRaw \<longrightarrow>
      bronze_complete (rn_bronze env) w' \<and> silver_complete (rn_trade env) (rn_silver env) w' \<and> gold_complete w')"
proof -
  note f = fresh [unfolded commits_fresh_def]
  note derived = run_derived_ok [of env]
  show ?thesis
  proof (cases "ru_stage args")
    case StageBronze
    then have "in_order [run_bronze env, run_silver env, run_gold env, run_books env] w = (w', r)"
      using run by (simp add: run_stages_def del: in_order.simps)
    from derived [OF this co] f show ?thesis by simp
  next
    case StageRaw
    then have "in_order [run_raw env args] w = (w', r)" using run by (simp add: run_stages_def)
    then show ?thesis by (cases rule: in_order_Cons) (use run_raw_ok [OF _ co fresh] StageRaw in auto)
  next
    case StageAll
    then have "in_order (run_raw env args # [run_bronze env, run_silver env, run_gold env, run_books env]) w = (w', r)"
      using run by (simp add: run_stages_def del: in_order.simps)
    then show ?thesis
    proof (cases rule: in_order_Cons)
      case raises
      then show ?thesis using run_raw_ok [OF raises(1) co fresh] by simp
    next
      case (goes_on w1)
      note raw = run_raw_ok [OF goes_on(1) co fresh]
      from derived [OF goes_on(2)] raw f show ?thesis by simp
    qed
  qed
qed

section \<open>The lakes runs lead to\<close>

definition new_lake :: "'j warehouse" where
  "new_lake = \<lparr>wh_raw = empty_table, wh_checks = empty_table, wh_bronze = (\<lambda>_. empty_table), wh_silver = (\<lambda>_. empty_table),
     wh_gold = \<lparr>gd_trades = empty_table, gd_instruments = [], gd_venues = [], gd_ohlcv = (\<lambda>_. []), gd_bars = [], gd_commits = []\<rparr>,
     wh_books = \<lparr>bk_silver = (\<lambda>_. empty_table), bk_gold = empty_table, bk_bbo = [], bk_state = [], bk_commits = []\<rparr>\<rparr>"

text \<open>
  Runs of any arguments, at any time, that end in any way (a killed run is one whose commits run out), and the
  rewrites of the nightly maintenance in between.
\<close>

inductive lake_reach :: "'j bronze_env \<Rightarrow> ('j \<Rightarrow> trade_cols) \<Rightarrow> silver_env \<Rightarrow> 'j warehouse \<Rightarrow> bool" for benv trade senv where
  new: "lake_reach benv trade senv new_lake"
| run: "lake_reach benv trade senv w \<Longrightarrow> rn_bronze env = benv \<Longrightarrow> rn_trade env = trade \<Longrightarrow> rn_silver env = senv \<Longrightarrow>
    commits_fresh env w \<Longrightarrow> ingest_main env args pid (holders, w) = ((holders', w'), status) \<Longrightarrow> lake_reach benv trade senv w'"
| rewrite_raw: "lake_reach benv trade senv w \<Longrightarrow> clock_ok [(i, ts)] (wh_raw w) \<Longrightarrow>
    lake_reach benv trade senv (w\<lparr>wh_raw := table_rewrite (wh_raw w) i ts sm\<rparr>)"
| rewrite_bronze: "lake_reach benv trade senv w \<Longrightarrow> clock_ok [(i, ts)] (wh_bronze w nm) \<Longrightarrow> \<not> of_job JOB_DECODE sm \<Longrightarrow>
    lake_reach benv trade senv (w\<lparr>wh_bronze := (wh_bronze w)(nm := table_rewrite (wh_bronze w nm) i ts sm)\<rparr>)"
| rewrite_silver: "lake_reach benv trade senv w \<Longrightarrow> clock_ok [(i, ts)] (wh_silver w v) \<Longrightarrow> \<not> of_job JOB_DECODE sm \<Longrightarrow>
    lake_reach benv trade senv (w\<lparr>wh_silver := (wh_silver w)(v := table_rewrite (wh_silver w v) i ts sm)\<rparr>)"
| rewrite_gold: "lake_reach benv trade senv w \<Longrightarrow> \<not> of_job JOB_DECODE sm \<Longrightarrow>
    lake_reach benv trade senv (w\<lparr>wh_gold := (wh_gold w)\<lparr>gd_trades := table_rewrite (gd_trades (wh_gold w)) i ts sm\<rparr>\<rparr>)"

lemma table_ok_rewrite: "table_ok t \<Longrightarrow> clock_ok [(i, ts)] t \<Longrightarrow> table_ok (table_rewrite t i ts sm)"
  using table_ok_append [of t i ts "[]" "[]" "[]"] by (auto simp: table_ok_def table_rewrite_def table_append_def)

lemma coherent_bronze_rewrite:
  assumes "coherent benv trade senv w" and "clock_ok [(i, ts)] (wh_bronze w nm)" and "\<not> of_job JOB_DECODE sm"
  shows "coherent benv trade senv (w\<lparr>wh_bronze := (wh_bronze w)(nm := table_rewrite (wh_bronze w nm) i ts sm)\<rparr>)"
proof -
  let ?w = "w\<lparr>wh_bronze := (wh_bronze w)(nm := table_rewrite (wh_bronze w nm) i ts sm)\<rparr>"
  note co = assms(1) [unfolded coherent_def]
  have "in_step (silver_typed senv v) (each \<circ> silver_view) SRC_SNAPSHOT_ID (trade_feed trade ?w v) (wh_silver w v)" for v
  proof -
    have "\<exists>later. snaps (trade_feed trade ?w v) = snaps (trade_feed trade w v) @ later"
      by (auto simp: trade_feed_def view_table_def)
    then obtain later where "snaps (trade_feed trade ?w v) = snaps (trade_feed trade w v) @ later" ..
    from silver_layer.upstream_grows [OF _ this] co show ?thesis by blast
  qed
  moreover have "in_step (bronze_view benv t) each SRC_SNAPSHOT_ID (wh_raw w) (wh_bronze ?w (vt_name t))" if "t \<in> set VENUE_TABLES" for t
    using co bronze_layer.foreign_commit [OF _ assms(3), of benv t "wh_raw w" "wh_bronze w nm" i ts] that by auto
  ultimately show ?thesis
    using co table_ok_rewrite [OF _ assms(2)] by (simp add: coherent_def)
qed

lemma lake_reach_coherent: "lake_reach benv trade senv w \<Longrightarrow> coherent benv trade senv w"
proof (induction rule: lake_reach.induct)
  case new
  show ?case
    by (simp add: coherent_def new_lake_def table_ok_def in_step_def empty_table_position trade_feed_def view_table_def)
      (simp add: empty_table_def)
next
  case (run w env args pid holders holders' w' status)
  show ?case
  proof (cases "w' = w")
    case False
    then obtain r where "in_order (run_stages env args) w = (w', r)"
      using run.hyps(6) by (cases "in_order (run_stages env args) w")
        (auto simp: ingest_main_def split: if_splits prod.splits acquired.splits)
    from run_stages_ok [OF this] run show ?thesis by auto
  qed (use run in simp)
next
  case (rewrite_raw w i ts sm)
  then show ?case using bronze_layer.upstream_grows [of benv _ "wh_raw w" _ "table_rewrite (wh_raw w) i ts sm"]
    by (auto simp: coherent_def trade_feed_def table_ok_rewrite)
next
  case (rewrite_bronze w i ts nm sm)
  then show ?case by (intro coherent_bronze_rewrite)
next
  case (rewrite_silver w i ts v sm)
  then show ?case
    using silver_layer.foreign_commit [OF _ rewrite_silver.hyps(3)] gold_layer.upstream_grows [of v "wh_silver w v" _ "table_rewrite (wh_silver w v) i ts sm"]
    by (auto simp: coherent_def trade_feed_def table_ok_rewrite)
next
  case (rewrite_gold w sm i ts)
  then show ?case using gold_layer.foreign_commit [OF _ rewrite_gold.hyps(2)] by (auto simp: coherent_def trade_feed_def)
qed

section \<open>A small run for the witnesses\<close>

text \<open>One Kraken trade is produced; the run archives it, decodes it, types it and projects it.\<close>

definition demo_run_env :: "nat run_env" where
  "demo_run_env = \<lparr>rn_ingest = (demo_env demo_content (\<lambda>_ _. 3) (\<lambda>_ _. 4) 1)
       \<lparr>e_exchanges := ''kraken'', e_load := \<lambda>_ _. [\<lparr>m_topic = ''market.crypto.v3.raw.kraken'', m_part = 0, m_off = 3, m_ts = 1003, m_key = None,
          m_value = Some [0, 0, 0, 0, 7, 123, 125], m_headers = None\<rparr>]\<rparr>,
     rn_sample = [], rn_bronze = demo_bronze_env, rn_bronze_commits = [(1, 1), (2, 2), (3, 3)], rn_audit_commits = [],
     rn_trade = (\<lambda>_. the (b_cols (demo_trade 5 20 1))), rn_book = (\<lambda>_. KrakenBook None None),
     rn_silver = demo_silver_env, rn_silver_commits = [(1, 1)],
     rn_gold = demo_gold_env, rn_gold_commits = map (\<lambda>i. (i, i)) [1..20],
     rn_books = \<lparr>be_bronze = (\<lambda>_. empty_table), be_casts = se_casts demo_silver_env, be_instruments = ge_instruments demo_gold_env,
       be_pairs = [], be_spread = \<lparr>sp_parts = 1, sp_hash = (\<lambda>_. 0)\<rparr>, be_rnd = id\<rparr>, rn_books_commits = map (\<lambda>i. (i, i)) [1..9], rn_now = 9, rn_lock = None\<rparr>"

definition demo_args :: run_args where
  "demo_args = \<lparr>ru_stage = StageAll, ru_end = [], ru_max = 0, ru_accept = False, ru_probe = False\<rparr>"

lemma demo_status: "snd (ingest_main demo_run_env demo_args 1 (Map.empty, new_lake)) = 0"
  by code_simp

lemma demo_fresh: "commits_fresh demo_run_env new_lake"
  by (auto simp: commits_fresh_def new_lake_def clock_ok_def demo_run_env_def demo_empty comp_def sorted_wrt_map)

lemma demo_lake_reach:
  "lake_reach demo_bronze_env (\<lambda>_. the (b_cols (demo_trade 5 20 1))) demo_silver_env (snd (fst (ingest_main demo_run_env demo_args 1 (Map.empty, new_lake))))"
  by (rule lake_reach.run [OF lake_reach.new _ _ _ demo_fresh, where holders = Map.empty and args = demo_args and pid = 1])
    (auto simp: demo_run_env_def intro!: prod_eqI)

section \<open>Properties\<close>

text \<open>
  C1. End to end, no run loses or repeats a trade: whatever sequence of five-minute runs and table rewrites led to
  a lake, whichever stages they ran and wherever they were killed or raised, every bronze table is the decode of
  the archive, every silver table its bronze table typed and gold.trades the silver tables without the replays,
  each up to the snapshot the table names.
\<close>
theorem lake_in_step:
  assumes "lake_reach benv trade senv w"
  shows "list_all (\<lambda>t. in_step (bronze_view benv t) each SRC_SNAPSHOT_ID (wh_raw w) (wh_bronze w (vt_name t))) VENUE_TABLES \<and>
    in_step (silver_typed senv v) (each \<circ> silver_view) SRC_SNAPSHOT_ID (view_table trade (wh_bronze w (trade_source v))) (wh_silver w v) \<and>
    in_step (gold_typed v) (gold_view v) (position_key v) (wh_silver w v) (gd_trades (wh_gold w))"
  using lake_reach_coherent [OF assms] by (simp add: coherent_def trade_feed_def list_all_iff)

theorem lake_in_step_witness:
  "let w = snd (fst (ingest_main demo_run_env demo_args 1 (Map.empty, new_lake)))
   in in_step (gold_typed Kraken) (gold_view Kraken) (position_key Kraken) (wh_silver w Kraken) (gd_trades (wh_gold w))"
  using lake_in_step [OF demo_lake_reach, of Kraken] by (simp add: Let_def)

text \<open>
  C2. A run that exits 0 catches the whole lake up: if it ran the derived stages, then afterwards every bronze table
  holds the decode of the entire archive, every silver table the entire bronze table typed, and gold.trades all
  of silver but the replays, each row once, however far earlier runs had fallen behind.
\<close>
theorem clean_run_catches_up:
  assumes "lake_reach (rn_bronze env) (rn_trade env) (rn_silver env) w" and "commits_fresh env w"
    and "ingest_main env args pid (holders, w) = ((holders', w'), 0)" and "\<not> ru_probe args" and "ru_stage args \<noteq> StageRaw"
  shows "list_all (\<lambda>t. mset (table_rows (wh_bronze w' (vt_name t))) = mset (bronze_view (rn_bronze env) t (table_rows (wh_raw w')))) VENUE_TABLES \<and>
    mset (map silver_view (table_rows (wh_silver w' v))) =
      mset (silver_typed (rn_silver env) v (map (view_row (rn_trade env)) (table_rows (wh_bronze w' (trade_source v))))) \<and>
    mset (concat (map (gold_view v) (table_rows (gd_trades (wh_gold w'))))) = mset (gold_typed v (table_rows (wh_silver w' v)))"
proof -
  obtain r where "in_order (run_stages env args) w = (w', r)" "r = Inr ()"
    using assms(3,4) by (auto simp: ingest_main_def split: prod.splits acquired.splits sum.splits)
  with run_stages_ok [OF _ lake_reach_coherent [OF assms(1)] assms(2)] assms(5)
  have "bronze_complete (rn_bronze env) w' \<and> silver_complete (rn_trade env) (rn_silver env) w' \<and> gold_complete w'" by blast
  then show ?thesis
    by (simp add: bronze_complete_def silver_complete_def gold_complete_def caught_def list_all_iff trade_feed_def view_rows)
qed

theorem clean_run_catches_up_witness:
  "let w = snd (fst (ingest_main demo_run_env demo_args 1 (Map.empty, new_lake)))
   in mset (concat (map (gold_view Kraken) (table_rows (gd_trades (wh_gold w))))) = mset (gold_typed Kraken (table_rows (wh_silver w Kraken)))"
proof -
  have "lake_reach (rn_bronze demo_run_env) (rn_trade demo_run_env) (rn_silver demo_run_env) new_lake" by (rule lake_reach.new)
  from clean_run_catches_up [OF this demo_fresh, of demo_args 1 Map.empty _ _ Kraken] demo_status show ?thesis
    by (simp add: Let_def demo_args_def prod_eq_iff)
qed

definition unframed :: "sampled \<Rightarrow> bool" where
  "unframed r = (case parse_confluent (take HEADER_BYTES (the (sa_head r))) of Inl _ \<Rightarrow> True | Inr _ \<Rightarrow> False)"

lemma parse_error: "parse_confluent b = Inl e \<Longrightarrow> e = BadFrame"
  by (auto simp: parse_confluent_def Let_def split: if_splits prod.splits)

lemma probe_rows_tombstone: "list_ex (\<lambda>r. sa_head r = None) rs \<Longrightarrow> probe_rows rs seen n = Inl TypeError"
proof (induction rs arbitrary: seen n)
  case (Cons r rs)
  then show ?case
    by (cases "sa_head r"; cases "parse_confluent (take HEADER_BYTES (the (sa_head r)))") (auto dest: parse_error)
qed simp

lemma probe_rows_counts:
  "list_all (\<lambda>r. sa_head r \<noteq> None) rs \<Longrightarrow> \<exists>seen'. probe_rows rs seen n = Inr (seen', n + int (length (filter unframed rs)))"
proof (induction rs arbitrary: seen n)
  case (Cons r rs)
  then obtain head where h: "sa_head r = Some head" by auto
  show ?case
  proof (cases "parse_confluent (take HEADER_BYTES head)")
    case (Inl e)
    then show ?thesis using Cons.IH [of "AList.update (sa_topic r) (NotFramed (sa_offset r)) seen" "n + 1"] Cons.prems h parse_error [OF Inl]
      by (simp add: unframed_def algebra_simps)
  next
    case (Inr x)
    then show ?thesis using Cons.IH [of "AList.update (sa_topic r) (Framed (fst x) (sa_bytes r)) seen" n] Cons.prems h
      by (cases x) (simp add: unframed_def)
  qed
qed simp

text \<open>
  The framing probe exits 0 exactly when every sampled record is framed: the head of each parses; a tombstone
  among the samples is not reported but ends the probe with an exception.
\<close>
theorem probe_status:
  "probe sample = (if list_ex (\<lambda>r. sa_head r = None) sample then Inl TypeError
     else Inr (if list_all (\<lambda>r. \<not> unframed r) sample then 0 else 1))"
proof (cases "list_ex (\<lambda>r. sa_head r = None) sample")
  case False
  then have "list_all (\<lambda>r. sa_head r \<noteq> None) sample" by (simp add: list_all_iff list_ex_iff)
  from probe_rows_counts [OF this] obtain seen where "probe_rows sample [] 0 = Inr (seen, 0 + int (length (filter unframed sample)))" by blast
  then show ?thesis using False by (simp add: probe_def list_all_iff filter_empty_conv)
qed (simp add: probe_def probe_rows_tombstone)

end
