(* ===== verification/TierParity.thy ===== *)
theory TierParity
  imports K2_Prelude
begin

text \<open>
  The pure half of \<open>scripts/parity/compare_trades.py\<close>: two trade records of different contracts reduced to one
  tuple, repeats folded, and the two tiers compared symbol by symbol. A decoded Avro record is a dictionary of
  strings, integers and timestamps. \<open>decimal.Decimal\<close> is written out as far as it is used: a sign, a coefficient
  and an exponent, rounded to the 28 significant digits of the default context; exponents stay inside its range, a million
  either way.
\<close>

section \<open>Decimals\<close>

datatype decimal = Finite bool nat int | Infinite bool | NotANumber bool

definition lower :: "string \<Rightarrow> string" where
  "lower s = map (\<lambda>c. let n = (of_char c :: nat) in if 65 \<le> n \<and> n \<le> 90 then char_of (n + 32) else c) s"

text \<open>\<open>12.5e-3\<close> without its sign: coefficient and exponent.\<close>

definition dec_exponent :: "string \<Rightarrow> int option" where
  "dec_exponent s =
     (case s of [] \<Rightarrow> None
      | c # ds \<Rightarrow>
          if c = CHR ''-'' then (if ds \<noteq> [] \<and> list_all is_digit ds then Some (- int (digits_val ds)) else None)
          else if c = CHR ''+'' then (if ds \<noteq> [] \<and> list_all is_digit ds then Some (int (digits_val ds)) else None)
          else if list_all is_digit s then Some (int (digits_val s)) else None)"

definition dec_mantissa :: "string \<Rightarrow> (nat \<times> nat) option" where
  "dec_mantissa s =
     (let w = takeWhile (\<lambda>c. c \<noteq> CHR ''.'') s; f = drop (length w + 1) s
      in if w @ f \<noteq> [] \<and> list_all is_digit (w @ f) then Some (digits_val (w @ f), length f) else None)"

definition dec_unsigned :: "string \<Rightarrow> (nat \<times> int) option" where
  "dec_unsigned s =
     (let m = takeWhile (\<lambda>c. c \<noteq> CHR ''e'') s in
      case dec_mantissa m of None \<Rightarrow> None
      | Some (coeff, frac) \<Rightarrow>
          if m = s then Some (coeff, - int frac)
          else (case dec_exponent (drop (length m + 1) s) of None \<Rightarrow> None | Some e \<Rightarrow> Some (coeff, e - int frac)))"

definition dec_body :: "bool \<Rightarrow> string \<Rightarrow> decimal option" where
  "dec_body neg s =
     (if s = ''inf'' \<or> s = ''infinity'' then Some (Infinite neg)
      else if take 3 s = ''nan'' \<and> list_all is_digit (drop 3 s) then Some (NotANumber False)
      else if take 4 s = ''snan'' \<and> list_all is_digit (drop 4 s) then Some (NotANumber True)
      else map_option (\<lambda>(coeff, e). Finite neg coeff e) (dec_unsigned s))"

definition dec_literal :: "string \<Rightarrow> decimal option" where
  "dec_literal text =
     (case lower (filter (\<lambda>c. c \<noteq> CHR ''_'') (py_strip text)) of [] \<Rightarrow> None
      | c # s \<Rightarrow> if c = CHR ''-'' then dec_body True s else if c = CHR ''+'' then dec_body False s else dec_body False (c # s))"

definition PRECISION :: nat where "PRECISION = 28"

text \<open>\<open>ROUND_HALF_EVEN\<close> of \<open>n / d\<close>.\<close>

definition half_even :: "nat \<Rightarrow> nat \<Rightarrow> nat" where
  "half_even n d = (let q = n div d; r = n mod d in if 2 * r < d \<or> (2 * r = d \<and> even q) then q else q + 1)"

text \<open>The context rounds a result to its precision; a carry into one more digit is dropped again.\<close>

definition context_round :: "nat \<Rightarrow> int \<Rightarrow> nat \<times> int" where
  "context_round coeff e =
     (let excess = length (show_nat coeff) - PRECISION in
      if excess = 0 then (coeff, e)
      else (let q = half_even coeff (10 ^ excess) in
            if q = 10 ^ PRECISION then (10 ^ (PRECISION - 1), e + int excess + 1) else (q, e + int excess)))"

definition SCALE_EXP :: int where "SCALE_EXP = 8"

definition signed :: "bool \<Rightarrow> nat \<Rightarrow> int" where "signed neg n = (if neg then - int n else int n)"

text \<open>
  A signalling NaN makes \<open>scaleb\<close> raise \<open>InvalidOperation\<close>; a quiet one is unequal to itself; an infinity passes
  the comparison and \<open>int\<close> raises \<open>OverflowError\<close>.
\<close>

definition to_fixed_1e8 :: "string \<Rightarrow> int res" where
  "to_fixed_1e8 value =
     (case dec_literal value of None \<Rightarrow> Inl ValueError
      | Some (NotANumber _) \<Rightarrow> Inl ValueError
      | Some (Infinite _) \<Rightarrow> Inl OverflowError
      | Some (Finite neg coeff e) \<Rightarrow>
          (let (c, x) = context_round coeff (e + SCALE_EXP) in
           if 0 \<le> x then Inr (signed neg (c * 10 ^ nat x))
           else if c mod 10 ^ nat (- x) = 0 then Inr (signed neg (c div 10 ^ nat (- x))) else Inl ValueError))"

section \<open>Records\<close>

datatype avro = AStr string | AInt int | ATime int

text \<open>\<open>ATime\<close> is a timestamp as fastavro hands it over, in microseconds since the epoch.\<close>

datatype time_unit = Millis | Micros

definition to_micros :: "avro \<Rightarrow> time_unit \<Rightarrow> int res" where
  "to_micros v unit =
     (let int_of = (case v of AInt n \<Rightarrow> Inr n | AStr s \<Rightarrow> (case py_int s of None \<Rightarrow> Inl ValueError | Some n \<Rightarrow> Inr n) | ATime _ \<Rightarrow> Inl TypeError)
      in case v of ATime us \<Rightarrow> Inr us
         | _ \<Rightarrow> (case unit of Millis \<Rightarrow> res_bind int_of (\<lambda>n. Inr (n * 1000)) | Micros \<Rightarrow> int_of))"

definition to_side :: "avro \<Rightarrow> string res" where
  "to_side v =
     (case v of AStr s \<Rightarrow> if lower s \<in> {''buy'', ''sell''} then Inr (lower s) else Inl ValueError | _ \<Rightarrow> Inl ValueError)"

record norm =
  n_symbol :: string
  n_id :: string
  n_price :: int
  n_qty :: int
  n_side :: string
  n_ts :: int

definition field :: "(string \<times> avro) list \<Rightarrow> string \<Rightarrow> avro res" where
  "field r k = (case map_of r k of None \<Rightarrow> Inl KeyError | Some v \<Rightarrow> Inr v)"

text \<open>The contracts type the symbol as a string, the id as a string or an integer; a price of v2 is a string.\<close>

definition text_of :: "avro \<Rightarrow> string res" where
  "text_of v = (case v of AStr s \<Rightarrow> Inr s | AInt n \<Rightarrow> Inr (show_int n) | ATime _ \<Rightarrow> Inl TypeError)"

definition int_field :: "avro \<Rightarrow> int res" where
  "int_field v = (case v of AInt n \<Rightarrow> Inr n | AStr s \<Rightarrow> (case py_int s of None \<Rightarrow> Inl ValueError | Some n \<Rightarrow> Inr n) | ATime _ \<Rightarrow> Inl TypeError)"

definition normalise_v2 :: "(string \<times> avro) list \<Rightarrow> norm res" where
  "normalise_v2 r =
     res_bind (res_bind (field r ''canonical_symbol'') text_of) (\<lambda>symbol.
     res_bind (res_bind (field r ''trade_id'') text_of) (\<lambda>trade_id.
     res_bind (res_bind (res_bind (field r ''price'') text_of) to_fixed_1e8) (\<lambda>price.
     res_bind (res_bind (res_bind (field r ''quantity'') text_of) to_fixed_1e8) (\<lambda>qty.
     res_bind (res_bind (field r ''side'') to_side) (\<lambda>side.
     res_bind (res_bind (field r ''exchange_timestamp'') (\<lambda>v. to_micros v Millis)) (\<lambda>ts.
       Inr \<lparr>n_symbol = symbol, n_id = trade_id, n_price = price, n_qty = qty, n_side = side, n_ts = ts\<rparr>))))))"

definition normalise_v3 :: "(string \<times> avro) list \<Rightarrow> norm res" where
  "normalise_v3 r =
     res_bind (res_bind (field r ''canonical_symbol'') text_of) (\<lambda>symbol.
     res_bind (res_bind (field r ''trade_id'') text_of) (\<lambda>trade_id.
     res_bind (res_bind (field r ''price'') int_field) (\<lambda>price.
     res_bind (res_bind (field r ''qty'') int_field) (\<lambda>qty.
     res_bind (res_bind (field r ''side'') to_side) (\<lambda>side.
     res_bind (res_bind (field r ''exchange_ts'') (\<lambda>v. to_micros v Micros)) (\<lambda>ts.
       Inr \<lparr>n_symbol = symbol, n_id = trade_id, n_price = price, n_qty = qty, n_side = side, n_ts = ts\<rparr>))))))"

section \<open>One symbol\<close>

definition comparable :: "norm \<Rightarrow> int \<times> int \<times> string" where
  "comparable n = (n_price n, n_qty n, n_side n)"

definition ms_bucket_key :: "norm \<Rightarrow> int \<times> int \<times> string \<times> int" where
  "ms_bucket_key n = (n_price n, n_qty n, n_side n, n_ts n div 1000)"

fun dedupe_from :: "(string \<times> norm) list \<Rightarrow> int \<Rightarrow> int \<Rightarrow> norm list \<Rightarrow> (string \<times> norm) list \<times> int \<times> int" where
  "dedupe_from by_id dup inconsistent [] = (by_id, dup, inconsistent)"
| "dedupe_from by_id dup inconsistent (n # rows) =
     (case map_of by_id (n_id n) of
        None \<Rightarrow> dedupe_from (AList.update (n_id n) n by_id) dup inconsistent rows
      | Some first \<Rightarrow> dedupe_from by_id (dup + 1)
          (if (comparable first, n_ts first) \<noteq> (comparable n, n_ts n) then inconsistent + 1 else inconsistent) rows)"

definition dedupe_by_id :: "norm list \<Rightarrow> (string \<times> norm) list \<times> int \<times> int" where
  "dedupe_by_id rows = dedupe_from [] 0 0 rows"

record symbol_stats =
  st_symbol :: string
  st_count_v2 :: int
  st_count_v3 :: int
  st_only_v2 :: int
  st_only_v3 :: int
  st_mismatched :: "int option"
  st_max_ts_delta :: "int option"
  st_dup_v2 :: int
  st_dup_v3 :: int
  st_inconsistent :: int

definition MAX_TS_DELTA_US :: int where "MAX_TS_DELTA_US = 1000"
definition EDGE_ALLOWANCE :: int where "EDGE_ALLOWANCE = 2"

text \<open>
  \<open>int(count * 0.001)\<close> in binary double precision: \<open>0.001\<close> is the double \<open>1152921504606847 / 2 ^ 60\<close>; an integer and
  a product are rounded to 53 significant bits, half to even.
\<close>

fun bits :: "nat \<Rightarrow> nat" where
  "bits n = (if n = 0 then 0 else bits (n div 2) + 1)"

declare bits.simps [simp del]

definition round53 :: "nat \<Rightarrow> nat" where
  "round53 n = (let s = bits n - 53 in half_even n (2 ^ s) * 2 ^ s)"

definition tolerance_for :: "int \<Rightarrow> int" where
  "tolerance_for n = max 2 (int (round53 (round53 (nat n) * 1152921504606847) div 2 ^ 60))"

definition count_delta :: "symbol_stats \<Rightarrow> int" where
  "count_delta s = st_count_v2 s - st_count_v3 s"

definition tolerance :: "symbol_stats \<Rightarrow> int" where
  "tolerance s = tolerance_for (max (st_count_v2 s) (st_count_v3 s))"

definition side_allowance :: "symbol_stats \<Rightarrow> int" where
  "side_allowance s = (if st_mismatched s = None then EDGE_ALLOWANCE else tolerance s)"

definition passed :: "symbol_stats \<Rightarrow> bool" where
  "passed s =
     (if (st_count_v2 s = 0) \<noteq> (st_count_v3 s = 0) then False
      else if (case st_max_ts_delta s of None \<Rightarrow> False | Some d \<Rightarrow> d \<ge> MAX_TS_DELTA_US) then False
      else if st_inconsistent s \<noteq> 0 then False
      else \<bar>count_delta s\<bar> \<le> tolerance s \<and> st_only_v2 s \<le> side_allowance s \<and> st_only_v3 s \<le> side_allowance s \<and>
        (case st_mismatched s of None \<Rightarrow> True | Some m \<Rightarrow> m = 0))"

definition compare_symbol :: "string \<Rightarrow> norm list \<Rightarrow> norm list \<Rightarrow> bool \<Rightarrow> symbol_stats" where
  "compare_symbol symbol v2 v3 join_on_id =
     (let (by3, dup3, inc3) = dedupe_by_id v3 in
      if \<not> join_on_id then
        (let v3u = map snd by3; c2 = mset (map ms_bucket_key v2); c3 = mset (map ms_bucket_key v3u)
         in \<lparr>st_symbol = symbol, st_count_v2 = int (length v2), st_count_v3 = int (length v3u),
             st_only_v2 = int (size (c2 - c3)), st_only_v3 = int (size (c3 - c2)), st_mismatched = None, st_max_ts_delta = None,
             st_dup_v2 = int (length v2) - int (length (remdups (map n_id v2))), st_dup_v3 = dup3, st_inconsistent = inc3\<rparr>)
      else
        (let (by2, dup2, inc2) = dedupe_by_id v2;
             common = filter (\<lambda>(k, _). k \<in> set (map fst by3)) by2
         in \<lparr>st_symbol = symbol, st_count_v2 = int (length by2), st_count_v3 = int (length by3),
             st_only_v2 = int (length (filter (\<lambda>(k, _). k \<notin> set (map fst by3)) by2)),
             st_only_v3 = int (length (filter (\<lambda>(k, _). k \<notin> set (map fst by2)) by3)),
             st_mismatched = Some (int (length (filter (\<lambda>(k, n). comparable n \<noteq> comparable (the (map_of by3 k))) common))),
             st_max_ts_delta = py_max_by id (map (\<lambda>(k, n). \<bar>n_ts n - n_ts (the (map_of by3 k))\<bar>) common),
             st_dup_v2 = dup2, st_dup_v3 = dup3, st_inconsistent = inc2 + inc3\<rparr>))"

section \<open>All symbols\<close>

definition SYNTHETIC_V2_ID_EXCHANGES :: "string list" where "SYNTHETIC_V2_ID_EXCHANGES = [''kraken'']"

definition of_symbol :: "string \<Rightarrow> norm list \<Rightarrow> norm list" where
  "of_symbol symbol rows = filter (\<lambda>n. n_symbol n = symbol) rows"

definition compare :: "norm list \<Rightarrow> norm list \<Rightarrow> string \<Rightarrow> symbol_stats list" where
  "compare v2 v3 exchange =
     map (\<lambda>symbol. compare_symbol symbol (of_symbol symbol v2) (of_symbol symbol v3) (exchange \<notin> set SYNTHETIC_V2_ID_EXCHANGES))
       (sort (remdups (map n_symbol v2 @ map n_symbol v3)))"

section \<open>Folding repeats\<close>

definition same_trade :: "norm \<Rightarrow> norm \<Rightarrow> bool" where
  "same_trade a b = (comparable a = comparable b \<and> n_ts a = n_ts b)"

definition consistent :: "norm list \<Rightarrow> bool" where
  "consistent rows = list_all (\<lambda>n. list_all (\<lambda>m. n_id n = n_id m \<longrightarrow> same_trade n m) rows) rows"

lemma dedupe_from_spec:
  assumes "dedupe_from by0 d i rows = (by_id, d', i')" and "dict_ok by0"
  shows "dict_ok by_id \<and> set (map fst by_id) = set (map fst by0) \<union> n_id ` set rows \<and>
    (\<forall>k v. map_of by0 k = Some v \<longrightarrow> map_of by_id k = Some v) \<and>
    (\<forall>k v. map_of by_id k = Some v \<longrightarrow> map_of by0 k = Some v \<or> v \<in> set rows \<and> n_id v = k) \<and>
    i \<le> i' \<and> (i' = i \<longleftrightarrow> (\<forall>n \<in> set rows. same_trade (the (map_of by_id (n_id n))) n)) \<and>
    d' = d + int (length rows) - (int (length by_id) - int (length by0))"
  using assms
proof (induction rows arbitrary: by0 d i)
  case (Cons n rows)
  show ?case
  proof (cases "map_of by0 (n_id n)")
    case None
    then have new: "n_id n \<notin> set (map fst by0)" by (simp add: map_of_eq_None_iff)
    define by1 where "by1 = by0 @ [(n_id n, n)]"
    have app: "AList.update (n_id n) n by0 = by1"
      using new unfolding by1_def by (induction by0) auto
    have ok: "dict_ok by1" using Cons.prems(2) new by (auto simp: dict_ok_def by1_def)
    have keys: "set (map fst by1) = insert (n_id n) (set (map fst by0))" "length by1 = length by0 + 1" by (auto simp: by1_def)
    have first: "map_of by1 (n_id n) = Some n" using None by (simp add: map_add_def by1_def)
    have old: "map_of by0 k = Some v \<Longrightarrow> map_of by1 k = Some v" for k v
      using None by (auto simp: map_add_def by1_def)
    have new1: "map_of by1 k = Some v \<Longrightarrow> map_of by0 k = Some v \<or> v = n \<and> k = n_id n" for k v
      by (auto simp: map_add_def by1_def split: option.splits if_splits)
    have "dedupe_from by1 d i rows = (by_id, d', i')" using Cons.prems(1) None app by simp
    note IH = Cons.IH [OF this ok]
    have "map_of by_id (n_id n) = Some n" using IH first by blast
    then have "same_trade (the (map_of by_id (n_id n))) n" by (simp add: same_trade_def)
    then show ?thesis using IH keys old new1 by (auto dest!: new1)
  next
    case (Some first)
    let ?i = "if same_trade first n then i else i + 1"
    have "dedupe_from by0 (d + 1) ?i rows = (by_id, d', i')"
      using Cons.prems(1) Some by (auto simp: same_trade_def split: if_splits)
    note IH = Cons.IH [OF this Cons.prems(2)]
    have "map_of by_id (n_id n) = Some first" using IH Some by blast
    moreover have "n_id n \<in> set (map fst by0)" using Some by (metis map_of_eq_None_iff option.distinct(1) set_map)
    ultimately show ?thesis using IH by (auto split: if_splits)
  qed
qed auto

lemma dedupe_spec:
  assumes "dedupe_by_id rows = (by_id, dup, inconsistent)"
  shows "dict_ok by_id" and "set (map fst by_id) = n_id ` set rows" and "length by_id = card (n_id ` set rows)"
    and "map_of by_id k = Some v \<Longrightarrow> v \<in> set rows \<and> n_id v = k"
    and "0 \<le> inconsistent" and "inconsistent = 0 \<longleftrightarrow> consistent rows"
    and "dup = int (length rows) - int (card (n_id ` set rows))"
proof -
  note sp = dedupe_from_spec [OF assms [unfolded dedupe_by_id_def], simplified]
  show ok: "dict_ok by_id" and keys: "set (map fst by_id) = n_id ` set rows" and "0 \<le> inconsistent" using sp by (auto simp: dict_ok_def)
  show len: "length by_id = card (n_id ` set rows)"
    using ok distinct_card [of "map fst by_id"] unfolding keys by (simp add: dict_ok_def)
  show "dup = int (length rows) - int (card (n_id ` set rows))" using sp len by simp
  show el: "map_of by_id k = Some v \<Longrightarrow> v \<in> set rows \<and> n_id v = k" for k v using sp by auto
  have "\<exists>v. map_of by_id (n_id n) = Some v" if "n \<in> set rows" for n
    using that keys by (metis imageI map_of_eq_None_iff not_None_eq set_map)
  then show "inconsistent = 0 \<longleftrightarrow> consistent rows"
    using sp el unfolding consistent_def list_all_iff same_trade_def by (metis (no_types, lifting) option.sel)
qed

section \<open>The verdict without dictionaries\<close>

definition ids :: "norm list \<Rightarrow> string set" where "ids rows = n_id ` set rows"

definition agree :: "norm list \<Rightarrow> norm list \<Rightarrow> bool" where
  "agree v2 v3 = list_all (\<lambda>n. list_all (\<lambda>m. n_id n = n_id m \<longrightarrow>
     comparable n = comparable m \<and> \<bar>n_ts n - n_ts m\<bar> < MAX_TS_DELTA_US) v3) v2"

lemma length_keys:
  assumes "dict_ok d"
  shows "length (filter (\<lambda>(k, _). k \<notin> A) d) = card (set (map fst d) - A)"
proof -
  have "distinct (map fst (filter (\<lambda>(k, _). k \<notin> A) d))"
    using assms by (simp add: dict_ok_def distinct_map_filter)
  then have "length (filter (\<lambda>(k, _). k \<notin> A) d) = card (set (map fst (filter (\<lambda>(k, _). k \<notin> A) d)))"
    using distinct_card by fastforce
  moreover have "set (map fst (filter (\<lambda>(k, _). k \<notin> A) d)) = set (map fst d) - A" by force
  ultimately show ?thesis by simp
qed

lemma max_below: "(case py_max_by id xs of None \<Rightarrow> False | Some d \<Rightarrow> d \<ge> (b :: int)) \<longleftrightarrow> (\<exists>x \<in> set xs. b \<le> x)"
  by (cases "py_max_by id xs") (auto dest: py_max_by_mem py_max_by_ge order_trans)

lemma agree_firsts:
  assumes d2: "dedupe_by_id v2 = (by2, dup2, inc2)" and d3: "dedupe_by_id v3 = (by3, dup3, inc3)"
    and c: "consistent v2" "consistent v3"
  shows "agree v2 v3 \<longleftrightarrow> (\<forall>(k, n) \<in> set by2. k \<in> set (map fst by3) \<longrightarrow>
    comparable n = comparable (the (map_of by3 k)) \<and> \<bar>n_ts n - n_ts (the (map_of by3 k))\<bar> < MAX_TS_DELTA_US)"
proof -
  note e2 = dedupe_spec(1,2,4) [OF d2] and e3 = dedupe_spec(1,2,4) [OF d3]
  have f2: "\<exists>f. map_of by2 (n_id n) = Some f \<and> f \<in> set v2 \<and> n_id f = n_id n \<and> same_trade n f" if "n \<in> set v2" for n
  proof -
    have "n_id n \<in> set (map fst by2)" using that e2(2) by simp
    then obtain f where "map_of by2 (n_id n) = Some f" by (metis map_of_eq_None_iff not_None_eq set_map)
    then show ?thesis using e2(3) c(1) that by (fastforce simp: consistent_def list_all_iff)
  qed
  have f3: "\<exists>f. map_of by3 (n_id n) = Some f \<and> f \<in> set v3 \<and> n_id f = n_id n \<and> same_trade n f" if "n \<in> set v3" for n
  proof -
    have "n_id n \<in> set (map fst by3)" using that e3(2) by simp
    then obtain f where "map_of by3 (n_id n) = Some f" by (metis map_of_eq_None_iff not_None_eq set_map)
    then show ?thesis using e3(3) c(2) that by (fastforce simp: consistent_def list_all_iff)
  qed
  have mem: "(k, n) \<in> set by2 \<longleftrightarrow> map_of by2 k = Some n" for k n using e2(1) by (simp add: dict_ok_def)
  show ?thesis (is "_ \<longleftrightarrow> ?R")
  proof
    assume a: "agree v2 v3"
    show ?R
    proof clarify
      fix k n assume "(k, n) \<in> set by2" "k \<in> set (map fst by3)"
      moreover from this(2) obtain m where "map_of by3 k = Some m" by (metis map_of_eq_None_iff not_None_eq set_map)
      ultimately show "comparable n = comparable (the (map_of by3 k)) \<and> \<bar>n_ts n - n_ts (the (map_of by3 k))\<bar> < MAX_TS_DELTA_US"
        using a e2(3) e3(3) by (fastforce simp: agree_def list_all_iff mem)
    qed
  next
    assume r: ?R
    show "agree v2 v3"
      unfolding agree_def list_all_iff
    proof (intro ballI impI)
      fix n m assume nm: "n \<in> set v2" "m \<in> set v3" "n_id n = n_id m"
      obtain f where f: "map_of by2 (n_id n) = Some f" "same_trade n f" using f2 [OF nm(1)] by blast
      obtain g where g: "map_of by3 (n_id m) = Some g" "same_trade m g" using f3 [OF nm(2)] by blast
      have "(n_id n, f) \<in> set by2" "n_id n \<in> set (map fst by3)" using f(1) nm e3(2) by (simp_all add: mem)
      with r have "comparable f = comparable g \<and> \<bar>n_ts f - n_ts g\<bar> < MAX_TS_DELTA_US" using g(1) nm(3) by fastforce
      then show "comparable n = comparable m \<and> \<bar>n_ts n - n_ts m\<bar> < MAX_TS_DELTA_US" using f(2) g(2) by (simp add: same_trade_def)
    qed
  qed
qed

lemma join_stats:
  assumes d2: "dedupe_by_id v2 = (by2, dup2, inc2)" and d3: "dedupe_by_id v3 = (by3, dup3, inc3)"
  shows "passed (compare_symbol symbol v2 v3 True) \<longleftrightarrow>
    (card (ids v2) = 0 \<longleftrightarrow> card (ids v3) = 0) \<and> inc2 + inc3 = 0 \<and>
    (\<forall>(k, n) \<in> set by2. k \<in> set (map fst by3) \<longrightarrow>
       comparable n = comparable (the (map_of by3 k)) \<and> \<bar>n_ts n - n_ts (the (map_of by3 k))\<bar> < MAX_TS_DELTA_US) \<and>
    (let allowed = tolerance_for (max (int (card (ids v2))) (int (card (ids v3))))
     in \<bar>int (card (ids v2)) - int (card (ids v3))\<bar> \<le> allowed \<and> int (card (ids v2 - ids v3)) \<le> allowed \<and> int (card (ids v3 - ids v2)) \<le> allowed)"
proof -
  let ?common = "filter (\<lambda>(k, _). k \<in> set (map fst by3)) by2"
  have n: "length by2 = card (ids v2)" "length by3 = card (ids v3)" using dedupe_spec(3) [OF d2] dedupe_spec(3) [OF d3] by (simp_all add: ids_def)
  have o: "length (filter (\<lambda>(k, _). k \<notin> set (map fst by3)) by2) = card (ids v2 - ids v3)"
      "length (filter (\<lambda>(k, _). k \<notin> set (map fst by2)) by3) = card (ids v3 - ids v2)"
    using length_keys [OF dedupe_spec(1) [OF d2], of "set (map fst by3)"] length_keys [OF dedupe_spec(1) [OF d3], of "set (map fst by2)"]
    unfolding dedupe_spec(2) [OF d2] dedupe_spec(2) [OF d3] ids_def by simp_all
  have m: "length (filter (\<lambda>(k, n). comparable n \<noteq> comparable (the (map_of by3 k))) ?common) = 0 \<longleftrightarrow>
      (\<forall>(k, n) \<in> set by2. k \<in> set (map fst by3) \<longrightarrow> comparable n = comparable (the (map_of by3 k)))"
    by (fastforce simp: filter_empty_conv)
  have t: "(\<exists>x \<in> set (map (\<lambda>(k, n). \<bar>n_ts n - n_ts (the (map_of by3 k))\<bar>) ?common). MAX_TS_DELTA_US \<le> x) \<longleftrightarrow>
      \<not> (\<forall>(k, n) \<in> set by2. k \<in> set (map fst by3) \<longrightarrow> \<bar>n_ts n - n_ts (the (map_of by3 k))\<bar> < MAX_TS_DELTA_US)"
    by (fastforce simp: not_less)
  have all2: "(\<forall>(k, n) \<in> set by2. P k n \<longrightarrow> Q k n \<and> R k n) \<longleftrightarrow> (\<forall>(k, n) \<in> set by2. P k n \<longrightarrow> Q k n) \<and> (\<forall>(k, n) \<in> set by2. P k n \<longrightarrow> R k n)" for P Q R
    by blast
  show ?thesis
    unfolding all2 compare_symbol_def d2 d3 Let_def prod.case passed_def
    by (simp only: symbol_stats.simps if_False not_True_eq_False max_below t m n o tolerance_def side_allowance_def count_delta_def
        option.distinct option.case if_bool_eq_conj not_not simp_thms of_nat_eq_0_iff) argo
qed

lemma join_verdict:
  "passed (compare_symbol symbol v2 v3 True) \<longleftrightarrow>
    (v2 = [] \<longleftrightarrow> v3 = []) \<and> consistent v2 \<and> consistent v3 \<and> agree v2 v3 \<and>
    (let allowed = tolerance_for (max (int (card (ids v2))) (int (card (ids v3))))
     in \<bar>int (card (ids v2)) - int (card (ids v3))\<bar> \<le> allowed \<and> int (card (ids v2 - ids v3)) \<le> allowed \<and> int (card (ids v3 - ids v2)) \<le> allowed)"
proof -
  obtain by2 dup2 inc2 where d2: "dedupe_by_id v2 = (by2, dup2, inc2)" by (metis prod_cases3)
  obtain by3 dup3 inc3 where d3: "dedupe_by_id v3 = (by3, dup3, inc3)" by (metis prod_cases3)
  have "inc2 + inc3 = 0 \<longleftrightarrow> consistent v2 \<and> consistent v3"
    using dedupe_spec(5,6) [OF d2] dedupe_spec(5,6) [OF d3] by auto
  then show ?thesis
    unfolding join_stats [OF d2 d3] using agree_firsts [OF d2 d3] by (simp add: ids_def Let_def) argo
qed

text \<open>
  C30. On venues with real ids the verdict is a fact about the two sets of trades: a symbol passes exactly when both tiers saw it
  or neither did, neither tier contradicts itself, every trade both saw has the same price, quantity and side and times less
  than a millisecond apart, and the ids only one tier saw stay within the tolerance; arrival order and venue re-sends play no part.
\<close>
theorem verdict_by_id:
  "passed (compare_symbol symbol v2 v3 True) \<longleftrightarrow>
    (v2 = [] \<longleftrightarrow> v3 = []) \<and> consistent v2 \<and> consistent v3 \<and> agree v2 v3 \<and>
    (let allowed = tolerance_for (max (int (card (ids v2))) (int (card (ids v3))))
     in \<bar>int (card (ids v2)) - int (card (ids v3))\<bar> \<le> allowed \<and> int (card (ids v2 - ids v3)) \<le> allowed \<and> int (card (ids v3 - ids v2)) \<le> allowed)"
  by (rule join_verdict)

lemma first_keys:
  assumes d: "dedupe_by_id rows = (by_id, dup, inconsistent)" and c: "consistent rows"
  shows "mset (map ms_bucket_key (map snd by_id)) = image_mset snd (mset_set ((\<lambda>n. (n_id n, ms_bucket_key n)) ` set rows))"
proof -
  note e = dedupe_spec(1,2,4) [OF d]
  let ?ps = "map (\<lambda>(k, n). (k, ms_bucket_key n)) by_id"
  have "map fst ?ps = map fst by_id" by (simp add: comp_def case_prod_unfold)
  then have dist: "distinct ?ps" using e(1) by (metis dict_ok_def distinct_map)
  have "set ?ps = (\<lambda>n. (n_id n, ms_bucket_key n)) ` set rows"
  proof
    show "set ?ps \<subseteq> (\<lambda>n. (n_id n, ms_bucket_key n)) ` set rows"
      using e(1,3) by (fastforce simp: dict_ok_def)
    show "(\<lambda>n. (n_id n, ms_bucket_key n)) ` set rows \<subseteq> set ?ps"
    proof
      fix x assume "x \<in> (\<lambda>n. (n_id n, ms_bucket_key n)) ` set rows"
      then obtain n where n: "n \<in> set rows" "x = (n_id n, ms_bucket_key n)" by blast
      then have "n_id n \<in> set (map fst by_id)" using e(2) by simp
      then obtain f where f: "map_of by_id (n_id n) = Some f" by (metis map_of_eq_None_iff not_None_eq set_map)
      then have "f \<in> set rows" "n_id f = n_id n" using e(3) by blast+
      then have "same_trade f n" using c n(1) by (simp add: consistent_def list_all_iff)
      then have "ms_bucket_key f = ms_bucket_key n" by (simp add: same_trade_def comparable_def ms_bucket_key_def)
      then show "x \<in> set ?ps" using f n(2) by (force dest: map_of_SomeD)
    qed
  qed
  from mset_set_set [OF dist, unfolded this]
  have ps: "mset ?ps = mset_set ((\<lambda>n. (n_id n, ms_bucket_key n)) ` set rows)" by (rule sym)
  have "map ms_bucket_key (map snd by_id) = map snd ?ps" by (simp add: comp_def case_prod_unfold)
  then show ?thesis unfolding ps [symmetric] mset_map [symmetric] by (rule arg_cong)
qed

text \<open>The keys of the distinct trades of a tier with real ids.\<close>

definition trade_keys :: "norm list \<Rightarrow> (int \<times> int \<times> string \<times> int) multiset" where
  "trade_keys rows = image_mset snd (mset_set ((\<lambda>n. (n_id n, ms_bucket_key n)) ` set rows))"

lemma multiset_verdict:
  "passed (compare_symbol symbol v2 v3 False) \<longleftrightarrow>
    (v2 = [] \<longleftrightarrow> v3 = []) \<and> consistent v3 \<and>
    \<bar>int (length v2) - int (card (ids v3))\<bar> \<le> tolerance_for (max (int (length v2)) (int (card (ids v3)))) \<and>
    size (mset (map ms_bucket_key v2) - trade_keys v3) \<le> 2 \<and> size (trade_keys v3 - mset (map ms_bucket_key v2)) \<le> 2"
proof -
  obtain by3 dup3 inc3 where d3: "dedupe_by_id v3 = (by3, dup3, inc3)" by (metis prod_cases3)
  have n: "length by3 = card (ids v3)" "card (ids v3) = 0 \<longleftrightarrow> v3 = []" using dedupe_spec(3) [OF d3] by (auto simp: ids_def)
  show ?thesis
  proof (cases "consistent v3")
    case True
    then have "inc3 = 0" using dedupe_spec(6) [OF d3] by simp
    then show ?thesis
      using first_keys [OF d3 True] n True
      by (auto simp: passed_def compare_symbol_def d3 Let_def trade_keys_def tolerance_def side_allowance_def count_delta_def EDGE_ALLOWANCE_def simp del: map_map)
  next
    case False
    then have "inc3 \<noteq> 0" using dedupe_spec(6) [OF d3] by simp
    then show ?thesis using False by (simp add: passed_def compare_symbol_def d3 Let_def)
  qed
qed

text \<open>
  Where the v2 ids are synthesised the verdict compares the v2 records with the distinct v3 trades as multisets of price,
  quantity, side and millisecond: on either side at most two entries may be unmatched, whatever the volume, so a wrong
  price cannot hide in the proportional tolerance; v3's order and re-sends play no part.
\<close>
theorem verdict_by_multiset:
  "passed (compare_symbol symbol v2 v3 False) \<longleftrightarrow>
    (v2 = [] \<longleftrightarrow> v3 = []) \<and> consistent v3 \<and>
    \<bar>int (length v2) - int (card (ids v3))\<bar> \<le> tolerance_for (max (int (length v2)) (int (card (ids v3)))) \<and>
    size (mset (map ms_bucket_key v2) - trade_keys v3) \<le> 2 \<and> size (trade_keys v3 - mset (map ms_bucket_key v2)) \<le> 2"
  by (rule multiset_verdict)

section \<open>The tolerance\<close>

lemma bits_bound: "n < 2 ^ bits n" "0 < n \<Longrightarrow> 2 ^ (bits n - 1) \<le> n"
proof (induction n rule: bits.induct)
  case (1 n)
  { case 1
    show ?case using "1.IH"(1) by (cases "n = 0") (simp_all add: bits.simps [of n])
  next
    case 2
    show ?case
    proof (cases "n div 2 = 0")
      case True
      then show ?thesis using 2 by (simp add: bits.simps [of n]) (simp add: bits.simps)
    next
      case False
      then have "0 < bits (n div 2)" by (subst bits.simps) simp
      moreover have "2 ^ (bits (n div 2) - 1) \<le> n div 2" using "1.IH"(2) False 2 by simp
      ultimately show ?thesis using 2
        by (simp add: bits.simps [of n]) (cases "bits (n div 2)"; simp)
    qed }
qed

lemma bits_le: "n < 2 ^ m \<Longrightarrow> bits n \<le> m"
proof (rule ccontr)
  assume n: "n < 2 ^ m" and "\<not> bits n \<le> m"
  then have "m \<le> bits n - 1" "0 < n" by (auto simp: bits.simps [of 0] intro: ccontr)
  then have "(2 :: nat) ^ m \<le> 2 ^ (bits n - 1)" by (intro power_increasing) simp_all
  from le_trans [OF this bits_bound(2) [OF \<open>0 < n\<close>]] show False using n by linarith
qed

lemma half_even_cases: "half_even n d * d = n div d * d \<and> 2 * (n mod d) \<le> d \<or> half_even n d * d = n div d * d + d \<and> d \<le> 2 * (n mod d)"
  by (auto simp: half_even_def Let_def)

lemma half_even_above:
  assumes "0 < d" and "k * d \<le> n"
  shows "k \<le> half_even n d"
proof -
  have "k \<le> n div d" using assms by (simp add: less_eq_div_iff_mult_less_eq)
  also have "n div d \<le> half_even n d" by (simp add: half_even_def Let_def)
  finally show ?thesis .
qed

lemma half_even_below: "2 * (half_even n d * d) \<le> 2 * n + d"
  using half_even_cases [of n d] div_mult_mod_eq [of n d] by linarith

lemma round53_small: "n < 2 ^ 53 \<Longrightarrow> round53 n = n"
  using bits_le [of n 53] by (simp add: round53_def half_even_def)

lemma tolerance_floor:
  assumes "0 \<le> c" and "c < 10 ^ 12"
  shows "tolerance_for c = max 2 (c div 1000)"
proof -
  define n where "n = nat c"
  define k where "k = n div 1000"
  define s where "s = bits (n * 1152921504606847) - 53"
  have n: "n < 10 ^ 12" using assms by (simp add: n_def)
  have k: "k * 1000 \<le> n" "n < (k + 1) * 1000" by (simp_all add: k_def)
  have "n * 1152921504606847 < 2 ^ 100" using n by simp
  then have s: "s \<le> 47" using bits_le [of "n * 1152921504606847" 100] by (simp add: s_def)
  let ?r = "half_even (n * 1152921504606847) (2 ^ s) * 2 ^ s"
  have "round53 n = n" by (rule round53_small) (use n in simp)
  then have r: "round53 (round53 n * 1152921504606847) = ?r" by (simp add: round53_def s_def Let_def)
  have "(2 :: nat) ^ (60 - s) * 2 ^ s = 2 ^ 60" using s by (simp only: power_add [symmetric]) simp
  then have split: "k * 2 ^ (60 - s) * 2 ^ s = k * 2 ^ 60" by (simp only: mult.assoc)
  have "k * 2 ^ (60 - s) * 2 ^ s \<le> n * 1152921504606847" unfolding split using k(1) by simp
  from mult_le_mono1 [OF half_even_above [OF _ this], of "2 ^ s"] have low: "k * 2 ^ 60 \<le> ?r" unfolding split by simp
  have "(2 :: nat) ^ s \<le> 2 ^ 47" using s by (intro power_increasing) simp_all
  moreover have "2 * ?r \<le> 2 * (n * 1152921504606847) + 2 ^ s" by (rule half_even_below)
  ultimately have "?r < (k + 1) * 2 ^ 60" using k(2) n by simp
  with low have "?r div 2 ^ 60 = k" by (intro div_nat_eqI) (simp_all add: mult.commute)
  then show ?thesis using assms(1) by (simp add: tolerance_for_def r n_def [symmetric] k_def) (simp add: n_def zdiv_int [symmetric] nat_div_distrib)
qed

text \<open>
  The floating-point tolerance is the 0.1% it stands for: up to a million million trades of a symbol,
  \<open>max(2, int(count * 0.001))\<close> in double precision is the larger of two and a thousandth of the count, rounded down.
\<close>
theorem tolerance_exact:
  assumes "0 \<le> c" and "c < 10 ^ 12"
  shows "tolerance_for c = max 2 (c div 1000)"
  by (rule tolerance_floor [OF assms])

theorem tolerance_exact_witness: "tolerance_for 123456 = 123"
  using tolerance_exact [of 123456] by simp

section \<open>Exact prices\<close>

lemma show_nat_length: "n < 10 ^ Suc k \<Longrightarrow> length (show_nat n) \<le> Suc k"
proof (induction k arbitrary: n)
  case (Suc k)
  show ?case
  proof (cases "n < 10")
    case False
    then show ?thesis using Suc.IH [of "n div 10"] Suc.prems by (subst show_nat.simps) simp
  qed (subst show_nat.simps, simp)
qed (subst show_nat.simps, simp)

lemma lower_digits: "list_all (\<lambda>c. is_digit c \<or> c = CHR ''.'') s \<Longrightarrow> lower s = s"
  by (induction s) (auto simp: lower_def is_digit_def Let_def)

lemma digit_not_mark: "is_digit c \<Longrightarrow> c \<noteq> CHR ''.'' \<and> c \<noteq> CHR ''e'' \<and> c \<noteq> CHR ''_'' \<and> c \<noteq> CHR ''-'' \<and> c \<noteq> CHR ''+'' \<and> c \<noteq> CHR ''i'' \<and> c \<noteq> CHR ''n'' \<and> c \<noteq> CHR ''s'' \<and> \<not> py_space c"
  by (auto simp: is_digit_def py_space_def)

lemma strip_id: "\<forall>x \<in> set t. \<not> py_space x \<Longrightarrow> py_strip t = t"
proof -
  have drop: "\<forall>x \<in> set u. \<not> py_space x \<Longrightarrow> dropWhile py_space u = u" for u by (cases u) auto
  assume "\<forall>x \<in> set t. \<not> py_space x"
  then show ?thesis using drop [of t] drop [of "rev t"] by (simp add: py_strip_def)
qed

lemma dec_plain:
  assumes "list_all is_digit (w @ f)" and "w \<noteq> []"
  shows "dec_literal (w @ CHR ''.'' # f) = Some (Finite False (digits_val (w @ f)) (- int (length f)))"
proof -
  let ?t = "w @ CHR ''.'' # f"
  obtain c cs where w: "w = c # cs" using assms(2) by (cases w) auto
  have d: "is_digit x" if "x \<in> set (w @ f)" for x using assms(1) that by (simp add: list_all_iff)
  then have marks: "x = CHR ''.'' \<or> is_digit x" if "x \<in> set ?t" for x using that by auto
  then have space: "\<not> py_space x" if "x \<in> set ?t" for x using that digit_not_mark by (fastforce simp: py_space_def)
  then have "py_strip ?t = ?t" by (intro strip_id) blast
  moreover have "filter (\<lambda>c. c \<noteq> CHR ''_'') ?t = ?t" using marks digit_not_mark by (intro filter_True) fastforce
  moreover have "lower ?t = ?t" by (rule lower_digits) (use marks in \<open>auto simp: list_all_iff\<close>)
  ultimately have plain: "lower (filter (\<lambda>c. c \<noteq> CHR ''_'') (py_strip ?t)) = c # cs @ CHR ''.'' # f" by (simp add: w)
  have "takeWhile (\<lambda>c. c \<noteq> CHR ''.'') ?t = w" using d digit_not_mark by (subst takeWhile_append2) auto
  then have m: "dec_mantissa ?t = Some (digits_val (w @ f), length f)" using assms by (simp add: dec_mantissa_def Let_def)
  have e: "takeWhile (\<lambda>c. c \<noteq> CHR ''e'') ?t = ?t" using marks digit_not_mark by (fastforce simp: takeWhile_eq_all_conv)
  have "dec_unsigned ?t = Some (digits_val (w @ f), - int (length f))" unfolding dec_unsigned_def e Let_def m by simp
  moreover have "hd ?t \<noteq> CHR ''i'' \<and> hd ?t \<noteq> CHR ''n'' \<and> hd ?t \<noteq> CHR ''s''" using digit_not_mark [of c] d [of c] by (simp add: w)
  then have "?t \<noteq> ''inf''" "?t \<noteq> ''infinity''" "take 3 ?t \<noteq> ''nan''" "take 4 ?t \<noteq> ''snan''" by (auto simp: w)
  ultimately have "dec_body False ?t = Some (Finite False (digits_val (w @ f)) (- int (length f)))" by (simp add: dec_body_def)
  then show ?thesis
    unfolding dec_literal_def plain using digit_not_mark [of c] d [of c] by (simp add: w)
qed

text \<open>
  A price text is converted exactly or refused: digits with a decimal point, at most 28 of them, give the
  integer that is the price in units of 1e-8, trailing zeros beyond the eighth decimal included; any other digit beyond
  it raises \<open>ValueError\<close>, never a rounded price.
\<close>
theorem fixed_exact_or_refused:
  assumes "list_all is_digit (w @ f)" and "w \<noteq> []" and "length (w @ f) \<le> 28"
  shows "to_fixed_1e8 (w @ CHR ''.'' # f) =
    (if length f \<le> 8 then Inr (int (digits_val (w @ f)) * 10 ^ (8 - length f))
     else if digits_val (w @ f) mod 10 ^ (length f - 8) = 0 then Inr (int (digits_val (w @ f) div 10 ^ (length f - 8))) else Inl ValueError)"
proof -
  have "digits_val (w @ f) < 10 ^ length (w @ f)" by (rule digits_val_bound [OF assms(1)])
  also have "\<dots> \<le> 10 ^ Suc 27" using assms(3) by (intro power_increasing) simp_all
  finally have "length (show_nat (digits_val (w @ f))) \<le> Suc 27" by (rule show_nat_length)
  then have "context_round (digits_val (w @ f)) e = (digits_val (w @ f), e)" for e
    by (simp add: context_round_def PRECISION_def)
  moreover have "nat (- (8 - int (length f))) = length f - 8" "nat (8 - int (length f)) = 8 - length f" by auto
  ultimately show ?thesis
    by (simp add: to_fixed_1e8_def dec_plain [OF assms(1,2)] SCALE_EXP_def signed_def Let_def)
qed

theorem fixed_exact_or_refused_witness:
  "to_fixed_1e8 ''78600.44000000'' = Inr 7860044000000 \<and> to_fixed_1e8 ''0.000000001'' = Inl ValueError"
  using fixed_exact_or_refused [of "''78600''" "''44000000''"] fixed_exact_or_refused [of "''0''" "''000000001''"]
  by (simp add: is_digit_def digits_val_def digit_val_def)

text \<open>
  Beyond 28 digits the context of \<open>decimal\<close> rounds before the test for a fraction: a price with ten decimals
  passes for an integer, its last digit silently dropped; an infinite price raises \<open>OverflowError\<close>, which is not handled.
\<close>
theorem long_price_rounded:
  "to_fixed_1e8 ''100000000000000000000.0000000001'' = Inr (10 ^ 28) \<and> to_fixed_1e8 ''Infinity'' = Inl OverflowError"
proof
  have "dec_literal ''100000000000000000000.0000000001'' = Some (Finite False 1000000000000000000000000000001 (- 10))"
    using dec_plain [of "''100000000000000000000''" "''0000000001''"] by (simp add: is_digit_def digits_val_def digit_val_def)
  moreover have "length (show_nat 1000000000000000000000000000001) = 31" by (simp add: show_nat.simps)
  ultimately show "to_fixed_1e8 ''100000000000000000000.0000000001'' = Inr (10 ^ 28)"
    by (simp add: to_fixed_1e8_def context_round_def PRECISION_def half_even_def Let_def SCALE_EXP_def signed_def)
  show "to_fixed_1e8 ''Infinity'' = Inl OverflowError" by code_simp
qed

section \<open>All symbols\<close>

text \<open>
  A table of PASS rows is evidence: on a venue with real ids, if every symbol passes then any record of one tier and any record
  of the other that carry the same id for the same symbol agree on price, quantity and side exactly and on the time to
  within a millisecond, repeats included.
\<close>
theorem pass_means_agree:
  assumes "list_all passed (compare v2 v3 exchange)" and "exchange \<notin> set SYNTHETIC_V2_ID_EXCHANGES"
    and "n \<in> set v2" and "m \<in> set v3" and "n_symbol n = n_symbol m" and "n_id n = n_id m"
  shows "comparable n = comparable m \<and> \<bar>n_ts n - n_ts m\<bar> < MAX_TS_DELTA_US"
proof -
  let ?s = "n_symbol n"
  have "?s \<in> set (sort (remdups (map n_symbol v2 @ map n_symbol v3)))" using assms(3) by simp
  then have "passed (compare_symbol ?s (of_symbol ?s v2) (of_symbol ?s v3) True)"
    using assms(1,2) by (simp add: compare_def list_all_iff)
  then have "agree (of_symbol ?s v2) (of_symbol ?s v3)" unfolding join_verdict by blast
  then show ?thesis using assms(3-6) by (simp add: agree_def of_symbol_def list_all_iff)
qed

definition demo_norm :: "string \<Rightarrow> int \<Rightarrow> int \<Rightarrow> norm" where
  "demo_norm key price ts = \<lparr>n_symbol = ''BTC'', n_id = key, n_price = price, n_qty = 1, n_side = ''buy'', n_ts = ts\<rparr>"

theorem pass_means_agree_witness:
  "comparable (demo_norm ''1'' 5 1000) = comparable (demo_norm ''1'' 5 1999) \<and> \<bar>n_ts (demo_norm ''1'' 5 1000) - n_ts (demo_norm ''1'' 5 1999)\<bar> < MAX_TS_DELTA_US"
  by (rule pass_means_agree [of "[demo_norm ''1'' 5 1000]" "[demo_norm ''1'' 5 1999, demo_norm ''1'' 5 1999]" "''binance''"])
    (simp_all add: demo_norm_def SYNTHETIC_V2_ID_EXCHANGES_def compare_def of_symbol_def join_verdict consistent_def agree_def ids_def
      same_trade_def comparable_def MAX_TS_DELTA_US_def tolerance_floor)

text \<open>
  A venue's re-sends do not change a verdict: copies of v3 records already in the window, delivered anywhere in it,
  leave every symbol's PASS or FAIL as it was, on every venue.
\<close>
theorem resends_keep_verdict:
  assumes "set v3' = set v3"
  shows "passed (compare_symbol symbol v2 v3' join_on_id) = passed (compare_symbol symbol v2 v3 join_on_id)"
proof -
  have "ids v3' = ids v3" "v3' = [] \<longleftrightarrow> v3 = []" "consistent v3' = consistent v3" "agree v2 v3' = agree v2 v3" "trade_keys v3' = trade_keys v3"
    using assms by (auto simp: ids_def consistent_def agree_def trade_keys_def list_all_iff)
  then show ?thesis by (cases join_on_id) (simp_all add: join_verdict multiset_verdict)
qed

theorem resends_keep_verdict_witness:
  "passed (compare_symbol ''BTC'' [demo_norm ''1'' 5 1000] [demo_norm ''1'' 5 1999, demo_norm ''1'' 5 1999] True) =
   passed (compare_symbol ''BTC'' [demo_norm ''1'' 5 1000] [demo_norm ''1'' 5 1999] True)"
  by (rule resends_keep_verdict) simp

end
