(* ===== verification/ParityRun.thy ===== *)
theory ParityRun
  imports TierParity
begin

text \<open>
  The reading half of \<open>scripts/parity/compare_trades.py\<close>: \<open>consume_window\<close> over what the consumer's \<open>poll\<close> returns, the
  checks of \<open>parse_args\<close> and \<open>main\<close>. The broker and the registry are arguments: which topics exist, the offsets they
  answer, and the polls in the order they return; after the last of them every poll times out.
\<close>

section \<open>Reading a window\<close>

text \<open>A record's value: a tombstone, bytes that do not decode, or a decoded record.\<close>

datatype payload = Tombstone | Undecodable | Decoded "(string \<times> avro) list"

datatype poll = TimedOut | PollError | Record int int int payload

datatype remark = NoTopic | EmptyWindow | ReadTruncated

record topic_view =
  tv_partitions :: "int list"
  tv_start :: "int \<Rightarrow> int \<Rightarrow> int"
  tv_high :: "int \<Rightarrow> int"
  tv_polls :: "poll list"

definition IDLE_POLLS_BEFORE_GIVING_UP :: nat where "IDLE_POLLS_BEFORE_GIVING_UP = 15"

text \<open>
  The loop \<open>while pending\<close>: the records so far, the count, and whether the read was given up. \<open>Inl\<close> is the exit
  through \<open>die\<close> or an exception that is not caught.
\<close>

fun drain :: "(int \<Rightarrow> int) \<Rightarrow> int \<Rightarrow> ((string \<times> avro) list \<Rightarrow> norm res) \<Rightarrow> poll list \<Rightarrow> int list \<Rightarrow> nat \<Rightarrow> norm list \<Rightarrow> int \<Rightarrow>
    (norm list \<times> int \<times> bool) res" where
  "drain high end_ms normalise polls [] idle records consumed = Inr (records, consumed, False)"
| "drain high end_ms normalise [] pending idle records consumed = Inr (records, consumed, True)"
| "drain high end_ms normalise (TimedOut # polls) pending idle records consumed =
     (if idle + 1 \<ge> IDLE_POLLS_BEFORE_GIVING_UP then Inr (records, consumed, True)
      else drain high end_ms normalise polls pending (idle + 1) records consumed)"
| "drain high end_ms normalise (PollError # polls) pending idle records consumed = Inl SystemExit"
| "drain high end_ms normalise (Record p offset ts value # polls) pending idle records consumed =
     (if ts > end_ms then drain high end_ms normalise polls (removeAll p pending) 0 records consumed
      else (let pending' = (if offset + 1 \<ge> high p then removeAll p pending else pending) in
        case value of Tombstone \<Rightarrow> drain high end_ms normalise polls pending' 0 records consumed
        | Undecodable \<Rightarrow> Inl SystemExit
        | Decoded r \<Rightarrow>
            (case normalise r of Inl e \<Rightarrow> Inl (if e \<in> {KeyError, ValueError} then SystemExit else e)
             | Inr n \<Rightarrow> drain high end_ms normalise polls pending' 0 (records @ [n]) (consumed + 1))))"

text \<open>\<open>None\<close> for the records when the topic does not exist.\<close>

definition assigned :: "topic_view \<Rightarrow> int \<Rightarrow> int list" where
  "assigned view start_ms = filter (\<lambda>p. 0 \<le> tv_start view start_ms p \<and> tv_start view start_ms p < tv_high view p) (sort (tv_partitions view))"

definition consume_window ::
  "topic_view option \<Rightarrow> int \<Rightarrow> int \<Rightarrow> ((string \<times> avro) list \<Rightarrow> norm res) \<Rightarrow> (norm list option \<times> int \<times> remark option) res" where
  "consume_window topic start_ms end_ms normalise =
     (case topic of None \<Rightarrow> Inr (None, 0, Some NoTopic)
      | Some view \<Rightarrow>
          if assigned view start_ms = [] then Inr (Some [], 0, Some EmptyWindow)
          else res_bind (drain (tv_high view) end_ms normalise (tv_polls view) (assigned view start_ms) 0 [] 0)
            (\<lambda>(records, consumed, short). Inr (Some records, consumed, if short then Some ReadTruncated else None)))"

section \<open>main\<close>

definition PARITY_EXCHANGES :: "string list" where "PARITY_EXCHANGES = [''binance'', ''kraken'', ''coinbase'']"
definition MIN_WINDOW_END_AGE_S :: int where "MIN_WINDOW_END_AGE_S = 60"

text \<open>Instants are microseconds since the epoch; \<open>argparse\<close> refuses arguments with status 2.\<close>

record parity_args =
  pa_exchange :: string
  pa_start :: int
  pa_end :: int
  pa_v2_only :: bool

definition args_ok :: "int \<Rightarrow> parity_args \<Rightarrow> bool" where
  "args_ok now a = (pa_exchange a \<in> set PARITY_EXCHANGES \<and> pa_start a < pa_end a \<and> MIN_WINDOW_END_AGE_S * 1000000 \<le> now - pa_end a)"

record parity_env =
  pe_registry_up :: bool
  pe_topics :: "string \<Rightarrow> topic_view option res"

definition V2_TOPIC :: "string \<Rightarrow> string" where "V2_TOPIC exchange = ''market.crypto.trades.'' @ exchange"
definition V3_TOPIC :: "string \<Rightarrow> string" where "V3_TOPIC exchange = ''market.crypto.v3.trades.'' @ exchange"

definition read_topic :: "parity_env \<Rightarrow> string \<Rightarrow> parity_args \<Rightarrow> ((string \<times> avro) list \<Rightarrow> norm res) \<Rightarrow> (norm list option \<times> int \<times> remark option) res" where
  "read_topic env topic a normalise =
     res_bind (pe_topics env topic) (\<lambda>view. consume_window view (pa_start a div 1000) (pa_end a div 1000) normalise)"

text \<open>The verdict of the full comparison, as the exit status and the table both carry it.\<close>

definition overall :: "symbol_stats list \<Rightarrow> remark list \<Rightarrow> bool" where
  "overall stats notes = (list_all passed stats \<and> ReadTruncated \<notin> set notes)"

definition notes_of :: "remark option \<Rightarrow> remark list" where "notes_of n = (case n of None \<Rightarrow> [] | Some x \<Rightarrow> [x])"

definition parity_run :: "parity_env \<Rightarrow> parity_args \<Rightarrow> (symbol_stats list option \<times> int) res" where
  "parity_run env a =
     (if \<not> pe_registry_up env then Inl SystemExit
      else res_bind (read_topic env (V2_TOPIC (pa_exchange a)) a normalise_v2) (\<lambda>(v2, _, note2).
        case v2 of None \<Rightarrow> Inl SystemExit
        | Some rows2 \<Rightarrow>
            if pa_v2_only a then Inr (None, if ReadTruncated \<in> set (notes_of note2) then 1 else 0)
            else res_bind (read_topic env (V3_TOPIC (pa_exchange a)) a normalise_v3) (\<lambda>(v3, _, note3).
              (let rows3 = (case v3 of None \<Rightarrow> [] | Some r \<Rightarrow> r) in
               if rows2 = [] \<and> rows3 = [] then Inl SystemExit
               else (let stats = compare rows2 rows3 (pa_exchange a) in
                     Inr (Some stats, if overall stats (notes_of note2 @ notes_of note3) then 0 else 1))))))"

definition parity_main :: "parity_env \<Rightarrow> int \<Rightarrow> parity_args \<Rightarrow> int" where
  "parity_main env now a = (if \<not> args_ok now a then 2 else (case parity_run env a of Inl _ \<Rightarrow> 1 | Inr (_, status) \<Rightarrow> status))"

section \<open>What a read holds\<close>

text \<open>The records of a read: those polled before it ended, up to the window end, tombstones apart.\<close>

fun wanted :: "int \<Rightarrow> poll \<Rightarrow> (string \<times> avro) list option" where
  "wanted end_ms (Record p offset ts (Decoded r)) = (if ts > end_ms then None else Some r)"
| "wanted end_ms _ = None"

text \<open>A poll that shows the read of partition \<open>p\<close> is over.\<close>

fun closes :: "(int \<Rightarrow> int) \<Rightarrow> int \<Rightarrow> int \<Rightarrow> poll \<Rightarrow> bool" where
  "closes high end_ms p (Record q offset ts value) = (q = p \<and> (ts > end_ms \<or> offset + 1 \<ge> high p))"
| "closes high end_ms p _ = False"

lemma drain_complete:
  assumes "drain high end_ms normalise polls pending idle records consumed = Inr (rows, n, False)"
  shows "\<exists>read rest. polls = read @ rest \<and> (\<forall>p \<in> set pending. list_ex (closes high end_ms p) read) \<and>
    (\<exists>new. rows = records @ new \<and> n = consumed + int (length new) \<and>
      list_all2 (\<lambda>r x. normalise r = Inr x) (List.map_filter (wanted end_ms) read) new)"
  using assms
proof (induction high end_ms normalise polls pending idle records consumed rule: drain.induct)
  case (1 high end_ms normalise polls idle records consumed)
  then show ?case by (intro exI [of _ "[]"] exI [of _ polls] exI [of _ "[]"]) (simp add: map_filter_simps)
next
  case (3 high end_ms normalise polls p ps idle records consumed)
  then obtain read rest where "polls = read @ rest \<and> (\<forall>p \<in> set (p # ps). list_ex (closes high end_ms p) read) \<and>
    (\<exists>new. rows = records @ new \<and> n = consumed + int (length new) \<and>
      list_all2 (\<lambda>r x. normalise r = Inr x) (List.map_filter (wanted end_ms) read) new)"
    by (auto split: if_splits)
  then show ?case by (intro exI [of _ "TimedOut # read"] exI [of _ rest]) (simp add: map_filter_simps)
next
  case (5 high end_ms normalise p position ts val polls q qs idle records consumed)
  let ?pending = "q # qs" and ?poll = "Record p position ts val"
  let ?left = "if ts > end_ms \<or> position + 1 \<ge> high p then removeAll p ?pending else ?pending"
  have over: "list_ex (closes high end_ms u) (?poll # read)" if "\<forall>u \<in> set ?left. list_ex (closes high end_ms u) read" "u \<in> set ?pending" for u read
    using that by (auto split: if_splits)
  show ?case
  proof (cases "\<exists>r. wanted end_ms ?poll = Some r")
    case True
    then obtain r where r: "val = Decoded r" "\<not> ts > end_ms" by (cases val) (auto split: if_splits)
    then obtain x where x: "normalise r = Inr x" using "5.prems" by (cases "normalise r") auto
    have "drain high end_ms normalise polls ?left 0 (records @ [x]) (consumed + 1) = Inr (rows, n, False)"
      using "5.prems" r x by (simp add: Let_def)
    with "5.IH"(3) r x obtain read rest new where h: "polls = read @ rest" "\<forall>u \<in> set ?left. list_ex (closes high end_ms u) read"
        "rows = (records @ [x]) @ new" "n = consumed + 1 + int (length new)"
        "list_all2 (\<lambda>r x. normalise r = Inr x) (List.map_filter (wanted end_ms) read) new"
      by (simp add: Let_def) blast
    then show ?thesis using over [OF h(2)] r x
      by (intro exI [of _ "?poll # read"] exI [of _ rest] conjI exI [of _ "x # new"]) (simp_all add: map_filter_simps)
  next
    case False
    then consider "ts > end_ms" | "\<not> ts > end_ms" "val = Tombstone" | "\<not> ts > end_ms" "val = Undecodable"
      by (cases val) (auto split: if_splits)
    then have "\<exists>read rest. polls = read @ rest \<and> (\<forall>u \<in> set ?left. list_ex (closes high end_ms u) read) \<and>
      (\<exists>new. rows = records @ new \<and> n = consumed + int (length new) \<and>
        list_all2 (\<lambda>r x. normalise r = Inr x) (List.map_filter (wanted end_ms) read) new)"
    proof cases
      case 1
      then show ?thesis using "5.IH"(1) "5.prems" by simp
    next
      case 2
      then show ?thesis using "5.IH"(2) "5.prems" by (simp add: Let_def)
    qed (use "5.prems" in \<open>simp add: Let_def\<close>)
    then obtain read rest new where h: "polls = read @ rest" "\<forall>u \<in> set ?left. list_ex (closes high end_ms u) read"
        "rows = records @ new" "n = consumed + int (length new)"
        "list_all2 (\<lambda>r x. normalise r = Inr x) (List.map_filter (wanted end_ms) read) new" by blast
    have none: "wanted end_ms ?poll = None" using False by (cases "wanted end_ms ?poll") auto
    show ?thesis
    proof (rule exI [of _ "?poll # read"], rule exI [of _ rest], intro conjI exI [of _ new])
      show "\<forall>u \<in> set ?pending. list_ex (closes high end_ms u) (?poll # read)" using over [OF h(2)] by blast
      show "list_all2 (\<lambda>r x. normalise r = Inr x) (List.map_filter (wanted end_ms) (?poll # read)) new"
        using h(5) none by (simp add: map_filter_simps)
    qed (use h in simp_all)
  qed
qed auto


definition demo_view :: topic_view where
  "demo_view = \<lparr>tv_partitions = [1, 0], tv_start = (\<lambda>t p. if p = 0 then 4 else -1), tv_high = (\<lambda>p. 6),
     tv_polls = [TimedOut, Record 0 4 1500 (Decoded [(''canonical_symbol'', AStr ''BTC''), (''trade_id'', AInt 7), (''price'', AInt 5), (''qty'', AInt 1),
       (''side'', AStr ''BUY''), (''exchange_ts'', ATime 1400)]), Record 0 5 2500 Tombstone]\<rparr>"

lemma demo_read: "consume_window (Some demo_view) 1000 2000 normalise_v3 =
    Inr (Some [\<lparr>n_symbol = ''BTC'', n_id = ''7'', n_price = 5, n_qty = 1, n_side = ''buy'', n_ts = 1400\<rparr>], 1, None)"
  by code_simp


section \<open>The verdict\<close>

lemma read_topic_cases:
  assumes "read_topic env topic a normalise = Inr (rows, n, note)"
  shows "\<exists>view. pe_topics env topic = Inr view \<and> consume_window view (pa_start a div 1000) (pa_end a div 1000) normalise = Inr (rows, n, note)"
  using assms by (auto simp: read_topic_def res_bind_def split: sum.splits)

lemma window_note: "consume_window topic s e normalise = Inr (Some rows, n, note) \<Longrightarrow> note \<noteq> Some ReadTruncated \<Longrightarrow>
    note = None \<or> note = Some EmptyWindow \<and> rows = []"
  by (auto simp: consume_window_def res_bind_def split: option.splits if_splits sum.splits)

lemma passed_both_sides: "passed (compare_symbol symbol v2 v3 join_on_id) \<Longrightarrow> v2 = [] \<longleftrightarrow> v3 = []"
  by (cases join_on_id) (simp_all add: join_verdict multiset_verdict)

lemma pass_symbols:
  assumes "list_all passed (compare v2 v3 exchange)"
  shows "n_symbol ` set v2 = n_symbol ` set v3"
proof -
  have "of_symbol s v2 = [] \<longleftrightarrow> of_symbol s v3 = []" if "s \<in> n_symbol ` set v2 \<union> n_symbol ` set v3" for s
    using assms that
    by (intro passed_both_sides [of s _ _ "exchange \<notin> set SYNTHETIC_V2_ID_EXCHANGES"]) (auto simp: compare_def list_all_iff)
  moreover have "of_symbol s v = [] \<longleftrightarrow> s \<notin> n_symbol ` set v" for s v by (auto simp: of_symbol_def filter_empty_conv)
  ultimately have "s \<in> n_symbol ` set v2 \<longleftrightarrow> s \<in> n_symbol ` set v3" for s by blast
  then show ?thesis by (rule set_eqI)
qed

lemma run_zero:
  assumes "parity_run env a = Inr (stats, 0)" and "\<not> pa_v2_only a"
  obtains rows2 n2 note2 v3 n3 note3 rows3 where
    "read_topic env (V2_TOPIC (pa_exchange a)) a normalise_v2 = Inr (Some rows2, n2, note2)"
    "read_topic env (V3_TOPIC (pa_exchange a)) a normalise_v3 = Inr (v3, n3, note3)"
    "rows3 = (case v3 of None \<Rightarrow> [] | Some r \<Rightarrow> r)" "\<not> (rows2 = [] \<and> rows3 = [])"
    "overall (compare rows2 rows3 (pa_exchange a)) (notes_of note2 @ notes_of note3)"
  using assms
  by (auto simp: parity_run_def res_bind_def Let_def split: if_splits sum.splits option.splits)

text \<open>
  C29. Exit status 0 is evidence: the arguments were accepted, both topics exist and were read to the end of the window, both tiers
  saw the same symbols, at least one, and every symbol of the comparison of exactly those rows passed. A tier that is not
  running, or a read cut short, cannot exit 0.
\<close>
theorem exit_zero_is_evidence:
  assumes "parity_main env now a = 0" and "\<not> pa_v2_only a"
  shows "args_ok now a \<and> (\<exists>rows2 rows3 n2 n3.
    read_topic env (V2_TOPIC (pa_exchange a)) a normalise_v2 = Inr (Some rows2, n2, None) \<and>
    read_topic env (V3_TOPIC (pa_exchange a)) a normalise_v3 = Inr (Some rows3, n3, None) \<and>
    rows2 \<noteq> [] \<and> n_symbol ` set rows2 = n_symbol ` set rows3 \<and> list_all passed (compare rows2 rows3 (pa_exchange a)))"
proof -
  have ok: "args_ok now a" and "\<exists>stats. parity_run env a = Inr (stats, 0)"
    using assms(1) by (auto simp: parity_main_def split: if_splits sum.splits)
  then obtain stats where "parity_run env a = Inr (stats, 0)" by blast
  from run_zero [OF this assms(2)] obtain rows2 n2 note2 v3 n3 note3 rows3 where r:
    "read_topic env (V2_TOPIC (pa_exchange a)) a normalise_v2 = Inr (Some rows2, n2, note2)"
    "read_topic env (V3_TOPIC (pa_exchange a)) a normalise_v3 = Inr (v3, n3, note3)"
    "rows3 = (case v3 of None \<Rightarrow> [] | Some r \<Rightarrow> r)" "\<not> (rows2 = [] \<and> rows3 = [])"
    "overall (compare rows2 rows3 (pa_exchange a)) (notes_of note2 @ notes_of note3)" by blast
  have p: "list_all passed (compare rows2 rows3 (pa_exchange a))" and short: "note2 \<noteq> Some ReadTruncated" "note3 \<noteq> Some ReadTruncated"
    using r(5) by (auto simp: overall_def notes_of_def split: option.splits)
  have same: "n_symbol ` set rows2 = n_symbol ` set rows3" by (rule pass_symbols [OF p])
  with r(4) have some: "rows2 \<noteq> []" "rows3 \<noteq> []" by auto
  with r(3) have v3: "v3 = Some rows3" by (cases v3) auto
  have "note2 = None" "note3 = None"
    using read_topic_cases [OF r(1)] read_topic_cases [OF r(2) [unfolded v3]] window_note short some by blast+
  then show ?thesis using ok r(1,2) v3 some same p by blast
qed

definition demo_env :: parity_env where
  "demo_env = \<lparr>pe_registry_up = True, pe_topics = (\<lambda>topic. if topic = ''market.crypto.trades.binance'' then
     Inr (Some \<lparr>tv_partitions = [0], tv_start = (\<lambda>t p. 0), tv_high = (\<lambda>p. 1),
       tv_polls = [Record 0 0 1500 (Decoded [(''canonical_symbol'', AStr ''BTC''), (''trade_id'', AStr ''7''), (''price'', AStr ''0.00000005''),
         (''quantity'', AStr ''1e-8''), (''side'', AStr ''BUY''), (''exchange_timestamp'', AInt 1)])]\<rparr>)
     else Inr (Some demo_view))\<rparr>"

definition demo_args :: parity_args where
  "demo_args = \<lparr>pa_exchange = ''binance'', pa_start = 1000000, pa_end = 2000000, pa_v2_only = False\<rparr>"

lemma demo_reads:
  "parity_run demo_env demo_args = (let stats = compare
     [\<lparr>n_symbol = ''BTC'', n_id = ''7'', n_price = 5, n_qty = 1, n_side = ''buy'', n_ts = 1000\<rparr>]
     [\<lparr>n_symbol = ''BTC'', n_id = ''7'', n_price = 5, n_qty = 1, n_side = ''buy'', n_ts = 1400\<rparr>] ''binance''
     in Inr (Some stats, if overall stats [] then 0 else 1))"
proof -
  have "read_topic demo_env (V2_TOPIC (pa_exchange demo_args)) demo_args normalise_v2 =
      Inr (Some [\<lparr>n_symbol = ''BTC'', n_id = ''7'', n_price = 5, n_qty = 1, n_side = ''buy'', n_ts = 1000\<rparr>], 1, None)" by code_simp
  moreover have "read_topic demo_env (V3_TOPIC (pa_exchange demo_args)) demo_args normalise_v3 =
      Inr (Some [\<lparr>n_symbol = ''BTC'', n_id = ''7'', n_price = 5, n_qty = 1, n_side = ''buy'', n_ts = 1400\<rparr>], 1, None)" by code_simp
  ultimately show ?thesis
    by (simp add: parity_run_def res_bind_def notes_of_def) (simp add: demo_env_def demo_args_def)
qed

lemma demo_exit: "parity_main demo_env 100000000 demo_args = 0"
proof -
  have "list_all passed (compare [\<lparr>n_symbol = ''BTC'', n_id = ''7'', n_price = 5, n_qty = 1, n_side = ''buy'', n_ts = 1000\<rparr>]
     [\<lparr>n_symbol = ''BTC'', n_id = ''7'', n_price = 5, n_qty = 1, n_side = ''buy'', n_ts = 1400\<rparr>] ''binance'')"
    by (simp add: SYNTHETIC_V2_ID_EXCHANGES_def compare_def of_symbol_def join_verdict consistent_def agree_def ids_def
      same_trade_def comparable_def MAX_TS_DELTA_US_def tolerance_floor)
  then show ?thesis
    by (simp add: parity_main_def demo_reads Let_def overall_def) (simp add: args_ok_def demo_args_def PARITY_EXCHANGES_def MIN_WINDOW_END_AGE_S_def)
qed

theorem exit_zero_is_evidence_witness:
  "args_ok 100000000 demo_args \<and> (\<exists>rows2 rows3 n2 n3.
    read_topic demo_env (V2_TOPIC (pa_exchange demo_args)) demo_args normalise_v2 = Inr (Some rows2, n2, None) \<and>
    read_topic demo_env (V3_TOPIC (pa_exchange demo_args)) demo_args normalise_v3 = Inr (Some rows3, n3, None) \<and>
    rows2 \<noteq> [] \<and> n_symbol ` set rows2 = n_symbol ` set rows3 \<and> list_all passed (compare rows2 rows3 (pa_exchange demo_args)))"
  using exit_zero_is_evidence [OF demo_exit] by (simp add: demo_args_def)

end
