(* ===== verification/Overload.thy ===== *)
theory Overload
  imports Complex_Main TierParity
begin

text \<open>
  Load handling of the archived v1 tier: \<open>DegradationManager\<close> (\<open>legacy/v1/src/k2/common/degradation_manager.py\<close>), which turns
  consumer lag and memory use into one of five levels with hysteresis, and \<open>LoadShedder\<close> (\<open>load_shedder.py\<close>), which drops
  messages by priority at a level. Every method runs under the manager's lock or is one assignment, so an operation is
  a function of the state; the clock readings it takes are arguments, in microseconds. A double is the rational number it
  stands for, and a product is rounded.
\<close>

section \<open>Levels\<close>

datatype degradation = LvNormal | LvSoft | LvGraceful | LvAggressive | LvCircuitBreak

primrec level_value :: "degradation \<Rightarrow> nat" where
  "level_value LvNormal = 0"
| "level_value LvSoft = 1"
| "level_value LvGraceful = 2"
| "level_value LvAggressive = 3"
| "level_value LvCircuitBreak = 4"

text \<open>\<open>IntEnum\<close>: the levels are ordered by their values.\<close>

instantiation degradation :: linorder
begin

definition less_eq_degradation :: "degradation \<Rightarrow> degradation \<Rightarrow> bool" where
  "less_eq_degradation a b = (level_value a \<le> level_value b)"

definition less_degradation :: "degradation \<Rightarrow> degradation \<Rightarrow> bool" where
  "less_degradation a b = (level_value a < level_value b)"

lemma level_value_inject: "level_value a = level_value b \<Longrightarrow> a = b"
  by (cases a; cases b) simp_all

instance
  by standard (auto simp: less_eq_degradation_def less_degradation_def intro: level_value_inject)

end

lemmas level_order = less_eq_degradation_def less_degradation_def

section \<open>Doubles\<close>

text \<open>Rounding to 53 significant bits, half to even.\<close>

definition double_abs :: "nat \<Rightarrow> nat \<Rightarrow> rat" where
  "double_abs n d =
     (if n = 0 then 0
      else (let k = 54 + bits d; m = n * 2 ^ k; s = bits (m div d) - 53
            in of_nat (half_even m (d * 2 ^ s) * 2 ^ s) / of_nat (2 ^ k)))"

definition double :: "rat \<Rightarrow> rat" where
  "double x = (let (a, b) = quotient_of x in if a < 0 then - double_abs (nat (- a)) (nat b) else double_abs (nat a) (nat b))"

section \<open>The manager\<close>

record thresholds =
  lag_soft :: int
  lag_graceful :: int
  lag_aggressive :: int
  lag_circuit_break :: int
  heap_soft :: rat
  heap_graceful :: rat
  heap_aggressive :: rat
  heap_circuit_break :: rat
  recovery_lag_factor :: rat
  recovery_heap_factor :: rat
  recovery_cooldown_seconds :: int

text \<open>The defaults; \<open>0.9\<close> is the double next to nine tenths.\<close>

definition default_thresholds :: thresholds where
  "default_thresholds =
     \<lparr>lag_soft = 100000, lag_graceful = 500000, lag_aggressive = 1000000, lag_circuit_break = 5000000,
      heap_soft = 70, heap_graceful = 80, heap_aggressive = 90, heap_circuit_break = 95,
      recovery_lag_factor = 1 / 2, recovery_heap_factor = 8106479329266893 / 9007199254740992,
      recovery_cooldown_seconds = 30\<rparr>"

record degradation_manager =
  dm_level :: degradation
  dm_last :: "int option"
  dm_history :: "(int \<times> degradation) list"

definition manager_init :: degradation_manager where
  "manager_init = \<lparr>dm_level = LvNormal, dm_last = None, dm_history = []\<rparr>"

definition calculate_level :: "thresholds \<Rightarrow> int \<Rightarrow> rat \<Rightarrow> degradation" where
  "calculate_level t lag heap_pct =
     (if lag \<ge> lag_circuit_break t \<or> heap_pct \<ge> heap_circuit_break t then LvCircuitBreak
      else if lag \<ge> lag_aggressive t \<or> heap_pct \<ge> heap_aggressive t then LvAggressive
      else if lag \<ge> lag_graceful t \<or> heap_pct \<ge> heap_graceful t then LvGraceful
      else if lag \<ge> lag_soft t \<or> heap_pct \<ge> heap_soft t then LvSoft
      else LvNormal)"

definition below_recovery :: "thresholds \<Rightarrow> int \<Rightarrow> rat \<Rightarrow> int \<Rightarrow> rat \<Rightarrow> bool" where
  "below_recovery t lag heap_pct lag_trigger heap_trigger =
     (of_int lag < double (double (of_int lag_trigger) * recovery_lag_factor t) \<and>
      heap_pct < double (heap_trigger * recovery_heap_factor t))"

definition can_recover :: "thresholds \<Rightarrow> int \<Rightarrow> rat \<Rightarrow> degradation \<Rightarrow> int \<Rightarrow> degradation_manager \<Rightarrow> bool" where
  "can_recover t lag heap_pct current now m =
     (if (case dm_last m of None \<Rightarrow> False | Some since \<Rightarrow> now - since < recovery_cooldown_seconds t * 1000000) then False
      else (case current of
          LvCircuitBreak \<Rightarrow> below_recovery t lag heap_pct (lag_circuit_break t) (heap_circuit_break t)
        | LvAggressive \<Rightarrow> below_recovery t lag heap_pct (lag_aggressive t) (heap_aggressive t)
        | LvGraceful \<Rightarrow> below_recovery t lag heap_pct (lag_graceful t) (heap_graceful t)
        | LvSoft \<Rightarrow> below_recovery t lag heap_pct (lag_soft t) (heap_soft t)
        | LvNormal \<Rightarrow> True))"

text \<open>The clock is read twice, for the cooldown and for the history, of which the last hundred entries are kept.\<close>

definition manager_transition :: "degradation \<Rightarrow> int \<Rightarrow> int \<Rightarrow> degradation_manager \<Rightarrow> degradation_manager" where
  "manager_transition level since logged m =
     (let history = dm_history m @ [(logged, level)] in
      m\<lparr>dm_level := level, dm_last := Some since,
        dm_history := (if length history > 100 then drop (length history - 100) history else history)\<rparr>)"

text \<open>The readings of one check: for the cooldown, for the transition and for its log entry.\<close>

record check_clock =
  ck_now :: int
  ck_at :: int
  ck_logged :: int

definition check_and_degrade :: "thresholds \<Rightarrow> int \<Rightarrow> rat \<Rightarrow> check_clock \<Rightarrow> degradation_manager \<Rightarrow> degradation_manager" where
  "check_and_degrade t lag heap_pct clock m =
     (let old = dm_level m; new = calculate_level t lag heap_pct;
          new = (if new < old \<and> \<not> can_recover t lag heap_pct old (ck_now clock) m then old else new)
      in if new \<noteq> old then manager_transition new (ck_at clock) (ck_logged clock) m else m)"

definition should_process_symbol :: "string list \<Rightarrow> string \<Rightarrow> degradation_manager \<Rightarrow> bool" where
  "should_process_symbol critical symbol m = (if dm_level m < LvGraceful then True else symbol \<in> set critical)"

definition is_accepting_data :: "degradation_manager \<Rightarrow> bool" where
  "is_accepting_data m = (dm_level m < LvCircuitBreak)"

definition should_skip_enrichment :: "degradation_manager \<Rightarrow> bool" where
  "should_skip_enrichment m = (LvSoft \<le> dm_level m)"

definition should_spill_to_disk :: "degradation_manager \<Rightarrow> bool" where
  "should_spill_to_disk m = (LvAggressive \<le> dm_level m)"

definition manager_reset :: "degradation_manager \<Rightarrow> degradation_manager" where
  "manager_reset m = m\<lparr>dm_level := LvNormal, dm_last := None\<rparr>"

section \<open>The shedder\<close>

datatype priority = PCritical | PHigh | PNormal | PLow

primrec priority_value :: "priority \<Rightarrow> nat" where
  "priority_value PCritical = 1"
| "priority_value PHigh = 2"
| "priority_value PNormal = 3"
| "priority_value PLow = 4"

definition DEFAULT_TIER_1 :: "string list" where
  "DEFAULT_TIER_1 = [''BHP'', ''CBA'', ''CSL'', ''NAB'', ''WBC'', ''ANZ'', ''WES'', ''MQG'', ''RIO'', ''TLS'', ''WOW'', ''FMG'',
    ''NCM'', ''STO'', ''WPL'', ''AMC'', ''GMG'', ''TCL'', ''COL'', ''ALL'']"

definition DEFAULT_TIER_2 :: "string list" where
  "DEFAULT_TIER_2 = [''REA'', ''QAN'', ''BXB'', ''ORG'', ''JHX'', ''CPU'', ''SHL'', ''ASX'', ''IAG'', ''APA'', ''S32'', ''MIN'', ''SGP'',
    ''AGL'', ''RMD'', ''SEK'', ''ORI'', ''QBE'', ''MPL'', ''AZJ'', ''WHC'', ''LLC'', ''SCG'', ''EVN'', ''JBH'', ''DXS'', ''GPT'', ''MGR'',
    ''NST'', ''BOQ'', ''ILU'', ''ALX'', ''VCX'', ''SDF'', ''CHC'', ''TAH'', ''ALU'', ''IPL'', ''HVN'', ''ORA'']"

text \<open>The manager's default critical symbols are the same twenty.\<close>

definition DEFAULT_CRITICAL :: "string list" where
  "DEFAULT_CRITICAL = [''BHP'', ''CBA'', ''CSL'', ''NAB'', ''WBC'', ''ANZ'', ''WES'', ''MQG'', ''RIO'', ''TLS'', ''WOW'', ''FMG'',
    ''NCM'', ''STO'', ''WPL'', ''AMC'', ''GMG'', ''TCL'', ''COL'', ''ALL'']"

record load_shedder =
  ls_tier_1 :: "string list"
  ls_tier_2 :: "string list"
  ls_checked :: int
  ls_shed :: int

definition shedder_init :: load_shedder where
  "shedder_init = \<lparr>ls_tier_1 = DEFAULT_TIER_1, ls_tier_2 = DEFAULT_TIER_2, ls_checked = 0, ls_shed = 0\<rparr>"

definition get_priority :: "load_shedder \<Rightarrow> string \<Rightarrow> string \<Rightarrow> priority" where
  "get_priority s symbol data_type =
     (if data_type = ''reference_data'' then PLow
      else if symbol \<in> set (ls_tier_1 s) then PCritical
      else if symbol \<in> set (ls_tier_2 s) then PHigh else PNormal)"

definition record_shed :: "load_shedder \<Rightarrow> load_shedder" where
  "record_shed s = s\<lparr>ls_shed := ls_shed s + 1\<rparr>"

text \<open>Whether to process at a level, any integer; outside 0 to 4 the message is dropped without being counted.\<close>

definition allows :: "priority \<Rightarrow> int \<Rightarrow> bool" where
  "allows p level =
     (if level = 0 \<or> level = 1 then True
      else if level = 2 then priority_value p \<le> priority_value PNormal
      else if level = 3 then priority_value p \<le> priority_value PHigh
      else if level = 4 then p = PCritical else False)"

definition should_process :: "string \<Rightarrow> int \<Rightarrow> string \<Rightarrow> load_shedder \<Rightarrow> load_shedder \<times> bool" where
  "should_process symbol level data_type s =
     (let s = s\<lparr>ls_checked := ls_checked s + 1\<rparr>; ok = allows (get_priority s symbol data_type) level in
      if ok \<or> level \<notin> {0, 1, 2, 3, 4} then (s, ok) else (record_shed s, False))"

text \<open>\<open>get_shed_stats\<close> asks \<open>should_process\<close> of every symbol, which counts: a report is an operation.\<close>

fun shed_scan :: "string list \<Rightarrow> int \<Rightarrow> load_shedder \<Rightarrow> load_shedder \<times> int" where
  "shed_scan [] level s = (s, 0)"
| "shed_scan (x # xs) level s =
     (let (s, ok) = should_process x level ''trades'' s; (s, n) = shed_scan xs level s in (s, (if ok then 1 else 0) + n))"

record shed_report =
  sr_total :: int
  sr_processed :: int
  sr_dropped :: int
  sr_percentage :: rat

definition percentage :: "int \<Rightarrow> int \<Rightarrow> rat" where
  "percentage a b = (if 0 < b then double (double (of_int a / of_int b) * 100) else 0)"

definition get_shed_stats :: "string list \<Rightarrow> int \<Rightarrow> load_shedder \<Rightarrow> load_shedder \<times> shed_report" where
  "get_shed_stats symbols level s =
     (let (s, processed) = shed_scan symbols level s; shed = int (length symbols) - processed in
      (s, \<lparr>sr_total = int (length symbols), sr_processed = processed, sr_dropped = shed,
           sr_percentage = percentage shed (int (length symbols))\<rparr>))"

definition shed_rate :: "load_shedder \<Rightarrow> rat" where
  "shed_rate s = percentage (ls_shed s) (ls_checked s)"

section \<open>One check\<close>

lemma check_cases:
  obtains (kept) "check_and_degrade t lag heap clock m = m" "calculate_level t lag heap \<le> dm_level m"
      "calculate_level t lag heap < dm_level m \<longrightarrow> \<not> can_recover t lag heap (dm_level m) (ck_now clock) m"
    | (degraded) "dm_level m < calculate_level t lag heap"
      "check_and_degrade t lag heap clock m = manager_transition (calculate_level t lag heap) (ck_at clock) (ck_logged clock) m"
    | (recovered) "calculate_level t lag heap < dm_level m" "can_recover t lag heap (dm_level m) (ck_now clock) m"
      "check_and_degrade t lag heap clock m = manager_transition (calculate_level t lag heap) (ck_at clock) (ck_logged clock) m"
proof (cases "calculate_level t lag heap" "dm_level m" rule: linorder_cases)
  case less
  then have "calculate_level t lag heap \<noteq> dm_level m" by simp
  with less show ?thesis
    by (cases "can_recover t lag heap (dm_level m) (ck_now clock) m")
      (simp_all add: check_and_degrade_def Let_def recovered kept)
next
  case equal
  then show ?thesis by (simp add: check_and_degrade_def Let_def kept)
next
  case greater
  then have "calculate_level t lag heap \<noteq> dm_level m" "\<not> calculate_level t lag heap < dm_level m" by auto
  with greater show ?thesis by (simp add: check_and_degrade_def Let_def degraded)
qed

lemma transition_fields [simp]:
  "dm_level (manager_transition l a g m) = l" "dm_last (manager_transition l a g m) = Some a"
  by (simp_all add: manager_transition_def Let_def)

text \<open>
  A check never understates the load and holds a level only with a reason: the level after it is at least what lag and memory call for
  now; it rises at once; and it stays above only while the cooldown since the last transition runs or lag or
  memory is not yet below the recovery threshold of the level held.
\<close>
theorem degradation_follows_load:
  "calculate_level t lag heap \<le> dm_level (check_and_degrade t lag heap clock m) \<and>
   (dm_level (check_and_degrade t lag heap clock m) = calculate_level t lag heap \<or>
    check_and_degrade t lag heap clock m = m \<and> \<not> can_recover t lag heap (dm_level m) (ck_now clock) m)"
  by (rule check_cases [of t lag heap clock m]) auto

section \<open>Flapping\<close>

record reading =
  rd_lag :: int
  rd_heap :: rat
  rd_clock :: check_clock

fun checks :: "thresholds \<Rightarrow> reading list \<Rightarrow> degradation_manager \<Rightarrow> degradation_manager" where
  "checks t [] m = m"
| "checks t (r # rs) m = checks t rs (check_and_degrade t (rd_lag r) (rd_heap r) (rd_clock r) m)"

fun recoveries :: "thresholds \<Rightarrow> reading list \<Rightarrow> degradation_manager \<Rightarrow> nat" where
  "recoveries t [] m = 0"
| "recoveries t (r # rs) m =
     (let m' = check_and_degrade t (rd_lag r) (rd_heap r) (rd_clock r) m
      in (if dm_level m' < dm_level m then 1 else 0) + recoveries t rs m')"

text \<open>The clock does not go back: within a check, and from one check to the next.\<close>

fun clock_from :: "int \<Rightarrow> reading list \<Rightarrow> bool" where
  "clock_from start [] = True"
| "clock_from start (r # rs) =
     (start \<le> ck_now (rd_clock r) \<and> ck_now (rd_clock r) \<le> ck_at (rd_clock r) \<and> clock_from (ck_at (rd_clock r)) rs)"

fun last_clock :: "int \<Rightarrow> reading list \<Rightarrow> int" where
  "last_clock start [] = start"
| "last_clock start (r # rs) = last_clock (ck_at (rd_clock r)) rs"

lemma last_clock_ge: "clock_from start rs \<Longrightarrow> start \<le> last_clock start rs"
  by (induction rs arbitrary: start) (auto, fastforce)

text \<open>Of a manager above \<open>LvNormal\<close> a transition is on record.\<close>

definition manager_ok :: "int \<Rightarrow> degradation_manager \<Rightarrow> bool" where
  "manager_ok start m = (case dm_last m of None \<Rightarrow> dm_level m = LvNormal | Some since \<Rightarrow> since \<le> start)"

lemma recovery_budget:
  assumes "clock_from start rs" and "manager_ok start m" and "0 \<le> recovery_cooldown_seconds t"
    and "case dm_last m of None \<Rightarrow> base \<le> start | Some since \<Rightarrow> base \<le> since"
  shows "int (recoveries t rs m) * (recovery_cooldown_seconds t * 1000000) \<le>
    last_clock start rs - (case dm_last m of None \<Rightarrow> start | Some since \<Rightarrow> since)"
  using assms
proof (induction rs arbitrary: start m)
  case Nil
  then show ?case by (auto simp: manager_ok_def split: option.splits)
next
  case (Cons r rs)
  let ?m = "check_and_degrade t (rd_lag r) (rd_heap r) (rd_clock r) m" and ?now = "ck_now (rd_clock r)" and ?at = "ck_at (rd_clock r)"
  let ?c = "recovery_cooldown_seconds t * 1000000"
  have clock: "start \<le> ?now" "?now \<le> ?at" "clock_from ?at rs" using Cons.prems(1) by simp_all
  have ok: "manager_ok ?at ?m"
    by (rule check_cases [of t "rd_lag r" "rd_heap r" "rd_clock r" m])
      (use Cons.prems(2) clock in \<open>auto simp: manager_ok_def split: option.splits\<close>)
  have base: "case dm_last ?m of None \<Rightarrow> base \<le> ?at | Some since \<Rightarrow> base \<le> since"
    by (rule check_cases [of t "rd_lag r" "rd_heap r" "rd_clock r" m])
      (use Cons.prems(2,4) clock in \<open>auto simp: manager_ok_def split: option.splits\<close>)
  note IH = Cons.IH [OF clock(3) ok Cons.prems(3) base]
  show ?case
  proof (rule check_cases [of t "rd_lag r" "rd_heap r" "rd_clock r" m])
    assume kept: "?m = m"
    then have "recoveries t (r # rs) m = recoveries t rs m" by simp
    then show ?thesis using IH clock unfolding kept by (auto split: option.splits)
  next
    assume h: "dm_level m < calculate_level t (rd_lag r) (rd_heap r)"
      "?m = manager_transition (calculate_level t (rd_lag r) (rd_heap r)) ?at (ck_logged (rd_clock r)) m"
    then have "recoveries t (r # rs) m = recoveries t rs ?m" by simp
    moreover have "dm_last ?m = Some ?at" using h by simp
    ultimately show ?thesis using IH clock Cons.prems(2) by (auto simp: manager_ok_def split: option.splits)
  next
    assume h: "calculate_level t (rd_lag r) (rd_heap r) < dm_level m" "can_recover t (rd_lag r) (rd_heap r) (dm_level m) ?now m"
      "?m = manager_transition (calculate_level t (rd_lag r) (rd_heap r)) ?at (ck_logged (rd_clock r)) m"
    then have n: "recoveries t (r # rs) m = Suc (recoveries t rs ?m)" by simp
    have "dm_level m \<noteq> LvNormal" using h(1) by (auto simp: level_order)
    then obtain since where at: "dm_last m = Some since" using Cons.prems(2) by (auto simp: manager_ok_def split: option.splits)
    then have "?c \<le> ?now - since" using h(2) by (auto simp: can_recover_def split: if_splits)
    moreover have "dm_last ?m = Some ?at" using h by simp
    ultimately show ?thesis using IH clock at unfolding n by (simp add: algebra_simps)
  qed
qed

text \<open>
  C40. The hysteresis bounds flapping: over any sequence of checks from a fresh manager, whatever lag and memory do, the level comes
  down at most once per cooldown of elapsed clock time.
\<close>
theorem recoveries_spaced:
  assumes "clock_from start rs" and "0 \<le> recovery_cooldown_seconds t"
  shows "int (recoveries t rs manager_init) * (recovery_cooldown_seconds t * 1000000) \<le> last_clock start rs - start"
  using recovery_budget [OF assms(1) _ assms(2), of manager_init start] by (simp add: manager_init_def manager_ok_def)

definition demo_reading :: "int \<Rightarrow> int \<Rightarrow> reading" where
  "demo_reading lag now = \<lparr>rd_lag = lag, rd_heap = 0, rd_clock = \<lparr>ck_now = now, ck_at = now, ck_logged = now\<rparr>\<rparr>"

theorem recoveries_spaced_witness:
  "int (recoveries default_thresholds [demo_reading 200000 0, demo_reading 10 40000000] manager_init) * 30000000 \<le> 40000000"
  using recoveries_spaced [of 0 "[demo_reading 200000 0, demo_reading 10 40000000]" default_thresholds]
  by (simp add: demo_reading_def default_thresholds_def)

section \<open>Shedding\<close>

lemma should_process_ok: "snd (should_process symbol level data_type s) = allows (get_priority s symbol data_type) level"
  by (auto simp: should_process_def Let_def get_priority_def)

text \<open>
  The two components name the same levels and disagree on what they drop: at every level a trade the manager would process the shedder
  processes too, and at \<open>GRACEFUL\<close>, where the manager keeps the critical symbols only, the shedder drops no trade
  at all.
\<close>
theorem graceful_sheds_no_trade:
  "(should_process_symbol DEFAULT_CRITICAL symbol m \<longrightarrow>
      snd (should_process symbol (int (level_value (dm_level m))) ''trades'' shedder_init)) \<and>
   snd (should_process symbol (int (level_value LvGraceful)) ''trades'' s)"
proof
  show "snd (should_process symbol (int (level_value LvGraceful)) ''trades'' s)"
    by (simp add: should_process_ok allows_def get_priority_def)
  show "should_process_symbol DEFAULT_CRITICAL symbol m \<longrightarrow>
      snd (should_process symbol (int (level_value (dm_level m))) ''trades'' shedder_init)"
    by (cases "dm_level m")
      (auto simp: should_process_ok allows_def get_priority_def should_process_symbol_def level_order shedder_init_def
        DEFAULT_CRITICAL_def DEFAULT_TIER_1_def)
qed

theorem graceful_sheds_no_trade_witness:
  "snd (should_process ''BHP'' 4 ''trades'' shedder_init) \<and> snd (should_process ''XYZ'' 2 ''trades'' shedder_init)"
  using graceful_sheds_no_trade [of "''BHP''" "manager_init\<lparr>dm_level := LvCircuitBreak\<rparr>" shedder_init]
    graceful_sheds_no_trade [of "''XYZ''" manager_init shedder_init]
  by (simp add: should_process_symbol_def level_order DEFAULT_CRITICAL_def)

lemma scan_counts: "ls_checked (fst (shed_scan xs level s)) = ls_checked s + int (length xs)"
proof (induction xs arbitrary: s)
  case (Cons x xs)
  obtain s' ok where p: "should_process x level ''trades'' s = (s', ok)" by (cases "should_process x level ''trades'' s")
  then have "ls_checked s' = ls_checked s + 1"
    by (auto simp: should_process_def record_shed_def Let_def split: if_splits)
  then show ?case using Cons.IH [of s'] by (cases "shed_scan xs level s'") (simp add: p Let_def)
qed simp

lemma scan_drops:
  "0 \<le> level \<Longrightarrow> level \<le> 4 \<Longrightarrow> ls_shed (fst (shed_scan xs level s)) - ls_shed s = int (length xs) - snd (shed_scan xs level s)"
proof (induction xs arbitrary: s)
  case (Cons x xs)
  obtain s' ok where p: "should_process x level ''trades'' s = (s', ok)" by (cases "should_process x level ''trades'' s")
  then have "ls_shed s' = ls_shed s + (if ok then 0 else 1)"
    using Cons.prems by (auto simp: should_process_def record_shed_def Let_def split: if_splits)
  then show ?case using Cons.IH [of s'] Cons.prems by (cases "shed_scan xs level s'") (auto simp: p Let_def split: if_splits)
qed simp

text \<open>
  Asking what would be shed changes what is said to have been shed: \<open>get_shed_stats\<close> counts every symbol it is asked about as a
  message checked, and every one it would drop as a message dropped.
\<close>
theorem report_counts:
  assumes "0 \<le> level" and "level \<le> 4" and "get_shed_stats symbols level s = (s', r)"
  shows "ls_checked s' = ls_checked s + sr_total r \<and> ls_shed s' = ls_shed s + sr_dropped r"
  using scan_counts [of symbols level s] scan_drops [OF assms(1,2), of symbols s] assms(3)
  by (auto simp: get_shed_stats_def Let_def split: prod.splits)

theorem report_counts_witness:
  "ls_shed (fst (get_shed_stats [''BHP'', ''XYZ''] 3 shedder_init)) = 1"
  using report_counts [of 3 "[''BHP'', ''XYZ'']" shedder_init "fst (get_shed_stats [''BHP'', ''XYZ''] 3 shedder_init)"
      "snd (get_shed_stats [''BHP'', ''XYZ''] 3 shedder_init)"]
  by (simp add: get_shed_stats_def should_process_def allows_def get_priority_def shedder_init_def record_shed_def
      DEFAULT_TIER_1_def DEFAULT_TIER_2_def Let_def)

end
