(* ===== verification/Gates.thy ===== *)
theory Gates
  imports Overload Wire
begin

text \<open>
  The release gates run from the host: \<open>scripts/parity_ohlcv.py\<close> and \<open>scripts/parity_bars.py\<close>, which compare computations of the
  same candles or bars at pinned snapshots, and \<open>scripts/replay_export.py\<close>, which takes one archived connection out of
  the archive. What the queries return is an argument; a time is the microsecond the session, set to UTC, shows.
\<close>

section \<open>Pinned snapshots\<close>

text \<open>The rows of \<open>iceberg_snapshots\<close>: sequence number and id; \<open>max(rows)\<close> compares the pairs.\<close>

definition resolve_snapshot :: "(int \<times> int) list \<Rightarrow> int \<Rightarrow> int res" where
  "resolve_snapshot rows pinned =
     (if rows = [] then Inl SystemExit
      else if pinned \<in> set (map snd rows) then Inr pinned
      else Inr (snd (foldl max (hd rows) (tl rows))))"

section \<open>Candles\<close>

type_synonym candle_key = "string \<times> string \<times> int"

record candle_row =
  cr_key :: candle_key
  cr_prices :: "int list"
  cr_volume :: rat

text \<open>\<open>round(float(x), 8)\<close>: the nearest double, rounded to eight decimals, as a double again.\<close>

definition half_even_int :: "rat \<Rightarrow> int" where
  "half_even_int x = (let f = \<lfloor>x\<rfloor>; d = x - of_int f in if d < 1 / 2 \<or> (d = 1 / 2 \<and> even f) then f else f + 1)"

definition round8 :: "rat \<Rightarrow> rat" where
  "round8 x = double (of_int (half_even_int (double x * 100000000)) / 100000000)"

definition candle_values :: "candle_row \<Rightarrow> int list \<times> rat" where
  "candle_values r = (cr_prices r, round8 (cr_volume r))"

definition normalise_candles :: "candle_row list \<Rightarrow> (candle_key \<times> int list \<times> rat) list" where
  "normalise_candles rows = foldl (\<lambda>out r. AList.update (cr_key r) (candle_values r) out) [] rows"

text \<open>The number of keys on which two dictionaries differ; printing the first of them is left out.\<close>

definition differing :: "('k \<times> 'v) list \<Rightarrow> ('k \<times> 'v) list \<Rightarrow> 'k list" where
  "differing a b = filter (\<lambda>k. map_of a k \<noteq> map_of b k) (remdups (dkeys a @ dkeys b))"

definition diff :: "('k \<times> 'v) list \<Rightarrow> ('k \<times> 'v) list \<Rightarrow> int" where
  "diff a b = int (length (differing a b))"

definition not_empty :: "('k \<times> 'v) list list \<Rightarrow> int" where
  "not_empty sides = (if [] \<in> set sides then 1 else 0)"

text \<open>What the catalog and the engines answer, an exception of a query included.\<close>

record ohlcv_env =
  oe_snapshots :: "string \<Rightarrow> (int \<times> int) list"
  oe_lake :: "int \<Rightarrow> candle_row list res"
  oe_silver :: "(string \<times> int) list \<Rightarrow> candle_row list res"
  oe_clickhouse :: "candle_row list res"

record ohlcv_args =
  oa_snapshot :: int
  oa_silver :: "(string \<times> int) list"
  oa_skip_clickhouse :: bool
  oa_write_pin :: bool

definition resolve_all :: "ohlcv_env \<Rightarrow> (string \<times> int) list \<Rightarrow> (string \<times> int) list res" where
  "resolve_all env pins =
     res_map (\<lambda>(venue, pin). res_bind (resolve_snapshot (oe_snapshots env (''lake.silver.trades_'' @ venue)) pin) (\<lambda>s. Inr (venue, s))) pins"

text \<open>The exit status, and the ids written to \<open>pinned.json\<close> if any.\<close>

definition ohlcv_main :: "ohlcv_env \<Rightarrow> ohlcv_args \<Rightarrow> (int \<times> (int \<times> (string \<times> int) list) option) res" where
  "ohlcv_main env a =
     res_bind (resolve_snapshot (oe_snapshots env ''lake.gold.ohlcv_1m'') (oa_snapshot a)) (\<lambda>snapshot.
     res_bind (resolve_all env (oa_silver a)) (\<lambda>silver.
     res_bind (oe_lake env snapshot) (\<lambda>lake_rows.
     res_bind (oe_silver env silver) (\<lambda>silver_rows.
       (let b = normalise_candles lake_rows; c = normalise_candles silver_rows in
        if not_empty [b, c] \<noteq> 0 then Inr (1, None)
        else (let bad = diff b c; pin = (if oa_write_pin a then Some (snapshot, silver) else None) in
          if oa_skip_clickhouse a then Inr (if bad = 0 then (0, pin) else (1, None))
          else res_bind (oe_clickhouse env) (\<lambda>rows.
            (let k = normalise_candles rows in
             if not_empty [k] \<noteq> 0 then Inr (1, None)
             else Inr (if bad + diff k b = 0 then (0, pin) else (1, None))))))))))"

section \<open>Bars\<close>

type_synonym bar_key = "string \<times> string \<times> string \<times> string \<times> int"

definition as_int_units :: "(bar_key \<times> int list) list \<Rightarrow> (bar_key \<times> int list) list" where
  "as_int_units rows = dict_update [] rows"

definition bar_symbol :: "bar_key \<Rightarrow> string" where
  "bar_symbol k = fst (snd k)"

text \<open>The three sides of the bars gate at their resolved snapshots; the third is already a dictionary, built by \<open>bars.reference\<close>.\<close>

definition bars_verdict :: "(bar_key \<times> int list) list \<Rightarrow> (bar_key \<times> int list) list \<Rightarrow> (bar_key \<times> int list) list \<Rightarrow> string list \<Rightarrow> int" where
  "bars_verdict lake_rows sql_rows reference symbols =
     (let a = as_int_units lake_rows; b = as_int_units sql_rows; part = filter (\<lambda>(k, v). bar_symbol k \<in> set symbols) b in
      if [] \<in> {a, b, reference, part} then 1
      else if diff a b + diff part reference \<noteq> 0 then 1 else 0)"

section \<open>Replay export\<close>

record archived_frame =
  af_conn :: string
  af_seq :: int
  af_recv_ts_ns :: int
  af_payload :: bytes

definition decode_framed :: "(bytes \<Rightarrow> archived_frame res) \<Rightarrow> bytes \<Rightarrow> archived_frame option res" where
  "decode_framed reader payload =
     (if length payload < 6 \<or> hd payload \<noteq> 0 then Inr None else res_bind (reader (drop 5 payload)) (\<lambda>r. Inr (Some r)))"

fun frames_of :: "(bytes \<Rightarrow> archived_frame res) \<Rightarrow> string \<Rightarrow> int option \<Rightarrow> (int option \<times> bytes) list \<Rightarrow> (int \<times> int \<times> bytes) list res" where
  "frames_of reader conn_id until_ns [] = Inr []"
| "frames_of reader conn_id until_ns ((schema_id, payload) # rows) =
     (if schema_id = None then frames_of reader conn_id until_ns rows
      else res_bind (decode_framed reader payload) (\<lambda>r.
        case r of None \<Rightarrow> frames_of reader conn_id until_ns rows
        | Some f \<Rightarrow>
            if af_conn f \<noteq> conn_id \<or> (case until_ns of None \<Rightarrow> False | Some u \<Rightarrow> af_recv_ts_ns f > u)
            then frames_of reader conn_id until_ns rows
            else res_bind (frames_of reader conn_id until_ns rows) (\<lambda>out. Inr ((af_seq f, af_recv_ts_ns f, af_payload f) # out))))"

text \<open>A line is a time and a payload, whose text encoding is left out.\<close>

definition export_frames :: "(bytes \<Rightarrow> archived_frame res) \<Rightarrow> string \<Rightarrow> int option \<Rightarrow> (int option \<times> bytes) list \<Rightarrow> (int \<times> bytes) list res" where
  "export_frames reader conn_id until_ns rows =
     res_bind (frames_of reader conn_id until_ns rows) (\<lambda>out.
       (let out = sort out; seqs = map fst out in
        if seqs \<noteq> [] \<and> seqs \<noteq> map int [1..<Suc (length seqs)] then Inl SystemExit else Inr (map snd out)))"

text \<open>\<open>export\<close>: the connection has to be one the bronze table knows, and an export of nothing is refused.\<close>

definition export_connection :: "(bytes \<Rightarrow> archived_frame res) \<Rightarrow> string list \<Rightarrow> string \<Rightarrow> int option \<Rightarrow> (int option \<times> bytes) list \<Rightarrow> (int \<times> bytes) list res" where
  "export_connection reader known conn_id until_ns rows =
     (if conn_id \<notin> set known then Inl SystemExit
      else res_bind (export_frames reader conn_id until_ns rows) (\<lambda>lines. if lines = [] then Inl SystemExit else Inr lines))"

section \<open>What the gates show\<close>

lemma dict_ok_candles: "dict_ok (normalise_candles rows)"
proof -
  have "dict_ok (foldl (\<lambda>out r. AList.update (cr_key r) (candle_values r) out) d rows)" if "dict_ok d" for d
    using that by (induction rows arbitrary: d) simp_all
  then show ?thesis by (simp add: normalise_candles_def)
qed

lemma diff_zero: "diff a b = 0 \<longleftrightarrow> map_of a = map_of b"
proof
  assume "diff a b = 0"
  then have same: "map_of a k = map_of b k" if "k \<in> set (dkeys a) \<union> set (dkeys b)" for k
    using that by (simp add: diff_def differing_def filter_empty_conv del: set_map)
  show "map_of a = map_of b"
  proof
    fix k
    show "map_of a k = map_of b k"
    proof (cases "k \<in> set (dkeys a) \<union> set (dkeys b)")
      case True
      then show ?thesis by (rule same)
    next
      case False
      then have "map_of a k = None" "map_of b k = None" by (simp_all add: map_of_eq_None_iff)
      then show ?thesis by simp
    qed
  qed
qed (simp add: diff_def differing_def)

lemma update_not_Nil: "AList.update k v d \<noteq> []"
  by (cases d) auto

lemma candles_Nil: "foldl (\<lambda>out r. AList.update (cr_key r) (candle_values r) out) d rows = [] \<longleftrightarrow> d = [] \<and> rows = []"
  by (induction rows arbitrary: d) (simp_all add: update_not_Nil)

lemma diff_nonneg: "0 \<le> diff a b"
  by (simp add: diff_def)

text \<open>
  C32. The candle gate passes exactly when the sides are there and agree: with every query answered it exits 0 iff the lake's and the
  recomputed candles are not empty and equal as dictionaries and, unless skipped, ClickHouse's are too; only then can it
  write a pin, and the pin names the snapshots it compared.
\<close>
theorem candle_gate_exact:
  assumes "resolve_snapshot (oe_snapshots env ''lake.gold.ohlcv_1m'') (oa_snapshot a) = Inr snapshot"
    and "resolve_all env (oa_silver a) = Inr silver"
    and "oe_lake env snapshot = Inr lake_rows" and "oe_silver env silver = Inr silver_rows" and "oe_clickhouse env = Inr house_rows"
  shows "\<exists>status pin. ohlcv_main env a = Inr (status, pin) \<and>
    (status = 0 \<longleftrightarrow> lake_rows \<noteq> [] \<and> silver_rows \<noteq> [] \<and>
       map_of (normalise_candles lake_rows) = map_of (normalise_candles silver_rows) \<and>
       (oa_skip_clickhouse a \<or> house_rows \<noteq> [] \<and> map_of (normalise_candles house_rows) = map_of (normalise_candles lake_rows))) \<and>
    pin = (if status = 0 \<and> oa_write_pin a then Some (snapshot, silver) else None)"
proof -
  have empty: "normalise_candles rows = [] \<longleftrightarrow> rows = []" for rows by (simp add: normalise_candles_def candles_Nil)
  then have empty': "[] = normalise_candles rows \<longleftrightarrow> rows = []" for rows by metis
  have sum: "diff u v + diff x y = 0 \<longleftrightarrow> map_of u = map_of v \<and> map_of x = map_of y" for u v x y :: "(candle_key \<times> int list \<times> rat) list"
    using diff_nonneg [of u v] diff_nonneg [of x y] by (simp add: diff_zero [symmetric] add_nonneg_eq_0_iff)
  show ?thesis
    by (simp add: ohlcv_main_def assms Let_def not_empty_def empty empty' sum diff_zero)
qed

definition demo_env_ohlcv :: "candle_row list \<Rightarrow> ohlcv_env" where
  "demo_env_ohlcv rows = \<lparr>oe_snapshots = (\<lambda>table. [(1, 7), (2, 9)]), oe_lake = (\<lambda>s. Inr rows), oe_silver = (\<lambda>s. Inr rows), oe_clickhouse = Inr []\<rparr>"

definition demo_ohlcv :: ohlcv_args where
  "demo_ohlcv = \<lparr>oa_snapshot = 3, oa_silver = [(''kraken'', 7)], oa_skip_clickhouse = True, oa_write_pin = True\<rparr>"

theorem candle_gate_exact_witness:
  "ohlcv_main (demo_env_ohlcv [\<lparr>cr_key = (''kraken'', ''BTC'', 0), cr_prices = [1, 2, 1, 2, 5], cr_volume = 3\<rparr>]) demo_ohlcv =
    Inr (0, Some (9, [(''kraken'', 7)]))"
proof -
  let ?env = "demo_env_ohlcv [\<lparr>cr_key = (''kraken'', ''BTC'', 0), cr_prices = [1, 2, 1, 2, 5], cr_volume = 3\<rparr>]"
  have "resolve_snapshot (oe_snapshots ?env ''lake.gold.ohlcv_1m'') (oa_snapshot demo_ohlcv) = Inr 9"
    and "resolve_all ?env (oa_silver demo_ohlcv) = Inr [(''kraken'', 7)]"
    by (simp_all add: resolve_snapshot_def resolve_all_def demo_env_ohlcv_def demo_ohlcv_def max_def)
  from candle_gate_exact [OF this, of "[\<lparr>cr_key = (''kraken'', ''BTC'', 0), cr_prices = [1, 2, 1, 2, 5], cr_volume = 3\<rparr>]"
      "[\<lparr>cr_key = (''kraken'', ''BTC'', 0), cr_prices = [1, 2, 1, 2, 5], cr_volume = 3\<rparr>]" "[]"]
  obtain status pin where "ohlcv_main ?env demo_ohlcv = Inr (status, pin)" "status = 0"
      "pin = (if status = 0 \<and> oa_write_pin demo_ohlcv then Some (9, [(''kraken'', 7)]) else None)"
    by (auto simp: demo_env_ohlcv_def demo_ohlcv_def)
  then show ?thesis by (simp add: demo_ohlcv_def)
qed

lemma bits_exact: "2 ^ k \<le> n \<Longrightarrow> n < 2 ^ Suc k \<Longrightarrow> bits n = Suc k"
proof (rule antisym)
  assume n: "2 ^ k \<le> n" "n < 2 ^ Suc k"
  show "bits n \<le> Suc k" using n(2) by (rule bits_le)
  show "Suc k \<le> bits n"
  proof (rule ccontr)
    assume "\<not> Suc k \<le> bits n"
    then have "(2 :: nat) ^ bits n \<le> 2 ^ k" by (intro power_increasing) simp_all
    then show False using bits_bound(1) [of n] n(1) by linarith
  qed
qed

lemma double_thousand_million: "double (100000000000000001 / 100000000) = 1000000000"
proof -
  have "quotient_of (100000000000000001 / 100000000) = (100000000000000001, 100000000)" by code_simp
  moreover have "bits 100000000 = Suc 26" by (rule bits_exact) simp_all
  moreover have "bits (100000000000000001 * 2 ^ 81 div 100000000) = Suc 110" by (rule bits_exact) simp_all
  ultimately show ?thesis by (simp add: double_def double_abs_def half_even_def Let_def)
qed

text \<open>
  The gate's tolerance on volume is not zero: volumes are compared as doubles, so from a thousand million on two candles whose volumes
  differ by a whole unit of the fixed point agree.
\<close>
theorem volume_not_exact:
  "candle_values \<lparr>cr_key = k, cr_prices = p, cr_volume = 1000000000\<rparr> =
   candle_values \<lparr>cr_key = k, cr_prices = p, cr_volume = 100000000000000001 / 100000000\<rparr>"
proof -
  have "quotient_of 1000000000 = (1000000000, 1)" by code_simp
  moreover have "bits 1 = Suc 0" "bits (1000000000 * 2 ^ 55) = Suc 84" by (rule bits_exact; simp)+
  ultimately have "double 1000000000 = 1000000000" by (simp add: double_def double_abs_def half_even_def Let_def)
  then show ?thesis by (simp add: candle_values_def round8_def double_thousand_million)
qed

lemma candles_lookup:
  "map_of (foldl (\<lambda>out r. AList.update (cr_key r) (candle_values r) out) d rows) =
    foldl (\<lambda>m r. m(cr_key r \<mapsto> candle_values r)) (map_of d) rows"
  by (induction rows arbitrary: d) (simp_all add: update_conv')

lemma foldl_updates: "k \<in> cr_key ` set rows \<Longrightarrow>
    foldl (\<lambda>m r. m(cr_key r \<mapsto> candle_values r)) m rows k = foldl (\<lambda>m r. m(cr_key r \<mapsto> candle_values r)) m' rows k"
  "m k = m' k \<Longrightarrow> foldl (\<lambda>m r. m(cr_key r \<mapsto> candle_values r)) m rows k = foldl (\<lambda>m r. m(cr_key r \<mapsto> candle_values r)) m' rows k"
proof (induction rows arbitrary: m m')
  case (Cons r rows)
  { case (1 m m')
    show ?case
    proof (cases "k \<in> cr_key ` set rows")
      case True
      then show ?thesis using Cons.IH(1) by simp
    next
      case False
      then have "k = cr_key r" using 1 by auto
      then show ?thesis
        using Cons.IH(2) [of "m(k \<mapsto> candle_values r)" "m'(k \<mapsto> candle_values r)"] by (simp del: fun_upd_apply) (simp only: fun_upd_same)
    qed
  next
    case (2 m m')
    then show ?case using Cons.IH(2) [of "m(cr_key r \<mapsto> candle_values r)" "m'(cr_key r \<mapsto> candle_values r)"] by simp }
qed simp_all

text \<open>
  The gate does not see a doubled candle: a row with whatever values in front of another of the same key changes nothing, for the later row
  replaces it, so a table that holds both a wrong candle and the right one compares like the right one.
\<close>
theorem shadowed_candle_unseen:
  assumes "cr_key wrong \<in> cr_key ` set rows"
  shows "map_of (normalise_candles (wrong # rows)) = map_of (normalise_candles rows)"
proof
  fix k
  show "map_of (normalise_candles (wrong # rows)) k = map_of (normalise_candles rows) k"
  proof (cases "k \<in> cr_key ` set rows")
    case True
    then show ?thesis unfolding normalise_candles_def candles_lookup by (simp add: foldl_updates(1) [of k rows])
  next
    case False
    then have "k \<noteq> cr_key wrong" using assms by auto
    then show ?thesis unfolding normalise_candles_def candles_lookup
      by (simp add: foldl_updates(2) [of "[cr_key wrong \<mapsto> candle_values wrong]" k "Map.empty"])
  qed
qed

theorem shadowed_candle_unseen_witness:
  "map_of (normalise_candles [\<lparr>cr_key = (''a'', ''b'', 0), cr_prices = [9], cr_volume = 0\<rparr>, \<lparr>cr_key = (''a'', ''b'', 0), cr_prices = [1], cr_volume = 0\<rparr>]) =
   map_of (normalise_candles [\<lparr>cr_key = (''a'', ''b'', 0), cr_prices = [1], cr_volume = 0\<rparr>])"
  by (rule shadowed_candle_unseen) simp

lemma bars_parts: "bars_verdict lake_rows sql_rows reference symbols = 0 \<longleftrightarrow>
    as_int_units lake_rows \<noteq> [] \<and> as_int_units sql_rows \<noteq> [] \<and> reference \<noteq> [] \<and>
    filter (\<lambda>(k, v). bar_symbol k \<in> set symbols) (as_int_units sql_rows) \<noteq> [] \<and>
    map_of (as_int_units lake_rows) = map_of (as_int_units sql_rows) \<and>
    map_of (filter (\<lambda>(k, v). bar_symbol k \<in> set symbols) (as_int_units sql_rows)) = map_of reference"
proof -
  have "diff u v + diff x y = 0 \<longleftrightarrow> map_of u = map_of v \<and> map_of x = map_of y" for u v x y :: "(bar_key \<times> int list) list"
    using diff_nonneg [of u v] diff_nonneg [of x y] by (simp add: diff_zero [symmetric] add_nonneg_eq_0_iff)
  then show ?thesis by (auto simp: bars_verdict_def Let_def)
qed

text \<open>
  A pass of the bars gate carries over to the lake: when the three sides agree, then for every symbol of the reference the lake's bars
  are exactly the bars of the sequential reference, key by key.
\<close>
theorem bars_gate_transfers:
  assumes "bars_verdict lake_rows sql_rows reference symbols = 0" and "bar_symbol k \<in> set symbols"
  shows "map_of (as_int_units lake_rows) k = map_of reference k"
proof -
  let ?b = "as_int_units sql_rows"
  have part: "map_of (filter (\<lambda>(k, v). bar_symbol k \<in> set symbols) ?b) = map_of reference" and "map_of (as_int_units lake_rows) = map_of ?b"
    using assms(1) by (simp_all add: bars_parts)
  moreover have "map_of (filter (\<lambda>(k, v). bar_symbol k \<in> set symbols) d) k = map_of d k" for d :: "(bar_key \<times> int list) list"
    using assms(2) by (induction d) auto
  ultimately show ?thesis by metis
qed

theorem bars_gate_transfers_witness:
  "map_of (as_int_units [((''kraken'', ''BTC'', ''volume'', ''2026-08-26'', 0), [1, 1, 1, 1, 1, 1, 1])]) (''kraken'', ''BTC'', ''volume'', ''2026-08-26'', 0) = Some [1, 1, 1, 1, 1, 1, 1]"
  using bars_gate_transfers [of "[((''kraken'', ''BTC'', ''volume'', ''2026-08-26'', 0), [1, 1, 1, 1, 1, 1, 1])]"
      "[((''kraken'', ''BTC'', ''volume'', ''2026-08-26'', 0), [1, 1, 1, 1, 1, 1, 1])]"
      "[((''kraken'', ''BTC'', ''volume'', ''2026-08-26'', 0), [1, 1, 1, 1, 1, 1, 1])]" "[''BTC'']" "(''kraken'', ''BTC'', ''volume'', ''2026-08-26'', 0)"]
  by (simp add: bars_parts as_int_units_def bar_symbol_def)

section \<open>What an export holds\<close>

lemma sort_Nil: "sort xs = [] \<Longrightarrow> xs = []"
  by (metis mset_sort mset_zero_iff)

lemma sorted_numbered: "sorted (zip (map int [1..<Suc (length lines)]) lines)" for lines :: "(int \<times> bytes) list"
proof -
  have "sorted_wrt (<) (map fst (zip (map int [1..<Suc (length lines)]) lines))"
    by (simp add: sorted_wrt_map sorted_wrt_upt del: upt_Suc)
  then have "sorted_wrt (\<lambda>x y. fst x < fst y) (zip (map int [1..<Suc (length lines)]) lines)" by (simp only: sorted_wrt_map)
  then show ?thesis by (rule sorted_wrt_mono_rel [rotated]) (auto simp: less_eq_prod_def)
qed

text \<open>
  C33. An export is a numbered run of frames, none lost or doubled inside it: the exporter returns lines exactly when the connection's frames
  in the rows, in whatever order they came, are the lines numbered from one.
\<close>
theorem export_is_numbered:
  "export_frames reader conn_id until_ns rows = Inr lines \<longleftrightarrow>
    (\<exists>out. frames_of reader conn_id until_ns rows = Inr out \<and> mset out = mset (zip (map int [1..<Suc (length lines)]) lines))"
proof
  assume "export_frames reader conn_id until_ns rows = Inr lines"
  then obtain out where out: "frames_of reader conn_id until_ns rows = Inr out" "lines = map snd (sort out)"
      "map fst (sort out) = map int [1..<Suc (length (sort out))]"
    by (cases "frames_of reader conn_id until_ns rows") (auto simp: export_frames_def Let_def simp del: upt_Suc split: if_splits dest: sort_Nil)
  then have "zip (map int [1..<Suc (length lines)]) lines = sort out"
    using out(3) zip_map_fst_snd [of "sort out"] by (simp only: out(2) length_map)
  then show "\<exists>out. frames_of reader conn_id until_ns rows = Inr out \<and> mset out = mset (zip (map int [1..<Suc (length lines)]) lines)"
    using out(1) by (metis mset_sort)
next
  assume "\<exists>out. frames_of reader conn_id until_ns rows = Inr out \<and> mset out = mset (zip (map int [1..<Suc (length lines)]) lines)"
  then obtain out where out: "frames_of reader conn_id until_ns rows = Inr out" "mset out = mset (zip (map int [1..<Suc (length lines)]) lines)" by blast
  have "sort out = zip (map int [1..<Suc (length lines)]) lines"
    by (rule properties_for_sort) (use out(2) sorted_numbered in auto)
  moreover have "length out = length lines" using arg_cong [OF out(2), of size] by (simp del: upt_Suc)
  ultimately show "export_frames reader conn_id until_ns rows = Inr lines"
    using out(1) by (simp add: export_frames_def res_bind_def Let_def del: upt_Suc)
qed

end
