(* ===== verification/Breaker.thy ===== *)
theory Breaker
  imports Complex_Main K2_Prelude
begin

text \<open>
  The circuit breaker of the archived v1 tier (\<open>legacy/v1/src/k2/common/circuit_breaker.py\<close>): \<open>call\<close>, the context
  manager and \<open>reset\<close> as functions of the breaker, of the clock readings they take and of how the protected code ends.
  The state metric carries the labels its gauge declares, so recording it never fails.
\<close>

section \<open>State and operations\<close>

datatype breaker_state = BClosed | BOpen | BHalfOpen

record breaker_config =
  failure_threshold :: int
  success_threshold :: int
  timeout_seconds :: rat

record breaker =
  br_state :: breaker_state
  br_failures :: int
  br_successes :: int
  br_last_failure :: "rat option"

definition breaker_init :: breaker where
  "breaker_init = \<lparr>br_state = BClosed, br_failures = 0, br_successes = 0, br_last_failure = None\<rparr>"

definition should_attempt_reset :: "breaker_config \<Rightarrow> rat \<Rightarrow> breaker \<Rightarrow> bool" where
  "should_attempt_reset c now b =
     (case br_last_failure b of None \<Rightarrow> False | Some t \<Rightarrow> timeout_seconds c \<le> now - t)"

definition half_open :: "breaker \<Rightarrow> breaker" where
  "half_open b = b\<lparr>br_state := BHalfOpen, br_successes := 0\<rparr>"

definition on_success :: "breaker_config \<Rightarrow> breaker \<Rightarrow> breaker" where
  "on_success c b =
     (let b = b\<lparr>br_failures := 0\<rparr> in
      if br_state b = BHalfOpen then
        (let b = b\<lparr>br_successes := br_successes b + 1\<rparr> in
         if br_successes b \<ge> success_threshold c then b\<lparr>br_state := BClosed, br_successes := 0\<rparr> else b)
      else b)"

definition on_failure :: "breaker_config \<Rightarrow> rat \<Rightarrow> breaker \<Rightarrow> breaker" where
  "on_failure c now b =
     (let b = b\<lparr>br_failures := br_failures b + 1, br_last_failure := Some now\<rparr> in
      case br_state b of
        BHalfOpen \<Rightarrow> b\<lparr>br_state := BOpen, br_successes := 0\<rparr>
      | BClosed \<Rightarrow> (if br_failures b \<ge> failure_threshold c then b\<lparr>br_state := BOpen\<rparr> else b)
      | BOpen \<Rightarrow> b)"

text \<open>How the protected code ends: it returns, raises an \<open>Exception\<close>, or is left by another \<open>BaseException\<close>.\<close>

datatype ending = Returned | Raised | Interrupted

text \<open>What the caller sees: \<open>CircuitBreakerError\<close> without running the code, or the code's own ending.\<close>

datatype breaker_reply = Rejected | Ran ending

definition breaker_call :: "breaker_config \<Rightarrow> rat \<Rightarrow> rat \<Rightarrow> ending \<Rightarrow> breaker \<Rightarrow> breaker \<times> breaker_reply" where
  "breaker_call c now later ending b =
     (if br_state b = BOpen \<and> \<not> should_attempt_reset c now b then (b, Rejected)
      else (let b = (if br_state b = BOpen then half_open b else b) in
            (case ending of Returned \<Rightarrow> on_success c b | Raised \<Rightarrow> on_failure c later b | Interrupted \<Rightarrow> b, Ran ending)))"

text \<open>\<open>__enter__\<close> reads the clock twice; \<open>__exit__\<close> counts every exception, \<open>BaseException\<close> included.\<close>

definition breaker_enter :: "breaker_config \<Rightarrow> rat \<Rightarrow> rat \<Rightarrow> breaker \<Rightarrow> breaker option" where
  "breaker_enter c now now' b =
     (if br_state b = BOpen \<and> \<not> should_attempt_reset c now b then None
      else Some (if br_state b = BOpen \<and> should_attempt_reset c now' b then half_open b else b))"

definition breaker_exit :: "breaker_config \<Rightarrow> rat \<Rightarrow> ending \<Rightarrow> breaker \<Rightarrow> breaker" where
  "breaker_exit c later ending b = (if ending = Returned then on_success c b else on_failure c later b)"

definition breaker_with :: "breaker_config \<Rightarrow> rat \<Rightarrow> rat \<Rightarrow> rat \<Rightarrow> ending \<Rightarrow> breaker \<Rightarrow> breaker \<times> breaker_reply" where
  "breaker_with c now now' later ending b =
     (case breaker_enter c now now' b of None \<Rightarrow> (b, Rejected) | Some b' \<Rightarrow> (breaker_exit c later ending b', Ran ending))"

definition breaker_reset :: "breaker \<Rightarrow> breaker" where
  "breaker_reset b = b\<lparr>br_state := BClosed, br_failures := 0, br_successes := 0, br_last_failure := None\<rparr>"

datatype breaker_use = Call rat rat ending | With rat rat rat ending | Reset

fun breaker_step :: "breaker_config \<Rightarrow> breaker_use \<Rightarrow> breaker \<Rightarrow> breaker \<times> breaker_reply" where
  "breaker_step c (Call now later ending) b = breaker_call c now later ending b"
| "breaker_step c (With now now' later ending) b = breaker_with c now now' later ending b"
| "breaker_step c Reset b = (breaker_reset b, Ran Returned)"

fun breaker_uses :: "breaker_config \<Rightarrow> breaker_use list \<Rightarrow> breaker \<Rightarrow> breaker \<times> breaker_reply list" where
  "breaker_uses c [] b = (b, [])"
| "breaker_uses c (u # us) b =
     (let (b, r) = breaker_step c u b; (b, rs) = breaker_uses c us b in (b, r # rs))"

section \<open>The state is well typed\<close>

definition config_ok :: "breaker_config \<Rightarrow> bool" where
  "config_ok c = (1 \<le> failure_threshold c \<and> 1 \<le> success_threshold c)"

text \<open>What each state says of the counters: below the threshold that would leave it, and an open breaker knows since when.\<close>

fun counters_ok :: "breaker_config \<Rightarrow> breaker_state \<Rightarrow> int \<Rightarrow> int \<Rightarrow> rat option \<Rightarrow> bool" where
  "counters_ok c BClosed failures successes failed_at = (0 \<le> failures \<and> failures < failure_threshold c \<and> successes = 0)"
| "counters_ok c BHalfOpen failures successes failed_at = (0 \<le> failures \<and> 0 \<le> successes \<and> successes < success_threshold c \<and> failed_at \<noteq> None)"
| "counters_ok c BOpen failures successes failed_at = (0 \<le> failures \<and> successes = 0 \<and> failed_at \<noteq> None)"

definition breaker_ok :: "breaker_config \<Rightarrow> breaker \<Rightarrow> bool" where
  "breaker_ok c b = counters_ok c (br_state b) (br_failures b) (br_successes b) (br_last_failure b)"

lemma half_open_ok: "breaker_ok c b \<Longrightarrow> config_ok c \<Longrightarrow> br_state b = BOpen \<Longrightarrow> breaker_ok c (half_open b)"
  by (simp add: breaker_ok_def half_open_def config_ok_def)

lemma on_success_ok: "breaker_ok c b \<Longrightarrow> config_ok c \<Longrightarrow> breaker_ok c (on_success c b)"
  by (cases "br_state b") (auto simp: breaker_ok_def on_success_def config_ok_def Let_def)

lemma on_failure_ok: "breaker_ok c b \<Longrightarrow> config_ok c \<Longrightarrow> breaker_ok c (on_failure c t b)"
  by (cases "br_state b") (auto simp: breaker_ok_def on_failure_def config_ok_def Let_def)

lemmas counters_kept = half_open_ok on_success_ok on_failure_ok

lemma step_ok:
  assumes "breaker_ok c b" and "config_ok c"
  shows "breaker_ok c (fst (breaker_step c u b))"
proof (cases u)
  case Reset
  then show ?thesis using assms(2) by (simp add: breaker_reset_def breaker_ok_def config_ok_def)
qed (use assms in \<open>auto simp: breaker_call_def breaker_with_def breaker_enter_def breaker_exit_def Let_def
    intro!: counters_kept split: ending.splits option.splits\<close>)

lemma uses_ok: "breaker_ok c b \<Longrightarrow> config_ok c \<Longrightarrow> breaker_ok c (fst (breaker_uses c us b))"
proof (induction us arbitrary: b)
  case (Cons u us)
  then show ?case using step_ok [of c b u] by (auto simp: Let_def split: prod.splits) (metis fst_conv)
qed simp

text \<open>
  C38. The breaker's state is well typed whatever is done with it: after any sequence of calls, \<open>with\<close> blocks and manual resets, with
  any clock, a closed breaker has fewer failures than its threshold, a half-open one fewer successes than its own, an
  open one knows when it last failed, so it can never be stuck open, and successes are counted in no other state.
\<close>
theorem breaker_well_typed:
  assumes "config_ok c"
  shows "breaker_ok c (fst (breaker_uses c us breaker_init))"
  by (rule uses_ok [OF _ assms]) (use assms in \<open>simp add: breaker_ok_def breaker_init_def config_ok_def\<close>)

theorem breaker_well_typed_witness:
  "breaker_ok \<lparr>failure_threshold = 1, success_threshold = 2, timeout_seconds = 60\<rparr>
    (fst (breaker_uses \<lparr>failure_threshold = 1, success_threshold = 2, timeout_seconds = 60\<rparr>
      [Call 0 1 Raised, With 70 70 71 Returned, Call 72 73 Interrupted] breaker_init))"
  by (rule breaker_well_typed) (simp add: config_ok_def)

section \<open>Tripping and recovering\<close>

lemma fail_closed:
  "br_state b = BClosed \<Longrightarrow> br_failures b + 1 < failure_threshold c \<Longrightarrow>
    br_state (fst (breaker_call c t t' Raised b)) = BClosed \<and> br_failures (fst (breaker_call c t t' Raised b)) = br_failures b + 1"
  by (simp add: breaker_call_def on_failure_def Let_def)

lemma fail_trips:
  "br_state b = BClosed \<Longrightarrow> failure_threshold c \<le> br_failures b + 1 \<Longrightarrow> br_state (fst (breaker_call c t t' Raised b)) = BOpen"
  by (simp add: breaker_call_def on_failure_def Let_def)

lemma fail_open: "br_state b = BOpen \<Longrightarrow> br_state (fst (breaker_call c t t' Raised b)) = BOpen"
  by (simp add: breaker_call_def on_failure_def half_open_def Let_def)

definition failing :: "(rat \<times> rat) list \<Rightarrow> breaker_use list" where
  "failing clocks = map (\<lambda>(t, t'). Call t t' Raised) clocks"

lemma failing_run:
  "br_state b = BOpen \<Longrightarrow> br_state (fst (breaker_uses c (failing clocks) b)) = BOpen"
  "br_state b = BClosed \<Longrightarrow> br_failures b < failure_threshold c \<Longrightarrow>
    br_state (fst (breaker_uses c (failing clocks) b)) =
      (if br_failures b + int (length clocks) < failure_threshold c then BClosed else BOpen)"
proof (induction clocks arbitrary: b)
  case (Cons p clocks)
  obtain t t' where p: "p = (t, t')" by (cases p)
  have step: "fst (breaker_uses c (failing (p # clocks)) b) = fst (breaker_uses c (failing clocks) (fst (breaker_call c t t' Raised b)))" for b
    by (simp add: failing_def p Let_def split: prod.splits)
  { case (1 b)
    then show ?case using Cons.IH(1) [OF fail_open, of b c t t'] by (simp only: step)
  next
    case (2 b)
    let ?b = "fst (breaker_call c t t' Raised b)"
    show ?case
    proof (cases "br_failures b + 1 < failure_threshold c")
      case True
      with 2 fail_closed [of b c t t'] have "br_state ?b = BClosed" "br_failures ?b = br_failures b + 1" by auto
      then show ?thesis using Cons.IH(2) [of ?b] True by (simp add: step ac_simps)
    next
      case False
      then show ?thesis using Cons.IH(1) [OF fail_trips, of b c t t'] 2 by (simp add: step)
    qed }
qed (simp_all add: failing_def)

text \<open>
  The breaker trips at the threshold and not before: from a closed breaker with \<open>k\<close> consecutive failures, a run of failing
  calls leaves it closed while the failures together are below the threshold and open from then on, whatever the
  clock says and however many more calls fail.
\<close>
theorem trips_at_threshold:
  assumes "br_state b = BClosed" and "br_failures b < failure_threshold c"
  shows "br_state (fst (breaker_uses c (failing clocks) b)) =
    (if br_failures b + int (length clocks) < failure_threshold c then BClosed else BOpen)"
  by (rule failing_run(2) [OF assms])

theorem trips_at_threshold_witness:
  "br_state (fst (breaker_uses \<lparr>failure_threshold = 2, success_threshold = 1, timeout_seconds = 60\<rparr>
    (failing [(0, 1), (2, 3)]) breaker_init)) = BOpen"
  using trips_at_threshold [of breaker_init "\<lparr>failure_threshold = 2, success_threshold = 1, timeout_seconds = 60\<rparr>" "[(0, 1), (2, 3)]"]
  by (simp add: breaker_init_def)

definition succeeding :: "rat list \<Rightarrow> breaker_use list" where
  "succeeding clocks = map (\<lambda>t. Call t t Returned) clocks"

lemma succeed_half:
  "br_state b = BHalfOpen \<Longrightarrow> clocks \<noteq> [] \<Longrightarrow> br_successes b + int (length clocks) = success_threshold c \<Longrightarrow>
    br_state (fst (breaker_uses c (succeeding clocks) b)) = BClosed \<and> br_failures (fst (breaker_uses c (succeeding clocks) b)) = 0 \<and>
    snd (breaker_uses c (succeeding clocks) b) = replicate (length clocks) (Ran Returned)"
proof (induction clocks arbitrary: b)
  case (Cons t clocks)
  show ?case
  proof (cases "clocks = []")
    case True
    then show ?thesis using Cons.prems by (simp add: succeeding_def breaker_call_def on_success_def Let_def)
  next
    case False
    let ?b = "b\<lparr>br_failures := 0, br_successes := br_successes b + 1\<rparr>"
    have step: "breaker_call c t t Returned b = (?b, Ran Returned)"
      using Cons.prems False by (simp add: breaker_call_def on_success_def Let_def) (cases clocks; simp)
    have "breaker_uses c (succeeding (t # clocks)) b = (fst (breaker_uses c (succeeding clocks) ?b), Ran Returned # snd (breaker_uses c (succeeding clocks) ?b))"
      by (simp add: succeeding_def step Let_def split: prod.splits)
    then show ?thesis using Cons.IH [of ?b] Cons.prems False by simp
  qed
qed simp

text \<open>
  C39. Recovery: once the timeout has passed since the last failure, an open breaker lets calls through again, and when as many in a
  row succeed as the success threshold asks for it is closed with its failures forgotten; none of them is rejected.
\<close>
theorem breaker_recovers:
  assumes "br_state b = BOpen" and "br_last_failure b = Some t0" and "timeout_seconds c \<le> t - t0"
    and "int (length (t # clocks)) = success_threshold c"
  shows "br_state (fst (breaker_uses c (succeeding (t # clocks)) b)) = BClosed \<and>
    br_failures (fst (breaker_uses c (succeeding (t # clocks)) b)) = 0 \<and>
    snd (breaker_uses c (succeeding (t # clocks)) b) = replicate (length (t # clocks)) (Ran Returned)"
proof -
  have "breaker_call c t t Returned b = breaker_call c t t Returned (half_open b)"
    using assms(1-3) by (simp add: breaker_call_def should_attempt_reset_def half_open_def)
  then have "breaker_uses c (succeeding (t # clocks)) b = breaker_uses c (succeeding (t # clocks)) (half_open b)"
    by (simp add: succeeding_def)
  then show ?thesis using succeed_half [of "half_open b" "t # clocks" c] assms(4) by (simp add: half_open_def)
qed

theorem breaker_recovers_witness:
  "br_state (fst (breaker_uses \<lparr>failure_threshold = 1, success_threshold = 2, timeout_seconds = 60\<rparr>
    (succeeding [61, 62]) \<lparr>br_state = BOpen, br_failures = 1, br_successes = 0, br_last_failure = Some 1\<rparr>)) = BClosed"
  using breaker_recovers [of "\<lparr>br_state = BOpen, br_failures = 1, br_successes = 0, br_last_failure = Some 1\<rparr>" 1
      "\<lparr>failure_threshold = 1, success_threshold = 2, timeout_seconds = 60\<rparr>" 61 "[62]"] by simp

section \<open>call and with\<close>

text \<open>
  The two ways to use the breaker agree on code that returns or raises, and differ on an interrupt: \<open>call\<close> lets a
  \<open>KeyboardInterrupt\<close> pass without counting it, the \<open>with\<close> block counts it as a failure, so stopping a process
  inside the block in the half-open state opens the breaker again.
\<close>
theorem call_and_with:
  "(ending \<noteq> Interrupted \<longrightarrow> breaker_with c now now later ending b = breaker_call c now later ending b) \<and>
   (br_state b = BHalfOpen \<longrightarrow>
      br_state (fst (breaker_call c now later Interrupted b)) = BHalfOpen \<and> br_state (fst (breaker_with c now now later Interrupted b)) = BOpen)"
  by (cases ending) (auto simp: breaker_with_def breaker_call_def breaker_enter_def breaker_exit_def on_failure_def Let_def)

theorem call_and_with_witness:
  "br_state (fst (breaker_with \<lparr>failure_threshold = 5, success_threshold = 2, timeout_seconds = 60\<rparr> 61 61 62 Interrupted
    \<lparr>br_state = BHalfOpen, br_failures = 1, br_successes = 0, br_last_failure = Some 1\<rparr>)) = BOpen"
  using call_and_with [of Interrupted "\<lparr>failure_threshold = 5, success_threshold = 2, timeout_seconds = 60\<rparr>" 61 62
      "\<lparr>br_state = BHalfOpen, br_failures = 1, br_successes = 0, br_last_failure = Some 1\<rparr>"] by simp

end
