(* ===== verification/Tracker.thy ===== *)
theory Tracker
  imports TierParity
begin

text \<open>
  Sequence tracking of the archived v1 tier (\<open>legacy/v1/src/k2/ingestion/sequence_tracker.py\<close>): \<open>SequenceTracker\<close> and
  \<open>DeduplicationCache\<close>, with the metrics client they report through (\<open>k2/common/metrics.py\<close>, \<open>metrics_registry.py\<close>).
  The tracker mutates its state before it reports, so an operation returns the state beside the result, also when it raises.
\<close>

section \<open>Metrics\<close>

text \<open>
  A metric is declared with label names; \<open>labels(**given)\<close> of the Prometheus client raises \<open>ValueError\<close> unless the
  names given are those declared. The registry is listed as far as the modelled code names its metrics.
\<close>

definition STANDARD_LABELS :: "string list" where
  "STANDARD_LABELS = [''service'', ''environment'', ''component'']"

definition EXCHANGE_LABELS :: "string list" where
  "EXCHANGE_LABELS = STANDARD_LABELS @ [''exchange'', ''asset_class'']"

definition METRIC_REGISTRY :: "(string \<times> string list) list" where
  "METRIC_REGISTRY =
     [(''kafka_messages_consumed_total'', EXCHANGE_LABELS @ [''topic'', ''consumer_group'']),
      (''consumer_errors_total'', STANDARD_LABELS @ [''error_type'', ''consumer_group'']),
      (''sequence_gaps_detected_total'', EXCHANGE_LABELS @ [''symbol'', ''severity'']),
      (''sequence_resets_detected_total'', EXCHANGE_LABELS),
      (''out_of_order_messages_total'', EXCHANGE_LABELS),
      (''duplicate_messages_detected_total'', EXCHANGE_LABELS),
      (''iceberg_batch_size'', EXCHANGE_LABELS @ [''table''])]"

text \<open>\<open>increment\<close>, \<open>gauge\<close> and \<open>histogram\<close> look the metric up and merge the client's default labels with those given.\<close>

definition record_metric :: "string list \<Rightarrow> string \<Rightarrow> string list \<Rightarrow> unit res" where
  "record_metric defaults metric given =
     (case map_of METRIC_REGISTRY metric of None \<Rightarrow> Inl KeyError
      | Some names \<Rightarrow> if set (defaults @ given) = set names then Inr () else Inl ValueError)"

text \<open>The module's \<open>metrics\<close> has no default labels; a client of \<open>create_component_metrics\<close> has the standard ones.\<close>

definition global_increment :: "string \<Rightarrow> string list \<Rightarrow> unit res" where
  "global_increment metric given = record_metric [] metric given"

definition component_increment :: "string \<Rightarrow> string list \<Rightarrow> unit res" where
  "component_increment metric given = record_metric STANDARD_LABELS metric given"

section \<open>The tracker\<close>

text \<open>An instant, with or without a time zone, in microseconds: subtracting one kind from the other raises \<open>TypeError\<close>.\<close>

datatype stamp = Aware int | Naive int

fun stamp_diff :: "stamp \<Rightarrow> stamp \<Rightarrow> int res" where
  "stamp_diff (Aware a) (Aware b) = Inr (a - b)"
| "stamp_diff (Naive a) (Naive b) = Inr (a - b)"
| "stamp_diff _ _ = Inl TypeError"

datatype seq_event = SeqOk | SmallGap | LargeGap | SeqReset | OutOfOrder

record seq_state =
  sq_last :: int
  sq_stamp :: stamp
  sq_total :: int
  sq_gaps :: int
  sq_out_of_order :: int

record tracker_config =
  gap_threshold :: int
  reset_window :: int

definition default_tracker :: tracker_config where
  "default_tracker = \<lparr>gap_threshold = 10, reset_window = 3600000000\<rparr>"

type_synonym tracker = "string \<times> string \<Rightarrow> seq_state option"

text \<open>\<open>last_sequence * 0.5\<close> in double precision.\<close>

definition double_int :: "int \<Rightarrow> int" where
  "double_int n = (if n < 0 then - int (round53 (nat (- n))) else int (round53 (nat n)))"

definition is_session_reset :: "tracker_config \<Rightarrow> seq_state \<Rightarrow> int \<Rightarrow> stamp \<Rightarrow> bool res" where
  "is_session_reset c s new_sequence new_stamp =
     res_bind (stamp_diff new_stamp (sq_stamp s)) (\<lambda>elapsed.
       Inr (2 * new_sequence < double_int (sq_last s) \<and> reset_window c < elapsed))"

definition seq_advance :: "int \<Rightarrow> stamp \<Rightarrow> seq_state \<Rightarrow> seq_state" where
  "seq_advance sequence stamp s = s\<lparr>sq_last := sequence, sq_stamp := stamp, sq_total := sq_total s + 1\<rparr>"

text \<open>One message of a known key: the new state, and the event or the exception.\<close>

definition check_known :: "tracker_config \<Rightarrow> int \<Rightarrow> stamp \<Rightarrow> seq_state \<Rightarrow> seq_state \<times> seq_event res" where
  "check_known c sequence stamp s =
     (let expected = sq_last s + 1 in
      if sequence = expected then (seq_advance sequence stamp s, Inr SeqOk)
      else if expected < sequence then
        (case is_session_reset c s sequence stamp of
           Inl e \<Rightarrow> (s, Inl e)
         | Inr True \<Rightarrow>
             (case global_increment ''sequence_resets_detected_total'' [''exchange'', ''symbol''] of
                Inl e \<Rightarrow> (s, Inl e) | Inr _ \<Rightarrow> (seq_advance sequence stamp s, Inr SeqReset))
         | Inr False \<Rightarrow>
             (let s = s\<lparr>sq_gaps := sq_gaps s + 1\<rparr> in
              case global_increment ''sequence_gaps_detected_total'' [''exchange'', ''symbol'', ''gap_size''] of
                Inl e \<Rightarrow> (s, Inl e)
              | Inr _ \<Rightarrow> (seq_advance sequence stamp s,
                  Inr (if gap_threshold c < sequence - expected then LargeGap else SmallGap))))
      else
        (let s = s\<lparr>sq_out_of_order := sq_out_of_order s + 1\<rparr> in
         case global_increment ''out_of_order_messages_total'' [''exchange'', ''symbol''] of
           Inl e \<Rightarrow> (s, Inl e) | Inr _ \<Rightarrow> (s, Inr OutOfOrder)))"

definition check_sequence :: "tracker_config \<Rightarrow> string \<Rightarrow> string \<Rightarrow> int \<Rightarrow> stamp \<Rightarrow> tracker \<Rightarrow> tracker \<times> seq_event res" where
  "check_sequence c exchange symbol sequence stamp t =
     (case t (exchange, symbol) of
        None \<Rightarrow> (t((exchange, symbol) \<mapsto> \<lparr>sq_last = sequence, sq_stamp = stamp, sq_total = 1, sq_gaps = 0, sq_out_of_order = 0\<rparr>), Inr SeqOk)
      | Some s \<Rightarrow> (case check_known c sequence stamp s of (s', r) \<Rightarrow> (t((exchange, symbol) \<mapsto> s'), r)))"

definition tracker_reset :: "string \<Rightarrow> string \<Rightarrow> tracker \<Rightarrow> tracker" where
  "tracker_reset exchange symbol t = t((exchange, symbol) := None)"

section \<open>The deduplication cache\<close>

record dedup_cache =
  dc_seen :: "(string \<times> int) list"
  dc_window :: int
  dc_last_cleanup :: int

definition CLEANUP_EVERY :: int where "CLEANUP_EVERY = 600000000"

definition dedup_cleanup :: "int \<Rightarrow> dedup_cache \<Rightarrow> dedup_cache" where
  "dedup_cleanup now c =
     c\<lparr>dc_seen := filter (\<lambda>(k, t). \<not> t < now - dc_window c) (dc_seen c), dc_last_cleanup := now\<rparr>"

definition is_duplicate :: "int \<Rightarrow> string \<Rightarrow> dedup_cache \<Rightarrow> dedup_cache \<times> bool res" where
  "is_duplicate now message_id c =
     (let c = (if CLEANUP_EVERY < now - dc_last_cleanup c then dedup_cleanup now c else c) in
      if message_id \<in> set (map fst (dc_seen c)) then
        (c, res_bind (global_increment ''duplicates_detected_total'' []) (\<lambda>_. Inr True))
      else (c\<lparr>dc_seen := AList.update message_id now (dc_seen c)\<rparr>, Inr False))"

section \<open>What the labels do\<close>

lemma tracker_metrics_fail [simp]:
  "global_increment ''sequence_resets_detected_total'' [''exchange'', ''symbol''] = Inl ValueError"
  "global_increment ''sequence_gaps_detected_total'' [''exchange'', ''symbol'', ''gap_size''] = Inl ValueError"
  "global_increment ''out_of_order_messages_total'' [''exchange'', ''symbol''] = Inl ValueError"
  "global_increment ''duplicates_detected_total'' [] = Inl KeyError"
  by code_simp+

text \<open>The three things a check of a known key comes to: advance, count a gap or count a late message, the last two raising.\<close>

lemma check_known_cases:
  "check_known c sequence stamp s =
     (if sequence = sq_last s + 1 then (seq_advance sequence stamp s, Inr SeqOk)
      else if sq_last s + 1 < sequence then
        (case is_session_reset c s sequence stamp of
           Inl e \<Rightarrow> (s, Inl TypeError) | Inr True \<Rightarrow> (s, Inl ValueError) | Inr False \<Rightarrow> (s\<lparr>sq_gaps := sq_gaps s + 1\<rparr>, Inl ValueError))
      else (s\<lparr>sq_out_of_order := sq_out_of_order s + 1\<rparr>, Inl ValueError))"
  by (cases stamp; cases "sq_stamp s") (auto simp: check_known_def is_session_reset_def Let_def split: bool.splits)

lemma check_result: "snd (check_known c sequence stamp s) \<in> {Inr SeqOk, Inl ValueError, Inl TypeError}"
  by (simp add: check_known_cases split: sum.splits bool.splits)

lemma check_sequence_known:
  "t (e, s) = Some q \<Longrightarrow> check_sequence c e s x stamp t = (t((e, s) \<mapsto> fst (check_known c x stamp q)), snd (check_known c x stamp q))"
  by (simp add: check_sequence_def split: prod.splits)

lemma check_sequence_result: "snd (check_sequence c e s x stamp t) \<in> {Inr SeqOk, Inl ValueError, Inl TypeError}"
proof (cases "t (e, s)")
  case None
  then show ?thesis by (simp add: check_sequence_def)
next
  case (Some q)
  then show ?thesis using check_result [of c x stamp q] by (simp only: check_sequence_known snd_conv)
qed

text \<open>
  C37. The tracker never reports anything: whatever the state and the message, the result is \<open>OK\<close> or an exception. A gap, a reset and a
  late message each raise, because the labels given to their counters are not the ones the counters declare, so
  no caller ever sees \<open>SMALL_GAP\<close>, \<open>LARGE_GAP\<close>, \<open>RESET\<close> or \<open>OUT_OF_ORDER\<close>.
\<close>
theorem tracker_reports_nothing:
  "snd (check_sequence c exchange symbol sequence stamp t) \<in> {Inr SeqOk, Inl ValueError, Inl TypeError}"
  by (rule check_sequence_result)

section \<open>The stuck position\<close>

record seq_message =
  sm_exchange :: string
  sm_symbol :: string
  sm_sequence :: int
  sm_stamp :: stamp

fun track :: "tracker_config \<Rightarrow> seq_message list \<Rightarrow> tracker \<Rightarrow> tracker \<times> seq_event res list" where
  "track c [] t = (t, [])"
| "track c (m # ms) t =
     (let (t, r) = check_sequence c (sm_exchange m) (sm_symbol m) (sm_sequence m) (sm_stamp m) t;
          (t, rs) = track c ms t in (t, r # rs))"

text \<open>The sequence numbers of a key, and how far they run on without a break from the first, repeats and late ones apart.\<close>

definition sequences_of :: "string \<times> string \<Rightarrow> seq_message list \<Rightarrow> int list" where
  "sequences_of key ms = map sm_sequence (filter (\<lambda>m. (sm_exchange m, sm_symbol m) = key) ms)"

fun unbroken :: "int \<Rightarrow> int list \<Rightarrow> int" where
  "unbroken from [] = from"
| "unbroken from (x # xs) = unbroken (if x = from + 1 then x else from) xs"

definition position :: "string \<times> string \<Rightarrow> tracker \<Rightarrow> int option" where
  "position key t = map_option sq_last (t key)"

lemma known_last: "sq_last (fst (check_known c x stamp s)) = (if x = sq_last s + 1 then x else sq_last s)"
  by (simp add: check_known_cases seq_advance_def split: sum.splits bool.splits)

lemma known_ok: "snd (check_known c x stamp s) = Inr SeqOk \<longleftrightarrow> x = sq_last s + 1"
  by (simp add: check_known_cases split: sum.splits bool.splits)

lemma check_position:
  "position key (fst (check_sequence c e s x stamp t)) =
     (if key = (e, s) then Some (case position key t of None \<Rightarrow> x | Some l \<Rightarrow> if x = l + 1 then x else l) else position key t)"
proof (cases "t (e, s)")
  case None
  then show ?thesis by (simp add: position_def check_sequence_def)
next
  case (Some q)
  then show ?thesis by (simp add: position_def check_sequence_known known_last)
qed

lemma track_position:
  "position key (fst (track c ms t)) =
     (case position key t of
        Some l \<Rightarrow> Some (unbroken l (sequences_of key ms))
      | None \<Rightarrow> (case sequences_of key ms of [] \<Rightarrow> None | x # xs \<Rightarrow> Some (unbroken x xs)))"
proof (induction ms arbitrary: t)
  case Nil
  then show ?case by (auto simp: sequences_of_def split: option.splits)
next
  case (Cons m ms)
  let ?t = "fst (check_sequence c (sm_exchange m) (sm_symbol m) (sm_sequence m) (sm_stamp m) t)"
  have "fst (track c (m # ms) t) = fst (track c ms ?t)" by (simp add: Let_def split: prod.splits)
  then show ?case unfolding Cons.IH check_position
    by (auto simp: sequences_of_def check_position Cons.IH split: option.splits)
qed

text \<open>
  The position of a symbol is stuck at the first number missing: after any messages of any symbols, the last sequence number of a key
  is the end of the unbroken run from its first message, and nothing that came after the first break is in it, although
  the code means to go on from the message behind the gap.
\<close>
theorem position_stuck_at_gap:
  "position key (fst (track c ms (\<lambda>k. None))) =
    (case sequences_of key ms of [] \<Rightarrow> None | x # xs \<Rightarrow> Some (unbroken x xs))"
  unfolding track_position by (simp add: position_def)

lemma unbroken_stuck: "from + 1 \<notin> set xs \<Longrightarrow> unbroken from xs = from"
  by (induction xs) auto

lemma check_ok_iff: "snd (check_sequence c e s x stamp t) = Inr SeqOk \<longleftrightarrow> (case position (e, s) t of None \<Rightarrow> True | Some l \<Rightarrow> x = l + 1)"
proof (cases "t (e, s)")
  case None
  then show ?thesis by (simp add: position_def check_sequence_def)
next
  case (Some q)
  then show ?thesis by (simp add: position_def check_sequence_known known_ok)
qed

lemma track_Cons:
  "snd (track c (m # ms) t) =
    snd (check_sequence c (sm_exchange m) (sm_symbol m) (sm_sequence m) (sm_stamp m) t) #
    snd (track c ms (fst (check_sequence c (sm_exchange m) (sm_symbol m) (sm_sequence m) (sm_stamp m) t)))"
  by (simp add: Let_def split: prod.splits)

text \<open>
  One lost message silences its symbol for good: from a key whose next number never arrives, every later message of the key raises, even
  when the numbers behind the gap are consecutive.
\<close>
theorem gap_raises_for_good:
  assumes "position (e, s) t = Some l" and "\<forall>m \<in> set ms. sm_exchange m = e \<and> sm_symbol m = s \<and> sm_sequence m \<noteq> l + 1"
  shows "list_all (\<lambda>r. r = Inl ValueError \<or> r = Inl TypeError) (snd (track c ms t)) \<and> length (snd (track c ms t)) = length ms"
  using assms
proof (induction ms arbitrary: t)
  case (Cons m ms)
  let ?r = "check_sequence c e s (sm_sequence m) (sm_stamp m) t"
  have kept: "position (e, s) (fst ?r) = Some l" using Cons.prems check_position [of "(e, s)" c e s "sm_sequence m" "sm_stamp m" t] by simp
  have "snd ?r \<noteq> Inr SeqOk" using Cons.prems by (simp add: check_ok_iff)
  moreover have "snd ?r \<in> {Inr SeqOk, Inl ValueError, Inl TypeError}" by (rule check_sequence_result)
  ultimately have one: "snd ?r = Inl ValueError \<or> snd ?r = Inl TypeError" by blast
  have m: "sm_exchange m = e" "sm_symbol m = s" and rest: "\<forall>m \<in> set ms. sm_exchange m = e \<and> sm_symbol m = s \<and> sm_sequence m \<noteq> l + 1"
    using Cons.prems(2) by simp_all
  have "snd (track c (m # ms) t) = snd ?r # snd (track c ms (fst ?r))" by (simp only: track_Cons m)
  then show ?case using Cons.IH [OF kept rest] one by simp
qed simp

definition demo_message :: "int \<Rightarrow> seq_message" where
  "demo_message n = \<lparr>sm_exchange = ''asx'', sm_symbol = ''BHP'', sm_sequence = n, sm_stamp = Aware n\<rparr>"

theorem gap_raises_for_good_witness:
  "list_all (\<lambda>r. r = Inl ValueError \<or> r = Inl TypeError)
    (snd (track default_tracker [demo_message 7, demo_message 8] (fst (track default_tracker [demo_message 5] (\<lambda>k. None)))))"
proof -
  have "position (''asx'', ''BHP'') (fst (track default_tracker [demo_message 5] (\<lambda>k. None))) = Some 5"
    unfolding track_position by (simp add: position_def sequences_of_def demo_message_def)
  from gap_raises_for_good [OF this, of "[demo_message 7, demo_message 8]"] show ?thesis by (simp add: demo_message_def)
qed

section \<open>Resets\<close>

lemma double_int_le:
  assumes "0 \<le> n"
  shows "double_int n \<le> 2 * n"
proof -
  have "round53 m \<le> 2 * m" for m
  proof (cases "m < 2 ^ 53")
    case True
    then show ?thesis using round53_small by simp
  next
    case False
    let ?s = "bits m - 53"
    have "0 < m" using False by auto
    then have "2 ^ ?s \<le> m" using bits_bound(2) [of m] by (meson diff_le_mono2 le_trans one_le_numeral power_increasing)
    then show ?thesis using half_even_below [of m "2 ^ ?s"] unfolding round53_def Let_def by linarith
  qed
  from this [of "nat n"] show ?thesis using assms by (simp add: double_int_def)
qed

text \<open>
  A session reset cannot be recognised: the test for one is only made when the sequence number jumped forward, and asks whether it
  fell below half the last one. For the non-negative numbers an exchange sends it fails whatever the times are, while the
  restart it looks for, a lower number, is counted as a late message.
\<close>
theorem reset_unreachable:
  assumes "0 \<le> sq_last s" and "sq_last s + 1 < sequence"
  shows "is_session_reset c s sequence stamp \<noteq> Inr True"
  using double_int_le [OF assms(1)] assms by (cases stamp; cases "sq_stamp s") (auto simp: is_session_reset_def)

theorem reset_unreachable_witness:
  "is_session_reset default_tracker \<lparr>sq_last = 100, sq_stamp = Aware 0, sq_total = 1, sq_gaps = 0, sq_out_of_order = 0\<rparr> 102 (Aware 90000000000) \<noteq> Inr True"
  by (rule reset_unreachable) simp_all

section \<open>Repeats\<close>

definition dedup_init :: "int \<Rightarrow> int \<Rightarrow> dedup_cache" where
  "dedup_init window now = \<lparr>dc_seen = [], dc_window = window, dc_last_cleanup = now\<rparr>"

fun dedup_run :: "(int \<times> string) list \<Rightarrow> dedup_cache \<Rightarrow> dedup_cache" where
  "dedup_run [] c = c"
| "dedup_run ((now, k) # ms) c = dedup_run ms (fst (is_duplicate now k c))"

definition cache_ok :: "int \<Rightarrow> int \<Rightarrow> dedup_cache \<Rightarrow> bool" where
  "cache_ok window now c = (dict_ok (dc_seen c) \<and> dc_window c = window \<and> dc_last_cleanup c \<le> now \<and>
     (\<forall>(k, t) \<in> set (dc_seen c). dc_last_cleanup c - window \<le> t))"

lemma cleanup_ok: "cache_ok window before c \<Longrightarrow> before \<le> now \<Longrightarrow> cache_ok window now (dedup_cleanup now c)"
  by (auto simp: cache_ok_def dedup_cleanup_def dict_ok_def intro: distinct_map_filter)

lemma later_ok: "cache_ok window before c \<Longrightarrow> before \<le> now \<Longrightarrow> cache_ok window now c"
  by (auto simp: cache_ok_def)

lemma update_entries: "set (AList.update k v xs) \<subseteq> insert (k, v) (set xs)"
  by (induction xs) auto

lemma insert_ok:
  assumes "cache_ok window now c" and "0 \<le> window"
  shows "cache_ok window now (c\<lparr>dc_seen := AList.update k now (dc_seen c)\<rparr>)"
proof -
  have "set (AList.update k now (dc_seen c)) \<subseteq> insert (k, now) (set (dc_seen c))" by (rule update_entries)
  then show ?thesis using assms by (fastforce simp: cache_ok_def dict_ok_def distinct_update)
qed

lemma is_duplicate_ok:
  assumes "cache_ok window before c" and "before \<le> now" and "0 \<le> window"
  shows "cache_ok window now (fst (is_duplicate now k c))"
  using cleanup_ok [OF assms(1,2)] later_ok [OF assms(1,2)] insert_ok [OF _ assms(3)] by (simp add: is_duplicate_def Let_def)

lemma dedup_run_ok:
  "cache_ok window before c \<Longrightarrow> sorted (before # map fst ms) \<Longrightarrow> 0 \<le> window \<Longrightarrow> cache_ok window (last (before # map fst ms)) (dedup_run ms c)"
proof (induction ms arbitrary: before c)
  case (Cons m ms)
  obtain now k where m: "m = (now, k)" by (cases m)
  have "cache_ok window now (fst (is_duplicate now k c))" using Cons.prems by (intro is_duplicate_ok) (auto simp: m)
  from Cons.IH [OF this] Cons.prems show ?case by (simp add: m)
qed simp

lemma duplicate_result:
  assumes "cache_ok window now c"
  shows "case map_of (dc_seen c) k of None \<Rightarrow> snd (is_duplicate now k c) = Inr False
    | Some t \<Rightarrow> (now - window \<le> t \<longrightarrow> snd (is_duplicate now k c) = Inl KeyError) \<and>
        (t < now - window - CLEANUP_EVERY \<longrightarrow> snd (is_duplicate now k c) = Inr False)"
proof (cases "map_of (dc_seen c) k")
  case None
  then have "k \<notin> set (map fst (dc_seen c))" by (simp add: map_of_eq_None_iff)
  then show ?thesis using None by (auto simp: is_duplicate_def dedup_cleanup_def Let_def)
next
  case (Some t)
  have only: "(k, u) \<in> set (dc_seen c) \<longleftrightarrow> u = t" for u
    using Some assms by (auto simp: cache_ok_def dict_ok_def dest: map_of_SomeD intro: eq_key_imp_eq_value)
  then have "k \<in> set (map fst (dc_seen c))" by force
  moreover have "k \<in> set (map fst (filter (\<lambda>(k, t). \<not> t < now - window) (dc_seen c))) \<longleftrightarrow> now - window \<le> t"
    using only by force
  moreover have "dc_last_cleanup c - window \<le> t" "dc_window c = window" using only assms by (auto simp: cache_ok_def)
  moreover have "0 < CLEANUP_EVERY" by (simp add: CLEANUP_EVERY_def)
  ultimately show ?thesis using Some by (auto simp: is_duplicate_def dedup_cleanup_def Let_def simp del: set_map)
qed

text \<open>
  A repeat is recognised, and then crashes the caller: after any messages, an id held since some time within the window makes
  \<open>is_duplicate\<close> raise \<open>KeyError\<close>, for the name of its counter is not in the registry; an id not held, or held for
  longer than the window and the ten minutes between cleanups, gives \<open>False\<close>.
\<close>
theorem duplicate_raises:
  assumes "sorted (start # map fst ms)" and "last (start # map fst ms) \<le> now" and "0 \<le> window"
  shows "case map_of (dc_seen (dedup_run ms (dedup_init window start))) k of
      None \<Rightarrow> snd (is_duplicate now k (dedup_run ms (dedup_init window start))) = Inr False
    | Some t \<Rightarrow> (now - window \<le> t \<longrightarrow> snd (is_duplicate now k (dedup_run ms (dedup_init window start))) = Inl KeyError) \<and>
        (t < now - window - CLEANUP_EVERY \<longrightarrow> snd (is_duplicate now k (dedup_run ms (dedup_init window start))) = Inr False)"
proof -
  have "cache_ok window start (dedup_init window start)" by (simp add: cache_ok_def dedup_init_def dict_ok_def)
  from later_ok [OF dedup_run_ok [OF this assms(1,3)] assms(2)] show ?thesis by (rule duplicate_result)
qed

theorem duplicate_raises_witness:
  "snd (is_duplicate 5 ''a'' (dedup_run [(1, ''a'')] (dedup_init 10 0))) = Inl KeyError"
  using duplicate_raises [of 0 "[(1, ''a'')]" 5 10 "''a''"]
  by (simp add: is_duplicate_def dedup_init_def CLEANUP_EVERY_def)

end
