(* ===== verification/Consumer.thy ===== *)
theory Consumer
  imports Overload Tracker
begin

text \<open>
  The Kafka-to-Iceberg consumer of the archived v1 tier (\<open>legacy/v1/src/k2/ingestion/consumer.py\<close>): \<open>_consume_batch\<close> with the
  degradation manager, the shedder and the tracker it calls, the retried write, the dead letter queue, the commits, and
  \<open>run\<close> with its shutdown. What \<open>poll\<close> returns, the write attempts and the outcomes of commits and of the queue's writes are
  arguments; when the polls listed are used up, \<open>poll\<close> returns nothing for ever.
\<close>

section \<open>State\<close>

text \<open>A decoded record as far as it is read; a number in \<open>timestamp\<close> is microseconds.\<close>

datatype v1_stamp = StampTime stamp | StampNumber rat | StampOther

record v1_record =
  vr_exchange :: "string option"
  vr_symbol :: "string option"
  vr_sequence :: "int option"
  vr_stamp :: v1_stamp

text \<open>A value that does not decode, one that decodes to nothing, a record.\<close>

datatype v1_value = BadValue | EmptyValue | Value v1_record

text \<open>A message carries its topic, partition and offset, and the reading of the clock should the code need one.\<close>

datatype polled = Silence | EndOfPartition | PollFailed | Message string int int int v1_value

type_synonym positions = "string \<times> int \<Rightarrow> int option"

record v1_consumer =
  vc_consumed :: int
  vc_written :: int
  vc_errors :: int
  vc_gaps :: int
  vc_tracker :: tracker
  vc_manager :: degradation_manager
  vc_shedder :: load_shedder
  vc_position :: positions
  vc_committed :: positions
  vc_table :: "v1_record list"
  vc_dlq :: "v1_record list"

definition v1_init :: v1_consumer where
  "v1_init = \<lparr>vc_consumed = 0, vc_written = 0, vc_errors = 0, vc_gaps = 0, vc_tracker = (\<lambda>k. None), vc_manager = manager_init,
     vc_shedder = shedder_init, vc_position = (\<lambda>k. None), vc_committed = (\<lambda>k. None), vc_table = [], vc_dlq = []\<rparr>"

record v1_config =
  cf_batch_size :: int
  cf_max_messages :: "int option"
  cf_from_timestamp :: "rat \<Rightarrow> stamp res"

definition count_error :: "v1_consumer \<Rightarrow> v1_consumer" where
  "count_error st = st\<lparr>vc_errors := vc_errors st + 1\<rparr>"

section \<open>One message\<close>

definition stamp_of :: "v1_config \<Rightarrow> int \<Rightarrow> v1_stamp \<Rightarrow> stamp res" where
  "stamp_of cf now v =
     (case v of StampNumber us \<Rightarrow> if us \<noteq> 0 then cf_from_timestamp cf us else Inr (Naive now)
      | StampTime s \<Rightarrow> Inr s | StampOther \<Rightarrow> Inr (Naive now))"

definition or_unknown :: "string option \<Rightarrow> string" where
  "or_unknown x = (case x of None \<Rightarrow> ''unknown'' | Some s \<Rightarrow> s)"

definition track_record :: "v1_config \<Rightarrow> int \<Rightarrow> v1_record \<Rightarrow> v1_consumer \<Rightarrow> v1_consumer" where
  "track_record cf now r st =
     (case (vr_symbol r, vr_sequence r) of
        (Some symbol, Some sequence) \<Rightarrow>
          (case stamp_of cf now (vr_stamp r) of Inl _ \<Rightarrow> count_error st
           | Inr stamp \<Rightarrow>
               (let (t, result) = check_sequence default_tracker (or_unknown (vr_exchange r)) symbol sequence stamp (vc_tracker st);
                    st = st\<lparr>vc_tracker := t\<rparr>
                in case result of Inl _ \<Rightarrow> count_error st
                   | Inr event \<Rightarrow> if event \<in> {SmallGap, LargeGap} then st\<lparr>vc_gaps := vc_gaps st + 1\<rparr> else st))
      | _ \<Rightarrow> st)"

definition CONSUMED_LABELS :: "string list" where
  "CONSUMED_LABELS = [''exchange'', ''asset_class'', ''topic'', ''consumer_group'']"

definition shed_record :: "degradation \<Rightarrow> v1_record \<Rightarrow> v1_consumer \<Rightarrow> v1_consumer \<times> bool" where
  "shed_record level r st =
     (if LvGraceful \<le> level then
        (let (s, ok) = should_process (or_unknown (vr_symbol r)) (int (level_value level)) ''trades'' (vc_shedder st)
         in (st\<lparr>vc_shedder := s\<rparr>, ok))
      else (st, True))"

definition handle_value :: "v1_config \<Rightarrow> degradation \<Rightarrow> int \<Rightarrow> v1_value \<Rightarrow> v1_consumer \<Rightarrow> v1_record list \<Rightarrow> v1_consumer \<times> v1_record list" where
  "handle_value cf level now v st batch =
     (case v of BadValue \<Rightarrow> (count_error st, batch) | EmptyValue \<Rightarrow> (st, batch)
      | Value r \<Rightarrow>
          (let st = st\<lparr>vc_consumed := vc_consumed st + 1\<rparr> in
           case component_increment ''kafka_messages_consumed_total'' CONSUMED_LABELS of Inl _ \<Rightarrow> (count_error st, batch)
           | Inr _ \<Rightarrow>
               (let (st, ok) = shed_record level r st in
                if ok then (track_record cf now r st, batch @ [r]) else (st, batch))))"

section \<open>A batch\<close>

text \<open>The polling loop: the batch and the polls left, or \<open>None\<close> when it never ends. It does not look at \<open>running\<close>.\<close>

fun gather :: "v1_config \<Rightarrow> degradation \<Rightarrow> polled list \<Rightarrow> v1_consumer \<Rightarrow> v1_record list \<Rightarrow> (v1_consumer \<times> v1_record list \<times> polled list) option" where
  "gather cf level polls st batch =
     (if int (length batch) \<ge> cf_batch_size cf then Some (st, batch, polls)
      else (case polls of
          [] \<Rightarrow> if batch = [] then None else Some (st, batch, [])
        | Silence # rest \<Rightarrow> if batch = [] then gather cf level rest st batch else Some (st, batch, rest)
        | EndOfPartition # rest \<Rightarrow> if batch = [] then gather cf level rest st batch else Some (st, batch, rest)
        | PollFailed # rest \<Rightarrow> gather cf level rest (count_error st) batch
        | Message topic part offset now v # rest \<Rightarrow>
            (let st = st\<lparr>vc_position := (vc_position st)((topic, part) \<mapsto> offset + 1)\<rparr>;
                 (st, batch) = handle_value cf level now v st batch
             in gather cf level rest st batch)))"

declare gather.simps [simp del]

text \<open>
  How an attempt to write ends: a retryable error (\<open>ConnectionError\<close>, \<open>TimeoutError\<close>, \<open>OSError\<close>), a permanent one
  (\<open>ValueError\<close>, \<open>TypeError\<close>, \<open>KeyError\<close>) or any other. An attempt that fails may have landed all the same.
\<close>

datatype attempt_end = AttemptOk | Retryable | Permanent | Unexpected

type_synonym attempts = "nat \<Rightarrow> bool \<times> attempt_end"

definition WRITE_ATTEMPTS :: nat where "WRITE_ATTEMPTS = 3"

text \<open>How many attempts landed, and how the last of them ended: the decorator reraises it, it does not wrap it.\<close>

fun write_retrying :: "nat \<Rightarrow> attempts \<Rightarrow> nat \<Rightarrow> nat \<times> attempt_end" where
  "write_retrying n attempts i =
     (let (landed, end) = attempts i; copies = (if landed \<or> end = AttemptOk then 1 else 0) in
      if end = Retryable \<and> 1 < n then (let (k, end) = write_retrying (n - 1) attempts (i + 1) in (copies + k, end))
      else (copies, end))"

declare write_retrying.simps [simp del]

record batch_env =
  be_running :: bool
  be_lag :: int
  be_heap :: rat
  be_clock :: check_clock
  be_attempts :: attempts
  be_commit_ok :: bool
  be_dlq_ok :: bool

definition copies_of :: "nat \<Rightarrow> 'a list \<Rightarrow> 'a list" where
  "copies_of k batch = concat (replicate k batch)"

definition commit :: "v1_consumer \<Rightarrow> v1_consumer" where
  "commit st = st\<lparr>vc_committed := vc_position st\<rparr>"

lemma consumer_metrics:
  "component_increment ''kafka_messages_consumed_total'' CONSUMED_LABELS = Inr ()"
  "component_increment ''iceberg_batch_size'' [''exchange'', ''asset_class'', ''table''] = Inr ()"
  "component_increment ''consumer_errors_total'' [''error_type'', ''consumer_group''] = Inr ()"
  by code_simp+

text \<open>
  The write and what follows; the flag says that an exception leaves \<open>_consume_batch\<close>. The metrics recorded here carry the labels
  their declarations name (\<open>consumer_metrics\<close>), so they never raise.
\<close>

definition write_batch :: "batch_env \<Rightarrow> v1_record list \<Rightarrow> v1_consumer \<Rightarrow> v1_consumer \<times> bool" where
  "write_batch env batch st =
     (let (copies, end) = write_retrying WRITE_ATTEMPTS (be_attempts env) 0;
          st = st\<lparr>vc_table := vc_table st @ copies_of copies batch\<rparr>
      in case end of
           AttemptOk \<Rightarrow>
             (let st = st\<lparr>vc_written := vc_written st + int (length batch)\<rparr>
              in if be_commit_ok env then (commit st, False) else (count_error st, True))
         | Permanent \<Rightarrow>
             (if \<not> be_dlq_ok env then (st, True)
              else (let st = count_error (st\<lparr>vc_dlq := vc_dlq st @ batch\<rparr>)
                    in if be_commit_ok env then (commit st, False) else (st, True)))
         | _ \<Rightarrow> (count_error st, True))"

definition consume_batch :: "v1_config \<Rightarrow> batch_env \<Rightarrow> polled list \<Rightarrow> v1_consumer \<Rightarrow> (v1_consumer \<times> bool \<times> polled list) option" where
  "consume_batch cf env polls st =
     (let st = st\<lparr>vc_manager := check_and_degrade default_thresholds (be_lag env) (be_heap env) (be_clock env) (vc_manager st)\<rparr>
      in case gather cf (dm_level (vc_manager st)) polls st [] of None \<Rightarrow> None
         | Some (st, batch, rest) \<Rightarrow>
             if batch = [] then Some (st, False, rest)
             else (let (st, raised) = write_batch env batch st in Some (st, raised, rest)))"

section \<open>The run\<close>

text \<open>How far a run got: still going, ended by \<open>running\<close> or the message limit, ended by an exception, or in a batch that never ends.\<close>

datatype run_end = Going | Stopped | Crashed | Spinning

fun run_batches :: "v1_config \<Rightarrow> batch_env list \<Rightarrow> polled list \<Rightarrow> v1_consumer \<Rightarrow> v1_consumer \<times> run_end" where
  "run_batches cf [] polls st = (st, Going)"
| "run_batches cf (env # envs) polls st =
     (if \<not> be_running env then (st, Stopped)
      else if (case cf_max_messages cf of None \<Rightarrow> False | Some n \<Rightarrow> n \<noteq> 0 \<and> vc_consumed st \<ge> n) then (st, Stopped)
      else (case consume_batch cf env polls st of None \<Rightarrow> (st, Spinning)
            | Some (st, raised, rest) \<Rightarrow> if raised then (st, Crashed) else run_batches cf envs rest st))"

text \<open>\<open>_shutdown\<close> commits what was polled, and runs however the loop ended; a failed commit is only logged.\<close>

definition v1_shutdown :: "bool \<Rightarrow> v1_consumer \<Rightarrow> v1_consumer" where
  "v1_shutdown commit_ok st = (if commit_ok then commit st else st)"

definition v1_run :: "v1_config \<Rightarrow> batch_env list \<Rightarrow> polled list \<Rightarrow> bool \<Rightarrow> v1_consumer \<Rightarrow> v1_consumer \<times> run_end" where
  "v1_run cf envs polls commit_ok st =
     (let (st, end) = run_batches cf envs polls st in
      (if end \<in> {Stopped, Crashed} then v1_shutdown commit_ok st else st, end))"

section \<open>Accounting\<close>

text \<open>Every record consumed is written, in the dead letter queue or shed.\<close>

definition accounted :: "int \<Rightarrow> v1_consumer \<Rightarrow> bool" where
  "accounted in_batch st = (vc_consumed st = vc_written st + int (length (vc_dlq st)) + ls_shed (vc_shedder st) + in_batch \<and>
     vc_gaps st = 0 \<and> vc_written st \<le> int (length (vc_table st)))"

lemma count_error_accounted [simp]: "accounted n (count_error st) = accounted n st"
  by (simp add: accounted_def count_error_def)

lemma track_record_accounted [simp]: "accounted n (track_record cf now r st) = accounted n st"
proof -
  have "check_sequence c e s x stamp t \<noteq> (t', Inr SmallGap)" "check_sequence c e s x stamp t \<noteq> (t', Inr LargeGap)" for c e s x stamp t t'
    using check_sequence_result [of c e s x stamp t] by auto
  then show ?thesis
    by (simp add: track_record_def Let_def split: option.splits sum.splits prod.splits)
      (auto simp: accounted_def count_error_def)
qed

lemma shed_record_accounted:
  "shed_record level r st = (st', ok) \<Longrightarrow> accounted (1 + n) st \<Longrightarrow> accounted (if ok then 1 + n else n) st'"
  by (cases level) (auto simp: shed_record_def should_process_def record_shed_def accounted_def Let_def split: if_splits)

lemma handle_value_accounted:
  assumes "handle_value cf level now v st batch = (st', batch')" and "accounted (int (length batch)) st"
  shows "accounted (int (length batch')) st'"
proof (cases v)
  case (Value r)
  let ?st = "st\<lparr>vc_consumed := vc_consumed st + 1\<rparr>"
  obtain st1 ok where s: "shed_record level r ?st = (st1, ok)" by (cases "shed_record level r ?st")
  have "accounted (1 + int (length batch)) ?st" using assms(2) by (simp add: accounted_def)
  from shed_record_accounted [OF s this] show ?thesis
    using assms(1) by (auto simp: handle_value_def Value s consumer_metrics Let_def split: if_splits)
qed (use assms in \<open>auto simp: handle_value_def\<close>)

lemma gather_accounted:
  "gather cf level polls st batch = Some (st', batch', rest) \<Longrightarrow> accounted (int (length batch)) st \<Longrightarrow> accounted (int (length batch')) st'"
proof (induction polls arbitrary: st batch)
  case Nil
  then show ?case by (subst (asm) gather.simps) (auto split: if_splits)
next
  case (Cons p polls)
  show ?case
  proof (cases "cf_batch_size cf \<le> int (length batch)")
    case True
    then show ?thesis using Cons.prems by (subst (asm) gather.simps) simp
  next
    case False
    show ?thesis
    proof (cases p)
      case Silence
      then show ?thesis using Cons.IH [of st batch] Cons.prems False
        by (cases "batch = []") (simp_all add: gather.simps [of cf level "_ # _"])
    next
      case EndOfPartition
      then show ?thesis using Cons.IH [of st batch] Cons.prems False
        by (cases "batch = []") (simp_all add: gather.simps [of cf level "_ # _"])
    next
      case PollFailed
      then show ?thesis using Cons.IH [of "count_error st" batch] Cons.prems False
        by (simp add: gather.simps [of cf level "_ # _"])
    next
      case (Message topic part offset now v)
      let ?st = "st\<lparr>vc_position := (vc_position st)((topic, part) \<mapsto> offset + 1)\<rparr>"
      obtain st1 batch1 where h: "handle_value cf level now v ?st batch = (st1, batch1)" by (cases "handle_value cf level now v ?st batch")
      have "accounted (int (length batch)) ?st" using Cons.prems(2) by (simp add: accounted_def)
      from handle_value_accounted [OF h this] show ?thesis
        using Cons.IH [of st1 batch1] Cons.prems(1) False h by (simp add: gather.simps [of cf level "_ # _"] Message)
    qed
  qed
qed

lemma write_batch_accounted:
  assumes "write_batch env batch st = (st', False)" and "accounted (int (length batch)) st"
  shows "accounted 0 st'"
proof -
  obtain k e where w: "write_retrying WRITE_ATTEMPTS (be_attempts env) 0 = (k, e)" by (cases "write_retrying WRITE_ATTEMPTS (be_attempts env) 0")
  have "e = AttemptOk \<Longrightarrow> 1 \<le> k"
  proof -
    have "write_retrying n a i = (k, AttemptOk) \<Longrightarrow> 1 \<le> k" for n a i
      by (induction n a i arbitrary: k rule: write_retrying.induct) (subst (asm) write_retrying.simps, auto simp: Let_def split: prod.splits if_splits)
    then show "e = AttemptOk \<Longrightarrow> 1 \<le> k" using w by simp
  qed
  then have "e = AttemptOk \<Longrightarrow> length batch \<le> length (copies_of k batch)"
    by (simp add: copies_of_def length_concat sum_list_replicate)
  then show ?thesis using assms w
    by (cases e) (auto simp: write_batch_def accounted_def commit_def count_error_def Let_def split: if_splits)
qed

lemma consume_batch_accounted:
  assumes "consume_batch cf env polls st = Some (st', False, rest)" and "accounted 0 st"
  shows "accounted 0 st'"
proof -
  let ?st = "st\<lparr>vc_manager := check_and_degrade default_thresholds (be_lag env) (be_heap env) (be_clock env) (vc_manager st)\<rparr>"
  have ok: "accounted (int (length [])) ?st" using assms(2) by (simp add: accounted_def)
  obtain st1 batch rest1 where g: "gather cf (dm_level (vc_manager ?st)) polls ?st [] = Some (st1, batch, rest1)"
    using assms(1) by (auto simp: consume_batch_def Let_def split: option.splits)
  have one: "accounted (int (length batch)) st1" by (rule gather_accounted [OF g ok])
  show ?thesis
  proof (cases "batch = []")
    case True
    then show ?thesis using assms(1) g one by (simp add: consume_batch_def Let_def)
  next
    case False
    then have "write_batch env batch st1 = (st', False)" using assms(1) g by (simp add: consume_batch_def Let_def split: prod.splits)
    then show ?thesis using one by (rule write_batch_accounted)
  qed
qed

lemma run_accounted:
  "run_batches cf envs polls st = (st', how) \<Longrightarrow> how \<noteq> Crashed \<Longrightarrow> accounted 0 st \<Longrightarrow> accounted 0 st'"
proof (induction cf envs polls st rule: run_batches.induct)
  case (2 cf env envs polls st)
  then show ?case
    by (auto split: if_splits option.splits prod.splits dest: consume_batch_accounted)
qed simp


section \<open>Crashes\<close>

definition lost :: "attempts \<Rightarrow> bool" where
  "lost attempts = (\<forall>i < WRITE_ATTEMPTS. attempts i = (False, Retryable))"

lemma lost_write: "lost attempts \<Longrightarrow> write_retrying WRITE_ATTEMPTS attempts 0 = (0, Retryable)"
  by (simp add: lost_def WRITE_ATTEMPTS_def write_retrying.simps numeral_eq_Suc)

text \<open>
  C34. A batch that could not be written is skipped after the restart: when the attempts of a batch all fail the run ends in an exception, the
  batch is neither in the table nor in the dead letter queue, and yet the shutdown commits the positions of every
  message polled, the lost ones included, where the code says that they will be processed again.
\<close>
theorem failed_batch_committed:
  assumes "be_running env" and "cf_max_messages cf = None" and "lost (be_attempts env)"
    and "gather cf (dm_level (vc_manager st0)) polls st0 [] = Some (st1, r # batch, rest)"
    and "st0 = st\<lparr>vc_manager := check_and_degrade default_thresholds (be_lag env) (be_heap env) (be_clock env) (vc_manager st)\<rparr>"
  shows "\<exists>st'. v1_run cf (env # envs) polls True st = (st', Crashed) \<and>
    vc_table st' = vc_table st1 \<and> vc_dlq st' = vc_dlq st1 \<and> vc_committed st' = vc_position st1"
proof -
  have "consume_batch cf env polls st = Some (count_error st1, True, rest)"
    using assms(3,4) lost_write [OF assms(3)]
    by (simp add: consume_batch_def assms(5) [symmetric] Let_def write_batch_def copies_of_def)
  then show ?thesis using assms(1,2)
    by (simp add: v1_run_def v1_shutdown_def commit_def count_error_def)
qed

definition demo_config :: v1_config where
  "demo_config = \<lparr>cf_batch_size = 1, cf_max_messages = None, cf_from_timestamp = (\<lambda>us. Inr (Naive 0))\<rparr>"

definition demo_record :: v1_record where
  "demo_record = \<lparr>vr_exchange = Some ''asx'', vr_symbol = Some ''BHP'', vr_sequence = Some 1, vr_stamp = StampOther\<rparr>"

definition demo_batch_env :: "attempts \<Rightarrow> batch_env" where
  "demo_batch_env attempts = \<lparr>be_running = True, be_lag = 0, be_heap = 0, be_clock = \<lparr>ck_now = 0, ck_at = 0, ck_logged = 0\<rparr>,
     be_attempts = attempts, be_commit_ok = True, be_dlq_ok = True\<rparr>"

lemma demo_level: "check_and_degrade default_thresholds 0 0 \<lparr>ck_now = 0, ck_at = 0, ck_logged = 0\<rparr> manager_init = manager_init"
  by (simp add: check_and_degrade_def calculate_level_def default_thresholds_def manager_init_def)

lemma demo_gather:
  "gather demo_config (dm_level (vc_manager v1_init)) [Message ''t'' 0 41 0 (Value demo_record)] v1_init [] =
    Some (track_record demo_config 0 demo_record (v1_init\<lparr>vc_position := [(''t'', 0) \<mapsto> 42], vc_consumed := 1\<rparr>), [demo_record], [])"
  by (simp add: gather.simps handle_value_def consumer_metrics Let_def shed_record_def)
    (simp add: v1_init_def manager_init_def level_order demo_config_def gather.simps)

theorem failed_batch_committed_witness:
  "\<exists>st'. v1_run demo_config [demo_batch_env (\<lambda>i. (False, Retryable))] [Message ''t'' 0 41 0 (Value demo_record)] True v1_init = (st', Crashed) \<and>
    vc_table st' = [] \<and> vc_dlq st' = [] \<and> vc_committed st' = [(''t'', 0) \<mapsto> 42]"
proof -
  have same: "v1_init = v1_init\<lparr>vc_manager := check_and_degrade default_thresholds (be_lag (demo_batch_env a)) (be_heap (demo_batch_env a))
      (be_clock (demo_batch_env a)) (vc_manager v1_init)\<rparr>" for a
    by (simp add: demo_batch_env_def demo_level v1_init_def)
  have "lost (be_attempts (demo_batch_env (\<lambda>i. (False, Retryable))))" by (simp add: lost_def demo_batch_env_def)
  from failed_batch_committed [OF _ _ this demo_gather same, of "[]"] show ?thesis
    by (simp add: demo_batch_env_def demo_config_def track_record_def demo_record_def stamp_of_def check_sequence_def v1_init_def)
qed


section \<open>Silence\<close>

text \<open>A poll that brings no record: nothing, an error, or a value that does not decode.\<close>

fun no_record :: "polled \<Rightarrow> bool" where
  "no_record (Message topic part offset now (Value r)) = False"
| "no_record p = True"

lemma gather_spins: "list_all no_record polls \<Longrightarrow> 0 < cf_batch_size cf \<Longrightarrow> gather cf level polls st [] = None"
proof (induction polls arbitrary: st)
  case Nil
  then show ?case by (simp add: gather.simps)
next
  case (Cons p polls)
  then show ?case
    by (cases p rule: no_record.cases) (simp_all add: gather.simps [of cf level "_ # _"] handle_value_def Let_def)
qed



end
