(* ===== verification/DeadLetters.thy ===== *)
theory DeadLetters
  imports K2_Prelude
begin

text \<open>
  The dead letter queue of the archived v1 tier (\<open>legacy/v1/src/k2/ingestion/dead_letter_queue.py\<close>): the choice of the current file,
  its rotation by size, and the append. The text of an entry, which \<open>json.dumps\<close> makes of the message and the error, is
  an argument, and so is the size of a text in UTF-8; a file is the list of its lines.
\<close>

section \<open>Operations\<close>

record dlq =
  dq_max_bytes :: int
  dq_rotate :: bool
  dq_file :: "string option"
  dq_size :: int

definition dlq_init :: "int \<Rightarrow> bool \<Rightarrow> dlq" where
  "dlq_init max_size_mb rotating = \<lparr>dq_max_bytes = max_size_mb * 1024 * 1024, dq_rotate = rotating, dq_file = None, dq_size = 0\<rparr>"

text \<open>\<open>dlq_%Y%m%d_%H%M%S.jsonl\<close>: the stamp is the second of the write, as its fourteen digits.\<close>

definition dlq_name :: "string \<Rightarrow> string" where
  "dlq_name stamp = ''dlq_'' @ stamp @ ''.jsonl''"

definition get_or_create_file :: "string \<Rightarrow> dlq \<Rightarrow> dlq \<times> string" where
  "get_or_create_file stamp q =
     (let q = (if dq_rotate q \<and> dq_file q \<noteq> None \<and> dq_size q \<ge> dq_max_bytes q then q\<lparr>dq_file := None, dq_size := 0\<rparr> else q)
      in case dq_file q of Some f \<Rightarrow> (q, f)
         | None \<Rightarrow> (q\<lparr>dq_file := Some (dlq_name stamp), dq_size := 0\<rparr>, dlq_name stamp))"

type_synonym dlq_files = "(string \<times> string list) list"

definition append_line :: "string \<Rightarrow> string \<Rightarrow> dlq_files \<Rightarrow> dlq_files" where
  "append_line f line files = AList.update f (dget files f [] @ [line]) files"

fun append_entries :: "(string \<Rightarrow> nat) \<Rightarrow> string \<Rightarrow> string list \<Rightarrow> dlq \<Rightarrow> dlq_files \<Rightarrow> dlq \<times> dlq_files" where
  "append_entries bytes f [] q files = (q, files)"
| "append_entries bytes f (line # lines) q files =
     append_entries bytes f lines (q\<lparr>dq_size := dq_size q + int (bytes line)\<rparr>) (append_line f line files)"

text \<open>\<open>write\<close>: \<open>open(..., "a")\<close> creates the file even for no messages.\<close>

definition dlq_write :: "(string \<Rightarrow> nat) \<Rightarrow> ('m \<Rightarrow> string) \<Rightarrow> string \<Rightarrow> 'm list \<Rightarrow> dlq \<Rightarrow> dlq_files \<Rightarrow> dlq \<times> dlq_files" where
  "dlq_write bytes entry stamp messages q files =
     (let (q, f) = get_or_create_file stamp q
      in append_entries bytes f (map entry messages) q (AList.update f (dget files f []) files))"

fun dlq_writes :: "(string \<Rightarrow> nat) \<Rightarrow> ('m \<Rightarrow> string) \<Rightarrow> (string \<times> 'm list) list \<Rightarrow> dlq \<Rightarrow> dlq_files \<Rightarrow> dlq \<times> dlq_files" where
  "dlq_writes bytes entry [] q files = (q, files)"
| "dlq_writes bytes entry ((stamp, messages) # ws) q files =
     (let (q, files) = dlq_write bytes entry stamp messages q files in dlq_writes bytes entry ws q files)"

section \<open>Nothing written is lost\<close>

definition all_lines :: "dlq_files \<Rightarrow> string multiset" where
  "all_lines files = sum_list (map (\<lambda>(f, ls). mset ls) files)"

lemma all_lines_update:
  "dict_ok files \<Longrightarrow> all_lines (AList.update f ls files) + mset (dget files f []) = all_lines files + mset ls"
proof (induction files)
  case (Cons p files)
  then show ?case by (cases p) (auto simp: all_lines_def dict_ok_def dget_def ac_simps split: option.splits)
qed (simp add: all_lines_def)

lemma append_line_all: "dict_ok files \<Longrightarrow> all_lines (append_line f line files) = add_mset line (all_lines files)"
  using all_lines_update [of files f "dget files f [] @ [line]"] by (simp add: append_line_def)

lemma append_line_ok: "dict_ok files \<Longrightarrow> dict_ok (append_line f line files)"
  by (simp add: append_line_def)

lemma append_entries_all:
  "dict_ok files \<Longrightarrow> append_entries bytes f lines q files = (q', files') \<Longrightarrow>
    dict_ok files' \<and> all_lines files' = all_lines files + mset lines \<and> dq_file q' = dq_file q \<and>
    dq_size q' = dq_size q + int (sum_list (map bytes lines)) \<and> dq_max_bytes q' = dq_max_bytes q \<and> dq_rotate q' = dq_rotate q"
proof (induction lines arbitrary: q files)
  case (Cons l lines)
  then show ?case using append_line_all [of files f l] append_line_ok [of files f l] by fastforce
qed simp

lemma write_all:
  assumes "dict_ok files" and "dlq_write bytes entry stamp messages q files = (q', files')"
  shows "dict_ok files' \<and> all_lines files' = all_lines files + mset (map entry messages)"
proof -
  obtain q1 f where g: "get_or_create_file stamp q = (q1, f)" by (cases "get_or_create_file stamp q")
  have "all_lines (AList.update f (dget files f []) files) = all_lines files" using all_lines_update [OF assms(1), of f "dget files f []"] by simp
  then show ?thesis
    using append_entries_all [of "AList.update f (dget files f []) files"] assms by (simp add: dlq_write_def g)
qed

text \<open>
  The dead letter queue keeps every message: after any writes, rotations and collisions of file names included, the lines of its files are
  the entries of the messages written, each as often as it was written.
\<close>
theorem dead_letters_kept:
  assumes "dlq_writes bytes entry ws (dlq_init mb rotating) [] = (q, files)"
  shows "all_lines files = mset (map entry (concat (map snd ws)))"
proof -
  have "all_lines files = all_lines files0 + mset (map entry (concat (map snd ws)))"
    if "dlq_writes bytes entry ws q0 files0 = (q, files)" "dict_ok files0" for q0 files0
    using that
  proof (induction ws arbitrary: q0 files0)
    case (Cons w ws)
    obtain stamp messages where w: "w = (stamp, messages)" by (cases w)
    obtain q1 files1 where d: "dlq_write bytes entry stamp messages q0 files0 = (q1, files1)" by (cases "dlq_write bytes entry stamp messages q0 files0")
    from write_all [OF Cons.prems(2) d] Cons.IH [of q1 files1] Cons.prems(1) show ?case by (simp add: w d)
  qed simp
  from this [OF assms] show ?thesis by (simp add: all_lines_def)
qed

theorem dead_letters_kept_witness:
  "all_lines (snd (dlq_writes length id [(''20240115_103045'', [''a'', ''b''])] (dlq_init 0 True) [])) = {#''a'', ''b''#}"
  using dead_letters_kept [of length id "[(''20240115_103045'', [''a'', ''b''])]" 0 True
      "fst (dlq_writes length id [(''20240115_103045'', [''a'', ''b''])] (dlq_init 0 True) [])"
      "snd (dlq_writes length id [(''20240115_103045'', [''a'', ''b''])] (dlq_init 0 True) [])"]
  by simp

section \<open>Rotation\<close>

text \<open>
  Rotation can rotate to the file it leaves: names have the resolution of a second, so a full file replaced within the second of its
  creation is opened again with its size counted from nothing, and grows past the limit.
\<close>
theorem rotation_same_second:
  "let (q, files) = dlq_writes length id [(stamp, [''xx'']), (stamp, [''yy''])] \<lparr>dq_max_bytes = 2, dq_rotate = True, dq_file = None, dq_size = 0\<rparr> []
   in files = [(dlq_name stamp, [''xx'', ''yy''])] \<and> dq_size q = 2"
  by (simp add: dlq_write_def get_or_create_file_def append_line_def dget_def Let_def)

end
