(* ===== verification/Spec2Isabelle.thy ===== *)
theory Spec2Isabelle
  imports K2_Prelude Book Wire Json Offsets Iceberg Lock Ingest Layer Bronze Scd2 Instruments Silver Bars Gold Replay Books Metrics Audits AuditFacts Maintenance Slices Ddl Rebuild Pipeline TierParity ParityRun Gates Breaker Overload Tracker Consumer DeadLetters
begin

text \<open>
  A model of the K2 market data platform's Python code, with the theorems that make it correct.

  The program. Capture processes (Rust, not modelled) put every WebSocket frame of three venues on Kafka. Every five minutes
  \<open>docker/lake/ingest.py\<close> archives a bounded range of offsets in \<open>raw.messages\<close> and derives four layers from it, each
  by the same step: read the rows between the snapshot named in the last commit and the current one, transform them,
  append them with the new position in the same commit. \<open>bronze.py\<close> decodes one table per venue and stream, \<open>silver.py\<close> types
  and flags trades, \<open>gold.py\<close> gathers them and computes candles, event bars (\<open>bars.py\<close>) and dimensions (\<open>scd2.py\<close>),
  \<open>books.py\<close> replays order books (\<open>book.py\<close>). The state is in the tables and in the summaries of their snapshots
  (\<open>offsets.py\<close>, \<open>catalog.py\<close>): positions, committed Kafka offsets, counts that the exporter \<open>metrics.py\<close> turns into
  gauges. \<open>maintenance.py\<close> compacts, expires and audits the lake at night, \<open>rebuild.py\<close> drops a layer and derives it
  again, \<open>apply_ddl.py\<close> creates it. A file lock (\<open>lock.py\<close>) keeps the writers apart. Gates under \<open>scripts\<close> compare
  independent computations before a release. The archived v1 tier (\<open>legacy/v1\<close>) consumed Kafka with a consumer of its own.

  Conventions (\<open>K2_Prelude\<close>). A dictionary is an association list with distinct keys, Python's integers are \<open>int\<close>, an exception is the
  left of a sum, a table is the list of its snapshots with the rows each added. Operations are functions of an explicit state
  and return it beside their result, also when they raise, so that what a crash leaves is a value. What other programs
  do is an argument: what Kafka holds, what the registry, the catalog, \<open>from_json\<close> and the Avro readers answer, ids and times of
  commits, how many commits land before a process dies. A claim about runs quantifies over all of these.

  Theories and files.
  \<^item> \<open>Wire\<close>: \<open>wire.py\<close>, frames as words; the SQL guards and the driver's parser agree.
  \<^item> \<open>Json\<close>, \<open>Offsets\<close>: \<open>offsets.py\<close>, printing and reading offset maps, the bounded range, evictions, gaps; round trips,
    bounds, and that repeated runs reach the end of the log. \<open>Offsets\<close> has the locale \<open>job_log\<close>: the newest summary of a job
    does not depend on the order of the log and survives commits of other jobs; it is interpreted here and in \<open>Metrics\<close>.
  \<^item> \<open>Iceberg\<close>: \<open>catalog.py\<close>; \<open>Lock\<close>: \<open>lock.py\<close>, writers as a step relation with at most one of them writing.
  \<^item> \<open>Ingest\<close>: stage 1 of \<open>ingest.py\<close> and its data-loss repair; every committed offset is archived once or in a recorded gap, in every
    reachable lake, crashes after a commit included.
  \<^item> \<open>Layer\<close>: the incremental step as the locale \<open>incremental_layer\<close>: a table is the image of its upstream up to the snapshot it
    names. \<open>Bronze\<close>, \<open>Silver\<close>, \<open>Gold\<close> and \<open>Books\<close> interpret it for their own transformations.
  \<^item> \<open>Scd2\<close>: the diff of a dimension and the two commits of a merge; the versions of a key tile time. \<open>Instruments\<close>: the symbol registry.
  \<^item> \<open>Silver\<close>: typing, replay flags and missing counts; \<open>Bars\<close>: the window query against the sequential reference; \<open>Gold\<close>: projection,
    candles, bars, dimensions and what a crash leaves stale.
  \<^item> \<open>Book\<close>: fixed point, checksum and levels, with the locale \<open>price_side\<close> for the two sides; \<open>Replay\<close>: \<open>books.replay_partition\<close>,
    that replaying in ticks through the saved state is one replay; \<open>Books\<close>: typing, sampling and the stage.
  \<^item> \<open>Audits\<close>, \<open>AuditFacts\<close>, \<open>Maintenance\<close>: \<open>maintenance.py\<close>, what each audit decides of the lakes the pipeline can reach, and the
    exit status, floors and gauge of a run. \<open>Metrics\<close>: \<open>metrics.py\<close>.
  \<^item> \<open>Slices\<close>, \<open>Rebuild\<close>, \<open>Ddl\<close>: day slices, \<open>rebuild.py\<close> and \<open>apply_ddl.py\<close>; a rebuild ends in step, and which interruptions and
    partial rebuilds lose data.
  \<^item> \<open>Pipeline\<close>: \<open>ingest.main\<close> over one lake; the layers stay in step through any runs and rewrites, and a run that exits 0 has caught up.
  \<^item> \<open>TierParity\<close>, \<open>ParityRun\<close>: \<open>scripts/parity/compare_trades.py\<close>, decimals and the 0.1% tolerance in double precision included; what a
    PASS and exit status 0 are evidence of.
  \<^item> \<open>Gates\<close>: \<open>parity_ohlcv.py\<close>, \<open>parity_bars.py\<close> and \<open>replay_export.py\<close>.
  \<^item> \<open>Breaker\<close>, \<open>Overload\<close>, \<open>Tracker\<close>, \<open>DeadLetters\<close>, \<open>Consumer\<close>: the state machines of the v1 tier under \<open>legacy/v1/src/k2\<close>, namely
    \<open>common/circuit_breaker.py\<close>, \<open>common/degradation_manager.py\<close> with \<open>load_shedder.py\<close>, \<open>ingestion/sequence_tracker.py\<close> with the label
    check of \<open>common/metrics.py\<close>, \<open>ingestion/dead_letter_queue.py\<close>, and \<open>ingestion/consumer.py\<close>, which runs the manager, the
    shedder and the tracker; which errors each hides is proved beside what each keeps.

  Bounds and fuel. Loops recurse on data or have a measure: the flush of seconds on the distance to the boundary, a drop on its attempts left
  (the ten of the code), a write on its three attempts, a read on the polls, after which polling is silent for ever; a
  loop that then never ends is \<open>None\<close> (\<open>gather\<close>). Spark runs with ANSI mode off, so BIGINT products wrap at 64 bits and
  a failed cast is \<open>NULL\<close>; doubles are rationals rounded to 53 bits. Character classes are those of ASCII.

  Not modelled. Spark, Iceberg, Kafka, the registry and Prometheus themselves; connections, SQL as text, argument parsing, log lines, printed
  tables, the HTTP server of the exporter; \<open>spark_conf.py\<close> (settings), \<open>flows\<close> (a schedule around the scripts),
  \<open>record_check.py\<close>, the notebook helpers and fixture generators; of the v1 tier also the API, the
  query engine, the exchange clients, the producer, the storage writer, the Spark jobs, the notebooks and the scripts, which are
  calls into web, event-loop, DuckDB, PyIceberg and Spark libraries; the Rust capture, SQL and configuration files.
\<close>

end
